(* ===== verification/Prelude.thy ===== *)
theory Prelude
  imports Main "HOL-Library.Word" "HOL-Library.Monad_Syntax" "HOL-Library.Multiset"
begin

text \<open>
  Shared vocabulary of the development.

  Pointers are 64-bit words and the null pointer is 0. A heap maps addresses to the objects that
  live there; reading through null or through an address that holds no object has no defined
  result, which is \<open>None\<close>. The same \<open>None\<close> stands for a failed \<open>MZX_CHECK\<close>
  (include/mzx/logger.h), whose default fatal handler aborts the process: in both cases the call
  does not return to its caller.
\<close>

unbundle bit_operations_syntax

type_synonym addr = "64 word"

named_theorems exec_simps \<open>unfolding rules for running the model on a heap\<close>
named_theorems frame_simps \<open>what an update leaves alone\<close>

definition deref :: "(addr \<rightharpoonup> 'n) \<Rightarrow> addr \<Rightarrow> 'n option" where
  "deref h p = (if p = 0 then None else h p)"

definition check :: "bool \<Rightarrow> unit option" where
  "check b = (if b then Some () else None)"

lemma deref_null [simp]: "deref h 0 = None"
  by (simp add: deref_def)

lemma deref_eq [simp]: "p \<noteq> 0 \<Longrightarrow> deref h p = h p"
  by (simp add: deref_def)

lemma check_True [simp]: "check True = Some ()"
  by (simp add: check_def)

lemma check_False [simp]: "check False = None"
  by (simp add: check_def)

lemma check_Some [simp]: "check b = Some u \<longleftrightarrow> b"
  by (simp add: check_def)

lemma deref_Some_nonnull: "deref h p = Some n \<Longrightarrow> p \<noteq> 0"
  by (auto simp: deref_def)

lemma deref_upd [frame_simps]: "p \<noteq> q \<Longrightarrow> deref (h(q := v)) p = deref h p"
  by (simp add: deref_def)


section \<open>What a call returns\<close>

text \<open>
  \<open>returns m Q\<close>: the call \<open>m\<close> returns (it neither faults nor runs for ever) and its
  result satisfies \<open>Q\<close>. The rules below push \<open>Q\<close> backwards through a program.
\<close>

definition returns :: "'a option \<Rightarrow> ('a \<Rightarrow> bool) \<Rightarrow> bool" where
  "returns m Q \<longleftrightarrow> (\<exists>x. m = Some x \<and> Q x)"

lemma returns_Some [exec_simps]: "returns (Some x) Q \<longleftrightarrow> Q x"
  by (simp add: returns_def)

lemma returns_None [exec_simps]: "\<not> returns None Q"
  by (simp add: returns_def)

lemma returns_bind [exec_simps]: "returns (Option.bind m f) Q \<longleftrightarrow> returns m (\<lambda>x. returns (f x) Q)"
  by (cases m) (auto simp: returns_def)

lemma returns_map [exec_simps]: "returns (map_option f m) Q \<longleftrightarrow> returns m (\<lambda>x. Q (f x))"
  by (cases m) (auto simp: returns_def)

lemma returns_check [exec_simps]: "returns (check b) Q \<longleftrightarrow> b \<and> Q ()"
  by (simp add: returns_def check_def)

lemma returns_mono: "returns m P \<Longrightarrow> (\<And>x. m = Some x \<Longrightarrow> P x \<Longrightarrow> Q x) \<Longrightarrow> returns m Q"
  by (auto simp: returns_def)

lemma returnsI: "m = Some x \<Longrightarrow> Q x \<Longrightarrow> returns m Q"
  by (simp add: returns_def)

lemma returnsE: "returns m Q \<Longrightarrow> (\<And>x. m = Some x \<Longrightarrow> Q x \<Longrightarrow> R) \<Longrightarrow> R"
  by (auto simp: returns_def)

section \<open>Loops over a range of indices\<close>

text \<open>A counted loop is a fold over its index range; this is its invariant rule.\<close>

lemma fold_upt_invariant:
  assumes "P a x" "a \<le> b" "\<And>i x. a \<le> i \<Longrightarrow> i < b \<Longrightarrow> P i x \<Longrightarrow> P (Suc i) (f i x)"
  shows "P b (fold f [a..<b] x)"
  using assms
proof (induction b)
  case 0
  then show ?case by simp
next
  case (Suc b)
  show ?case
  proof (cases "a = Suc b")
    case False
    then have "P b (fold f [a..<b] x)" using Suc by simp
    with False Suc.prems show ?thesis by simp
  qed (use Suc.prems in simp)
qed

lemma fold_rev_upt_invariant:
  assumes "P b x" "a \<le> b" "\<And>i x. a \<le> i \<Longrightarrow> i < b \<Longrightarrow> P (Suc i) x \<Longrightarrow> P i (f i x)"
  shows "P a (fold f (rev [a..<b]) x)"
  using assms
proof (induction b arbitrary: x)
  case (Suc b)
  show ?case
  proof (cases "a = Suc b")
    case False
    then have "P a (fold f (rev [a..<b]) (f b x))" using Suc by simp
    with False Suc.prems show ?thesis by simp
  qed (use Suc.prems in simp)
qed simp

definition iter_swap :: "'a list \<Rightarrow> nat \<Rightarrow> nat \<Rightarrow> 'a list" where
  "iter_swap xs i j = xs[i := xs ! j, j := xs ! i]"

lemma length_iter_swap [simp]: "length (iter_swap xs i j) = length xs"
  by (simp add: iter_swap_def)

lemma mset_iter_swap [simp]: "i < length xs \<Longrightarrow> j < length xs \<Longrightarrow> mset (iter_swap xs i j) = mset xs"
  using mset_swap[of j xs i] by (simp add: iter_swap_def list_update_swap mset_swap)

lemma nth_iter_swap: "k < length xs \<Longrightarrow> i < length xs \<Longrightarrow> j < length xs \<Longrightarrow>
    iter_swap xs i j ! k = (if k = i then xs ! j else if k = j then xs ! i else xs ! k)"
  by (auto simp: iter_swap_def nth_list_update)

section \<open>Ranges of a list\<close>

text \<open>The elements of a list between two offsets, and writing a block of elements at an offset.\<close>

definition portion :: "'a list \<Rightarrow> nat \<Rightarrow> nat \<Rightarrow> 'a list" where
  "portion xs a b = take (b - a) (drop a xs)"

definition overwrite :: "'a list \<Rightarrow> nat \<Rightarrow> 'a list \<Rightarrow> 'a list" where
  "overwrite xs k ys = take k xs @ ys @ drop (k + length ys) xs"

lemma length_portion [simp]: "b \<le> length xs \<Longrightarrow> length (portion xs a b) = b - a"
  by (simp add: portion_def)

lemma portion_empty [simp]: "b \<le> a \<Longrightarrow> portion xs a b = []"
  by (simp add: portion_def)

lemma portion_Cons: "a < b \<Longrightarrow> b \<le> length xs \<Longrightarrow> portion xs a b = xs ! a # portion xs (Suc a) b"
  by (simp add: portion_def Cons_nth_drop_Suc [symmetric] take_Cons')

lemma portion_append: "a \<le> b \<Longrightarrow> b \<le> c \<Longrightarrow> c \<le> length xs \<Longrightarrow> portion xs a b @ portion xs b c = portion xs a c"
proof -
  assume a: "a \<le> b" "b \<le> c" "c \<le> length xs"
  have "drop b xs = drop (b - a) (drop a xs)" using a by simp
  then show ?thesis
    using a take_add[of "b - a" "c - b" "drop a xs"] by (simp add: portion_def)
qed

lemma portion_full: "portion xs 0 (length xs) = xs"
  by (simp add: portion_def)

lemma nth_portion: "k < b - a \<Longrightarrow> b \<le> length xs \<Longrightarrow> portion xs a b ! k = xs ! (a + k)"
  by (simp add: portion_def)

lemma take_portion_drop: "a \<le> b \<Longrightarrow> b \<le> length xs \<Longrightarrow> take a xs @ portion xs a b @ drop b xs = xs"
  by (simp add: portion_def) (metis append_take_drop_id drop_drop le_add_diff_inverse2)

lemma portion_middle: "length as = a \<Longrightarrow> a + length bs = b \<Longrightarrow> portion (as @ bs @ cs) a b = bs"
  by (auto simp: portion_def)

lemma length_overwrite [simp]: "k + length ys \<le> length xs \<Longrightarrow> length (overwrite xs k ys) = length xs"
  by (simp add: overwrite_def)

lemma overwrite_Nil [simp]: "overwrite xs k [] = xs"
  by (simp add: overwrite_def)

lemma overwrite_overwrite: "k + length ys + length zs \<le> length xs \<Longrightarrow>
    overwrite (overwrite xs k ys) (k + length ys) zs = overwrite xs k (ys @ zs)"
  by (simp add: overwrite_def ac_simps)

lemma overwrite_one: "k < length xs \<Longrightarrow> overwrite xs k [x] = xs[k := x]"
  by (simp add: overwrite_def upd_conv_take_nth_drop)

lemma portion_overwrite: "k + length ys \<le> length xs \<Longrightarrow> portion (overwrite xs k ys) k (k + length ys) = ys"
  by (simp add: overwrite_def portion_def)

text \<open>A loop that copies \<open>n\<close> elements from one range to another.\<close>

definition move_range :: "'a list \<Rightarrow> nat \<Rightarrow> nat \<Rightarrow> 'a list \<Rightarrow> nat \<Rightarrow> 'a list" where
  "move_range src i n dst k = fold (\<lambda>j dst. dst[k + j := src ! (i + j)]) [0..<n] dst"

lemma move_range_overwrite:
  "i + n \<le> length src \<Longrightarrow> k + n \<le> length dst \<Longrightarrow> move_range src i n dst k = overwrite dst k (portion src i (i + n))"
proof (induction n)
  case (Suc n)
  have "portion src i (i + Suc n) = portion src i (i + n) @ [src ! (i + n)]"
    using Suc.prems(1) portion_append[of i "i + n" "i + Suc n" src] by (simp add: portion_Cons)
  moreover have "move_range src i (Suc n) dst k = (move_range src i n dst k)[k + n := src ! (i + n)]"
    by (simp add: move_range_def)
  ultimately show ?case
    using Suc overwrite_overwrite[of k "portion src i (i + n)" "[src ! (i + n)]" dst]
      overwrite_one[of "k + n" "overwrite dst k (portion src i (i + n))"] by simp
qed (simp add: move_range_def)

lemma portion_update_outside: "p < a \<or> b \<le> p \<Longrightarrow> portion (xs[p := v]) a b = portion xs a b"
  by (cases "p < a"; cases "a \<le> b") (auto simp: portion_def, auto simp: take_drop)

section \<open>Loops that can fail\<close>

text \<open>A loop over a sequence whose body may not return; 32-bit signed arithmetic without overflow.\<close>

fun for_each :: "('a \<Rightarrow> 's \<Rightarrow> 's option) \<Rightarrow> 'a list \<Rightarrow> 's \<Rightarrow> 's option" where
  "for_each f [] s = Some s"
| "for_each f (x # xs) s = do { s \<leftarrow> f x s; for_each f xs s }"

lemma for_each_append: "for_each f (xs @ ys) s = do { s \<leftarrow> for_each f xs s; for_each f ys s }"
  by (induction xs arbitrary: s) (simp_all split: bind_split)

definition in_int :: "int \<Rightarrow> bool" where
  "in_int x \<longleftrightarrow> - (2 ^ 31) \<le> x \<and> x < 2 ^ 31"

definition int_result :: "int \<Rightarrow> int option" where
  "int_result x = (if in_int x then Some x else None)"

section \<open>Association lists\<close>

lemma map_of_without: "map_of (filter (\<lambda>(u, _). u \<noteq> t) xs) u = (if u = t then None else map_of xs u)"
  by (induction xs) auto

section \<open>Numbers as text\<close>

text \<open>A number in decimal, as \<open>fprintf\<close> and streams write it.\<close>

fun decimal :: "nat \<Rightarrow> string" where
  "decimal n = (if n < 10 then [char_of (48 + n)] else decimal (n div 10) @ [char_of (48 + n mod 10)])"

declare decimal.simps [simp del]

end
