(* ===== verification/DList.thy ===== *)
theory DList
  imports Prelude
begin

text \<open>
  The intrusive doubly linked list of include/mzx/data_structure/list.h and
  src/data_structure/list.cpp. A \<open>List\<close> is a ring of \<open>ListNode\<close>s through its head
  node; every operation is a sequence of pointer assignments, kept here in the order of the source,
  so that aliasing (the one-element ring, a node that is its own neighbour) is the code's.
\<close>

section \<open>The model\<close>

record list_node =
  l_prev :: addr
  l_next :: addr

type_synonym list_heap = "addr \<rightharpoonup> list_node"

definition get_prev :: "list_heap \<Rightarrow> addr \<Rightarrow> addr option" where
  "get_prev h p = map_option l_prev (deref h p)"

definition get_next :: "list_heap \<Rightarrow> addr \<Rightarrow> addr option" where
  "get_next h p = map_option l_next (deref h p)"

definition set_prev :: "list_heap \<Rightarrow> addr \<Rightarrow> addr \<Rightarrow> list_heap option" where
  "set_prev h p v = do { n \<leftarrow> deref h p; Some (h(p \<mapsto> n\<lparr>l_prev := v\<rparr>)) }"

definition set_next :: "list_heap \<Rightarrow> addr \<Rightarrow> addr \<Rightarrow> list_heap option" where
  "set_next h p v = do { n \<leftarrow> deref h p; Some (h(p \<mapsto> n\<lparr>l_next := v\<rparr>)) }"

text \<open>The constructor makes a ring of one node.\<close>

definition ListNode_init :: "list_heap \<Rightarrow> addr \<Rightarrow> list_heap" where
  "ListNode_init h this = h(this \<mapsto> \<lparr>l_prev = this, l_next = this\<rparr>)"

definition ListNode_IsLinked :: "list_heap \<Rightarrow> addr \<Rightarrow> bool option" where
  "ListNode_IsLinked h this = do { nx \<leftarrow> get_next h this; Some (nx \<noteq> this) }"

definition ListNode_Insert :: "list_heap \<Rightarrow> addr \<Rightarrow> addr \<Rightarrow> addr \<Rightarrow> list_heap option" where
  "ListNode_Insert h this prev next = do {
     _ \<leftarrow> check (prev \<noteq> 0 \<and> next \<noteq> 0);
     h \<leftarrow> set_prev h this prev;
     h \<leftarrow> set_next h this next;
     h \<leftarrow> set_prev h next this;
     set_next h prev this }"

text \<open>
  Erase re-reads the members of \<open>this\<close> between the two neighbour updates, as the code
  does: the first one writes \<open>this\<close> when the node is its own neighbour.
\<close>

definition ListNode_unlink :: "list_heap \<Rightarrow> addr \<Rightarrow> list_heap option" where
  "ListNode_unlink h this = do {
     nx \<leftarrow> get_next h this; pv \<leftarrow> get_prev h this;
     h \<leftarrow> set_prev h nx pv;
     nx \<leftarrow> get_next h this; pv \<leftarrow> get_prev h this;
     h \<leftarrow> set_next h pv nx;
     h \<leftarrow> set_prev h this this;
     set_next h this this }"

definition ListNode_Erase :: "list_heap \<Rightarrow> addr \<Rightarrow> (list_heap \<times> addr) option" where
  "ListNode_Erase h this = do {
     next \<leftarrow> get_next h this;
     h \<leftarrow> ListNode_unlink h this;
     Some (h, next) }"

text \<open>The destructor unlinks the node; afterwards its storage holds no object.\<close>

definition ListNode_destroy :: "list_heap \<Rightarrow> addr \<Rightarrow> list_heap option" where
  "ListNode_destroy h this = do { h \<leftarrow> ListNode_unlink h this; Some (h(this := None)) }"

definition List_Begin :: "list_heap \<Rightarrow> addr \<Rightarrow> addr option" where
  "List_Begin h head = get_next h head"

definition List_End :: "addr \<Rightarrow> addr" where
  "List_End head = head"

definition List_RBegin :: "list_heap \<Rightarrow> addr \<Rightarrow> addr option" where
  "List_RBegin h head = get_prev h head"

definition List_Empty :: "list_heap \<Rightarrow> addr \<Rightarrow> bool option" where
  "List_Empty h head = do { nx \<leftarrow> get_next h head; Some (nx = head) }"

definition PushFront :: "list_heap \<Rightarrow> addr \<Rightarrow> addr \<Rightarrow> list_heap option" where
  "PushFront h head node = do {
     _ \<leftarrow> check (node \<noteq> 0);
     nx \<leftarrow> get_next h head;
     ListNode_Insert h node head nx }"

definition PushBack :: "list_heap \<Rightarrow> addr \<Rightarrow> addr \<Rightarrow> list_heap option" where
  "PushBack h head node = do {
     _ \<leftarrow> check (node \<noteq> 0);
     pv \<leftarrow> get_prev h head;
     ListNode_Insert h node pv head }"

definition PopFront :: "list_heap \<Rightarrow> addr \<Rightarrow> (list_heap \<times> addr) option" where
  "PopFront h head = do {
     nx \<leftarrow> get_next h head;
     if nx = head then Some (h, 0)
     else do {
       node \<leftarrow> get_next h head;
       (h, _) \<leftarrow> ListNode_Erase h node;
       Some (h, node) } }"

definition PopBack :: "list_heap \<Rightarrow> addr \<Rightarrow> (list_heap \<times> addr) option" where
  "PopBack h head = do {
     pv \<leftarrow> get_prev h head;
     if pv = head then Some (h, 0)
     else do {
       node \<leftarrow> get_prev h head;
       (h, _) \<leftarrow> ListNode_Erase h node;
       Some (h, node) } }"

definition List_Erase :: "list_heap \<Rightarrow> addr \<Rightarrow> (list_heap \<times> addr) option" where
  "List_Erase h node = do { _ \<leftarrow> check (node \<noteq> 0); ListNode_Erase h node }"

text \<open>A loop that does not end has the value \<open>None\<close>, like a fault.\<close>

partial_function (option) List_Clear :: "list_heap \<Rightarrow> addr \<Rightarrow> list_heap option" where
  "List_Clear h head = do {
     nx \<leftarrow> get_next h head;
     if nx = head then Some h
     else do {
       r \<leftarrow> List_Erase h nx;
       List_Clear (fst r) head } }"

definition List_destroy :: "list_heap \<Rightarrow> addr \<Rightarrow> list_heap option" where
  "List_destroy h head = do { h \<leftarrow> List_Clear h head; ListNode_destroy h head }"


section \<open>Field access after an update\<close>

lemma get_next_upd [simp]:
  "get_next (h(p \<mapsto> n)) q = (if q = p then if p = 0 then None else Some (l_next n) else get_next h q)"
  by (auto simp: get_next_def deref_def)

lemma get_prev_upd [simp]:
  "get_prev (h(p \<mapsto> n)) q = (if q = p then if p = 0 then None else Some (l_prev n) else get_prev h q)"
  by (auto simp: get_prev_def deref_def)

lemma get_next_Some: "get_next h p = Some q \<longleftrightarrow> p \<noteq> 0 \<and> (\<exists>n. h p = Some n \<and> l_next n = q)"
  by (auto simp: get_next_def deref_def)

lemma get_prev_Some: "get_prev h p = Some q \<longleftrightarrow> p \<noteq> 0 \<and> (\<exists>n. h p = Some n \<and> l_prev n = q)"
  by (auto simp: get_prev_def deref_def)

lemmas get_Some = get_next_Some get_prev_Some

section \<open>Rings\<close>

text \<open>
  \<open>seg h a xs b\<close>: following \<open>next_\<close> from \<open>a\<close> passes through \<open>xs\<close> and reaches
  \<open>b\<close>, and every \<open>prev_\<close> on the way points back.
\<close>

fun seg :: "list_heap \<Rightarrow> addr \<Rightarrow> addr list \<Rightarrow> addr \<Rightarrow> bool" where
  "seg h a [] b \<longleftrightarrow> get_next h a = Some b \<and> get_prev h b = Some a"
| "seg h a (x # xs) b \<longleftrightarrow> get_next h a = Some x \<and> get_prev h x = Some a \<and> seg h x xs b"

definition ring :: "list_heap \<Rightarrow> addr \<Rightarrow> addr list \<Rightarrow> bool" where
  "ring h hp xs \<longleftrightarrow> seg h hp xs hp \<and> distinct (hp # xs)"

definition unlinked :: "list_heap \<Rightarrow> addr \<Rightarrow> bool" where
  "unlinked h p \<longleftrightarrow> get_next h p = Some p \<and> get_prev h p = Some p"

lemma seg_append: "seg h a (xs @ y # ys) b \<longleftrightarrow> seg h a xs y \<and> seg h y ys b"
  by (induction xs arbitrary: a) auto

lemma seg_cong:
  "(\<And>y. y \<in> set (a # xs) \<Longrightarrow> get_next h' y = get_next h y) \<Longrightarrow>
   (\<And>y. y \<in> set (xs @ [b]) \<Longrightarrow> get_prev h' y = get_prev h y) \<Longrightarrow>
   seg h' a xs b = seg h a xs b"
  by (induction xs arbitrary: a) auto

lemma seg_nonnull: "seg h a xs b \<Longrightarrow> 0 \<notin> set (a # xs @ [b])"
  by (induction xs arbitrary: a) (auto simp: get_Some)

lemma seg_next_first: "seg h a xs b \<Longrightarrow> get_next h a = Some (hd (xs @ [b]))"
  by (cases xs) auto

lemma seg_prev_last: "seg h a xs b \<Longrightarrow> get_prev h b = Some (last (a # xs))"
  by (induction xs arbitrary: a) auto

lemma ring_nonnull: "ring h hp xs \<Longrightarrow> 0 \<notin> set (hp # xs)"
  using seg_nonnull by (fastforce simp: ring_def)

lemma ring_next: "ring h hp xs \<Longrightarrow> get_next h hp = Some (hd (xs @ [hp]))"
  by (simp add: ring_def seg_next_first)

lemma ring_prev: "ring h hp xs \<Longrightarrow> get_prev h hp = Some (last (hp # xs))"
  unfolding ring_def using seg_prev_last by blast

lemma ring_unique_seg:
  "seg h a xs b \<Longrightarrow> seg h a ys b \<Longrightarrow> b \<notin> set xs \<Longrightarrow> b \<notin> set ys \<Longrightarrow> xs = ys"
proof (induction xs arbitrary: a ys)
  case Nil
  then show ?case by (cases ys) auto
next
  case (Cons x xs)
  then show ?case by (cases ys) auto
qed

lemma ring_unique: "ring h hp xs \<Longrightarrow> ring h hp ys \<Longrightarrow> xs = ys"
  by (auto simp: ring_def intro: ring_unique_seg)

text \<open>An operation that leaves the nodes of a ring alone leaves the ring alone.\<close>

lemma ring_frame:
  assumes "ring h hp xs" and "\<And>y. y \<in> set (hp # xs) \<Longrightarrow> h' y = h y"
  shows "ring h' hp xs"
proof -
  have "get_next h' y = get_next h y" "get_prev h' y = get_prev h y" if "y \<in> set (hp # xs)" for y
    using assms(2)[OF that] by (simp_all add: get_next_def get_prev_def deref_def)
  then have "seg h' hp xs hp = seg h hp xs hp"
    by (intro seg_cong) auto
  with assms(1) show ?thesis by (simp add: ring_def)
qed

lemma ring_empty_iff: "ring h hp [] \<longleftrightarrow> unlinked h hp"
  by (auto simp: ring_def unlinked_def)

section \<open>Insertion between two neighbours\<close>

lemma set_next_eq: "p \<noteq> 0 \<Longrightarrow> h p = Some n \<Longrightarrow> set_next h p v = Some (h(p \<mapsto> n\<lparr>l_next := v\<rparr>))"
  by (simp add: set_next_def)

lemma set_prev_eq: "p \<noteq> 0 \<Longrightarrow> h p = Some n \<Longrightarrow> set_prev h p v = Some (h(p \<mapsto> n\<lparr>l_prev := v\<rparr>))"
  by (simp add: set_prev_def)

text \<open>What \<open>Insert\<close> and the unlinking do to the two kinds of field.\<close>

lemma ListNode_Insert_spec:
  assumes "h x = Some nx" "h p = Some np" "h n = Some nn" "x \<noteq> 0" "p \<noteq> 0" "n \<noteq> 0"
    and "x \<noteq> p" "x \<noteq> n"
  shows "\<exists>h'. ListNode_Insert h x p n = Some h' \<and>
    get_next h' = (get_next h)(x \<mapsto> n, p \<mapsto> x) \<and> get_prev h' = (get_prev h)(x \<mapsto> p, n \<mapsto> x) \<and>
    (\<forall>y. y \<notin> {x, p, n} \<longrightarrow> h' y = h y) \<and> dom h' = dom h"
  using assms
  by (cases "p = n"; simp add: ListNode_Insert_def set_next_def set_prev_def) (auto simp: fun_eq_iff get_next_def get_prev_def deref_def)

lemma ListNode_unlink_spec:
  assumes "get_next h x = Some n" "get_prev h x = Some p" "h n = Some nn" "h p = Some np"
    and "n \<noteq> 0" "p \<noteq> 0" "x \<noteq> p" "x \<noteq> n"
  shows "\<exists>h'. ListNode_unlink h x = Some h' \<and>
    get_next h' = (get_next h)(p \<mapsto> n, x \<mapsto> x) \<and> get_prev h' = (get_prev h)(n \<mapsto> p, x \<mapsto> x) \<and>
    (\<forall>y. y \<notin> {x, p, n} \<longrightarrow> h' y = h y) \<and> dom h' = dom h"
proof -
  from assms obtain nx where "x \<noteq> 0" "h x = Some nx" "l_next nx = n" "l_prev nx = p"
    by (auto simp: get_Some)
  then show ?thesis using assms
    by (cases "p = n"; simp add: ListNode_unlink_def set_next_def set_prev_def) (auto simp: fun_eq_iff get_next_def get_prev_def deref_def)
qed

lemma ListNode_unlink_unlinked:
  assumes "unlinked h x"
  shows "ListNode_unlink h x = Some h"
proof -
  from assms have nx: "x \<noteq> 0" "h x = Some \<lparr>l_prev = x, l_next = x\<rparr>"
    by (auto simp: unlinked_def get_Some intro: list_node.equality)
  then have "h(x \<mapsto> \<lparr>l_prev = x, l_next = x\<rparr>) = h" by auto
  with nx assms show ?thesis
    by (simp add: ListNode_unlink_def set_next_def set_prev_def unlinked_def)
qed


lemma seg_insert:
  assumes "get_next h' = (get_next h)(x \<mapsto> n, p \<mapsto> x)" "get_prev h' = (get_prev h)(x \<mapsto> p, n \<mapsto> x)"
  shows "seg h a (xs @ ys) b \<Longrightarrow> p = last (a # xs) \<Longrightarrow> n = hd (ys @ [b]) \<Longrightarrow>
    distinct (a # xs @ ys) \<Longrightarrow> b \<notin> set (xs @ ys) \<Longrightarrow> x \<notin> set (a # b # xs @ ys) \<Longrightarrow>
    seg h' a (xs @ x # ys) b"
proof (induction xs arbitrary: a)
  case Nil
  show ?case
  proof (cases ys)
    case (Cons y zs)
    have "seg h' y zs b = seg h y zs b"
      using Nil.prems Cons by (intro seg_cong) (auto simp: assms)
    with Nil.prems Cons show ?thesis by (auto simp: assms)
  qed (use Nil.prems in \<open>auto simp: assms\<close>)
next
  case (Cons y xs)
  have "n \<in> set (ys @ [b])" using Cons.prems by (cases ys) auto
  moreover have "p \<in> set (y # xs)" using Cons.prems last_in_set[of "y # xs"] by auto
  ultimately show ?case using Cons.prems Cons.IH[of y] by (auto simp: assms)
qed

lemma seg_remove:
  assumes "get_next h' = (get_next h)(p \<mapsto> n, x \<mapsto> x)" "get_prev h' = (get_prev h)(n \<mapsto> p, x \<mapsto> x)"
  shows "seg h a (xs @ x # ys) b \<Longrightarrow> p = last (a # xs) \<Longrightarrow> n = hd (ys @ [b]) \<Longrightarrow>
    distinct (a # xs @ x # ys) \<Longrightarrow> b \<notin> set (xs @ x # ys) \<Longrightarrow> seg h' a (xs @ ys) b"
proof (induction xs arbitrary: a)
  case Nil
  show ?case
  proof (cases ys)
    case (Cons y zs)
    have "seg h' y zs b = seg h y zs b"
      using Nil.prems Cons by (intro seg_cong) (auto simp: assms)
    with Nil.prems Cons show ?thesis by (auto simp: assms)
  qed (use Nil.prems in \<open>auto simp: assms\<close>)
next
  case (Cons y xs)
  have "n \<in> set (ys @ [b])" using Cons.prems by (cases ys) auto
  moreover have "p \<in> set (y # xs)" using Cons.prems last_in_set[of "y # xs"] by auto
  ultimately show ?case using Cons.prems Cons.IH[of y] by (auto simp: assms)
qed

section \<open>What the list operations do to a ring\<close>

text \<open>
  \<open>outside h h' A\<close>: the step from \<open>h\<close> to \<open>h'\<close> changes nothing outside \<open>A\<close>
  and neither makes nor destroys a node.
\<close>

definition outside :: "addr set \<Rightarrow> list_heap \<Rightarrow> list_heap \<Rightarrow> bool" where
  "outside A h h' \<longleftrightarrow> (\<forall>y. y \<notin> A \<longrightarrow> h' y = h y) \<and> dom h' = dom h"

lemma outside_ring: "outside A h h' \<Longrightarrow> ring h k ys \<Longrightarrow> set (k # ys) \<inter> A = {} \<Longrightarrow> ring h' k ys"
  by (erule ring_frame) (auto simp: outside_def)

lemma outside_refl [simp]: "outside A h h"
  by (simp add: outside_def)

lemma outside_trans: "outside A h h' \<Longrightarrow> outside B h' h'' \<Longrightarrow> A \<subseteq> C \<Longrightarrow> B \<subseteq> C \<Longrightarrow> outside C h h''"
  unfolding outside_def by (metis subsetD)

lemma outside_unlinked: "outside A h h' \<Longrightarrow> unlinked h p \<Longrightarrow> p \<notin> A \<Longrightarrow> unlinked h' p"
  by (auto simp: outside_def unlinked_def get_next_def get_prev_def deref_def split: if_splits)

lemma ring_heap: "ring h hp xs \<Longrightarrow> y \<in> set (hp # xs) \<Longrightarrow> y \<noteq> 0 \<and> (\<exists>n. h y = Some n)"
proof -
  have "seg h a xs b \<Longrightarrow> y \<in> set (a # xs) \<Longrightarrow> \<exists>n. h y = Some n" for a b
    by (induction xs arbitrary: a) (auto simp: get_Some)
  then show "ring h hp xs \<Longrightarrow> y \<in> set (hp # xs) \<Longrightarrow> y \<noteq> 0 \<and> (\<exists>n. h y = Some n)"
    using ring_nonnull[of h hp xs] unfolding ring_def by metis
qed

lemma ring_insert:
  assumes "ring h hp (xs @ ys)" "x \<noteq> 0" "h x = Some nx" "x \<notin> set (hp # xs @ ys)"
    and p: "p = last (hp # xs)" and n: "n = hd (ys @ [hp])"
  shows "\<exists>h'. ListNode_Insert h x p n = Some h' \<and> ring h' hp (xs @ x # ys) \<and>
    outside (set (x # hp # xs @ ys)) h h'"
proof -
  have pin: "p \<in> set (hp # xs @ ys)" using p last_in_set[of "hp # xs"] by auto
  have nin: "n \<in> set (hp # xs @ ys)" using n by (cases ys) auto
  obtain np nn where "p \<noteq> 0" "n \<noteq> 0" "h p = Some np" "h n = Some nn"
    using ring_heap[OF assms(1) pin] ring_heap[OF assms(1) nin] by auto
  moreover have "x \<noteq> p" "x \<noteq> n" using assms(4) pin nin by auto
  ultimately obtain h' where h': "ListNode_Insert h x p n = Some h'"
      "get_next h' = (get_next h)(x \<mapsto> n, p \<mapsto> x)" "get_prev h' = (get_prev h)(x \<mapsto> p, n \<mapsto> x)"
      "\<forall>y. y \<notin> {x, p, n} \<longrightarrow> h' y = h y" "dom h' = dom h"
    using ListNode_Insert_spec[of h x nx p np n nn] assms(2,3) by auto
  have "seg h' hp (xs @ x # ys) hp"
    using assms by (intro seg_insert[OF h'(2,3)]) (auto simp: ring_def)
  moreover have "distinct (hp # xs @ x # ys)" using assms by (auto simp: ring_def)
  moreover have "{x, p, n} \<subseteq> set (x # hp # xs @ ys)" using pin nin by auto
  ultimately show ?thesis using h' by (auto simp: ring_def outside_def)
qed

lemma ring_remove:
  assumes r: "ring h hp (xs @ x # ys)"
  shows "\<exists>h'. ListNode_unlink h x = Some h' \<and> ring h' hp (xs @ ys) \<and> unlinked h' x \<and>
    outside (set (x # hp # xs @ ys)) h h'"
proof -
  define p n where "p = last (hp # xs)" and "n = hd (ys @ [hp])"
  have pin: "p \<in> set (hp # xs @ ys)" using p_def last_in_set[of "hp # xs"] by auto
  have nin: "n \<in> set (hp # xs @ ys)" using n_def by (cases ys) auto
  obtain np nn where "p \<noteq> 0" "n \<noteq> 0" "h p = Some np" "h n = Some nn"
    using ring_heap[OF r, of p] ring_heap[OF r, of n] pin nin by auto
  moreover have "x \<noteq> p" "x \<noteq> n" using r pin nin by (auto simp: ring_def)
  moreover have "get_next h x = Some n" "get_prev h x = Some p"
    using r seg_next_first[of h x ys hp] seg_prev_last[of h hp xs x]
    by (simp_all add: ring_def seg_append n_def p_def)
  ultimately obtain h' where h': "ListNode_unlink h x = Some h'"
      "get_next h' = (get_next h)(p \<mapsto> n, x \<mapsto> x)" "get_prev h' = (get_prev h)(n \<mapsto> p, x \<mapsto> x)"
      "\<forall>y. y \<notin> {x, p, n} \<longrightarrow> h' y = h y" "dom h' = dom h"
    using ListNode_unlink_spec[of h x n p nn np] by auto
  have "seg h' hp (xs @ ys) hp"
    using r by (intro seg_remove[OF h'(2,3) _ p_def n_def]) (auto simp: ring_def)
  moreover have "{x, p, n} \<subseteq> set (x # hp # xs @ ys)" using pin nin by auto
  ultimately show ?thesis using h' r by (auto simp: ring_def outside_def unlinked_def)
qed


lemma PushBack_spec:
  assumes "ring h hp xs" "x \<noteq> 0" "h x = Some nx" "x \<notin> set (hp # xs)"
  shows "\<exists>h'. PushBack h hp x = Some h' \<and> ring h' hp (xs @ [x]) \<and> outside (set (x # hp # xs)) h h'"
  using ring_insert[of h hp xs "[]" x nx] ring_prev[OF assms(1)] assms
  by (simp add: PushBack_def)

lemma PushFront_spec:
  assumes "ring h hp xs" "x \<noteq> 0" "h x = Some nx" "x \<notin> set (hp # xs)"
  shows "\<exists>h'. PushFront h hp x = Some h' \<and> ring h' hp (x # xs) \<and> outside (set (x # hp # xs)) h h'"
  using ring_insert[of h hp "[]" xs x nx] ring_next[OF assms(1)] assms
  by (simp add: PushFront_def)

lemma ListNode_Erase_spec:
  assumes "ring h hp (xs @ x # ys)"
  shows "\<exists>h'. ListNode_Erase h x = Some (h', hd (ys @ [hp])) \<and> ring h' hp (xs @ ys) \<and> unlinked h' x \<and>
    outside (set (x # hp # xs @ ys)) h h'"
proof -
  have "get_next h x = Some (hd (ys @ [hp]))"
    using assms seg_next_first[of h x ys hp] by (simp add: ring_def seg_append)
  with ring_remove[OF assms] show ?thesis by (auto simp: ListNode_Erase_def)
qed

lemma List_Erase_spec:
  assumes "ring h hp (xs @ x # ys)"
  shows "\<exists>h'. List_Erase h x = Some (h', hd (ys @ [hp])) \<and> ring h' hp (xs @ ys) \<and> unlinked h' x \<and>
    outside (set (x # hp # xs @ ys)) h h'"
  using ListNode_Erase_spec[OF assms] ring_nonnull[OF assms] by (auto simp: List_Erase_def)

lemma PopFront_nil: "ring h hp [] \<Longrightarrow> PopFront h hp = Some (h, 0)"
  using ring_next[of h hp "[]"] by (simp add: PopFront_def)

lemma PopBack_nil: "ring h hp [] \<Longrightarrow> PopBack h hp = Some (h, 0)"
  using ring_prev[of h hp "[]"] by (simp add: PopBack_def)

lemma PopFront_Cons:
  assumes "ring h hp (x # xs)"
  shows "\<exists>h'. PopFront h hp = Some (h', x) \<and> ring h' hp xs \<and> unlinked h' x \<and>
    outside (set (x # hp # xs)) h h'"
  using ListNode_Erase_spec[of h hp "[]" x xs] ring_next[OF assms] assms
  by (auto simp: PopFront_def ring_def)

lemma PopBack_snoc:
  assumes "ring h hp (xs @ [x])"
  shows "\<exists>h'. PopBack h hp = Some (h', x) \<and> ring h' hp xs \<and> unlinked h' x \<and>
    outside (set (x # hp # xs)) h h'"
  using ListNode_Erase_spec[of h hp xs x "[]"] ring_prev[OF assms] assms
  by (auto simp: PopBack_def ring_def)

lemma List_Empty_iff: "ring h hp xs \<Longrightarrow> List_Empty h hp = Some (xs = [])"
  using ring_next[of h hp xs] by (cases xs) (auto simp: List_Empty_def ring_def)

lemma List_Clear_ring:
  "ring h hp xs \<Longrightarrow> \<exists>h'. List_Clear h hp = Some h' \<and> ring h' hp [] \<and> (\<forall>x\<in>set xs. unlinked h' x) \<and>
    outside (set (hp # xs)) h h'"
proof (induction xs arbitrary: h)
  case Nil
  then show ?case using ring_next[of h hp "[]"] by (subst List_Clear.simps) simp
next
  case (Cons x xs)
  from List_Erase_spec[of h hp "[]" x xs] Cons.prems obtain h1 where
    h1: "List_Erase h x = Some (h1, hd (xs @ [hp]))" "ring h1 hp xs" "unlinked h1 x"
      "outside (set (x # hp # xs)) h h1" by auto
  from Cons.IH[OF h1(2)] obtain h2 where
    h2: "List_Clear h1 hp = Some h2" "ring h2 hp []" "\<forall>x\<in>set xs. unlinked h2 x"
      "outside (set (hp # xs)) h1 h2" by auto
  have "unlinked h2 x"
    using h1(3) h2(4) Cons.prems by (auto simp: ring_def elim: outside_unlinked)
  moreover have "List_Clear h hp = Some h2"
    using ring_next[OF Cons.prems] Cons.prems h1(1) h2(1)
    by (subst List_Clear.simps) (auto simp: ring_def)
  moreover have "outside (set (hp # x # xs)) h h2"
    by (rule outside_trans[OF h1(4) h2(4)]) auto
  ultimately show ?case using h2 by auto
qed


section \<open>The queue interface\<close>

text \<open>
  What the timer wheels, the event lists and the free lists use of a list: a node that is in no
  list is pushed, the nodes come out of \<open>pop\<close> in the order they went in, and the node that
  comes out is in no list again.
\<close>

fun push_all :: "('h \<Rightarrow> addr \<Rightarrow> addr \<Rightarrow> 'h option) \<Rightarrow> 'h \<Rightarrow> addr \<Rightarrow> addr list \<Rightarrow> 'h option" where
  "push_all push h q [] = Some h"
| "push_all push h q (x # xs) = do { h \<leftarrow> push h q x; push_all push h q xs }"

fun pop_n :: "('h \<Rightarrow> addr \<Rightarrow> ('h \<times> addr) option) \<Rightarrow> 'h \<Rightarrow> addr \<Rightarrow> nat \<Rightarrow> ('h \<times> addr list) option" where
  "pop_n pop h q 0 = Some (h, [])"
| "pop_n pop h q (Suc n) = do { (h, x) \<leftarrow> pop h q; (h, xs) \<leftarrow> pop_n pop h q n; Some (h, x # xs) }"

locale node_queue =
  fixes push :: "'h \<Rightarrow> addr \<Rightarrow> addr \<Rightarrow> 'h option"
    and pop :: "'h \<Rightarrow> addr \<Rightarrow> ('h \<times> addr) option"
    and holds :: "'h \<Rightarrow> addr \<Rightarrow> addr list \<Rightarrow> bool"
    and free :: "'h \<Rightarrow> addr \<Rightarrow> bool"
  assumes push_holds: "holds h q xs \<Longrightarrow> free h x \<Longrightarrow> x \<notin> set (q # xs) \<Longrightarrow>
      \<exists>h'. push h q x = Some h' \<and> holds h' q (xs @ [x]) \<and>
        (\<forall>y. y \<notin> set (x # q # xs) \<longrightarrow> free h y \<longrightarrow> free h' y)"
    and pop_empty: "holds h q [] \<Longrightarrow> pop h q = Some (h, 0)"
    and pop_holds: "holds h q (x # xs) \<Longrightarrow>
      \<exists>h'. pop h q = Some (h', x) \<and> holds h' q xs \<and> free h' x"
begin

lemma push_all_holds:
  "holds h q xs \<Longrightarrow> distinct (q # xs @ ys) \<Longrightarrow> (\<forall>y\<in>set ys. free h y) \<Longrightarrow>
   \<exists>h'. push_all push h q ys = Some h' \<and> holds h' q (xs @ ys)"
proof (induction ys arbitrary: h xs)
  case Nil
  then show ?case by simp
next
  case (Cons y ys)
  from push_holds[of h q xs y] Cons.prems obtain h1 where
    h1: "push h q y = Some h1" "holds h1 q (xs @ [y])"
      "\<forall>z. z \<notin> set (y # q # xs) \<longrightarrow> free h z \<longrightarrow> free h1 z" by auto
  have "\<forall>z\<in>set ys. free h1 z" using h1(3) Cons.prems by auto
  with Cons.IH[OF h1(2)] Cons.prems h1(1) show ?case by auto
qed

lemma pop_n_holds:
  "holds h q (xs @ ys) \<Longrightarrow> \<exists>h'. pop_n pop h q (length xs) = Some (h', xs) \<and> holds h' q ys"
proof (induction xs arbitrary: h)
  case Nil
  then show ?case by simp
next
  case (Cons x xs)
  from pop_holds[of h q x "xs @ ys"] Cons.prems obtain h1 where
    "pop h q = Some (h1, x)" "holds h1 q (xs @ ys)" by auto
  with Cons.IH[of h1] show ?case by auto
qed

lemma first_in_first_out:
  assumes "holds h q []" "distinct (q # ys)" "\<forall>y\<in>set ys. free h y"
  shows "\<exists>h1 h2. push_all push h q ys = Some h1 \<and> holds h1 q ys \<and>
    pop_n pop h1 q (length ys) = Some (h2, ys) \<and> holds h2 q []"
proof -
  from push_all_holds[OF assms(1), of ys] assms(2,3) obtain h1 where
    h1: "push_all push h q ys = Some h1" "holds h1 q ys" by auto
  with pop_n_holds[of h1 q ys "[]"] show ?thesis by auto
qed

end

lemma unlinked_heap: "unlinked h x \<Longrightarrow> x \<noteq> 0 \<and> (\<exists>n. h x = Some n)"
  by (auto simp: unlinked_def get_Some)

interpretation back_front: node_queue PushBack PopFront ring unlinked
proof
  fix h q xs x
  assume a: "ring h q xs" "unlinked h x" "x \<notin> set (q # xs)"
  then show "\<exists>h'. PushBack h q x = Some h' \<and> ring h' q (xs @ [x]) \<and>
      (\<forall>y. y \<notin> set (x # q # xs) \<longrightarrow> unlinked h y \<longrightarrow> unlinked h' y)"
    using PushBack_spec[OF a(1)] unlinked_heap[OF a(2)] by (fastforce intro: outside_unlinked)
qed (auto dest: PopFront_nil PopFront_Cons)

interpretation front_back: node_queue PushFront PopBack "\<lambda>h q xs. ring h q (rev xs)" unlinked
proof
  fix h q xs x
  assume a: "ring h q (rev xs)" "unlinked h x" "x \<notin> set (q # xs)"
  then show "\<exists>h'. PushFront h q x = Some h' \<and> ring h' q (rev (xs @ [x])) \<and>
      (\<forall>y. y \<notin> set (x # q # xs) \<longrightarrow> unlinked h y \<longrightarrow> unlinked h' y)"
    using PushFront_spec[OF a(1)] unlinked_heap[OF a(2)] by (fastforce intro: outside_unlinked)
qed (auto dest: PopBack_nil PopBack_snoc)

section \<open>The properties\<close>

text \<open>A heap with the head of a list at 8, one linked node at 16 and a free node at 32.\<close>

definition sample_list :: list_heap where
  "sample_list = [8 \<mapsto> \<lparr>l_prev = 16, l_next = 16\<rparr>, 16 \<mapsto> \<lparr>l_prev = 8, l_next = 8\<rparr>,
     32 \<mapsto> \<lparr>l_prev = 32, l_next = 32\<rparr>]"

lemma sample_list_ring: "ring sample_list 8 [16]" "unlinked sample_list 32"
  by (simp_all add: ring_def unlinked_def sample_list_def get_next_def get_prev_def)

text \<open>the nodes that are pushed at the back of an empty list come out at the front in
  the same order, and the list is empty again.\<close>
theorem List_push_pop:
  assumes "ring h q []" "distinct (q # ys)" "list_all (unlinked h) ys"
  shows "\<exists>h1 h2. push_all PushBack h q ys = Some h1 \<and> ring h1 q ys \<and>
    pop_n PopFront h1 q (length ys) = Some (h2, ys) \<and> ring h2 q []"
  using assms(3) by (intro back_front.first_in_first_out[OF assms(1,2)]) (simp add: list_all_iff)

definition sample_empty :: list_heap where
  "sample_empty = [8 \<mapsto> \<lparr>l_prev = 8, l_next = 8\<rparr>, 32 \<mapsto> \<lparr>l_prev = 32, l_next = 32\<rparr>,
     40 \<mapsto> \<lparr>l_prev = 40, l_next = 40\<rparr>]"

lemma List_push_pop_witness:
  "\<exists>h1 h2. push_all PushBack sample_empty 8 [40, 32] = Some h1 \<and>
    pop_n PopFront h1 8 (length [40, 32 :: addr]) = Some (h2, [40, 32])"
proof -
  have "ring sample_empty 8 []" "distinct [8 :: addr, 40, 32]" "list_all (unlinked sample_empty) [40, 32]"
    by (simp_all add: ring_def unlinked_def sample_empty_def get_next_def get_prev_def)
  from List_push_pop[OF this] show ?thesis by blast
qed

text \<open>C40: \<open>List::Erase\<close> of a linked node returns the node after it (the head when
  it was the last), the ring keeps the other nodes in their order, the node is a ring of its own again,
  and no object outside the list is written.\<close>
theorem List_Erase_correct:
  assumes "ring h hp (xs @ x # ys)"
  shows "\<exists>h'. List_Erase h x = Some (h', hd (ys @ [hp])) \<and> ring h' hp (xs @ ys) \<and>
    ListNode_IsLinked h' x = Some False \<and> (\<forall>y. y \<in> set (x # hp # xs @ ys) \<or> h' y = h y)"
  using List_Erase_spec[OF assms]
  by (auto simp: outside_def unlinked_def ListNode_IsLinked_def)

lemma List_Erase_correct_witness:
  "\<exists>h'. List_Erase sample_list 16 = Some (h', 8) \<and> ring h' 8 [] \<and> ListNode_IsLinked h' 16 = Some False"
  using List_Erase_correct[of sample_list 8 "[]" 16 "[]"] sample_list_ring by auto

text \<open>pushing a node that is in no list puts it at the chosen end and leaves
  every object outside the list alone; the list is not empty afterwards.\<close>
theorem List_push_correct:
  assumes "ring h hp xs" "unlinked h x" "x \<notin> set (hp # xs)"
  shows "(\<exists>h'. PushBack h hp x = Some h' \<and> ring h' hp (xs @ [x]) \<and> List_Empty h' hp = Some False \<and>
      (\<forall>y. y \<in> set (x # hp # xs) \<or> h' y = h y)) \<and>
    (\<exists>h'. PushFront h hp x = Some h' \<and> ring h' hp (x # xs) \<and> List_Empty h' hp = Some False \<and>
      (\<forall>y. y \<in> set (x # hp # xs) \<or> h' y = h y))"
proof -
  obtain nx where "x \<noteq> 0" "h x = Some nx" using unlinked_heap[OF assms(2)] by blast
  with PushBack_spec[OF assms(1)] PushFront_spec[OF assms(1)] assms(3) obtain h1 h2 where
    "PushBack h hp x = Some h1 \<and> ring h1 hp (xs @ [x]) \<and> outside (set (x # hp # xs)) h h1"
    "PushFront h hp x = Some h2 \<and> ring h2 hp (x # xs) \<and> outside (set (x # hp # xs)) h h2"
    by meson
  then show ?thesis using List_Empty_iff[of h1 hp] List_Empty_iff[of h2 hp]
    unfolding outside_def by (intro conjI exI[of _ h1] exI[of _ h2]) auto
qed

lemma List_push_correct_witness:
  "\<exists>h'. PushBack sample_list 8 32 = Some h' \<and> ring h' 8 [16, 32]"
  using List_push_correct[OF sample_list_ring] by auto

text \<open>\<open>List::Clear\<close> ends on every list, whatever its length; the list is
  empty, every node that was linked is a ring of its own again, and nothing else is written.\<close>
theorem List_Clear_correct:
  assumes "ring h hp xs"
  shows "\<exists>h'. List_Clear h hp = Some h' \<and> List_Empty h' hp = Some True \<and>
    list_all (\<lambda>x. ListNode_IsLinked h' x = Some False) xs \<and> (\<forall>y. y \<in> set (hp # xs) \<or> h' y = h y)"
proof -
  obtain h' where h': "List_Clear h hp = Some h'" "ring h' hp []" "\<forall>x\<in>set xs. unlinked h' x"
      "outside (set (hp # xs)) h h'"
    using List_Clear_ring[OF assms] by blast
  then show ?thesis
    using List_Empty_iff[OF h'(2)]
    by (intro exI[of _ h']) (auto simp: list_all_iff unlinked_def ListNode_IsLinked_def outside_def)
qed

lemma List_Clear_correct_witness:
  "\<exists>h'. List_Clear sample_list 8 = Some h' \<and> List_Empty h' 8 = Some True"
  using List_Clear_correct[OF sample_list_ring(1)] by auto

end
