(* ===== verification/RBShape.thy ===== *)
theory RBShape
  imports Prelude
begin

text \<open>
  The abstract side of the red-black tree: finite trees whose nodes are addresses, one-hole
  contexts, the two rebalancing algorithms on a context and the invariants they keep. Nothing here
  models code by itself; RBInsert and RBErase show that the pointer code of
  src/data_structure/rbtree.cpp implements these functions.
\<close>

section \<open>Trees and contexts\<close>

datatype color = Red | Black

datatype shape = Leaf | Node color shape addr shape

text \<open>A frame is a node whose left (\<open>LF\<close>) or right (\<open>RF\<close>) child is the hole.\<close>

datatype frame = LF color addr shape | RF color shape addr

type_synonym ctx = "frame list"

fun inorder :: "shape \<Rightarrow> addr list" where
  "inorder Leaf = []"
| "inorder (Node c l a r) = inorder l @ a # inorder r"

fun fill :: "ctx \<Rightarrow> shape \<Rightarrow> shape" where
  "fill [] t = t"
| "fill (LF c a r # K) t = fill K (Node c t a r)"
| "fill (RF c l a # K) t = fill K (Node c l a t)"

text \<open>The addresses of a context left and right of the hole.\<close>

fun lefts :: "ctx \<Rightarrow> addr list" where
  "lefts [] = []"
| "lefts (LF c a r # K) = lefts K"
| "lefts (RF c l a # K) = lefts K @ inorder l @ [a]"

fun rights :: "ctx \<Rightarrow> addr list" where
  "rights [] = []"
| "rights (LF c a r # K) = a # inorder r @ rights K"
| "rights (RF c l a # K) = rights K"

definition kaddrs :: "ctx \<Rightarrow> addr set" where
  "kaddrs K = set (lefts K) \<union> set (rights K)"

fun root_color :: "shape \<Rightarrow> color" where
  "root_color Leaf = Black"
| "root_color (Node c l a r) = c"

fun paint :: "color \<Rightarrow> shape \<Rightarrow> shape" where
  "paint c Leaf = Leaf"
| "paint c (Node _ l a r) = Node c l a r"

fun rp :: "shape \<Rightarrow> addr" where
  "rp Leaf = 0"
| "rp (Node c l a r) = a"

fun cparent :: "ctx \<Rightarrow> addr" where
  "cparent [] = 0"
| "cparent (LF c a r # K) = a"
| "cparent (RF c l a # K) = a"

lemma inorder_fill: "inorder (fill K t) = lefts K @ inorder t @ rights K"
  by (induction K t rule: fill.induct) auto

lemma inorder_paint [simp]: "inorder (paint c t) = inorder t"
  by (cases t) auto

lemma rp_paint [simp]: "rp (paint c t) = rp t"
  by (cases t) auto

lemma kaddrs_simps [simp]:
  "kaddrs [] = {}"
  "kaddrs (LF c a r # K) = insert a (set (inorder r) \<union> kaddrs K)"
  "kaddrs (RF c l a # K) = insert a (set (inorder l) \<union> kaddrs K)"
  by (auto simp: kaddrs_def)

lemma neq_Black [simp]: "c \<noteq> Black \<longleftrightarrow> c = Red"
  by (cases c) auto

lemma neq_Red [simp]: "c \<noteq> Red \<longleftrightarrow> c = Black"
  by (cases c) auto

lemma paint_Black_id [simp]: "root_color t = Black \<Longrightarrow> paint Black t = t"
  by (cases t) auto

section \<open>Invariants\<close>

fun bh :: "shape \<Rightarrow> nat" where
  "bh Leaf = 0"
| "bh (Node c l a r) = (if c = Black then Suc (bh l) else bh l)"

fun balanced :: "shape \<Rightarrow> bool" where
  "balanced Leaf = True"
| "balanced (Node c l a r) = (bh l = bh r \<and> balanced l \<and> balanced r)"

fun no_red_red :: "shape \<Rightarrow> bool" where
  "no_red_red Leaf = True"
| "no_red_red (Node c l a r) =
     ((c = Red \<longrightarrow> root_color l = Black \<and> root_color r = Black) \<and> no_red_red l \<and> no_red_red r)"

definition red_black :: "shape \<Rightarrow> bool" where
  "red_black t \<longleftrightarrow> no_red_red t \<and> balanced t \<and> root_color t = Black"

text \<open>
  The same invariants on contexts. The hole of an empty context is the root, which must be black;
  \<open>hole_above K\<close> is the colour above the hole, with a virtual red node above the root.
\<close>

fun hole_above :: "ctx \<Rightarrow> color" where
  "hole_above [] = Red"
| "hole_above (LF c a r # K) = c"
| "hole_above (RF c l a # K) = c"

fun ctx_colors :: "ctx \<Rightarrow> bool" where
  "ctx_colors [] = True"
| "ctx_colors (LF c a r # K) =
     ((c = Red \<longrightarrow> root_color r = Black \<and> hole_above K = Black) \<and> no_red_red r \<and> ctx_colors K)"
| "ctx_colors (RF c l a # K) =
     ((c = Red \<longrightarrow> root_color l = Black \<and> hole_above K = Black) \<and> no_red_red l \<and> ctx_colors K)"

text \<open>\<open>ctx_height K n\<close>: the hole of \<open>K\<close> wants a tree of black height \<open>n\<close>.\<close>

fun ctx_height :: "ctx \<Rightarrow> nat \<Rightarrow> bool" where
  "ctx_height [] n = True"
| "ctx_height (LF c a r # K) n =
     (balanced r \<and> bh r = n \<and> ctx_height K (if c = Black then Suc n else n))"
| "ctx_height (RF c l a # K) n =
     (balanced l \<and> bh l = n \<and> ctx_height K (if c = Black then Suc n else n))"

lemma bh_paint_Black: "bh (paint Black t) = (if root_color t = Red then Suc (bh t) else bh t)"
  by (cases t) auto

lemma no_red_red_paint [simp]: "no_red_red t \<Longrightarrow> no_red_red (paint Black t)"
  by (cases t) auto

lemma balanced_paint [simp]: "balanced (paint c t) = balanced t"
  by (cases t) auto

lemma root_color_paint [simp]: "root_color (paint Black t) = Black"
  by (cases t) auto

lemma red_black_fill:
  "red_black (fill K t) \<longleftrightarrow>
   ctx_colors K \<and> ctx_height K (bh t) \<and> no_red_red t \<and> balanced t \<and>
   (hole_above K = Red \<longrightarrow> root_color t = Black)"
  by (induction K t rule: fill.induct) (auto simp: red_black_def)

section \<open>Repair after an insertion\<close>

text \<open>
  \<open>ins_fix K t\<close>: \<open>t\<close> has a red root and stands in the hole of \<open>K\<close>. A red parent at the
  root (no grandparent) has no result: the code would read through the null pointer.
\<close>

fun ins_fix :: "ctx \<Rightarrow> shape \<Rightarrow> shape option" where
  "ins_fix [] t = Some (paint Black t)"
| "ins_fix (LF Black p s # K) t = Some (fill (LF Black p s # K) t)"
| "ins_fix (RF Black s p # K) t = Some (fill (RF Black s p # K) t)"
| "ins_fix (LF Red p s # LF gc g u # K) t =
     (if root_color u = Red
      then ins_fix K (Node Red (Node Black t p s) g (paint Black u))
      else Some (fill K (Node gc t p (Node Red (paint Black s) g u))))"
| "ins_fix (RF Red s p # LF gc g u # K) t =
     (if root_color u = Red
      then ins_fix K (Node Red (Node Black s p t) g (paint Black u))
      else (case t of Leaf \<Rightarrow> None
        | Node c b n d \<Rightarrow>
            Some (fill K (Node gc (Node Red s p (paint Black b)) n (Node Red (paint Black d) g u)))))"
| "ins_fix (RF Red s p # RF gc u g # K) t =
     (if root_color u = Red
      then ins_fix K (Node Red (paint Black u) g (Node Black s p t))
      else Some (fill K (Node gc (Node Red u g (paint Black s)) p t)))"
| "ins_fix (LF Red p s # RF gc u g # K) t =
     (if root_color u = Red
      then ins_fix K (Node Red (paint Black u) g (Node Black t p s))
      else (case t of Leaf \<Rightarrow> None
        | Node c b n d \<Rightarrow>
            Some (fill K (Node gc (Node Red u g (paint Black b)) n (Node Red (paint Black d) p s)))))"
| "ins_fix [LF Red p s] t = None"
| "ins_fix [RF Red s p] t = None"

lemma inorder_ins_fix: "ins_fix K t = Some t' \<Longrightarrow> inorder t' = inorder (fill K t)"
  by (induction K t arbitrary: t' rule: ins_fix.induct)
    (auto simp: inorder_fill split: if_splits shape.splits)


lemma bh_paint_Red [simp]: "root_color t = Red \<Longrightarrow> bh (paint Black t) = Suc (bh t)"
  by (simp add: bh_paint_Black)
lemma red_black_ins_fix:
  "ctx_colors K \<Longrightarrow> ctx_height K (bh t) \<Longrightarrow> no_red_red t \<Longrightarrow> balanced t \<Longrightarrow> root_color t = Red \<Longrightarrow>
   \<exists>t'. ins_fix K t = Some t' \<and> red_black t'"
proof (induction K t rule: ins_fix.induct)
  case (1 t)
  then show ?case by (simp add: red_black_def)
next
  case (2 p s K t)
  then show ?case by (simp add: red_black_fill)
next
  case (3 s p K t)
  then show ?case by (simp add: red_black_fill)
next
  case (4 p s gc g u K t)
  show ?case
  proof (cases "root_color u")
    case Red
    then have "\<exists>t'. ins_fix K (Node Red (Node Black t p s) g (paint Black u)) = Some t' \<and> red_black t'"
      using "4.prems" by (intro "4.IH") auto
    with Red show ?thesis by simp
  next
    case Black
    then show ?thesis using "4.prems" by (simp add: red_black_fill)
  qed
next
  case (5 s p gc g u K t)
  show ?case
  proof (cases "root_color u")
    case Red
    then have "\<exists>t'. ins_fix K (Node Red (Node Black s p t) g (paint Black u)) = Some t' \<and> red_black t'"
      using "5.prems" by (intro "5.IH") auto
    with Red show ?thesis by simp
  next
    case Black
    then show ?thesis using "5.prems" by (cases t) (simp_all add: red_black_fill)
  qed
next
  case (6 s p gc u g K t)
  show ?case
  proof (cases "root_color u")
    case Red
    then have "\<exists>t'. ins_fix K (Node Red (paint Black u) g (Node Black s p t)) = Some t' \<and> red_black t'"
      using "6.prems" by (intro "6.IH") auto
    with Red show ?thesis by simp
  next
    case Black
    then show ?thesis using "6.prems" by (simp add: red_black_fill)
  qed
next
  case (7 p s gc u g K t)
  show ?case
  proof (cases "root_color u")
    case Red
    then have "\<exists>t'. ins_fix K (Node Red (paint Black u) g (Node Black t p s)) = Some t' \<and> red_black t'"
      using "7.prems" by (intro "7.IH") auto
    with Red show ?thesis by simp
  next
    case Black
    then show ?thesis using "7.prems" by (cases t) (simp_all add: red_black_fill)
  qed
qed simp_all

section \<open>Repair after a removal\<close>

text \<open>
  \<open>del_fix K t\<close>: the tree \<open>t\<close> in the hole of \<open>K\<close> is one black node short. The
  auxiliary \<open>del_black\<close> treats a black sibling: the two rotations, or the recolouring that
  either ends at a red parent or moves the deficit up.
\<close>

datatype del_result = Done shape | Up ctx shape | Stuck

fun finish_right :: "ctx \<Rightarrow> color \<Rightarrow> shape \<Rightarrow> addr \<Rightarrow> shape \<Rightarrow> addr \<Rightarrow> shape \<Rightarrow> del_result" where
  "finish_right K pc t p sl s sr = Done (fill K (Node pc (Node Black t p sl) s (paint Black sr)))"

fun finish_left :: "ctx \<Rightarrow> color \<Rightarrow> shape \<Rightarrow> addr \<Rightarrow> shape \<Rightarrow> addr \<Rightarrow> shape \<Rightarrow> del_result" where
  "finish_left K pc sl s sr p t = Done (fill K (Node pc (paint Black sl) s (Node Black sr p t)))"

fun del_black :: "ctx \<Rightarrow> shape \<Rightarrow> del_result" where
  "del_black (LF pc p (Node sc sl s sr) # K) t =
     (if root_color sr = Red then finish_right K pc t p sl s sr
      else (case sl of
          Node Red b q d \<Rightarrow> finish_right K pc t p b q (Node sc (paint Black d) s sr)
        | _ \<Rightarrow> (if pc = Red then Done (fill K (Node Black t p (Node Red sl s sr)))
                else Up K (Node Black t p (Node Red sl s sr)))))"
| "del_black (RF pc (Node sc sl s sr) p # K) t =
     (if root_color sl = Red then finish_left K pc sl s sr p t
      else (case sr of
          Node Red b q d \<Rightarrow> finish_left K pc (Node sc sl s (paint Black b)) q d p t
        | _ \<Rightarrow> (if pc = Red then Done (fill K (Node Black (Node Red sl s sr) p t))
                else Up K (Node Black (Node Red sl s sr) p t))))"
| "del_black _ t = Stuck"

fun del_step :: "ctx \<Rightarrow> shape \<Rightarrow> del_result" where
  "del_step (LF pc p (Node Red (Node bc bl b br) s sr) # K) t =
     del_black (LF Red p (Node Black bl b br) # LF pc s sr # K) t"
| "del_step (RF pc (Node Red sl s (Node bc bl b br)) p # K) t =
     del_black (RF Red (Node Black bl b br) p # RF pc sl s # K) t"
| "del_step (LF pc p (Node Black sl s sr) # K) t = del_black (LF pc p (Node Black sl s sr) # K) t"
| "del_step (RF pc (Node Black sl s sr) p # K) t = del_black (RF pc (Node Black sl s sr) p # K) t"
| "del_step _ t = Stuck"


lemma del_step_Up: "del_step K t = Up K' t' \<Longrightarrow> length K' < length K"
  by (induction K t rule: del_step.induct) (auto split: if_splits shape.splits color.splits)

function del_fix :: "ctx \<Rightarrow> shape \<Rightarrow> shape option" where
  "del_fix K t =
     (if K = [] then Some t
      else case del_step K t of Done t' \<Rightarrow> Some t' | Up K' t' \<Rightarrow> del_fix K' t' | Stuck \<Rightarrow> None)"
  by pat_completeness auto
termination
  by (relation "measure (\<lambda>(K, t). length K)") (auto dest: del_step_Up)

declare del_fix.simps [simp del]

text \<open>The invariant of the repair loop: the context is one black node too high for \<open>t\<close>.\<close>

definition deficit_ok :: "ctx \<Rightarrow> shape \<Rightarrow> bool" where
  "deficit_ok K t \<longleftrightarrow> ctx_colors K \<and> ctx_height K (Suc (bh t)) \<and> no_red_red t \<and> balanced t \<and> root_color t = Black"

fun result_ok :: "ctx \<Rightarrow> shape \<Rightarrow> del_result \<Rightarrow> bool" where
  "result_ok K t (Done t') = (red_black t' \<and> inorder t' = inorder (fill K t))"
| "result_ok K t (Up K' t') = (deficit_ok K' t' \<and> inorder (fill K' t') = inorder (fill K t) \<and> length K' < length K)"
| "result_ok K t Stuck = False"

lemma del_black_ok_L:
  assumes "deficit_ok (LF pc p (Node Black sl s sr) # K) t" 
  shows "result_ok (LF pc p (Node Black sl s sr) # K) t (del_black (LF pc p (Node Black sl s sr) # K) t)"
proof (cases "root_color sr")
  case Red
  with assms show ?thesis
    by (cases pc) (simp_all add: deficit_ok_def red_black_fill inorder_fill)
next
  case Black
  show ?thesis
  proof (cases "root_color sl")
    case Red
    then obtain b q d where "sl = Node Red b q d" by (cases sl) auto
    with assms Black show ?thesis
      by (cases pc) (simp_all add: deficit_ok_def red_black_fill inorder_fill)
  next
    case Black2: Black
    with assms Black show ?thesis
      by (cases sl; cases pc) (auto simp add: deficit_ok_def red_black_fill inorder_fill)
  qed
qed
lemma del_black_ok_R:
  assumes "deficit_ok (RF pc (Node Black sl s sr) p # K) t" 
  shows "result_ok (RF pc (Node Black sl s sr) p # K) t (del_black (RF pc (Node Black sl s sr) p # K) t)"
proof (cases "root_color sl")
  case Red
  moreover have "bh sr = bh t" using assms by (simp add: deficit_ok_def)
  ultimately show ?thesis using assms
    by (cases pc) (simp_all add: deficit_ok_def red_black_fill inorder_fill)
next
  case Black
  show ?thesis
  proof (cases "root_color sr")
    case Red
    then obtain b q d where sr: "sr = Node Red b q d" by (cases sr) auto
    with assms have "bh d = bh t" by (simp add: deficit_ok_def)
    with sr assms Black show ?thesis
      by (cases pc) (simp_all add: deficit_ok_def red_black_fill inorder_fill)
  next
    case Black2: Black
    with assms Black show ?thesis
      by (cases sr; cases pc) (auto simp add: deficit_ok_def red_black_fill inorder_fill)
  qed
qed

lemma del_step_ok:
  assumes "deficit_ok K t" "K \<noteq> []"
  shows "result_ok K t (del_step K t)"
proof (cases K)
  case Nil
  with assms show ?thesis by simp
next
  case (Cons F K')
  show ?thesis
  proof (cases F)
    case (LF pc p sib)
    then obtain sc sl s sr where sib: "sib = Node sc sl s sr"
      using assms Cons by (cases sib) (auto simp: deficit_ok_def)
    show ?thesis
    proof (cases sc)
      case Red
      then obtain bl b br where sl: "sl = Node Black bl b br"
        using assms Cons LF sib by (cases sl) (auto simp: deficit_ok_def split: if_splits)
      with Red assms Cons LF sib have "deficit_ok (LF Red p (Node Black bl b br) # LF pc s sr # K') t"
        by (auto simp: deficit_ok_def)
      from del_black_ok_L[OF this] show ?thesis
        using Red sl Cons LF sib
        by (auto simp: inorder_fill split: shape.splits color.splits if_splits)
    next
      case Black
      then show ?thesis using assms Cons LF sib del_black_ok_L by simp
    qed
  next
    case (RF pc sib p)
    then obtain sc sl s sr where sib: "sib = Node sc sl s sr"
      using assms Cons by (cases sib) (auto simp: deficit_ok_def)
    show ?thesis
    proof (cases sc)
      case Red
      then obtain bl b br where sr: "sr = Node Black bl b br"
        using assms Cons RF sib by (cases sr) (auto simp: deficit_ok_def split: if_splits)
      with Red assms Cons RF sib have "deficit_ok (RF Red (Node Black bl b br) p # RF pc sl s # K') t"
        by (auto simp: deficit_ok_def)
      from del_black_ok_R[OF this] show ?thesis
        using Red sr Cons RF sib
        by (auto simp: inorder_fill split: shape.splits color.splits if_splits)
    next
      case Black
      then show ?thesis using assms Cons RF sib del_black_ok_R by simp
    qed
  qed
qed

lemma del_fix_ok:
  "deficit_ok K t \<Longrightarrow> \<exists>t'. del_fix K t = Some t' \<and> red_black t' \<and> inorder t' = inorder (fill K t)"
proof (induction K t rule: del_fix.induct)
  case (1 K t)
  show ?case
  proof (cases "K = []")
    case True
    with "1.prems" show ?thesis by (subst del_fix.simps) (simp add: deficit_ok_def red_black_def)
  next
    case False
    with del_step_ok[OF "1.prems"] "1.IH" show ?thesis
      by (subst del_fix.simps) (auto split: del_result.splits)
  qed
qed

end
