(* ===== verification/RBTree.thy ===== *)
theory RBTree
  imports RBShape
begin

text \<open>
  The intrusive red-black tree of include/mzx/data_structure/rbtree.h and
  src/data_structure/rbtree.cpp on a heap. A node keeps its parent pointer and its colour packed in
  one machine word; a pointer to a link (\<open>RBTreeNode **\<close>) is the root link or a child link of
  a node. Every function is the sequence of reads and writes of its source.
\<close>

section \<open>The packed parent and colour\<close>

definition color_bit :: "color \<Rightarrow> 64 word" where
  "color_bit c = (case c of Red \<Rightarrow> 0 | Black \<Rightarrow> 1)"

definition pack :: "addr \<Rightarrow> color \<Rightarrow> 64 word" where
  "pack p c = p OR color_bit c"

definition pc_Parent :: "64 word \<Rightarrow> addr" where
  "pc_Parent pc = pc AND NOT 3"

definition pc_IsBlack :: "64 word \<Rightarrow> bool" where
  "pc_IsBlack pc = (pc AND 1 \<noteq> 0)"

definition pc_IsRed :: "64 word \<Rightarrow> bool" where
  "pc_IsRed pc = (\<not> pc_IsBlack pc)"

section \<open>Nodes and the tree object\<close>

record rb_node =
  rb_pc :: "64 word"
  rb_left :: addr
  rb_right :: addr

record rb =
  nodes :: "addr \<rightharpoonup> rb_node"
  root :: addr
  rb_len :: "64 word"

definition RBNode_init :: "rb \<Rightarrow> addr \<Rightarrow> rb" where
  "RBNode_init s this = s\<lparr>nodes := (nodes s)(this \<mapsto> \<lparr>rb_pc = this, rb_left = 0, rb_right = 0\<rparr>)\<rparr>"

definition upd_node :: "rb \<Rightarrow> addr \<Rightarrow> (rb_node \<Rightarrow> rb_node) \<Rightarrow> rb option" where
  "upd_node s p f = do { n \<leftarrow> deref (nodes s) p; Some (s\<lparr>nodes := (nodes s)(p \<mapsto> f n)\<rparr>) }"

definition ParentColor :: "rb \<Rightarrow> addr \<Rightarrow> 64 word option" where
  "ParentColor s p = map_option rb_pc (deref (nodes s) p)"

definition RBNode_IsLinked :: "rb \<Rightarrow> addr \<Rightarrow> bool option" where
  "RBNode_IsLinked s p = map_option (\<lambda>n. rb_pc n \<noteq> p) (deref (nodes s) p)"

definition Parent :: "rb \<Rightarrow> addr \<Rightarrow> addr option" where
  "Parent s p = map_option (\<lambda>n. pc_Parent (rb_pc n)) (deref (nodes s) p)"

definition IsBlack :: "rb \<Rightarrow> addr \<Rightarrow> bool option" where
  "IsBlack s p = map_option (\<lambda>n. rb_pc n AND 1 \<noteq> 0) (deref (nodes s) p)"

definition IsRed :: "rb \<Rightarrow> addr \<Rightarrow> bool option" where
  "IsRed s p = map_option Not (IsBlack s p)"

definition Left :: "rb \<Rightarrow> addr \<Rightarrow> addr option" where
  "Left s p = map_option rb_left (deref (nodes s) p)"

definition Right :: "rb \<Rightarrow> addr \<Rightarrow> addr option" where
  "Right s p = map_option rb_right (deref (nodes s) p)"

definition RBNode_Clear :: "rb \<Rightarrow> addr \<Rightarrow> rb option" where
  "RBNode_Clear s p = upd_node s p (\<lambda>n. \<lparr>rb_pc = p, rb_left = 0, rb_right = 0\<rparr>)"

definition SetPC :: "rb \<Rightarrow> addr \<Rightarrow> 64 word \<Rightarrow> rb option" where
  "SetPC s p pc = upd_node s p (\<lambda>n. n\<lparr>rb_pc := pc\<rparr>)"

definition SetParentColor :: "rb \<Rightarrow> addr \<Rightarrow> addr \<Rightarrow> color \<Rightarrow> rb option" where
  "SetParentColor s p parent c = upd_node s p (\<lambda>n. n\<lparr>rb_pc := pack parent c\<rparr>)"

definition SetParent :: "rb \<Rightarrow> addr \<Rightarrow> addr \<Rightarrow> rb option" where
  "SetParent s p parent = upd_node s p (\<lambda>n. n\<lparr>rb_pc := parent OR (rb_pc n AND 1)\<rparr>)"

definition SetBlack :: "rb \<Rightarrow> addr \<Rightarrow> rb option" where
  "SetBlack s p = upd_node s p (\<lambda>n. n\<lparr>rb_pc := rb_pc n OR 1\<rparr>)"

definition SetRed :: "rb \<Rightarrow> addr \<Rightarrow> rb option" where
  "SetRed s p = upd_node s p (\<lambda>n. n\<lparr>rb_pc := rb_pc n AND NOT 3\<rparr>)"

definition SetLeft :: "rb \<Rightarrow> addr \<Rightarrow> addr \<Rightarrow> rb option" where
  "SetLeft s p v = upd_node s p (\<lambda>n. n\<lparr>rb_left := v\<rparr>)"

definition SetRight :: "rb \<Rightarrow> addr \<Rightarrow> addr \<Rightarrow> rb option" where
  "SetRight s p v = upd_node s p (\<lambda>n. n\<lparr>rb_right := v\<rparr>)"

text \<open>The idiom \<open>if (tmp) tmp->Set...\<close> and the test \<open>!tmp || tmp->IsBlack()\<close>.\<close>

definition when_node :: "addr \<Rightarrow> rb \<Rightarrow> rb option \<Rightarrow> rb option" where
  "when_node p s m = (if p \<noteq> 0 then m else Some s)"

definition null_or_black :: "rb \<Rightarrow> addr \<Rightarrow> bool option" where
  "null_or_black s p = (if p = 0 then Some True else IsBlack s p)"

definition node_and_red :: "rb \<Rightarrow> addr \<Rightarrow> bool option" where
  "node_and_red s p = (if p = 0 then Some False else IsRed s p)"

definition ChangeChild :: "rb \<Rightarrow> addr \<Rightarrow> addr \<Rightarrow> addr \<Rightarrow> rb option" where
  "ChangeChild s this new_node parent =
     (if parent \<noteq> 0 then do {
        l \<leftarrow> Left s parent;
        if l = this then SetLeft s parent new_node else SetRight s parent new_node }
      else Some (s\<lparr>root := new_node\<rparr>))"

definition RotateSetParents :: "rb \<Rightarrow> addr \<Rightarrow> addr \<Rightarrow> color \<Rightarrow> rb option" where
  "RotateSetParents s this new_node c = do {
     _ \<leftarrow> check (new_node \<noteq> 0);
     parent \<leftarrow> Parent s this;
     pc \<leftarrow> ParentColor s this;
     s \<leftarrow> SetPC s new_node pc;
     s \<leftarrow> SetParentColor s this new_node c;
     ChangeChild s this new_node parent }"

section \<open>Links\<close>

datatype link = RootLink | LeftLink addr | RightLink addr

definition load_link :: "rb \<Rightarrow> link \<Rightarrow> addr option" where
  "load_link s l = (case l of RootLink \<Rightarrow> Some (root s) | LeftLink p \<Rightarrow> Left s p | RightLink p \<Rightarrow> Right s p)"

definition store_link :: "rb \<Rightarrow> link \<Rightarrow> addr \<Rightarrow> rb option" where
  "store_link s l v =
     (case l of RootLink \<Rightarrow> Some (s\<lparr>root := v\<rparr>) | LeftLink p \<Rightarrow> SetLeft s p v | RightLink p \<Rightarrow> SetRight s p v)"

section \<open>Insertion: linking the node and repairing upwards\<close>

text \<open>
  One round of the loop of \<open>RBTreeNode::Insert\<close> below a red parent. The result says whether
  the loop continues, and with which \<open>node\<close> and \<open>parent\<close>.
\<close>

type_synonym round = "rb \<times> (addr \<times> addr) option"

definition insert_recolor :: "rb \<Rightarrow> addr \<Rightarrow> addr \<Rightarrow> addr \<Rightarrow> round option" where
  "insert_recolor s tmp parent gparent = do {
     s \<leftarrow> SetParentColor s tmp gparent Black;
     s \<leftarrow> SetParentColor s parent gparent Black;
     let node = gparent;
     parent \<leftarrow> Parent s node;
     s \<leftarrow> SetParentColor s node parent Red;
     Some (s, Some (node, parent)) }"

definition insert_left_inner :: "rb \<Rightarrow> addr \<Rightarrow> addr \<Rightarrow> (rb \<times> addr \<times> addr) option" where
  "insert_left_inner s node parent = do {
     tmp \<leftarrow> Left s node;
     s \<leftarrow> SetRight s parent tmp;
     s \<leftarrow> SetLeft s node parent;
     s \<leftarrow> when_node tmp s (SetParentColor s tmp parent Black);
     s \<leftarrow> SetParentColor s parent node Red;
     let parent = node;
     tmp \<leftarrow> Right s node;
     Some (s, parent, tmp) }"

definition insert_left :: "rb \<Rightarrow> addr \<Rightarrow> addr \<Rightarrow> addr \<Rightarrow> addr \<Rightarrow> round option" where
  "insert_left s node parent gparent tmp = do {
     red \<leftarrow> node_and_red s tmp;
     if red then insert_recolor s tmp parent gparent
     else do {
       tmp \<leftarrow> Right s parent;
       (s, parent, tmp) \<leftarrow>
         (if node = tmp then insert_left_inner s node parent else Some (s, parent, tmp));
       s \<leftarrow> SetLeft s gparent tmp;
       s \<leftarrow> SetRight s parent gparent;
       s \<leftarrow> when_node tmp s (SetParentColor s tmp gparent Black);
       s \<leftarrow> RotateSetParents s gparent parent Red;
       Some (s, None) } }"

definition insert_right_inner :: "rb \<Rightarrow> addr \<Rightarrow> addr \<Rightarrow> (rb \<times> addr \<times> addr) option" where
  "insert_right_inner s node parent = do {
     tmp \<leftarrow> Right s node;
     s \<leftarrow> SetLeft s parent tmp;
     s \<leftarrow> SetRight s node parent;
     s \<leftarrow> when_node tmp s (SetParentColor s tmp parent Black);
     s \<leftarrow> SetParentColor s parent node Red;
     let parent = node;
     tmp \<leftarrow> Left s node;
     Some (s, parent, tmp) }"

definition insert_right :: "rb \<Rightarrow> addr \<Rightarrow> addr \<Rightarrow> addr \<Rightarrow> round option" where
  "insert_right s node parent gparent = do {
     tmp \<leftarrow> Left s gparent;
     red \<leftarrow> node_and_red s tmp;
     if red then insert_recolor s tmp parent gparent
     else do {
       tmp \<leftarrow> Left s parent;
       (s, parent, tmp) \<leftarrow>
         (if node = tmp then insert_right_inner s node parent else Some (s, parent, tmp));
       s \<leftarrow> SetRight s gparent tmp;
       s \<leftarrow> SetLeft s parent gparent;
       s \<leftarrow> when_node tmp s (SetParentColor s tmp gparent Black);
       s \<leftarrow> RotateSetParents s gparent parent Red;
       Some (s, None) } }"

partial_function (option) insert_loop :: "rb \<Rightarrow> addr \<Rightarrow> addr \<Rightarrow> rb option" where
  "insert_loop s node parent =
     (if parent = 0 then SetParentColor s node 0 Black
      else do {
        b \<leftarrow> IsBlack s parent;
        if b then Some s
        else do {
          gparent \<leftarrow> Parent s parent;
          tmp \<leftarrow> Right s gparent;
          r \<leftarrow> (if parent \<noteq> tmp then insert_left s node parent gparent tmp
                else insert_right s node parent gparent);
          case snd r of None \<Rightarrow> Some (fst r)
            | Some (node, parent) \<Rightarrow> insert_loop (fst r) node parent } })"

definition RBNode_Insert :: "rb \<Rightarrow> addr \<Rightarrow> addr \<Rightarrow> link \<Rightarrow> rb option" where
  "RBNode_Insert s this parent link = do {
     s \<leftarrow> SetParentColor s this parent Red;
     s \<leftarrow> SetLeft s this 0;
     s \<leftarrow> SetRight s this 0;
     s \<leftarrow> store_link s link this;
     insert_loop s this parent }"


section \<open>Removal: unlinking the node\<close>

text \<open>
  The \<open>do ... while (tmp)\<close> loop that looks for the successor. In the source it starts from
  the \<open>tmp\<close> that still holds \<open>node->Left()\<close>.
\<close>

partial_function (option) successor_loop :: "rb \<Rightarrow> addr \<Rightarrow> addr \<Rightarrow> (addr \<times> addr) option" where
  "successor_loop s successor tmp = do {
     let parent = successor;
     let successor = tmp;
     tmp \<leftarrow> Left s tmp;
     if tmp \<noteq> 0 then successor_loop s successor tmp else Some (parent, successor) }"

definition find_successor :: "rb \<Rightarrow> addr \<Rightarrow> addr \<Rightarrow> (rb \<times> addr \<times> addr \<times> addr) option" where
  "find_successor s child tmp = do {
     let successor = child;
     if tmp = 0 then do {
       let parent = successor;
       child2 \<leftarrow> Right s successor;
       Some (s, parent, successor, child2) }
     else do {
       (parent, successor) \<leftarrow> successor_loop s successor tmp;
       child2 \<leftarrow> Right s successor;
       s \<leftarrow> SetLeft s parent child2;
       s \<leftarrow> SetRight s successor child;
       s \<leftarrow> SetParent s child successor;
       Some (s, parent, successor, child2) } }"

definition erase_two :: "rb \<Rightarrow> addr \<Rightarrow> addr \<Rightarrow> addr \<Rightarrow> (rb \<times> addr) option" where
  "erase_two s node child tmp = do {
     (s, parent, successor, child2) \<leftarrow> find_successor s child tmp;
     tmp \<leftarrow> Left s node;
     s \<leftarrow> SetLeft s successor tmp;
     s \<leftarrow> SetParent s tmp successor;
     pc \<leftarrow> ParentColor s node;
     let tmp = pc_Parent pc;
     s \<leftarrow> ChangeChild s node successor tmp;
     if child2 \<noteq> 0 then do {
       s \<leftarrow> SetPC s successor pc;
       s \<leftarrow> SetParentColor s child2 parent Black;
       Some (s, 0) }
     else do {
       pc2 \<leftarrow> ParentColor s successor;
       s \<leftarrow> SetPC s successor pc;
       Some (s, if pc_IsBlack pc2 then parent else 0) } }"

text \<open>The three cases of the first half of \<open>RBTreeNode::Erase\<close>; the result is \<open>rebalance\<close>.\<close>

definition erase_unlink :: "rb \<Rightarrow> addr \<Rightarrow> (rb \<times> addr) option" where
  "erase_unlink s node = do {
     child \<leftarrow> Right s node;
     tmp \<leftarrow> Left s node;
     if tmp = 0 then do {
       pc \<leftarrow> ParentColor s node;
       let parent = pc_Parent pc;
       s \<leftarrow> ChangeChild s node child parent;
       if child \<noteq> 0 then do { s \<leftarrow> SetPC s child pc; Some (s, 0) }
       else Some (s, if pc_IsBlack pc then parent else 0) }
     else if child = 0 then do {
       pc \<leftarrow> ParentColor s node;
       s \<leftarrow> SetPC s tmp pc;
       let parent = pc_Parent pc;
       s \<leftarrow> ChangeChild s node tmp parent;
       Some (s, 0) }
     else erase_two s node child tmp }"

section \<open>Removal: repairing upwards\<close>

definition rebalance_red_right :: "rb \<Rightarrow> addr \<Rightarrow> addr \<Rightarrow> (rb \<times> addr) option" where
  "rebalance_red_right s parent sibling = do {
     red \<leftarrow> IsRed s sibling;
     if red then do {
       tmp1 \<leftarrow> Left s sibling;
       s \<leftarrow> SetRight s parent tmp1;
       s \<leftarrow> SetLeft s sibling parent;
       s \<leftarrow> SetParentColor s tmp1 parent Black;
       s \<leftarrow> RotateSetParents s parent sibling Red;
       Some (s, tmp1) }
     else Some (s, sibling) }"

definition rebalance_recolor :: "rb \<Rightarrow> addr \<Rightarrow> addr \<Rightarrow> round option" where
  "rebalance_recolor s parent sibling = do {
     s \<leftarrow> SetParentColor s sibling parent Red;
     red \<leftarrow> IsRed s parent;
     if red then do { s \<leftarrow> SetBlack s parent; Some (s, None) }
     else do {
       let node = parent;
       parent \<leftarrow> Parent s node;
       if parent \<noteq> 0 then Some (s, Some (parent, node)) else Some (s, None) } }"

definition rebalance_finish_right :: "rb \<Rightarrow> addr \<Rightarrow> addr \<Rightarrow> addr \<Rightarrow> round option" where
  "rebalance_finish_right s parent sibling tmp1 = do {
     tmp2 \<leftarrow> Left s sibling;
     s \<leftarrow> SetRight s parent tmp2;
     s \<leftarrow> SetLeft s sibling parent;
     s \<leftarrow> SetParentColor s tmp1 sibling Black;
     s \<leftarrow> when_node tmp2 s (SetParent s tmp2 parent);
     s \<leftarrow> RotateSetParents s parent sibling Black;
     Some (s, None) }"

definition rebalance_black_right :: "rb \<Rightarrow> addr \<Rightarrow> addr \<Rightarrow> round option" where
  "rebalance_black_right s parent sibling = do {
     tmp1 \<leftarrow> Right s sibling;
     b1 \<leftarrow> null_or_black s tmp1;
     if b1 then do {
       tmp2 \<leftarrow> Left s sibling;
       b2 \<leftarrow> null_or_black s tmp2;
       if b2 then rebalance_recolor s parent sibling
       else do {
         tmp1 \<leftarrow> Right s tmp2;
         s \<leftarrow> SetLeft s sibling tmp1;
         s \<leftarrow> SetRight s tmp2 sibling;
         s \<leftarrow> SetRight s parent tmp2;
         s \<leftarrow> when_node tmp1 s (SetParentColor s tmp1 sibling Black);
         let tmp1 = sibling;
         let sibling = tmp2;
         rebalance_finish_right s parent sibling tmp1 } }
     else rebalance_finish_right s parent sibling tmp1 }"

definition rebalance_right :: "rb \<Rightarrow> addr \<Rightarrow> addr \<Rightarrow> round option" where
  "rebalance_right s parent sibling = do {
     (s, sibling) \<leftarrow> rebalance_red_right s parent sibling;
     rebalance_black_right s parent sibling }"

definition rebalance_red_left :: "rb \<Rightarrow> addr \<Rightarrow> addr \<Rightarrow> (rb \<times> addr) option" where
  "rebalance_red_left s parent sibling = do {
     red \<leftarrow> IsRed s sibling;
     if red then do {
       tmp1 \<leftarrow> Right s sibling;
       s \<leftarrow> SetLeft s parent tmp1;
       s \<leftarrow> SetRight s sibling parent;
       s \<leftarrow> SetParentColor s tmp1 parent Black;
       s \<leftarrow> RotateSetParents s parent sibling Red;
       Some (s, tmp1) }
     else Some (s, sibling) }"

definition rebalance_finish_left :: "rb \<Rightarrow> addr \<Rightarrow> addr \<Rightarrow> addr \<Rightarrow> round option" where
  "rebalance_finish_left s parent sibling tmp1 = do {
     tmp2 \<leftarrow> Right s sibling;
     s \<leftarrow> SetLeft s parent tmp2;
     s \<leftarrow> SetRight s sibling parent;
     s \<leftarrow> SetParentColor s tmp1 sibling Black;
     s \<leftarrow> when_node tmp2 s (SetParent s tmp2 parent);
     s \<leftarrow> RotateSetParents s parent sibling Black;
     Some (s, None) }"

definition rebalance_black_left :: "rb \<Rightarrow> addr \<Rightarrow> addr \<Rightarrow> round option" where
  "rebalance_black_left s parent sibling = do {
     tmp1 \<leftarrow> Left s sibling;
     b1 \<leftarrow> null_or_black s tmp1;
     if b1 then do {
       tmp2 \<leftarrow> Right s sibling;
       b2 \<leftarrow> null_or_black s tmp2;
       if b2 then rebalance_recolor s parent sibling
       else do {
         tmp1 \<leftarrow> Left s tmp2;
         s \<leftarrow> SetRight s sibling tmp1;
         s \<leftarrow> SetLeft s tmp2 sibling;
         s \<leftarrow> SetLeft s parent tmp2;
         s \<leftarrow> when_node tmp1 s (SetParentColor s tmp1 sibling Black);
         let tmp1 = sibling;
         let sibling = tmp2;
         rebalance_finish_left s parent sibling tmp1 } }
     else rebalance_finish_left s parent sibling tmp1 }"

definition rebalance_left :: "rb \<Rightarrow> addr \<Rightarrow> addr \<Rightarrow> round option" where
  "rebalance_left s parent sibling = do {
     (s, sibling) \<leftarrow> rebalance_red_left s parent sibling;
     rebalance_black_left s parent sibling }"

partial_function (option) rebalance_loop :: "rb \<Rightarrow> addr \<Rightarrow> addr \<Rightarrow> rb option" where
  "rebalance_loop s parent node = do {
     sibling \<leftarrow> Right s parent;
     r \<leftarrow> (if node \<noteq> sibling then rebalance_right s parent sibling
          else do { sibling \<leftarrow> Left s parent; rebalance_left s parent sibling });
     case snd r of None \<Rightarrow> Some (fst r)
       | Some (parent, node) \<Rightarrow> rebalance_loop (fst r) parent node }"

definition RBNode_Erase :: "rb \<Rightarrow> addr \<Rightarrow> rb option" where
  "RBNode_Erase s this = do {
     (s, rebalance) \<leftarrow> erase_unlink s this;
     if rebalance \<noteq> 0 then rebalance_loop s rebalance 0 else Some s }"

section \<open>Walking the tree\<close>

partial_function (option) leftmost :: "rb \<Rightarrow> addr \<Rightarrow> addr option" where
  "leftmost s node = do { l \<leftarrow> Left s node; if l \<noteq> 0 then leftmost s l else Some node }"

partial_function (option) rightmost :: "rb \<Rightarrow> addr \<Rightarrow> addr option" where
  "rightmost s node = do { r \<leftarrow> Right s node; if r \<noteq> 0 then rightmost s r else Some node }"

partial_function (option) climb_right :: "rb \<Rightarrow> addr \<Rightarrow> addr option" where
  "climb_right s node = do {
     parent \<leftarrow> Parent s node;
     if parent = 0 then Some 0
     else do { r \<leftarrow> Right s parent; if node = r then climb_right s parent else Some parent } }"

partial_function (option) climb_left :: "rb \<Rightarrow> addr \<Rightarrow> addr option" where
  "climb_left s node = do {
     parent \<leftarrow> Parent s node;
     if parent = 0 then Some 0
     else do { l \<leftarrow> Left s parent; if node = l then climb_left s parent else Some parent } }"

definition Next :: "rb \<Rightarrow> addr \<Rightarrow> addr option" where
  "Next s this = do {
     linked \<leftarrow> RBNode_IsLinked s this;
     if \<not> linked then Some 0
     else do {
       r \<leftarrow> Right s this;
       if r \<noteq> 0 then leftmost s r else climb_right s this } }"

definition Prev :: "rb \<Rightarrow> addr \<Rightarrow> addr option" where
  "Prev s this = do {
     linked \<leftarrow> RBNode_IsLinked s this;
     if \<not> linked then Some 0
     else do {
       l \<leftarrow> Left s this;
       if l \<noteq> 0 then rightmost s l else climb_left s this } }"

definition RBTree_Begin :: "rb \<Rightarrow> addr option" where
  "RBTree_Begin s = (if root s = 0 then Some 0 else leftmost s (root s))"

definition RBTree_RBegin :: "rb \<Rightarrow> addr option" where
  "RBTree_RBegin s = (if root s = 0 then Some 0 else rightmost s (root s))"

definition RBTree_Empty :: "rb \<Rightarrow> bool" where
  "RBTree_Empty s = (rb_len s = 0)"

definition RBTree_init :: "(addr \<rightharpoonup> rb_node) \<Rightarrow> rb" where
  "RBTree_init m = \<lparr>nodes = m, root = 0, rb_len = 0\<rparr>"

section \<open>The keyed operations\<close>

text \<open>
  \<open>key\<close> is \<open>KeyOfNode\<close> and \<open>lt\<close> is \<open>Compare\<close>, the two function objects the
  template takes.
\<close>

partial_function (option) lower_loop ::
  "(addr \<Rightarrow> 'k) \<Rightarrow> ('k \<Rightarrow> 'k \<Rightarrow> bool) \<Rightarrow> rb \<Rightarrow> 'k \<Rightarrow> addr \<Rightarrow> addr \<Rightarrow> addr option" where
  "lower_loop key lt s k node found =
     (if node = 0 then Some found
      else if \<not> lt (key node) k
      then do { l \<leftarrow> Left s node; lower_loop key lt s k l node }
      else do { r \<leftarrow> Right s node; lower_loop key lt s k r found })"

definition LowerBound :: "(addr \<Rightarrow> 'k) \<Rightarrow> ('k \<Rightarrow> 'k \<Rightarrow> bool) \<Rightarrow> rb \<Rightarrow> 'k \<Rightarrow> addr option" where
  "LowerBound key lt s k = lower_loop key lt s k (root s) 0"

definition Find :: "(addr \<Rightarrow> 'k) \<Rightarrow> ('k \<Rightarrow> 'k \<Rightarrow> bool) \<Rightarrow> rb \<Rightarrow> 'k \<Rightarrow> addr option" where
  "Find key lt s k = do {
     found \<leftarrow> lower_loop key lt s k (root s) 0;
     if found = 0 then Some 0
     else Some (if \<not> lt k (key found) then found else 0) }"

partial_function (option) upper_loop ::
  "(addr \<Rightarrow> 'k) \<Rightarrow> ('k \<Rightarrow> 'k \<Rightarrow> bool) \<Rightarrow> rb \<Rightarrow> 'k \<Rightarrow> addr \<Rightarrow> addr \<Rightarrow> addr option" where
  "upper_loop key lt s k node found =
     (if node = 0 then Some found
      else if lt k (key node)
      then do { l \<leftarrow> Left s node; upper_loop key lt s k l found }
      else do { r \<leftarrow> Right s node; upper_loop key lt s k r node })"

definition UpperBound :: "(addr \<Rightarrow> 'k) \<Rightarrow> ('k \<Rightarrow> 'k \<Rightarrow> bool) \<Rightarrow> rb \<Rightarrow> 'k \<Rightarrow> addr option" where
  "UpperBound key lt s k = do {
     found \<leftarrow> upper_loop key lt s k (root s) 0;
     if found = 0 \<or> lt k (key found) then Some found else Next s found }"

partial_function (option) insert_descend ::
  "(addr \<Rightarrow> 'k) \<Rightarrow> ('k \<Rightarrow> 'k \<Rightarrow> bool) \<Rightarrow> rb \<Rightarrow> addr \<Rightarrow> link \<Rightarrow> addr \<Rightarrow> addr \<Rightarrow> (link \<times> addr \<times> addr) option" where
  "insert_descend key lt s node link parent check_node = do {
     p \<leftarrow> load_link s link;
     if p = 0 then Some (link, parent, check_node)
     else if lt (key node) (key p)
     then insert_descend key lt s node (LeftLink p) p check_node
     else insert_descend key lt s node (RightLink p) p p }"

definition Insert :: "(addr \<Rightarrow> 'k) \<Rightarrow> ('k \<Rightarrow> 'k \<Rightarrow> bool) \<Rightarrow> rb \<Rightarrow> addr \<Rightarrow> (rb \<times> bool) option" where
  "Insert key lt s node = do {
     _ \<leftarrow> check (node \<noteq> 0);
     (link, parent, check_node) \<leftarrow> insert_descend key lt s node RootLink 0 0;
     if check_node \<noteq> 0 \<and> \<not> lt (key check_node) (key node) then Some (s, False)
     else do {
       s \<leftarrow> RBNode_Insert s node parent link;
       Some (s\<lparr>rb_len := rb_len s + 1\<rparr>, True) } }"

partial_function (option) insert_equal_descend ::
  "(addr \<Rightarrow> 'k) \<Rightarrow> ('k \<Rightarrow> 'k \<Rightarrow> bool) \<Rightarrow> rb \<Rightarrow> addr \<Rightarrow> link \<Rightarrow> addr \<Rightarrow> (link \<times> addr) option" where
  "insert_equal_descend key lt s node link parent = do {
     p \<leftarrow> load_link s link;
     if p = 0 then Some (link, parent)
     else if lt (key node) (key p)
     then insert_equal_descend key lt s node (LeftLink p) p
     else insert_equal_descend key lt s node (RightLink p) p }"

definition InsertEqual :: "(addr \<Rightarrow> 'k) \<Rightarrow> ('k \<Rightarrow> 'k \<Rightarrow> bool) \<Rightarrow> rb \<Rightarrow> addr \<Rightarrow> rb option" where
  "InsertEqual key lt s node = do {
     _ \<leftarrow> check (node \<noteq> 0);
     (link, parent) \<leftarrow> insert_equal_descend key lt s node RootLink 0;
     s \<leftarrow> RBNode_Insert s node parent link;
     Some (s\<lparr>rb_len := rb_len s + 1\<rparr>) }"

definition EraseNode :: "rb \<Rightarrow> addr \<Rightarrow> (rb \<times> addr) option" where
  "EraseNode s node = do {
     _ \<leftarrow> check (node \<noteq> 0);
     tmp \<leftarrow> Next s node;
     s \<leftarrow> RBNode_Erase s node;
     Some (s\<lparr>rb_len := rb_len s - 1\<rparr>, tmp) }"

partial_function (option) erase_range :: "rb \<Rightarrow> addr \<Rightarrow> addr \<Rightarrow> 64 word \<Rightarrow> (rb \<times> 64 word) option" where
  "erase_range s node_begin node_end n =
     (if node_begin = node_end then Some (s, n)
      else do {
        r \<leftarrow> EraseNode s node_begin;
        erase_range (fst r) (snd r) node_end (n + 1) })"

definition EraseKey :: "(addr \<Rightarrow> 'k) \<Rightarrow> ('k \<Rightarrow> 'k \<Rightarrow> bool) \<Rightarrow> rb \<Rightarrow> 'k \<Rightarrow> (rb \<times> 64 word) option" where
  "EraseKey key lt s k = do {
     node_begin \<leftarrow> LowerBound key lt s k;
     if node_begin = 0 then Some (s, 0)
     else do {
       node_end \<leftarrow> UpperBound key lt s k;
       erase_range s node_begin node_end 0 } }"

end
