(* ===== verification/RBRep.thy ===== *)
theory RBRep
  imports RBTree
begin

text \<open>
  How a heap represents a tree: \<open>rep s K t\<close> says that the tree object \<open>s\<close> holds the
  tree \<open>fill K t\<close>, cut at the hole of \<open>K\<close>. The lemmas evaluate the primitive reads and
  writes under this predicate, so that a whole round of the pointer code runs by the simplifier.
\<close>

section \<open>The interface of the packed word\<close>

text \<open>
  A node lives at an address that is a multiple of 4, so the two low bits of a parent pointer are
  free. The rest of the development uses the packed word only through these laws.
\<close>

definition aligned :: "addr \<Rightarrow> bool" where
  "aligned p \<longleftrightarrow> p AND 3 = 0"

locale packed_parent =
  fixes pack :: "addr \<Rightarrow> color \<Rightarrow> 64 word"
    and parent_of :: "64 word \<Rightarrow> addr"
    and is_black :: "64 word \<Rightarrow> bool"
    and ok :: "addr \<Rightarrow> bool"
  assumes parent_of_pack: "ok p \<Longrightarrow> parent_of (pack p c) = p"
    and is_black_pack: "ok p \<Longrightarrow> is_black (pack p c) \<longleftrightarrow> c = Black"
begin

lemma pack_inject: "ok p \<Longrightarrow> ok q \<Longrightarrow> pack p c = pack q d \<longleftrightarrow> p = q \<and> c = d"
  by (metis parent_of_pack is_black_pack color.exhaust)

end

lemma aligned_0 [simp]: "aligned 0"
  by (simp add: aligned_def)

lemma aligned_mask: "aligned p \<Longrightarrow> p AND NOT 3 = p"
proof -
  assume a: "aligned p"
  have "p = p AND (3 OR NOT 3)" by (simp only: bit.disj_cancel_right and.right_neutral)
  also have "\<dots> = (p AND 3) OR (p AND NOT 3)" by (rule bit.conj_disj_distrib)
  also have "\<dots> = p AND NOT 3" using a by (simp only: aligned_def or.left_neutral)
  finally show "p AND NOT 3 = p" by (rule sym)
qed

lemmas aligned_masks = aligned_mask aligned_mask [simplified]

lemma aligned_and_1: "aligned p \<Longrightarrow> p AND 1 = 0"
proof -
  assume "aligned p"
  then have "(p AND 3) AND 1 = 0" by (simp add: aligned_def)
  then show "p AND 1 = 0" by (simp add: and.assoc)
qed

lemma color_bit_simps [simp]: "color_bit Red = 0" "color_bit Black = 1"
  by (simp_all add: color_bit_def)

lemma pack_and_1: "aligned p \<Longrightarrow> pack p c AND 1 = color_bit c"
  by (cases c) (simp_all add: pack_def bit.conj_disj_distrib2 aligned_and_1)

interpretation pk: packed_parent pack pc_Parent pc_IsBlack aligned
proof
  fix p c
  assume p: "aligned p"
  show "pc_Parent (pack p c) = p"
    using p by (cases c) (simp_all add: pack_def pc_Parent_def bit.conj_disj_distrib2 aligned_masks)
  show "pc_IsBlack (pack p c) \<longleftrightarrow> c = Black"
    using p by (cases c) (simp_all add: pc_IsBlack_def pack_and_1)
qed

lemma pack_set_parent: "aligned p \<Longrightarrow> q OR (pack p c AND 1) = pack q c"
  by (simp only: pack_and_1) (simp add: pack_def)

lemma pack_set_black: "pack p c OR 1 = pack p Black"
  by (cases c) (simp_all add: pack_def or.assoc)

lemma pack_ne_self: "aligned p \<Longrightarrow> aligned a \<Longrightarrow> p \<noteq> a \<Longrightarrow> pack p c \<noteq> a"
proof
  assume a: "aligned p" "aligned a" "p \<noteq> a" "pack p c = a"
  have "pc_Parent a = a" using a(2) by (simp add: pc_Parent_def aligned_masks)
  with a pk.parent_of_pack[of p c] show False by simp
qed

lemmas pack_simps = pk.parent_of_pack pk.is_black_pack pack_set_parent pack_set_black

section \<open>Representation\<close>

fun tree_at :: "(addr \<rightharpoonup> rb_node) \<Rightarrow> addr \<Rightarrow> shape \<Rightarrow> bool" where
  "tree_at m par Leaf = True"
| "tree_at m par (Node c l a r) =
     (a \<noteq> 0 \<and> aligned a \<and> m a = Some \<lparr>rb_pc = pack par c, rb_left = rp l, rb_right = rp r\<rparr> \<and>
      tree_at m a l \<and> tree_at m a r)"

fun ctx_at :: "(addr \<rightharpoonup> rb_node) \<Rightarrow> addr \<Rightarrow> ctx \<Rightarrow> addr \<Rightarrow> bool" where
  "ctx_at m rt [] p = (rt = p)"
| "ctx_at m rt (LF c a r # K) p =
     (a \<noteq> 0 \<and> aligned a \<and> m a = Some \<lparr>rb_pc = pack (cparent K) c, rb_left = p, rb_right = rp r\<rparr> \<and>
      tree_at m a r \<and> aligned (cparent K) \<and> ctx_at m rt K a)"
| "ctx_at m rt (RF c l a # K) p =
     (a \<noteq> 0 \<and> aligned a \<and> m a = Some \<lparr>rb_pc = pack (cparent K) c, rb_left = rp l, rb_right = p\<rparr> \<and>
      tree_at m a l \<and> aligned (cparent K) \<and> ctx_at m rt K a)"

definition rep :: "rb \<Rightarrow> ctx \<Rightarrow> shape \<Rightarrow> bool" where
  "rep s K t \<longleftrightarrow> tree_at (nodes s) (cparent K) t \<and> ctx_at (nodes s) (root s) K (rp t) \<and>
     distinct (inorder (fill K t))"

text \<open>\<open>touches A s s'\<close>: nothing outside \<open>A\<close> has changed, the length neither.\<close>

definition touches :: "addr set \<Rightarrow> rb \<Rightarrow> rb \<Rightarrow> bool" where
  "touches A s s' \<longleftrightarrow> (\<forall>x. x \<notin> A \<longrightarrow> nodes s' x = nodes s x) \<and> rb_len s' = rb_len s"

lemma tree_at_cong: "(\<And>x. x \<in> set (inorder t) \<Longrightarrow> m' x = m x) \<Longrightarrow> tree_at m' par t = tree_at m par t"
  by (induction t arbitrary: par) auto

lemma tree_at_upd [simp]: "x \<notin> set (inorder t) \<Longrightarrow> tree_at (m(x := v)) par t = tree_at m par t"
  by (rule tree_at_cong) auto

lemma ctx_at_cong: "(\<And>x. x \<in> kaddrs K \<Longrightarrow> m' x = m x) \<Longrightarrow> ctx_at m' rt K p = ctx_at m rt K p"
proof (induction K arbitrary: p)
  case (Cons F K)
  show ?case
  proof (cases F)
    case (LF c a r)
    then have "tree_at m' a r = tree_at m a r" using Cons.prems by (intro tree_at_cong) simp
    with LF Cons show ?thesis by simp
  next
    case (RF c l a)
    then have "tree_at m' a l = tree_at m a l" using Cons.prems by (intro tree_at_cong) simp
    with RF Cons show ?thesis by simp
  qed
qed simp

lemma ctx_at_upd [simp]: "x \<notin> kaddrs K \<Longrightarrow> ctx_at (m(x := v)) rt K p = ctx_at m rt K p"
  by (rule ctx_at_cong) auto

lemma tree_at_addrs: "tree_at m par t \<Longrightarrow> x \<in> set (inorder t) \<Longrightarrow> x \<noteq> 0 \<and> aligned x \<and> (\<exists>n. m x = Some n)"
  by (induction t arbitrary: par) auto

lemma rp_in: "t \<noteq> Leaf \<Longrightarrow> rp t \<in> set (inorder t)"
  by (cases t) auto

lemma rp_0_iff: "tree_at m par t \<Longrightarrow> rp t = 0 \<longleftrightarrow> t = Leaf"
  by (cases t) auto

lemma ctx_at_cparent: "ctx_at m rt K p \<Longrightarrow> aligned (cparent K) \<and> (cparent K = 0 \<longleftrightarrow> K = [])"
  by (cases "(m, rt, K, p)" rule: ctx_at.cases) auto

lemma cparent_in: "K \<noteq> [] \<Longrightarrow> cparent K \<in> kaddrs K"
  by (cases K rule: cparent.cases) auto

lemma tree_at_override [simp]:
  "set (inorder t) \<inter> A = {} \<Longrightarrow> tree_at (override_on m f A) par t = tree_at m par t"
  by (rule tree_at_cong) (auto simp: override_on_def)

definition ctx_distinct :: "ctx \<Rightarrow> bool" where
  "ctx_distinct K \<longleftrightarrow> distinct (lefts K @ rights K)"

lemma ctx_distinct_simps [simp]:
  "ctx_distinct []"
  "ctx_distinct (LF c a r # K) \<longleftrightarrow> a \<notin> set (inorder r) \<and> a \<notin> kaddrs K \<and> distinct (inorder r) \<and>
     set (inorder r) \<inter> kaddrs K = {} \<and> ctx_distinct K"
  "ctx_distinct (RF c l a # K) \<longleftrightarrow> a \<notin> set (inorder l) \<and> a \<notin> kaddrs K \<and> distinct (inorder l) \<and>
     set (inorder l) \<inter> kaddrs K = {} \<and> ctx_distinct K"
  by (auto simp: ctx_distinct_def kaddrs_def)

lemma rep_iff:
  "rep s K t \<longleftrightarrow> tree_at (nodes s) (cparent K) t \<and> ctx_at (nodes s) (root s) K (rp t) \<and>
     distinct (inorder t) \<and> set (inorder t) \<inter> kaddrs K = {} \<and> ctx_distinct K"
  by (auto simp: rep_def inorder_fill kaddrs_def ctx_distinct_def)

lemmas disjoint_simps = Int_Un_distrib Int_Un_distrib2

lemma rep_fill_iff: "rep s K t \<longleftrightarrow> rep s [] (fill K t)"
proof (induction K t rule: fill.induct)
  case (2 c a r K t)
  then show ?case by (auto simp: rep_def dest: ctx_at_cparent)
next
  case (3 c l a K t)
  then show ?case by (auto simp: rep_def dest: ctx_at_cparent)
qed simp

lemma set_inorder_fill: "set (inorder (fill K t)) = set (inorder t) \<union> kaddrs K"
  by (auto simp: inorder_fill kaddrs_def)

lemma touches_refl [simp]: "touches A s s"
  by (simp add: touches_def)

lemma touches_trans: "touches A s s' \<Longrightarrow> touches A s' s'' \<Longrightarrow> touches A s s''"
  by (simp add: touches_def)

lemma rp_notin: "a \<notin> set (inorder t) \<Longrightarrow> a \<noteq> 0 \<Longrightarrow> rp t \<noteq> a \<and> a \<noteq> rp t"
  by (cases t) auto

text \<open>
  \<open>stored m t\<close>: the heap holds \<open>t\<close>, whatever its root says about its parent.
  \<open>repaint m t par c\<close> is the heap after the root of \<open>t\<close> got a new parent and colour.
\<close>

definition stored :: "(addr \<rightharpoonup> rb_node) \<Rightarrow> shape \<Rightarrow> bool" where
  "stored m t \<longleftrightarrow> (\<exists>q. aligned q \<and> tree_at m q t)"

definition repaint :: "(addr \<rightharpoonup> rb_node) \<Rightarrow> shape \<Rightarrow> addr \<Rightarrow> color \<Rightarrow> (addr \<rightharpoonup> rb_node)" where
  "repaint m t par c = (case t of Leaf \<Rightarrow> m
     | Node _ l a r \<Rightarrow> m(a \<mapsto> \<lparr>rb_pc = pack par c, rb_left = rp l, rb_right = rp r\<rparr>))"

lemma storedI: "tree_at m q t \<Longrightarrow> aligned q \<Longrightarrow> stored m t"
  by (auto simp: stored_def)

lemma stored_upd [simp]: "x \<notin> set (inorder t) \<Longrightarrow> stored (m(x := v)) t = stored m t"
  by (simp add: stored_def)

lemma stored_repaint [simp]:
  "set (inorder t) \<inter> set (inorder u) = {} \<Longrightarrow> stored (repaint m u par c) t = stored m t"
  "set (inorder u) \<inter> set (inorder t) = {} \<Longrightarrow> stored (repaint m u par c) t = stored m t"
  by (cases u; simp add: repaint_def)+

lemma repaint_apply [simp]: "x \<notin> set (inorder t) \<Longrightarrow> repaint m t par c x = m x"
  by (cases t) (auto simp: repaint_def)

lemma tree_at_repaint_other [simp]:
  "set (inorder u) \<inter> set (inorder t) = {} \<Longrightarrow> tree_at (repaint m t par c) q u = tree_at m q u"
  "set (inorder t) \<inter> set (inorder u) = {} \<Longrightarrow> tree_at (repaint m t par c) q u = tree_at m q u"
  by (cases t; simp add: repaint_def)+

lemma tree_at_repaint [simp]:
  "stored m t \<Longrightarrow> distinct (inorder t) \<Longrightarrow> tree_at (repaint m t par c) par (paint c t)"
  by (cases t) (auto simp: repaint_def stored_def)

lemma paint_root_color [simp]: "paint (root_color t) t = t"
  by (cases t) auto

lemma tree_at_repaint_same [simp]:
  "stored m t \<Longrightarrow> distinct (inorder t) \<Longrightarrow> c = root_color t \<Longrightarrow> tree_at (repaint m t par c) par t"
  using tree_at_repaint[of m t par "root_color t"] by simp

lemma ctx_at_repaint [simp]:
  "set (inorder t) \<inter> kaddrs K = {} \<Longrightarrow> ctx_at (repaint m t par c) rt K p = ctx_at m rt K p"
  by (cases t) (simp_all add: repaint_def)

section \<open>Running the primitives\<close>

lemma returns_upd_node [exec_simps]:
  "returns (upd_node s p f) Q \<longleftrightarrow>
   p \<noteq> 0 \<and> returns (nodes s p) (\<lambda>n. Q (s\<lparr>nodes := (nodes s)(p \<mapsto> f n)\<rparr>))"
  by (cases "p = 0") (simp_all add: upd_node_def exec_simps)

lemma IsBlack_eq: "IsBlack s p = map_option (\<lambda>n. pc_IsBlack (rb_pc n)) (deref (nodes s) p)"
  by (simp add: IsBlack_def pc_IsBlack_def)

lemma returns_deref [exec_simps]: "returns (deref h p) Q \<longleftrightarrow> p \<noteq> 0 \<and> returns (h p) Q"
  by (cases "p = 0") (simp_all add: exec_simps)

lemmas [exec_simps] =
  SetPC_def SetParentColor_def SetParent_def SetBlack_def SetRed_def SetLeft_def SetRight_def
  ParentColor_def Parent_def IsBlack_eq IsRed_def Left_def Right_def
  RotateSetParents_def pack_simps Let_def

lemma returns_recolor:
  "stored (nodes s) t \<Longrightarrow>
   returns (when_node (rp t) s (SetParentColor s (rp t) par c)) Q \<longleftrightarrow>
   Q (s\<lparr>nodes := repaint (nodes s) t par c\<rparr>)"
  by (cases t) (auto simp: when_node_def exec_simps repaint_def stored_def)

lemma returns_reparent:
  "stored (nodes s) t \<Longrightarrow>
   returns (when_node (rp t) s (SetParent s (rp t) par)) Q \<longleftrightarrow>
   Q (s\<lparr>nodes := repaint (nodes s) t par (root_color t)\<rparr>)"
  by (cases t) (auto simp: when_node_def exec_simps repaint_def stored_def)

lemmas [exec_simps] = returns_recolor [unfolded SetParentColor_def] returns_reparent [unfolded SetParent_def]

lemma returns_node_and_red [exec_simps]:
  "stored (nodes s) t \<Longrightarrow> returns (node_and_red s (rp t)) Q \<longleftrightarrow> Q (root_color t = Red)"
  by (cases t) (auto simp: node_and_red_def exec_simps stored_def)

lemma returns_null_or_black [exec_simps]:
  "stored (nodes s) t \<Longrightarrow> returns (null_or_black s (rp t)) Q \<longleftrightarrow> Q (root_color t = Black)"
  by (cases t) (auto simp: null_or_black_def exec_simps stored_def)

lemma returns_ChangeChild:
  assumes "ctx_at (nodes s) (root s) K a" "a \<noteq> 0" "a \<notin> kaddrs K" "ctx_distinct K"
    and Q: "\<And>s' f. ctx_at (nodes s') (root s') K b \<Longrightarrow> nodes s' = override_on (nodes s) f (kaddrs K) \<Longrightarrow>
      rb_len s' = rb_len s \<Longrightarrow> Q s'"
  shows "returns (ChangeChild s a b (cparent K)) Q"
proof (cases K)
  case Nil
  have "Q (s\<lparr>root := b\<rparr>)" using Nil by (intro Q[where f = "nodes s"]) simp_all
  with Nil show ?thesis by (simp add: ChangeChild_def exec_simps)
next
  case (Cons F K')
  show ?thesis
  proof (cases F)
    case (LF c x r)
    let ?m = "(nodes s)(x \<mapsto> \<lparr>rb_pc = pack (cparent K') c, rb_left = b, rb_right = rp r\<rparr>)"
    have "Q (s\<lparr>nodes := ?m\<rparr>)"
      using assms(1-4) Cons LF by (intro Q[where f = ?m]) (auto simp: override_on_def)
    with assms(1-4) Cons LF show ?thesis by (simp add: ChangeChild_def exec_simps)
  next
    case (RF c l x)
    let ?m = "(nodes s)(x \<mapsto> \<lparr>rb_pc = pack (cparent K') c, rb_left = rp l, rb_right = b\<rparr>)"
    have "Q (s\<lparr>nodes := ?m\<rparr>)"
      using assms(1-4) Cons RF by (intro Q[where f = ?m]) (auto simp: override_on_def)
    moreover have "rp l \<noteq> a" using assms(1-4) Cons RF rp_in[of l] by (cases "l = Leaf") auto
    ultimately show ?thesis using assms(1-4) Cons RF by (simp add: ChangeChild_def exec_simps)
  qed
qed


lemma node_idioms [exec_simps]:
  "p \<noteq> 0 \<Longrightarrow> node_and_red s p = IsRed s p"
  "p \<noteq> 0 \<Longrightarrow> null_or_black s p = IsBlack s p"
  "p \<noteq> 0 \<Longrightarrow> when_node p s m = m"
  "when_node 0 s m = Some s"
  "null_or_black s 0 = Some True"
  "node_and_red s 0 = Some False"
  by (simp_all add: node_and_red_def null_or_black_def when_node_def)

lemmas run_simps = rep_iff disjoint_simps exec_simps storedI rp_notin

lemmas final_simps = disjoint_simps storedI touches_def

section \<open>Moving through the tree\<close>

lemma rep_LF: "rep s K (Node c l a r) \<longleftrightarrow> rep s (LF c a r # K) l"
  using rep_fill_iff[of s K "Node c l a r"] rep_fill_iff[of s "LF c a r # K" l] by simp

lemma rep_RF: "rep s K (Node c l a r) \<longleftrightarrow> rep s (RF c l a # K) r"
  using rep_fill_iff[of s K "Node c l a r"] rep_fill_iff[of s "RF c l a # K" r] by simp

lemma rep_nonnull: "rep s K (Node c l a r) \<Longrightarrow> a \<noteq> 0"
  by (simp add: rep_iff)

section \<open>The tree as its list of nodes\<close>

text \<open>
  \<open>rb_holds s xs\<close>: the object is a red-black tree whose in-order list of nodes is \<open>xs\<close>,
  with a matching length field. \<open>fresh_node\<close> is a node object that is in no tree.
\<close>

definition rb_holds :: "rb \<Rightarrow> addr list \<Rightarrow> bool" where
  "rb_holds s xs \<longleftrightarrow>
     (\<exists>t. rep s [] t \<and> red_black t \<and> inorder t = xs) \<and> rb_len s = of_nat (length xs)"

definition fresh_node :: "rb \<Rightarrow> addr list \<Rightarrow> addr \<Rightarrow> bool" where
  "fresh_node s xs a \<longleftrightarrow> a \<noteq> 0 \<and> aligned a \<and> nodes s a \<noteq> None \<and> a \<notin> set xs"

lemma rb_holds_length_upd: "rep (s\<lparr>rb_len := n\<rparr>) K t \<longleftrightarrow> rep s K t"
  by (simp add: rep_iff)

lemma rep_zipper:
  "a \<in> set (inorder t) \<Longrightarrow> \<exists>K' c l r. fill K t = fill K' (Node c l a r)"
proof (induction t arbitrary: K)
  case (Node c l x r)
  then consider "a = x" | "a \<in> set (inorder l)" | "a \<in> set (inorder r)" by auto
  then show ?case
  proof cases
    case 1
    then show ?thesis by blast
  next
    case 2
    from Node.IH(1)[OF this, of "LF c x r # K"] show ?thesis by simp
  next
    case 3
    from Node.IH(2)[OF this, of "RF c l x # K"] show ?thesis by simp
  qed
qed simp

text \<open>A node of the tree cuts it into the node, its two subtrees and the context above.\<close>

lemma rb_holds_at:
  assumes "rb_holds s xs" "a \<in> set xs"
  obtains K c l r where "rep s K (Node c l a r)" "red_black (fill K (Node c l a r))"
    "xs = lefts K @ inorder l @ a # inorder r @ rights K"
proof -
  obtain t where t: "rep s [] t" "red_black t" "inorder t = xs"
    using assms(1) by (auto simp: rb_holds_def)
  then obtain K c l r where K: "t = fill K (Node c l a r)"
    using rep_zipper[of a t "[]"] assms(2) by auto
  with t rep_fill_iff[of s K "Node c l a r"] have "rep s K (Node c l a r)" by simp
  moreover have "xs = lefts K @ inorder l @ a # inorder r @ rights K"
    using t(3) K by (simp add: inorder_fill)
  ultimately show thesis using that t(2) K by blast
qed

section \<open>A concrete tree\<close>

text \<open>A black root at 8 with a red left child at 4 and a detached node at 12.\<close>

definition sample_tree :: rb where
  "sample_tree = \<lparr>nodes = [8 \<mapsto> \<lparr>rb_pc = 1, rb_left = 4, rb_right = 0\<rparr>,
     4 \<mapsto> \<lparr>rb_pc = 8, rb_left = 0, rb_right = 0\<rparr>, 12 \<mapsto> \<lparr>rb_pc = 12, rb_left = 0, rb_right = 0\<rparr>],
     root = 8, rb_len = 2\<rparr>"

lemma sample_tree_holds: "rb_holds sample_tree [4, 8]"
proof -
  let ?t = "Node Black (Node Red Leaf 4 Leaf) 8 Leaf"
  have "rep sample_tree [] ?t" by (simp add: rep_iff sample_tree_def pack_def aligned_def)
  moreover have "red_black ?t" by (simp add: red_black_def)
  ultimately show ?thesis by (auto simp: rb_holds_def sample_tree_def intro!: exI[of _ ?t])
qed

end
