(* ===== verification/RBInsert.thy ===== *)
theory RBInsert
  imports RBRep
begin

text \<open>
  Insertion: the pointer code of \<open>RBTreeNode::Insert\<close> implements \<open>ins_fix\<close> of RBShape,
  round by round, and so keeps the red-black invariant and the order of the nodes.
\<close>

section \<open>One round with a black uncle: the rotations\<close>

lemma insert_left_outer_spec:
  assumes "rep s (LF Red p sib # LF gc g u # K) (Node Red l n d)" and "root_color u = Black"
  shows "returns (insert_left s n p g (rp u)) (\<lambda>(s', again). again = None \<and>
    rep s' K (Node gc (Node Red l n d) p (Node Red (paint Black sib) g u)) \<and>
    touches (set (inorder (Node gc (Node Red (Node Red l n d) p sib) g u)) \<union> kaddrs K) s s')"
  using assms
  apply (clarsimp simp add: run_simps insert_left_def)
  apply (rule returns_ChangeChild; simp add: final_simps Int_commute)
  done

lemma insert_left_inner_spec:
  assumes "rep s (RF Red sib p # LF gc g u # K) (Node c b n d)" and "root_color u = Black"
  shows "returns (insert_left s n p g (rp u)) (\<lambda>(s', again). again = None \<and>
    rep s' K (Node gc (Node Red sib p (paint Black b)) n (Node Red (paint Black d) g u)) \<and>
    touches (set (inorder (Node gc (Node Red sib p (Node c b n d)) g u)) \<union> kaddrs K) s s')"
  using assms
  apply (clarsimp simp add: run_simps insert_left_def insert_left_inner_def)
  apply (rule returns_ChangeChild; simp add: final_simps Int_commute)
  done

lemma insert_right_outer_spec:
  assumes "rep s (RF Red sib p # RF gc u g # K) (Node Red l n d)" and "root_color u = Black"
  shows "returns (insert_right s n p g) (\<lambda>(s', again). again = None \<and>
    rep s' K (Node gc (Node Red u g (paint Black sib)) p (Node Red l n d)) \<and>
    touches (set (inorder (Node gc u g (Node Red sib p (Node Red l n d)))) \<union> kaddrs K) s s')"
  using assms
  apply (clarsimp simp add: run_simps insert_right_def)
  apply (rule returns_ChangeChild; simp add: final_simps Int_commute)
  done

lemma insert_right_inner_spec:
  assumes "rep s (LF Red p sib # RF gc u g # K) (Node c b n d)" and "root_color u = Black"
  shows "returns (insert_right s n p g) (\<lambda>(s', again). again = None \<and>
    rep s' K (Node gc (Node Red u g (paint Black b)) n (Node Red (paint Black d) p sib)) \<and>
    touches (set (inorder (Node gc u g (Node Red (Node c b n d) p sib))) \<union> kaddrs K) s s')"
  using assms
  apply (clarsimp simp add: run_simps insert_right_def insert_right_inner_def)
  apply (rule returns_ChangeChild; simp add: final_simps Int_commute)
  done

section \<open>One round with a red uncle: recolouring\<close>

lemma insert_left_recolor_LL:
  assumes "rep s (LF Red p sib # LF gc g u # K) t" and "root_color u = Red"
  shows "returns (insert_left s (rp t) p g (rp u)) (\<lambda>(s', again). again = Some (g, cparent K) \<and>
    rep s' K (Node Red (Node Black t p sib) g (paint Black u)) \<and>
    touches (set (inorder (Node gc (Node Red t p sib) g u)) \<union> kaddrs K) s s')"
  using assms
  by (cases u; clarsimp simp add: run_simps insert_left_def insert_recolor_def; simp add: final_simps Int_commute)

lemma insert_left_recolor_RL:
  assumes "rep s (RF Red sib p # LF gc g u # K) t" and "root_color u = Red"
  shows "returns (insert_left s (rp t) p g (rp u)) (\<lambda>(s', again). again = Some (g, cparent K) \<and>
    rep s' K (Node Red (Node Black sib p t) g (paint Black u)) \<and>
    touches (set (inorder (Node gc (Node Red sib p t) g u)) \<union> kaddrs K) s s')"
  using assms
  by (cases u; clarsimp simp add: run_simps insert_left_def insert_recolor_def; simp add: final_simps Int_commute)

lemma insert_right_recolor_RR:
  assumes "rep s (RF Red sib p # RF gc u g # K) t" and "root_color u = Red"
  shows "returns (insert_right s (rp t) p g) (\<lambda>(s', again). again = Some (g, cparent K) \<and>
    rep s' K (Node Red (paint Black u) g (Node Black sib p t)) \<and>
    touches (set (inorder (Node gc u g (Node Red sib p t))) \<union> kaddrs K) s s')"
  using assms
  by (cases u; clarsimp simp add: run_simps insert_right_def insert_recolor_def; simp add: final_simps Int_commute)

lemma insert_right_recolor_LR:
  assumes "rep s (LF Red p sib # RF gc u g # K) t" and "root_color u = Red"
  shows "returns (insert_right s (rp t) p g) (\<lambda>(s', again). again = Some (g, cparent K) \<and>
    rep s' K (Node Red (paint Black u) g (Node Black t p sib)) \<and>
    touches (set (inorder (Node gc u g (Node Red t p sib))) \<union> kaddrs K) s s')"
  using assms
  by (cases u; clarsimp simp add: run_simps insert_right_def insert_recolor_def; simp add: final_simps Int_commute)

section \<open>The loop\<close>

definition insert_next :: "round \<Rightarrow> rb option" where
  "insert_next r = (case snd r of None \<Rightarrow> Some (fst r) | Some (node, parent) \<Rightarrow> insert_loop (fst r) node parent)"

lemma insert_loop_left:
  assumes "rep s (F # LF gc g u # K) t" "F = LF Red p sib \<or> F = RF Red sib p"
  shows "insert_loop s x p = do { r \<leftarrow> insert_left s x p g (rp u); insert_next r }"
proof -
  have "p \<noteq> 0" "aligned g" "g \<noteq> 0" "pc_IsBlack (pack g Red) = False" "p \<notin> set (inorder u)"
    "\<exists>l r. nodes s p = Some \<lparr>rb_pc = pack g Red, rb_left = l, rb_right = r\<rparr>"
    "\<exists>c. nodes s g = Some \<lparr>rb_pc = c, rb_left = p, rb_right = rp u\<rparr>"
    using assms by (auto simp: rep_iff pack_simps)
  then show ?thesis
    by (subst insert_loop.simps)
      (auto simp: IsBlack_eq Parent_def Right_def pack_simps rp_notin insert_next_def
        split: prod.split intro!: arg_cong2[where f = Option.bind] ext)
qed

lemma insert_loop_right:
  assumes "rep s (F # RF gc u g # K) t" "F = LF Red p sib \<or> F = RF Red sib p"
  shows "insert_loop s x p = do { r \<leftarrow> insert_right s x p g; insert_next r }"
proof -
  have "p \<noteq> 0" "aligned g" "g \<noteq> 0" "pc_IsBlack (pack g Red) = False"
    "\<exists>l r. nodes s p = Some \<lparr>rb_pc = pack g Red, rb_left = l, rb_right = r\<rparr>"
    "\<exists>c l. nodes s g = Some \<lparr>rb_pc = c, rb_left = l, rb_right = p\<rparr>"
    using assms by (auto simp: rep_iff pack_simps)
  then show ?thesis
    by (subst insert_loop.simps)
      (auto simp: IsBlack_eq Parent_def Right_def pack_simps insert_next_def
        split: prod.split intro!: arg_cong2[where f = Option.bind] ext)
qed

text \<open>A round that recolours goes on one level up; a round that rotates ends the loop.\<close>

lemma insert_next_done:
  assumes "returns m (\<lambda>(s', again). again = None \<and> rep s' K t \<and> touches A s s')"
    and "A = set (inorder (fill K t))"
  shows "returns (do { r \<leftarrow> m; insert_next r }) (\<lambda>s'. rep s' [] (fill K t) \<and> touches A s s')"
  using assms rep_fill_iff by (fastforce simp: returns_def insert_next_def)

lemma insert_next_again:
  assumes "returns m (\<lambda>(s', again). again = Some (x, cparent K) \<and> rep s' K u \<and> touches A s s')"
    and "x = rp u" and "A = B"
    and "\<And>s'. rep s' K u \<Longrightarrow> returns (insert_loop s' (rp u) (cparent K)) (\<lambda>s''. rep s'' [] t' \<and> touches B s' s'')"
  shows "returns (do { r \<leftarrow> m; insert_next r }) (\<lambda>s'. rep s' [] t' \<and> touches B s s')"
proof -
  obtain s' where s': "m = Some (s', Some (rp u, cparent K))" "rep s' K u" "touches A s s'"
    using assms(1,2) by (auto simp: returns_def)
  from assms(4)[OF s'(2)] s' assms(3) show ?thesis
    by (auto simp: returns_def insert_next_def intro: touches_trans)
qed

lemma insert_loop_black:
  assumes "rep s (F # K) t" "F = LF Black p sib \<or> F = RF Black sib p"
  shows "insert_loop s x p = Some s"
proof -
  have "p \<noteq> 0" "\<exists>l r. nodes s p = Some \<lparr>rb_pc = pack (cparent K) Black, rb_left = l, rb_right = r\<rparr>"
    "aligned (cparent K)"
    using assms by (auto simp: rep_iff)
  then show ?thesis by (subst insert_loop.simps) (auto simp: IsBlack_eq pack_simps)
qed

lemma insert_loop_root:
  assumes "rep s [] (Node c l a r)"
  shows "returns (insert_loop s a 0) (\<lambda>s'. rep s' [] (Node Black l a r) \<and> touches {a} s s')"
  using assms
  by (subst insert_loop.simps) (clarsimp simp: run_simps touches_def)

lemma insert_loop_spec:
  "ins_fix K t = Some t' \<Longrightarrow> rep s K t \<Longrightarrow> root_color t = Red \<Longrightarrow>
   returns (insert_loop s (rp t) (cparent K)) (\<lambda>s'. rep s' [] t' \<and> touches (set (inorder (fill K t))) s s')"
proof (induction K t arbitrary: s rule: ins_fix.induct)
  case (1 t)
  then show ?case
    by (cases t) (auto intro!: returns_mono[OF insert_loop_root] simp: touches_def)
next
  case (2 p sb K t)
  then show ?case
    using insert_loop_black[OF "2.prems"(2)] rep_fill_iff[of s "LF Black p sb # K" t]
    by (simp add: exec_simps)
next
  case (3 sb p K t)
  then show ?case
    using insert_loop_black[OF "3.prems"(2)] rep_fill_iff[of s "RF Black sb p # K" t]
    by (simp add: exec_simps)
next
  case (4 p sb gc g u K t)
  show ?case
  proof (cases "root_color u")
    case Red
    note round = insert_left_recolor_LL[OF "4.prems"(2) Red]
    show ?thesis
      unfolding cparent.simps insert_loop_left[OF "4.prems"(2) disjI1[OF refl]]
      by (rule insert_next_again[OF round]) (use "4.IH" "4.prems"(1,3) Red in \<open>simp_all add: set_inorder_fill ac_simps insert_commute\<close>)
  next
    case Black
    obtain b n d where t: "t = Node Red b n d" using "4.prems"(3) by (cases t) auto
    note round = insert_left_outer_spec[OF "4.prems"(2)[unfolded t] Black]
    show ?thesis
      unfolding cparent.simps insert_loop_left[OF "4.prems"(2) disjI1[OF refl]] unfolding t rp.simps
      by (rule returns_mono[OF insert_next_done[OF round]]) (use "4.prems"(1,3) Black t in \<open>auto simp: set_inorder_fill\<close>)
  qed
next
  case (5 sb p gc g u K t)
  show ?case
  proof (cases "root_color u")
    case Red
    note round = insert_left_recolor_RL[OF "5.prems"(2) Red]
    show ?thesis
      unfolding cparent.simps insert_loop_left[OF "5.prems"(2) disjI2[OF refl]]
      by (rule insert_next_again[OF round]) (use "5.IH" "5.prems"(1,3) Red in \<open>simp_all add: set_inorder_fill ac_simps insert_commute\<close>)
  next
    case Black
    obtain b n d where t: "t = Node Red b n d" using "5.prems"(3) by (cases t) auto
    note round = insert_left_inner_spec[OF "5.prems"(2)[unfolded t] Black]
    show ?thesis
      unfolding cparent.simps insert_loop_left[OF "5.prems"(2) disjI2[OF refl]] unfolding t rp.simps
      by (rule returns_mono[OF insert_next_done[OF round]]) (use "5.prems"(1,3) Black t in \<open>auto simp: set_inorder_fill\<close>)
  qed
next
  case (6 sb p gc u g K t)
  show ?case
  proof (cases "root_color u")
    case Red
    note round = insert_right_recolor_RR[OF "6.prems"(2) Red]
    show ?thesis
      unfolding cparent.simps insert_loop_right[OF "6.prems"(2) disjI2[OF refl]]
      by (rule insert_next_again[OF round]) (use "6.IH" "6.prems"(1,3) Red in \<open>simp_all add: set_inorder_fill ac_simps insert_commute\<close>)
  next
    case Black
    obtain b n d where t: "t = Node Red b n d" using "6.prems"(3) by (cases t) auto
    note round = insert_right_outer_spec[OF "6.prems"(2)[unfolded t] Black]
    show ?thesis
      unfolding cparent.simps insert_loop_right[OF "6.prems"(2) disjI2[OF refl]] unfolding t rp.simps
      by (rule returns_mono[OF insert_next_done[OF round]]) (use "6.prems"(1,3) Black t in \<open>auto simp: set_inorder_fill\<close>)
  qed
next
  case (7 p sb gc u g K t)
  show ?case
  proof (cases "root_color u")
    case Red
    note round = insert_right_recolor_LR[OF "7.prems"(2) Red]
    show ?thesis
      unfolding cparent.simps insert_loop_right[OF "7.prems"(2) disjI1[OF refl]]
      by (rule insert_next_again[OF round]) (use "7.IH" "7.prems"(1,3) Red in \<open>simp_all add: set_inorder_fill ac_simps insert_commute\<close>)
  next
    case Black
    obtain b n d where t: "t = Node Red b n d" using "7.prems"(3) by (cases t) auto
    note round = insert_right_inner_spec[OF "7.prems"(2)[unfolded t] Black]
    show ?thesis
      unfolding cparent.simps insert_loop_right[OF "7.prems"(2) disjI1[OF refl]] unfolding t rp.simps
      by (rule returns_mono[OF insert_next_done[OF round]]) (use "7.prems"(1,3) Black t in \<open>auto simp: set_inorder_fill\<close>)
  qed
qed simp_all

section \<open>Linking a new node at the hole of a context\<close>

fun ctx_link :: "ctx \<Rightarrow> link" where
  "ctx_link [] = RootLink"
| "ctx_link (LF c a r # K) = LeftLink a"
| "ctx_link (RF c l a # K) = RightLink a"

lemma store_link_hole:
  assumes "ctx_at (nodes s) (root s) K 0" "ctx_distinct K"
    and Q: "\<And>s' f. ctx_at (nodes s') (root s') K b \<Longrightarrow> nodes s' = override_on (nodes s) f (kaddrs K) \<Longrightarrow>
      rb_len s' = rb_len s \<Longrightarrow> Q s'"
  shows "returns (store_link s (ctx_link K) b) Q"
proof (cases K)
  case Nil
  have "Q (s\<lparr>root := b\<rparr>)" using Nil by (intro Q[where f = "nodes s"]) simp_all
  with Nil show ?thesis by (simp add: store_link_def exec_simps)
next
  case (Cons F K')
  show ?thesis
  proof (cases F)
    case (LF c x r)
    let ?m = "(nodes s)(x \<mapsto> \<lparr>rb_pc = pack (cparent K') c, rb_left = b, rb_right = rp r\<rparr>)"
    have "Q (s\<lparr>nodes := ?m\<rparr>)"
      using assms(1,2) Cons LF by (intro Q[where f = ?m]) (auto simp: override_on_def)
    with assms(1,2) Cons LF show ?thesis by (simp add: store_link_def exec_simps)
  next
    case (RF c l x)
    let ?m = "(nodes s)(x \<mapsto> \<lparr>rb_pc = pack (cparent K') c, rb_left = rp l, rb_right = b\<rparr>)"
    have "Q (s\<lparr>nodes := ?m\<rparr>)"
      using assms(1,2) Cons RF by (intro Q[where f = ?m]) (auto simp: override_on_def)
    with assms(1,2) Cons RF show ?thesis by (simp add: store_link_def exec_simps)
  qed
qed

lemma RBNode_Insert_spec:
  assumes "rep s K Leaf" "a \<notin> kaddrs K" "a \<noteq> 0" "aligned a" "nodes s a = Some n"
    and "ins_fix K (Node Red Leaf a Leaf) = Some t'"
  shows "returns (RBNode_Insert s a (cparent K) (ctx_link K))
    (\<lambda>s'. rep s' [] t' \<and> touches (insert a (kaddrs K)) s s')"
proof -
  let ?s = "s\<lparr>nodes := (nodes s)(a \<mapsto> \<lparr>rb_pc = pack (cparent K) Red, rb_left = 0, rb_right = 0\<rparr>)\<rparr>"
  have start: "RBNode_Insert s a (cparent K) (ctx_link K) =
      do { s \<leftarrow> store_link ?s (ctx_link K) a; insert_loop s a (cparent K) }"
    using assms by (cases n) (simp add: RBNode_Insert_def SetParentColor_def SetLeft_def SetRight_def upd_node_def)
  have "returns (store_link ?s (ctx_link K) a)
    (\<lambda>s'. rep s' K (Node Red Leaf a Leaf) \<and> touches (insert a (kaddrs K)) s s')"
    using assms(1-5) by (intro store_link_hole) (auto simp: rep_iff touches_def)
  then obtain s1 where s1: "store_link ?s (ctx_link K) a = Some s1"
      "rep s1 K (Node Red Leaf a Leaf)" "touches (insert a (kaddrs K)) s s1"
    by (auto simp: returns_def)
  from insert_loop_spec[OF assms(6) s1(2)] show ?thesis
    using s1 start by (auto simp: returns_def set_inorder_fill intro: touches_trans)
qed


end
