(* ===== verification/Ordering.thy ===== *)
theory Ordering
  imports Prelude
begin

text \<open>
  What the templates ask of the comparison they are given (\<open>Compare\<close> of rbtree.h and of the
  files under include/mzx/algorithm/sort): a strict weak order. Incomparable keys count as equal.
  The default argument of every template is \<open>std::less\<close>.
\<close>

locale strict_weak_order =
  fixes lt :: "'k \<Rightarrow> 'k \<Rightarrow> bool"
  assumes lt_asym: "lt x y \<Longrightarrow> \<not> lt y x"
    and lt_negtrans: "\<not> lt x y \<Longrightarrow> \<not> lt y z \<Longrightarrow> \<not> lt x z"
begin

lemma lt_irrefl: "\<not> lt x x"
  using lt_asym by blast

lemma lt_trans: "lt x y \<Longrightarrow> lt y z \<Longrightarrow> lt x z"
  using lt_asym lt_negtrans by blast

lemma lt_le_trans: "lt x y \<Longrightarrow> \<not> lt z y \<Longrightarrow> lt x z"
  using lt_negtrans by blast

lemma le_lt_trans: "\<not> lt y x \<Longrightarrow> lt y z \<Longrightarrow> lt x z"
  using lt_negtrans by blast

end

definition std_less :: "'a::linorder \<Rightarrow> 'a \<Rightarrow> bool" where
  "std_less a b = (a < b)"

interpretation std: strict_weak_order std_less
  by unfold_locales (auto simp: std_less_def)

definition std_greater :: "'a::linorder \<Rightarrow> 'a \<Rightarrow> bool" where
  "std_greater a b = (b < a)"

interpretation gt: strict_weak_order std_greater
  by unfold_locales (auto simp: std_greater_def)

text \<open>A list without inversions, and the same for the keys of a list of nodes.\<close>

definition sorted_by :: "('k \<Rightarrow> 'k \<Rightarrow> bool) \<Rightarrow> 'k list \<Rightarrow> bool" where
  "sorted_by lt xs \<longleftrightarrow> sorted_wrt (\<lambda>x y. \<not> lt y x) xs"

definition increasing :: "('k \<Rightarrow> 'k \<Rightarrow> bool) \<Rightarrow> 'k list \<Rightarrow> bool" where
  "increasing lt xs \<longleftrightarrow> sorted_wrt lt xs"

section \<open>Sorting a range\<close>

definition equiv_by :: "('k \<Rightarrow> 'k \<Rightarrow> bool) \<Rightarrow> 'k \<Rightarrow> 'k \<Rightarrow> bool" where
  "equiv_by lt x y \<longleftrightarrow> \<not> lt x y \<and> \<not> lt y x"

text \<open>
  \<open>sorts_to lt xs ys\<close>: \<open>ys\<close> holds the elements of \<open>xs\<close> in order.
  \<open>stable_to\<close>: the elements that count as equal have kept their relative order too.
\<close>

definition sorts_to :: "('k \<Rightarrow> 'k \<Rightarrow> bool) \<Rightarrow> 'k list \<Rightarrow> 'k list \<Rightarrow> bool" where
  "sorts_to lt xs ys \<longleftrightarrow> mset ys = mset xs \<and> sorted_by lt ys"

definition stable_to :: "('k \<Rightarrow> 'k \<Rightarrow> bool) \<Rightarrow> 'k list \<Rightarrow> 'k list \<Rightarrow> bool" where
  "stable_to lt xs ys \<longleftrightarrow> (\<forall>x. filter (equiv_by lt x) ys = filter (equiv_by lt x) xs)"

lemma sorted_by_nth: "sorted_by lt xs \<longleftrightarrow> (\<forall>i j. i < j \<longrightarrow> j < length xs \<longrightarrow> \<not> lt (xs ! j) (xs ! i))"
  by (auto simp: sorted_by_def sorted_wrt_iff_nth_less)

lemma sorted_by_simps [simp]:
  "sorted_by lt []"
  "sorted_by lt (x # xs) \<longleftrightarrow> (\<forall>y\<in>set xs. \<not> lt y x) \<and> sorted_by lt xs"
  "sorted_by lt (xs @ ys) \<longleftrightarrow> sorted_by lt xs \<and> sorted_by lt ys \<and> (\<forall>x\<in>set xs. \<forall>y\<in>set ys. \<not> lt y x)"
  by (auto simp: sorted_by_def sorted_wrt_append)

lemma sorted_by_std_less: "sorted_by std_less xs \<longleftrightarrow> sorted xs"
  by (simp add: sorted_by_def std_less_def not_less)

lemma sorts_to_std_less: "sorts_to std_less xs ys \<longleftrightarrow> ys = sort xs"
  by (auto simp: sorts_to_def sorted_by_std_less intro: properties_for_sort [symmetric])

text \<open>
  What every sort of include/mzx/algorithm/sort promises: it aborts on an empty range (its
  \<open>MZX_CHECK (end > begin)\<close>) and otherwise returns the range in order.
\<close>

locale sorting =
  fixes sort_fn :: "('k \<Rightarrow> 'k \<Rightarrow> bool) \<Rightarrow> 'k list \<Rightarrow> 'k list option"
    and lt :: "'k \<Rightarrow> 'k \<Rightarrow> bool"
  assumes empty_range: "sort_fn lt [] = None"
    and sorted_range: "xs \<noteq> [] \<Longrightarrow> \<exists>ys. sort_fn lt xs = Some ys \<and> sorts_to lt xs ys"
begin

lemma returns_iff: "sort_fn lt xs \<noteq> None \<longleftrightarrow> xs \<noteq> []"
  using empty_range sorted_range by (cases "xs = []") force+

lemma length_preserved: "sort_fn lt xs = Some ys \<Longrightarrow> length ys = length xs"
  using empty_range sorted_range[of xs] by (cases "xs = []") (auto simp: sorts_to_def dest: mset_eq_length)

lemma set_preserved: "sort_fn lt xs = Some ys \<Longrightarrow> set ys = set xs"
  using empty_range sorted_range[of xs] by (cases "xs = []") (auto simp: sorts_to_def dest: mset_eq_setD)

lemma result_sorted: "sort_fn lt xs = Some ys \<Longrightarrow> sorted_by lt ys"
  using empty_range sorted_range[of xs] by (cases "xs = []") (auto simp: sorts_to_def)

end

end
