(* ===== verification/RBKeyed.thy ===== *)
theory RBKeyed
  imports RBInsert Ordering
begin

text \<open>
  The keyed insertions of include/mzx/data_structure/rbtree.h against the in-order list of nodes:
  the descent finds the cut of the list at the new key, and linking the node at that hole keeps
  the list and the red-black invariant (\<open>rb_holds\<close>).
\<close>

section \<open>The descent\<close>

text \<open>\<open>descend go t K\<close> walks from the root of \<open>t\<close> to a leaf, left wherever \<open>go\<close> says so.\<close>

fun descend :: "(addr \<Rightarrow> bool) \<Rightarrow> shape \<Rightarrow> ctx \<Rightarrow> ctx" where
  "descend go Leaf K = K"
| "descend go (Node c l a r) K = (if go a then descend go l (LF c a r # K) else descend go r (RF c l a # K))"

text \<open>The last node at which the walk to the hole went right, 0 when there is none.\<close>

fun last_right :: "ctx \<Rightarrow> addr" where
  "last_right [] = 0"
| "last_right (LF c a r # K) = last_right K"
| "last_right (RF c l a # K) = a"

lemma fill_descend: "fill (descend go t K) Leaf = fill K t"
  by (induction t arbitrary: K) auto

lemma last_right_lefts: "last_right K = (if lefts K = [] then 0 else last (lefts K))"
  by (induction K rule: lefts.induct) auto

lemma load_link_hole: "rep s K t \<Longrightarrow> load_link s (ctx_link K) = Some (rp t)"
  by (cases K rule: ctx_link.cases) (auto simp: rep_iff load_link_def Left_def Right_def)

lemma insert_descend_eq:
  "rep s K t \<Longrightarrow> K' = descend (\<lambda>x. lt (key n) (key x)) t K \<Longrightarrow>
   insert_descend key lt s n (ctx_link K) (cparent K) (last_right K) =
     Some (ctx_link K', cparent K', last_right K')"
proof (induction t arbitrary: K)
  case Leaf
  then show ?case by (subst insert_descend.simps) (simp add: load_link_hole)
next
  case (Node c l a r)
  then have a: "a \<noteq> 0" and "load_link s (ctx_link K) = Some a"
    by (auto simp: load_link_hole rep_nonnull)
  moreover have "rep s (LF c a r # K) l" "rep s (RF c l a # K) r"
    using Node.prems(1) by (simp_all add: rep_LF rep_RF [symmetric])
  ultimately show ?case
    using Node.IH(1)[of "LF c a r # K"] Node.IH(2)[of "RF c l a # K"] Node.prems(2)
    by (subst insert_descend.simps) simp
qed

lemma insert_equal_descend_eq:
  "rep s K t \<Longrightarrow> K' = descend (\<lambda>x. lt (key n) (key x)) t K \<Longrightarrow>
   insert_equal_descend key lt s n (ctx_link K) (cparent K) = Some (ctx_link K', cparent K')"
proof (induction t arbitrary: K)
  case Leaf
  then show ?case by (subst insert_equal_descend.simps) (simp add: load_link_hole)
next
  case (Node c l a r)
  then have a: "a \<noteq> 0" and "load_link s (ctx_link K) = Some a"
    by (auto simp: load_link_hole rep_nonnull)
  moreover have "rep s (LF c a r # K) l" "rep s (RF c l a # K) r"
    using Node.prems(1) by (simp_all add: rep_LF rep_RF [symmetric])
  ultimately show ?case
    using Node.IH(1)[of "LF c a r # K"] Node.IH(2)[of "RF c l a # K"] Node.prems(2)
    by (subst insert_equal_descend.simps) simp
qed

text \<open>In a list cut by a monotone test the walk ends exactly at the cut.\<close>

lemma descend_lefts_rights:
  assumes "sorted_wrt (\<lambda>x y. go x \<longrightarrow> go y) (inorder (fill K t))"
    and "\<forall>x\<in>set (lefts K). \<not> go x" "\<forall>x\<in>set (rights K). go x"
  shows "(\<forall>x\<in>set (lefts (descend go t K)). \<not> go x) \<and> (\<forall>x\<in>set (rights (descend go t K)). go x)"
  using assms
proof (induction t arbitrary: K)
  case (Node c l a r)
  show ?case
  proof (cases "go a")
    case True
    with Node.prems have "\<forall>x\<in>set (inorder r). go x"
      by (auto simp: inorder_fill sorted_wrt_append)
    then have "\<forall>x\<in>set (rights (LF c a r # K)). go x" using True Node.prems(3) by auto
    from Node.IH(1)[OF _ _ this] Node.prems(1,2) True show ?thesis by (simp del: fill.simps add: fill.simps(2))
  next
    case False
    with Node.prems have "\<forall>x\<in>set (inorder l). \<not> go x"
      by (auto simp: inorder_fill sorted_wrt_append)
    then have "\<forall>x\<in>set (lefts (RF c l a # K)). \<not> go x" using False Node.prems(2) by auto
    from Node.IH(2)[OF _ this] Node.prems(1,3) False show ?thesis by (simp del: fill.simps add: fill.simps(3))
  qed
qed simp

lemma descend_cut:
  assumes "sorted_wrt (\<lambda>x y. go x \<longrightarrow> go y) (inorder t)"
  shows "lefts (descend go t []) = filter (\<lambda>x. \<not> go x) (inorder t)"
    and "rights (descend go t []) = filter go (inorder t)"
proof -
  let ?K = "descend go t []"
  have "inorder t = lefts ?K @ rights ?K"
    using fill_descend[of go t "[]"] by (metis inorder_fill fill.simps(1) inorder.simps(1) append_Nil)
  moreover have "(\<forall>x\<in>set (lefts ?K). \<not> go x) \<and> (\<forall>x\<in>set (rights ?K). go x)"
    using assms by (intro descend_lefts_rights) simp_all
  ultimately show "lefts ?K = filter (\<lambda>x. \<not> go x) (inorder t)" "rights ?K = filter go (inorder t)"
    by simp_all
qed


section \<open>Insertion at the cut\<close>

lemma insert_at_descend:
  assumes "rep s [] t" "red_black t" "fresh_node s (inorder t) a"
    and "sorted_wrt (\<lambda>x y. go x \<longrightarrow> go y) (inorder t)"
    and K: "K = descend go t []"
  shows "returns (RBNode_Insert s a (cparent K) (ctx_link K))
    (\<lambda>s'. (\<exists>t'. rep s' [] t' \<and> red_black t' \<and>
        inorder t' = filter (\<lambda>x. \<not> go x) (inorder t) @ a # filter go (inorder t)) \<and>
      touches (insert a (set (inorder t))) s s')"
proof -
  let ?n = "Node Red Leaf a Leaf"
  have K_t: "fill K Leaf = t" by (simp add: K fill_descend)
  then have rep: "rep s K Leaf" using assms(1) rep_fill_iff[of s K Leaf] by simp
  have addrs: "kaddrs K = set (inorder t)" using set_inorder_fill[of K Leaf] K_t by simp
  have "red_black (fill K Leaf)" using assms(2) K_t by simp
  then have "ctx_colors K" "ctx_height K (bh ?n)" by (simp_all add: red_black_fill)
  then obtain t' where t': "ins_fix K ?n = Some t'" "red_black t'"
    using red_black_ins_fix[of K ?n] by auto
  then have "inorder t' = filter (\<lambda>x. \<not> go x) (inorder t) @ a # filter go (inorder t)"
    using inorder_ins_fix[OF t'(1)] descend_cut[OF assms(4)] by (simp add: inorder_fill K)
  moreover obtain n where "nodes s a = Some n" "a \<noteq> 0" "aligned a" "a \<notin> kaddrs K"
    using assms(3) addrs by (auto simp: fresh_node_def)
  ultimately show ?thesis
    using RBNode_Insert_spec[OF rep _ _ _ _ t'(1)] t'(2) addrs by (auto simp: returns_def)
qed

lemma returns_rb_holds_Suc:
  assumes "rep s [] t" "red_black t" "fresh_node s (inorder t) a"
    and "sorted_wrt (\<lambda>x y. go x \<longrightarrow> go y) (inorder t)"
    and K: "K = descend go t []" and len: "rb_len s = of_nat (length (inorder t))"
  shows "returns (RBNode_Insert s a (cparent K) (ctx_link K)) (\<lambda>s'.
    rb_holds (s'\<lparr>rb_len := rb_len s' + 1\<rparr>) (filter (\<lambda>x. \<not> go x) (inorder t) @ a # filter go (inorder t)) \<and>
    (\<forall>x. x \<noteq> a \<and> x \<notin> set (inorder t) \<longrightarrow> nodes s' x = nodes s x))"
proof (rule returns_mono[OF insert_at_descend[OF assms(1-4) K]])
  have "length (inorder t) = length (filter (\<lambda>x. \<not> go x) (inorder t)) + length (filter go (inorder t))"
    using sum_length_filter_compl[of go "inorder t"] by simp
  then have len': "rb_len s + 1 =
      of_nat (length (filter (\<lambda>x. \<not> go x) (inorder t) @ a # filter go (inorder t)))"
    using len by simp
  fix s'
  assume s': "(\<exists>t'. rep s' [] t' \<and> red_black t' \<and>
      inorder t' = filter (\<lambda>x. \<not> go x) (inorder t) @ a # filter go (inorder t)) \<and>
    touches (insert a (set (inorder t))) s s'"
  then have "rb_len s' = rb_len s" by (simp add: touches_def)
  with s' len' show "rb_holds (s'\<lparr>rb_len := rb_len s' + 1\<rparr>)
      (filter (\<lambda>x. \<not> go x) (inorder t) @ a # filter go (inorder t)) \<and>
    (\<forall>x. x \<noteq> a \<and> x \<notin> set (inorder t) \<longrightarrow> nodes s' x = nodes s x)"
    by (simp add: rb_holds_def rb_holds_length_upd touches_def)
qed

context strict_weak_order
begin

lemma sorted_by_cut:
  assumes "sorted_by lt (map key xs)"
  shows "sorted_wrt (\<lambda>x y. lt k (key x) \<longrightarrow> lt k (key y)) xs"
proof (rule sorted_wrt_mono_rel)
  show "sorted_wrt (\<lambda>x y. \<not> lt (key y) (key x)) xs"
    using assms by (simp add: sorted_by_def sorted_wrt_map)
qed (use lt_le_trans in blast)

lemma increasing_sorted: "increasing lt ks \<Longrightarrow> sorted_by lt ks"
  unfolding increasing_def sorted_by_def by (rule sorted_wrt_mono_rel[of ks lt]) (use lt_asym in blast)

text \<open>The last node that is not above the key decides whether the key is there.\<close>

lemma last_not_above:
  assumes "increasing lt (map key xs)" "0 \<notin> set xs"
    and z: "z = (let ys = filter (\<lambda>x. \<not> lt k (key x)) xs in if ys = [] then 0 else last ys)"
  shows "(z \<noteq> 0 \<and> \<not> lt (key z) k) \<longleftrightarrow> (\<exists>x\<in>set xs. \<not> lt (key x) k \<and> \<not> lt k (key x))" (is "?l \<longleftrightarrow> ?r")
proof
  let ?ys = "filter (\<lambda>x. \<not> lt k (key x)) xs"
  assume ?l
  then have "z \<in> set ?ys" using z last_in_set[of ?ys] by (auto simp: Let_def split: if_splits)
  with \<open>?l\<close> show ?r by auto
next
  let ?ys = "filter (\<lambda>x. \<not> lt k (key x)) xs"
  assume ?r
  then obtain x where x: "x \<in> set ?ys" "\<not> lt (key x) k" by auto
  then obtain us where us: "?ys = us @ [z]"
    using z by (cases ?ys rule: rev_cases) (auto simp: Let_def)
  have "sorted_wrt (\<lambda>x y. lt (key x) (key y)) (us @ [z])"
    using assms(1) unfolding us [symmetric] by (simp add: increasing_def sorted_wrt_map sorted_wrt_filter)
  then have "x = z \<or> lt (key x) (key z)" using x(1) us by (auto simp: sorted_wrt_append)
  then have "\<not> lt (key z) k" using x(2) lt_trans by blast
  moreover have "z \<in> set xs" using us by (metis filter_is_subset in_set_conv_decomp subsetD)
  ultimately show ?l using assms(2) by metis
qed

lemma InsertEqual_returns:
  assumes "rb_holds s xs" "fresh_node s xs a" "sorted_by lt (map key xs)"
  shows "returns (InsertEqual key lt s a) (\<lambda>s'.
    rb_holds s' (filter (\<lambda>x. \<not> lt (key a) (key x)) xs @ a # filter (\<lambda>x. lt (key a) (key x)) xs) \<and>
    (\<forall>x. x \<noteq> a \<and> x \<notin> set xs \<longrightarrow> nodes s' x = nodes s x))"
proof -
  obtain t where t: "rep s [] t" "red_black t" "inorder t = xs" "rb_len s = of_nat (length xs)"
    using assms(1) by (auto simp: rb_holds_def)
  define K where K: "K = descend (\<lambda>x. lt (key a) (key x)) t []"
  have "returns (RBNode_Insert s a (cparent K) (ctx_link K)) (\<lambda>s'.
      rb_holds (s'\<lparr>rb_len := rb_len s' + 1\<rparr>)
        (filter (\<lambda>x. \<not> lt (key a) (key x)) xs @ a # filter (\<lambda>x. lt (key a) (key x)) xs) \<and>
      (\<forall>x. x \<noteq> a \<and> x \<notin> set xs \<longrightarrow> nodes s' x = nodes s x))"
    by (rule returns_rb_holds_Suc[OF t(1,2) _ _ K, unfolded t(3)]) (use assms(2) t(4) sorted_by_cut[OF assms(3)] in simp_all)
  moreover have "insert_equal_descend key lt s a RootLink 0 = Some (ctx_link K, cparent K)"
    using insert_equal_descend_eq[where K = "[]" and s = s and lt = lt and key = key, OF t(1)] by (simp add: K)
  ultimately show ?thesis
    using assms(2) by (simp add: InsertEqual_def fresh_node_def exec_simps)
qed

lemma Insert_returns:
  assumes "rb_holds s xs" "fresh_node s xs a" "increasing lt (map key xs)"
  shows "returns (Insert key lt s a) (\<lambda>(s', inserted).
    if \<exists>x\<in>set xs. \<not> lt (key x) (key a) \<and> \<not> lt (key a) (key x) then s' = s \<and> \<not> inserted
    else inserted \<and>
      rb_holds s' (filter (\<lambda>x. \<not> lt (key a) (key x)) xs @ a # filter (\<lambda>x. lt (key a) (key x)) xs) \<and>
      (\<forall>x. x \<noteq> a \<and> x \<notin> set xs \<longrightarrow> nodes s' x = nodes s x))"
proof -
  obtain t where t: "rep s [] t" "red_black t" "inorder t = xs" "rb_len s = of_nat (length xs)"
    using assms(1) by (auto simp: rb_holds_def)
  define K where K: "K = descend (\<lambda>x. lt (key a) (key x)) t []"
  note cut = sorted_by_cut[OF increasing_sorted[OF assms(3)], of "key a"]
  have lefts: "lefts K = filter (\<lambda>x. \<not> lt (key a) (key x)) xs"
    using descend_cut(1)[of "\<lambda>x. lt (key a) (key x)" t] cut t(3) K by simp
  have "0 \<notin> set xs"
    using tree_at_addrs t(1,3) by (auto simp: rep_iff)
  then have dup: "(last_right K \<noteq> 0 \<and> \<not> lt (key (last_right K)) (key a)) \<longleftrightarrow>
      (\<exists>x\<in>set xs. \<not> lt (key x) (key a) \<and> \<not> lt (key a) (key x))"
    by (intro last_not_above[OF assms(3)]) (auto simp: last_right_lefts lefts)
  have d: "insert_descend key lt s a RootLink 0 0 = Some (ctx_link K, cparent K, last_right K)"
    using insert_descend_eq[where K = "[]" and s = s and lt = lt and key = key, OF t(1)] by (simp add: K)
  have "returns (RBNode_Insert s a (cparent K) (ctx_link K)) (\<lambda>s'.
      rb_holds (s'\<lparr>rb_len := rb_len s' + 1\<rparr>)
        (filter (\<lambda>x. \<not> lt (key a) (key x)) xs @ a # filter (\<lambda>x. lt (key a) (key x)) xs) \<and>
      (\<forall>x. x \<noteq> a \<and> x \<notin> set xs \<longrightarrow> nodes s' x = nodes s x))"
    by (rule returns_rb_holds_Suc[OF t(1,2) _ _ K, unfolded t(3)]) (use assms(2) t(4) cut in simp_all)
  then show ?thesis
    using assms(2) d dup by (simp add: Insert_def fresh_node_def exec_simps)
qed

lemma not_above_below:
  assumes "\<forall>x\<in>set xs. lt (key x) k \<or> lt k (key x)"
  shows "filter (\<lambda>x. \<not> lt k (key x)) xs = filter (\<lambda>x. lt (key x) k) xs"
  using assms lt_asym by (intro filter_cong) auto

lemma increasing_insert:
  assumes "increasing lt (map key xs)" "key a = k"
  shows "increasing lt (map key (filter (\<lambda>x. lt (key x) k) xs @ a # filter (\<lambda>x. lt k (key x)) xs))"
proof -
  have "lt (key x) (key y)" if "lt (key x) k" "lt k (key y)" for x y
    using that by (rule lt_trans)
  with assms show ?thesis
    by (simp add: increasing_def sorted_wrt_map sorted_wrt_append sorted_wrt_filter)
qed

lemma sorted_by_insert:
  assumes "sorted_by lt (map key xs)" "key a = k"
  shows "sorted_by lt (map key (filter (\<lambda>x. \<not> lt k (key x)) xs @ a # filter (\<lambda>x. lt k (key x)) xs))"
proof -
  have "\<not> lt (key y) (key x)" if "\<not> lt k (key x)" "lt k (key y)" for x y
    using that lt_asym lt_negtrans by blast
  with assms show ?thesis
    by (simp add: sorted_by_def sorted_wrt_map sorted_wrt_append sorted_wrt_filter lt_asym)
qed

lemma Insert_duplicate:
  assumes "rb_holds s xs" "fresh_node s xs a" "increasing lt (map key xs)"
    and "\<not> list_all (\<lambda>x. lt (key x) (key a) \<or> lt (key a) (key x)) xs"
  shows "Insert key lt s a = Some (s, False)"
  using Insert_returns[OF assms(1-3)] assms(4) by (auto simp: returns_def list_all_iff)

lemma Insert_new:
  assumes "rb_holds s xs" "fresh_node s xs a" "increasing lt (map key xs)"
    and "list_all (\<lambda>x. lt (key x) (key a) \<or> lt (key a) (key x)) xs"
    and ys: "ys = filter (\<lambda>x. lt (key x) (key a)) xs @ a # filter (\<lambda>x. lt (key a) (key x)) xs"
  shows "\<exists>s'. Insert key lt s a = Some (s', True) \<and> rb_holds s' ys \<and> increasing lt (map key ys) \<and>
    (\<forall>x. x = a \<or> x \<in> set xs \<or> nodes s' x = nodes s x)"
proof -
  have all: "\<forall>x\<in>set xs. lt (key x) (key a) \<or> lt (key a) (key x)"
    using assms(4) by (simp add: list_all_iff)
  then have none: "\<not> (\<exists>x\<in>set xs. \<not> lt (key x) (key a) \<and> \<not> lt (key a) (key x))" by blast
  have "returns (Insert key lt s a) (\<lambda>(s', inserted). inserted \<and> rb_holds s' ys \<and>
      (\<forall>x. x \<noteq> a \<and> x \<notin> set xs \<longrightarrow> nodes s' x = nodes s x))"
    using Insert_returns[OF assms(1-3)] unfolding if_not_P[OF none] not_above_below[OF all] ys .
  moreover have "increasing lt (map key ys)" using increasing_insert[OF assms(3)] ys by simp
  ultimately show ?thesis by (auto simp: returns_def)
qed

end

section \<open>The two insertions\<close>

text \<open>C1: \<open>Insert\<close> on a red-black tree with strictly increasing keys returns. If a
  node of the tree has an equal key, nothing changes and the result is false. Otherwise the result
  is a red-black tree with the new node at its place in the order, and no other object of the heap
  has changed.\<close>
theorem Insert_correct:
  assumes "strict_weak_order lt" "rb_holds s xs" "fresh_node s xs a" "increasing lt (map key xs)"
    and "ys = filter (\<lambda>x. lt (key x) (key a)) xs @ a # filter (\<lambda>x. lt (key a) (key x)) xs"
  shows "if list_all (\<lambda>x. lt (key x) (key a) \<or> lt (key a) (key x)) xs
    then \<exists>s'. Insert key lt s a = Some (s', True) \<and> rb_holds s' ys \<and> increasing lt (map key ys) \<and>
      (\<forall>x. x = a \<or> x \<in> set xs \<or> nodes s' x = nodes s x)
    else Insert key lt s a = Some (s, False)"
  using strict_weak_order.Insert_new[OF assms(1-4) _ assms(5)]
    strict_weak_order.Insert_duplicate[OF assms(1-4)] by simp

text \<open>C19: \<open>InsertEqual\<close> on a red-black tree whose keys are in order (equal
  keys allowed) returns, and the new node stands after every node with an equal key.\<close>
theorem InsertEqual_correct:
  assumes "strict_weak_order lt" "rb_holds s xs" "fresh_node s xs a" "sorted_by lt (map key xs)"
    and "ys = filter (\<lambda>x. \<not> lt (key a) (key x)) xs @ a # filter (\<lambda>x. lt (key a) (key x)) xs"
  shows "\<exists>s'. InsertEqual key lt s a = Some s' \<and> rb_holds s' ys \<and> sorted_by lt (map key ys) \<and>
      (\<forall>x. x = a \<or> x \<in> set xs \<or> nodes s' x = nodes s x)"
proof -
  from strict_weak_order.InsertEqual_returns[OF assms(1-4)] obtain s' where
    "InsertEqual key lt s a = Some s'" "rb_holds s' ys"
    "\<forall>x. x \<noteq> a \<and> x \<notin> set xs \<longrightarrow> nodes s' x = nodes s x"
    unfolding returns_def assms(5) by blast
  moreover have "sorted_by lt (map key ys)"
    unfolding assms(5) by (rule strict_weak_order.sorted_by_insert[OF assms(1,4) refl])
  ultimately show ?thesis by blast
qed

lemma Insert_correct_witness:
  "\<exists>s'. Insert id std_less sample_tree 12 = Some (s', True) \<and> rb_holds s' [4, 8, 12]"
  using Insert_correct[OF std.strict_weak_order_axioms sample_tree_holds, of 12 id "[4, 8, 12]"]
  by (auto simp: fresh_node_def aligned_def sample_tree_def increasing_def std_less_def)

lemma InsertEqual_correct_witness:
  "\<exists>s'. InsertEqual (\<lambda>_. 0 :: nat) std_less sample_tree 12 = Some s' \<and> rb_holds s' [4, 8, 12]"
  using InsertEqual_correct[OF std.strict_weak_order_axioms sample_tree_holds, of 12 "\<lambda>_. 0 :: nat" "[4, 8, 12]"]
  by (auto simp: fresh_node_def aligned_def sample_tree_def sorted_by_def std_less_def)

end
