(* ===== verification/RBWalk.thy ===== *)
theory RBWalk
  imports RBRep Ordering
begin

text \<open>
  Walking and searching: \<open>Begin\<close>, \<open>RBegin\<close>, \<open>Next\<close> and \<open>Prev\<close> of
  the red-black tree follow its in-order list, and \<open>LowerBound\<close>, \<open>Find\<close> and
  \<open>UpperBound\<close> are searches in that list.
\<close>

section \<open>Walking\<close>

lemma Left_rep [simp]: "rep s K (Node c l a r) \<Longrightarrow> Left s a = Some (rp l)"
  by (simp add: rep_iff Left_def)

lemma Right_rep [simp]: "rep s K (Node c l a r) \<Longrightarrow> Right s a = Some (rp r)"
  by (simp add: rep_iff Right_def)

lemma Parent_rep: "rep s K (Node c l a r) \<Longrightarrow> Parent s a = Some (cparent K)"
  using ctx_at_cparent[of "nodes s" "root s" K a] by (simp add: rep_iff Parent_def pack_simps)

lemma IsLinked_rep: "rep s K (Node c l a r) \<Longrightarrow> RBNode_IsLinked s a = Some True"
proof -
  assume r: "rep s K (Node c l a r)"
  then have "cparent K \<noteq> a" "aligned (cparent K)" "aligned a"
    using ctx_at_cparent[of "nodes s" "root s" K a] cparent_in[of K] by (auto simp: rep_iff)
  then have "pack (cparent K) c \<noteq> a" by (intro pack_ne_self)
  with r show ?thesis by (simp add: rep_iff RBNode_IsLinked_def)
qed

lemma rp_eq_0: "rep s K t \<Longrightarrow> rp t = 0 \<longleftrightarrow> t = Leaf"
  by (auto simp: rep_iff rp_0_iff)

lemma inorder_nil_iff: "inorder t = [] \<longleftrightarrow> t = Leaf"
  by (cases t) auto

lemma leftmost_eq: "rep s K t \<Longrightarrow> t \<noteq> Leaf \<Longrightarrow> leftmost s (rp t) = Some (hd (inorder t))"
proof (induction t arbitrary: K)
  case (Node c l a r)
  then have "rep s (LF c a r # K) l" by (simp add: rep_LF)
  then show ?case
    using Node.prems(1) Node.IH(1) rp_eq_0[of s _ l]
    by (subst leftmost.simps) (cases "l = Leaf"; simp add: hd_append inorder_nil_iff)
qed simp

lemma rightmost_eq: "rep s K t \<Longrightarrow> t \<noteq> Leaf \<Longrightarrow> rightmost s (rp t) = Some (last (inorder t))"
proof (induction t arbitrary: K)
  case (Node c l a r)
  then have "rep s (RF c l a # K) r" by (simp add: rep_RF)
  then show ?case
    using Node.prems(1) Node.IH(2) rp_eq_0[of s _ r]
    by (subst rightmost.simps) (cases "r = Leaf"; simp add: inorder_nil_iff)
qed simp

text \<open>The neighbour of a node in a list, 0 at the ends.\<close>

definition first_or_null :: "addr list \<Rightarrow> addr" where
  "first_or_null xs = (case xs of [] \<Rightarrow> 0 | x # _ \<Rightarrow> x)"

lemma first_or_null_simps [simp]:
  "first_or_null [] = 0" "first_or_null (x # xs) = x"
  "xs \<noteq> [] \<Longrightarrow> first_or_null (xs @ ys) = hd xs" "xs = [] \<Longrightarrow> first_or_null (xs @ ys) = first_or_null ys"
  by (cases xs; simp add: first_or_null_def)+

lemma climb_right_eq: "rep s K t \<Longrightarrow> t \<noteq> Leaf \<Longrightarrow> climb_right s (rp t) = Some (first_or_null (rights K))"
proof (induction K arbitrary: t)
  case Nil
  then show ?case by (cases t; subst climb_right.simps) (auto simp: Parent_rep)
next
  case (Cons F K)
  obtain c l x r where t: "t = Node c l x r" using Cons.prems by (cases t) auto
  show ?case
  proof (cases F)
    case (LF fc p sib)
    then have up: "rep s K (Node fc t p sib)" using Cons.prems by (simp add: rep_LF)
    then have "p \<noteq> 0" "x \<noteq> rp sib"
      using t by (auto simp: rep_iff) (metis rp_0_iff rp_in disjoint_iff)
    then show ?thesis using LF t up Cons.prems by (subst climb_right.simps) (simp add: Parent_rep)
  next
    case (RF fc sib p)
    then have up: "rep s K (Node fc sib p t)" using Cons.prems by (simp add: rep_RF)
    then have "p \<noteq> 0" by (simp add: rep_iff)
    then show ?thesis
      using RF t up Cons.prems Cons.IH[OF up] by (subst climb_right.simps) (simp add: Parent_rep)
  qed
qed

lemma climb_left_eq: "rep s K t \<Longrightarrow> t \<noteq> Leaf \<Longrightarrow> climb_left s (rp t) = Some (first_or_null (rev (lefts K)))"
proof (induction K arbitrary: t)
  case Nil
  then show ?case by (cases t; subst climb_left.simps) (auto simp: Parent_rep)
next
  case (Cons F K)
  obtain c l x r where t: "t = Node c l x r" using Cons.prems by (cases t) auto
  show ?case
  proof (cases F)
    case (RF fc sib p)
    then have up: "rep s K (Node fc sib p t)" using Cons.prems by (simp add: rep_RF)
    then have "p \<noteq> 0" "x \<noteq> rp sib"
      using t by (auto simp: rep_iff) (metis rp_0_iff rp_in disjoint_iff)
    then show ?thesis using RF t up Cons.prems by (subst climb_left.simps) (simp add: Parent_rep)
  next
    case (LF fc p sib)
    then have up: "rep s K (Node fc t p sib)" using Cons.prems by (simp add: rep_LF)
    then have "p \<noteq> 0" by (simp add: rep_iff)
    then show ?thesis
      using LF t up Cons.prems Cons.IH[OF up] by (subst climb_left.simps) (simp add: Parent_rep)
  qed
qed

lemma Next_eq:
  assumes "rep s K (Node c l a r)"
  shows "Next s a = Some (first_or_null (inorder r @ rights K))"
proof (cases "r = Leaf")
  case True
  with climb_right_eq[OF assms] assms show ?thesis by (simp add: Next_def IsLinked_rep)
next
  case False
  have "rep s (RF c l a # K) r" using assms by (simp add: rep_RF)
  with leftmost_eq[OF this False] rp_eq_0[OF this] False assms show ?thesis
    by (simp add: Next_def IsLinked_rep inorder_nil_iff)
qed

lemma Prev_eq:
  assumes "rep s K (Node c l a r)"
  shows "Prev s a = Some (first_or_null (rev (lefts K @ inorder l)))"
proof (cases "l = Leaf")
  case True
  with climb_left_eq[OF assms] assms show ?thesis by (simp add: Prev_def IsLinked_rep)
next
  case False
  have "rep s (LF c a r # K) l" using assms by (simp add: rep_LF)
  with rightmost_eq[OF this False] rp_eq_0[OF this] False assms show ?thesis
    by (simp add: Prev_def IsLinked_rep inorder_nil_iff hd_rev)
qed


section \<open>Searching\<close>

lemma lower_loop_eq:
  "rep s K t \<Longrightarrow> sorted_wrt (\<lambda>x y. \<not> lt (key x) k \<longrightarrow> \<not> lt (key y) k) (inorder t) \<Longrightarrow>
   lower_loop key lt s k (rp t) found =
     Some (first_or_null (filter (\<lambda>x. \<not> lt (key x) k) (inorder t) @ (if found = 0 then [] else [found])))"
proof (induction t arbitrary: K found)
  case Leaf
  then show ?case by (subst lower_loop.simps) simp
next
  case (Node c l a r)
  have l: "rep s (LF c a r # K) l" and r: "rep s (RF c l a # K) r" and a: "a \<noteq> 0"
    using Node.prems(1) by (simp_all add: rep_LF rep_RF [symmetric] rep_nonnull)
  show ?case
  proof (cases "lt (key a) k")
    case True
    then have "filter (\<lambda>x. \<not> lt (key x) k) (inorder l) = []"
      using Node.prems(2) by (auto simp: filter_empty_conv sorted_wrt_append)
    then show ?thesis
      using True a Node.prems Node.IH(2)[OF r] by (subst lower_loop.simps) (simp add: sorted_wrt_append)
  next
    case False
    then show ?thesis
      using a Node.prems Node.IH(1)[OF l]
      by (subst lower_loop.simps) (cases "filter (\<lambda>x. \<not> lt (key x) k) (inorder l)"; simp add: sorted_wrt_append)
  qed
qed

lemma upper_loop_eq:
  "rep s K t \<Longrightarrow> sorted_wrt (\<lambda>x y. lt k (key x) \<longrightarrow> lt k (key y)) (inorder t) \<Longrightarrow>
   upper_loop key lt s k (rp t) found =
     Some (let ys = filter (\<lambda>x. \<not> lt k (key x)) (inorder t) in if ys = [] then found else last ys)"
proof (induction t arbitrary: K found)
  case Leaf
  then show ?case by (subst upper_loop.simps) simp
next
  case (Node c l a r)
  have l: "rep s (LF c a r # K) l" and r: "rep s (RF c l a # K) r" and a: "a \<noteq> 0"
    using Node.prems(1) by (simp_all add: rep_LF rep_RF [symmetric] rep_nonnull)
  show ?case
  proof (cases "lt k (key a)")
    case True
    then have "filter (\<lambda>x. \<not> lt k (key x)) (inorder r) = []"
      using Node.prems(2) by (auto simp: filter_empty_conv sorted_wrt_append)
    then show ?thesis
      using True a Node.prems Node.IH(1)[OF l] by (subst upper_loop.simps) (simp add: sorted_wrt_append)
  next
    case False
    then show ?thesis
      using a Node.prems Node.IH(2)[OF r] by (subst upper_loop.simps) (auto simp: sorted_wrt_append Let_def)
  qed
qed

section \<open>The walks and searches on the list of nodes\<close>

lemma rb_holds_distinct: "rb_holds s xs \<Longrightarrow> distinct xs"
  by (auto simp: rb_holds_def rep_iff)

lemma rb_holds_nonnull: "rb_holds s xs \<Longrightarrow> x \<in> set xs \<Longrightarrow> x \<noteq> 0"
  using tree_at_addrs by (fastforce simp: rb_holds_def rep_iff)

lemma rb_holds_split:
  assumes "rb_holds s (us @ a # vs)"
  obtains K c l r where "rep s K (Node c l a r)" "red_black (fill K (Node c l a r))"
    "us = lefts K @ inorder l" "vs = inorder r @ rights K"
proof -
  have "a \<in> set (us @ a # vs)" by simp
  with assms obtain K c l r where K: "rep s K (Node c l a r)" "red_black (fill K (Node c l a r))"
    "us @ a # vs = lefts K @ inorder l @ a # inorder r @ rights K" by (rule rb_holds_at)
  have "distinct (us @ a # vs)" using assms by (rule rb_holds_distinct)
  then have "a \<notin> set us" "a \<notin> set vs" by simp_all
  then have "us = lefts K @ inorder l" "vs = inorder r @ rights K"
    using K(3) append_Cons_eq_iff[of a us vs "lefts K @ inorder l" "inorder r @ rights K"] by simp_all
  with K that show thesis by blast
qed

lemma Next_holds: "rb_holds s (us @ a # vs) \<Longrightarrow> Next s a = Some (first_or_null vs)"
  by (erule rb_holds_split) (simp add: Next_eq)

lemma Prev_holds: "rb_holds s (us @ a # vs) \<Longrightarrow> Prev s a = Some (first_or_null (rev us))"
  by (erule rb_holds_split) (simp add: Prev_eq)

lemma Begin_holds: "rb_holds s xs \<Longrightarrow> RBTree_Begin s = Some (first_or_null xs)"
proof -
  assume "rb_holds s xs"
  then obtain t where t: "rep s [] t" "inorder t = xs" by (auto simp: rb_holds_def)
  then have "root s = rp t" by (simp add: rep_iff)
  with t show ?thesis
    using leftmost_eq[OF t(1)] rp_eq_0[OF t(1)]
    by (cases "t = Leaf") (auto simp: RBTree_Begin_def first_or_null_def inorder_nil_iff split: list.split)
qed

lemma RBegin_holds: "rb_holds s xs \<Longrightarrow> RBTree_RBegin s = Some (first_or_null (rev xs))"
proof -
  assume "rb_holds s xs"
  then obtain t where t: "rep s [] t" "inorder t = xs" by (auto simp: rb_holds_def)
  then have "root s = rp t" by (simp add: rep_iff)
  moreover have "first_or_null (rev xs) = last xs" if "xs \<noteq> []"
    using that by (cases xs rule: rev_cases) auto
  ultimately show ?thesis
    using t rightmost_eq[OF t(1)] rp_eq_0[OF t(1)]
    by (cases "t = Leaf") (auto simp: RBTree_RBegin_def inorder_nil_iff)
qed

lemma first_or_null_filter_0: "0 \<notin> set xs \<Longrightarrow> first_or_null (filter P xs) = 0 \<longleftrightarrow> (\<forall>x\<in>set xs. \<not> P x)"
  by (induction xs) auto

context strict_weak_order
begin

lemma sorted_below_cut:
  assumes "sorted_by lt (map key xs)"
  shows "sorted_wrt (\<lambda>x y. \<not> lt (key x) k \<longrightarrow> \<not> lt (key y) k) xs"
proof (rule sorted_wrt_mono_rel)
  show "sorted_wrt (\<lambda>x y. \<not> lt (key y) (key x)) xs"
    using assms by (simp add: sorted_by_def sorted_wrt_map)
qed (use lt_negtrans in blast)

lemma sorted_above_cut:
  assumes "sorted_by lt (map key xs)"
  shows "sorted_wrt (\<lambda>x y. lt k (key x) \<longrightarrow> lt k (key y)) xs"
proof (rule sorted_wrt_mono_rel)
  show "sorted_wrt (\<lambda>x y. \<not> lt (key y) (key x)) xs"
    using assms by (simp add: sorted_by_def sorted_wrt_map)
qed (use lt_le_trans in blast)

lemma LowerBound_holds:
  assumes "rb_holds s xs" "sorted_by lt (map key xs)"
  shows "LowerBound key lt s k = Some (first_or_null (filter (\<lambda>x. \<not> lt (key x) k) xs))"
proof -
  obtain t where t: "rep s [] t" "inorder t = xs" using assms(1) by (auto simp: rb_holds_def)
  then have "root s = rp t" by (simp add: rep_iff)
  with lower_loop_eq[of s "[]" t lt key k 0] t sorted_below_cut[OF assms(2)] show ?thesis
    by (simp add: LowerBound_def)
qed

lemma first_equal:
  assumes "sorted_by lt (map key xs)" "0 \<notin> set xs" "f = first_or_null (filter (\<lambda>x. \<not> lt (key x) k) xs)"
  shows "first_or_null (filter (\<lambda>x. \<not> lt (key x) k \<and> \<not> lt k (key x)) xs) =
    (if f = 0 \<or> lt k (key f) then 0 else f)"
  using assms
proof (induction xs arbitrary: f)
  case (Cons x xs)
  show ?case
  proof (cases "lt (key x) k")
    case True
    with Cons show ?thesis by (simp add: sorted_by_def)
  next
    case False
    show ?thesis
    proof (cases "lt k (key x)")
      case True
      have "\<forall>y\<in>set xs. lt k (key y)"
        using Cons.prems(1) lt_le_trans[OF True] by (simp add: sorted_by_def)
      then have "filter (\<lambda>x. \<not> lt (key x) k \<and> \<not> lt k (key x)) xs = []" by (simp add: filter_empty_conv)
      with True False Cons.prems show ?thesis by simp
    qed (use False Cons.prems in simp)
  qed
qed simp

lemma Find_holds:
  assumes "rb_holds s xs" "sorted_by lt (map key xs)"
  shows "Find key lt s k = Some (first_or_null (filter (\<lambda>x. \<not> lt (key x) k \<and> \<not> lt k (key x)) xs))"
proof -
  have "0 \<notin> set xs" using assms(1) rb_holds_nonnull by blast
  note first_equal[OF assms(2) this refl, of k]
  moreover have "lower_loop key lt s k (root s) 0 = Some (first_or_null (filter (\<lambda>x. \<not> lt (key x) k) xs))"
    using LowerBound_holds[OF assms] by (simp add: LowerBound_def)
  ultimately show ?thesis by (auto simp: Find_def)
qed

lemma UpperBound_holds:
  assumes "rb_holds s xs" "sorted_by lt (map key xs)"
  shows "UpperBound key lt s k = Some (if list_all (\<lambda>x. lt k (key x)) xs then 0
    else first_or_null (filter (\<lambda>x. lt k (key x)) xs))"
proof -
  obtain t where t: "rep s [] t" "inorder t = xs" using assms(1) by (auto simp: rb_holds_def)
  then have root: "root s = rp t" by (simp add: rep_iff)
  let ?ys = "filter (\<lambda>x. \<not> lt k (key x)) xs"
  let ?f = "if ?ys = [] then 0 else last ?ys"
  have "upper_loop key lt s k (root s) 0 = Some ?f"
    using upper_loop_eq[of s "[]" t lt k key 0] t sorted_above_cut[OF assms(2)] root by (simp add: Let_def)
  then have U: "UpperBound key lt s k = (if ?f = 0 \<or> lt k (key ?f) then Some ?f else Next s ?f)"
    by (simp add: UpperBound_def)
  show ?thesis
  proof (cases "?ys = []")
    case True
    then have "list_all (\<lambda>x. lt k (key x)) xs" by (simp add: list_all_iff filter_empty_conv)
    with U True show ?thesis by simp
  next
    case False
    then have "\<exists>x\<in>set xs. \<not> lt k (key x)" by (auto simp: filter_empty_conv)
    then obtain as z bs where xs: "xs = as @ z # bs" "\<not> lt k (key z)" "\<forall>x\<in>set bs. lt k (key x)"
      using split_list_last_prop[of xs "\<lambda>x. \<not> lt k (key x)"] by blast
    then have f: "?ys \<noteq> []" "last ?ys = z" by (simp_all add: filter_empty_conv)
    have "sorted_by lt (map key as @ key z # map key bs)" using assms(2) xs(1) by simp
    then have "\<not> lt (key z) (key x)" if "x \<in> set as" for x
      using that by (simp add: sorted_by_def sorted_wrt_append)
    then have "\<not> lt k (key x)" if "x \<in> set as" for x
      using that xs(2) lt_le_trans by blast
    then have "filter (\<lambda>x. lt k (key x)) xs = bs"
      using xs by (simp add: filter_empty_conv)
    moreover have "z \<noteq> 0" using rb_holds_nonnull[OF assms(1)] xs by simp
    moreover have "Next s z = Some (first_or_null bs)" using Next_holds assms(1) xs(1) by simp
    ultimately show ?thesis using U f xs by simp
  qed
qed

end

section \<open>The properties\<close>

text \<open>C20: on a red-black tree \<open>Begin\<close> and \<open>RBegin\<close> return the two ends
  of the in-order list and \<open>Next\<close> and \<open>Prev\<close> of any linked node return its two
  neighbours, null past the ends; every call returns.\<close>
theorem walk_correct:
  assumes "rb_holds s (us @ a # vs)"
  shows "RBTree_Begin s = Some (first_or_null (us @ [a])) \<and> RBTree_RBegin s = Some (first_or_null (rev vs @ [a])) \<and>
    Next s a = Some (first_or_null vs) \<and> Prev s a = Some (first_or_null (rev us)) \<and>
    RBNode_IsLinked s a = Some True"
proof -
  have "first_or_null (us @ a # vs) = first_or_null (us @ [a])" by (cases us) simp_all
  moreover have "first_or_null (rev (us @ a # vs)) = first_or_null (rev vs @ [a])" by (cases "rev vs") simp_all
  moreover have "RBNode_IsLinked s a = Some True" using assms by (rule rb_holds_split) (rule IsLinked_rep)
  ultimately show ?thesis
    using Begin_holds[OF assms] RBegin_holds[OF assms] Next_holds[OF assms] Prev_holds[OF assms] by simp
qed

lemma walk_correct_witness:
  "RBTree_Begin sample_tree = Some 4 \<and> Next sample_tree 4 = Some 8 \<and> Next sample_tree 8 = Some 0"
  using walk_correct[of sample_tree "[]" 4 "[8]"] walk_correct[of sample_tree "[4]" 8 "[]"] sample_tree_holds
  by simp

text \<open>C21: on a red-black tree whose keys are in order, \<open>LowerBound\<close> returns the
  first node whose key is not below the argument and \<open>Find\<close> the first node with an equal key,
  null when there is none.\<close>
theorem search_correct:
  assumes "strict_weak_order lt" "rb_holds s xs" "sorted_by lt (map key xs)"
  shows "LowerBound key lt s k = Some (first_or_null (filter (\<lambda>x. \<not> lt (key x) k) xs)) \<and>
    Find key lt s k = Some (first_or_null (filter (\<lambda>x. \<not> lt (key x) k \<and> \<not> lt k (key x)) xs))"
  using strict_weak_order.LowerBound_holds[OF assms] strict_weak_order.Find_holds[OF assms] by simp

lemma search_correct_witness:
  "LowerBound id std_less sample_tree 5 = Some 8 \<and> Find id std_less sample_tree 5 = Some 0 \<and>
   Find id std_less sample_tree 4 = Some 4"
  using search_correct[OF std.strict_weak_order_axioms sample_tree_holds, of id 5]
    search_correct[OF std.strict_weak_order_axioms sample_tree_holds, of id 4]
  by (simp add: sorted_by_def std_less_def)

text \<open>C24: \<open>UpperBound\<close> returns the first node above the argument when some
  node is not above it. When every node is above the argument, so that the first node is the answer,
  it returns null.\<close>
theorem UpperBound_correct:
  assumes "strict_weak_order lt" "rb_holds s xs" "sorted_by lt (map key xs)"
  shows "UpperBound key lt s k = Some (if list_all (\<lambda>x. lt k (key x)) xs then 0
    else first_or_null (filter (\<lambda>x. lt k (key x)) xs))"
  by (rule strict_weak_order.UpperBound_holds[OF assms])

lemma UpperBound_correct_witness:
  "UpperBound id std_less sample_tree 4 = Some 8 \<and> UpperBound id std_less sample_tree 3 = Some 0"
  using UpperBound_correct[OF std.strict_weak_order_axioms sample_tree_holds, of id 4]
    UpperBound_correct[OF std.strict_weak_order_axioms sample_tree_holds, of id 3]
  by (simp add: sorted_by_def std_less_def)

end
