(* ===== verification/RBErase.thy ===== *)
theory RBErase
  imports RBWalk
begin

text \<open>
  Removal: the repair loop of \<open>RBTreeNode::Erase\<close> implements \<open>del_fix\<close> of RBShape round by
  round, and removing a node with at most one child keeps the tree red-black and the order of the
  others.
\<close>

section \<open>One round of the repair, sibling on the right\<close>

lemma rebalance_red_right_spec:
  assumes "rep s (LF pc p (Node Red (Node bc bl b br) q sr) # K) t"
  shows "returns (rebalance_red_right s p q) (\<lambda>(s', sib). sib = b \<and>
    rep s' (LF Red p (Node Black bl b br) # LF pc q sr # K) t \<and>
    touches (set (inorder (Node pc t p (Node Red (Node bc bl b br) q sr))) \<union> kaddrs K) s s')"
  using assms
  apply (clarsimp simp add: run_simps rebalance_red_right_def)
  apply (rule returns_ChangeChild; simp add: final_simps Int_commute)
  done

lemma rebalance_black_not_red:
  assumes "rep s (LF pc p (Node Black sl q sr) # K) t"
  shows "rebalance_red_right s p q = Some (s, q)"
  using assms by (auto simp: run_simps rebalance_red_right_def)

lemma rebalance_finish_right_outer:
  assumes "rep s (LF pc p (Node sc sl q sr) # K) t" "root_color sr = Red"
  shows "returns (rebalance_black_right s p q) (\<lambda>(s', again). again = None \<and>
    rep s' K (Node pc (Node Black t p sl) q (paint Black sr)) \<and>
    touches (set (inorder (Node pc t p (Node sc sl q sr))) \<union> kaddrs K) s s')"
  using assms
  apply (cases sr; clarsimp simp add: run_simps rebalance_black_right_def rebalance_finish_right_def)
  apply (rule returns_ChangeChild; simp add: final_simps Int_commute)
  done

lemma rebalance_finish_right_inner:
  assumes "rep s (LF pc p (Node sc (Node Red b x d) q sr) # K) t" "root_color sr = Black"
  shows "returns (rebalance_black_right s p q) (\<lambda>(s', again). again = None \<and>
    rep s' K (Node pc (Node Black t p b) x (Node Black (paint Black d) q sr)) \<and>
    touches (set (inorder (Node pc t p (Node sc (Node Red b x d) q sr))) \<union> kaddrs K) s s')"
  using assms
  apply (clarsimp simp add: run_simps rebalance_black_right_def rebalance_finish_right_def)
  apply (rule returns_ChangeChild; simp add: final_simps Int_commute)
  done

lemma rebalance_recolor_right:
  assumes "rep s (LF pc p (Node sc sl q sr) # K) t" "root_color sr = Black" "root_color sl = Black"
  shows "returns (rebalance_black_right s p q) (\<lambda>(s', again).
    again = (if pc = Red \<or> K = [] then None else Some (cparent K, p)) \<and>
    rep s' K (Node Black t p (Node Red sl q sr)) \<and>
    touches (set (inorder (Node pc t p (Node sc sl q sr))) \<union> kaddrs K) s s')"
  using assms ctx_at_cparent[of "nodes s" "root s" K p]
  apply (cases pc; clarsimp simp add: run_simps rebalance_black_right_def rebalance_recolor_def)
   apply (cases "K = []"; simp add: final_simps Int_commute)+
  done

section \<open>One round of the repair, sibling on the left\<close>

lemma rebalance_red_left_spec:
  assumes "rep s (RF pc (Node Red sl q (Node bc bl b br)) p # K) t"
  shows "returns (rebalance_red_left s p q) (\<lambda>(s', sib). sib = b \<and>
    rep s' (RF Red (Node Black bl b br) p # RF pc sl q # K) t \<and>
    touches (set (inorder (Node pc (Node Red sl q (Node bc bl b br)) p t)) \<union> kaddrs K) s s')"
  using assms
  apply (clarsimp simp add: run_simps rebalance_red_left_def)
  apply (rule returns_ChangeChild; simp add: final_simps Int_commute)
  done

lemma rebalance_black_not_red_left:
  assumes "rep s (RF pc (Node Black sl q sr) p # K) t"
  shows "rebalance_red_left s p q = Some (s, q)"
  using assms by (auto simp: run_simps rebalance_red_left_def)

lemma rebalance_finish_left_outer:
  assumes "rep s (RF pc (Node sc sl q sr) p # K) t" "root_color sl = Red"
  shows "returns (rebalance_black_left s p q) (\<lambda>(s', again). again = None \<and>
    rep s' K (Node pc (paint Black sl) q (Node Black sr p t)) \<and>
    touches (set (inorder (Node pc (Node sc sl q sr) p t)) \<union> kaddrs K) s s')"
  using assms
  apply (cases sl; clarsimp simp add: run_simps rebalance_black_left_def rebalance_finish_left_def)
  apply (rule returns_ChangeChild; simp add: final_simps Int_commute)
  done

lemma rebalance_finish_left_inner:
  assumes "rep s (RF pc (Node sc sl q (Node Red b x d)) p # K) t" "root_color sl = Black"
  shows "returns (rebalance_black_left s p q) (\<lambda>(s', again). again = None \<and>
    rep s' K (Node pc (Node Black sl q (paint Black b)) x (Node Black d p t)) \<and>
    touches (set (inorder (Node pc (Node sc sl q (Node Red b x d)) p t)) \<union> kaddrs K) s s')"
  using assms
  apply (clarsimp simp add: run_simps rebalance_black_left_def rebalance_finish_left_def)
  apply (rule returns_ChangeChild; simp add: final_simps Int_commute)
  done

lemma rebalance_recolor_left:
  assumes "rep s (RF pc (Node sc sl q sr) p # K) t" "root_color sl = Black" "root_color sr = Black"
  shows "returns (rebalance_black_left s p q) (\<lambda>(s', again).
    again = (if pc = Red \<or> K = [] then None else Some (cparent K, p)) \<and>
    rep s' K (Node Black (Node Red sl q sr) p t) \<and>
    touches (set (inorder (Node pc (Node sc sl q sr) p t)) \<union> kaddrs K) s s')"
  using assms ctx_at_cparent[of "nodes s" "root s" K p]
  apply (cases pc; clarsimp simp add: run_simps rebalance_black_left_def rebalance_recolor_def)
   apply (cases "K = []"; simp add: final_simps Int_commute)+
  done

section \<open>A round as a step of \<open>del_fix\<close>\<close>

text \<open>\<open>round_ok A s d r\<close>: the round \<open>r\<close> has done to the heap what \<open>d\<close> says.\<close>

fun round_ok :: "addr set \<Rightarrow> rb \<Rightarrow> del_result \<Rightarrow> round \<Rightarrow> bool" where
  "round_ok A s (Done t) (s', again) = (again = None \<and> rep s' [] t \<and> touches A s s')"
| "round_ok A s (Up K t) (s', again) =
     (again = (if K = [] then None else Some (cparent K, rp t)) \<and> rep s' K t \<and> touches A s s')"
| "round_ok A s Stuck r = True"

lemma round_ok_Done:
  assumes "returns m (\<lambda>(s', again). again = None \<and> rep s' K t \<and> touches A s s')"
    and "d = Done (fill K t)" "A = B"
  shows "returns m (round_ok B s d)"
  by (rule returns_mono[OF assms(1)]) (use assms(2,3) rep_fill_iff in auto)

lemma rebalance_black_right_ok:
  assumes "rep s (LF pc p (Node sc sl q sr) # K) t"
  shows "returns (rebalance_black_right s p q)
    (round_ok (set (inorder t) \<union> kaddrs (LF pc p (Node sc sl q sr) # K)) s
      (del_black (LF pc p (Node sc sl q sr) # K) t))"
proof (cases "root_color sr")
  case Red
  show ?thesis
    by (rule round_ok_Done[OF rebalance_finish_right_outer[OF assms Red]]) (use Red in auto)
next
  case Black
  show ?thesis
  proof (cases "root_color sl")
    case Red
    then obtain b x d where sl: "sl = Node Red b x d" by (cases sl) auto
    show ?thesis
      by (rule round_ok_Done[OF rebalance_finish_right_inner[OF assms[unfolded sl] Black]]) (use sl Black in auto)
  next
    case Black2: Black
    then have d: "del_black (LF pc p (Node sc sl q sr) # K) t = 
        (if pc = Red then Done (fill K (Node Black t p (Node Red sl q sr))) else Up K (Node Black t p (Node Red sl q sr)))"
      using Black by (cases sl) auto
    show ?thesis
      unfolding d by (rule returns_mono[OF rebalance_recolor_right[OF assms Black Black2]])
        (use rep_fill_iff in \<open>auto simp: touches_def\<close>)
  qed
qed

lemma rebalance_black_left_ok:
  assumes "rep s (RF pc (Node sc sl q sr) p # K) t"
  shows "returns (rebalance_black_left s p q)
    (round_ok (set (inorder t) \<union> kaddrs (RF pc (Node sc sl q sr) p # K)) s
      (del_black (RF pc (Node sc sl q sr) p # K) t))"
proof (cases "root_color sl")
  case Red
  show ?thesis
    by (rule round_ok_Done[OF rebalance_finish_left_outer[OF assms Red]]) (use Red in auto)
next
  case Black
  show ?thesis
  proof (cases "root_color sr")
    case Red
    then obtain b x d where sr: "sr = Node Red b x d" by (cases sr) auto
    show ?thesis
      by (rule round_ok_Done[OF rebalance_finish_left_inner[OF assms[unfolded sr] Black]]) (use sr Black in auto)
  next
    case Black2: Black
    then have d: "del_black (RF pc (Node sc sl q sr) p # K) t = 
        (if pc = Red then Done (fill K (Node Black (Node Red sl q sr) p t)) else Up K (Node Black (Node Red sl q sr) p t))"
      using Black by (cases sr) auto
    show ?thesis
      unfolding d by (rule returns_mono[OF rebalance_recolor_left[OF assms Black Black2]])
        (use rep_fill_iff in \<open>auto simp: touches_def\<close>)
  qed
qed

lemma round_ok_trans: "touches A s s' \<Longrightarrow> round_ok A s' d r \<Longrightarrow> round_ok A s d r"
  by (cases "(A, s', d, r)" rule: round_ok.cases) (auto intro: touches_trans)

lemma rebalance_right_ok:
  assumes "rep s (LF pc p (Node sc sl q sr) # K) t" "del_step (LF pc p (Node sc sl q sr) # K) t \<noteq> Stuck"
  shows "returns (rebalance_right s p q)
    (round_ok (set (inorder t) \<union> kaddrs (LF pc p (Node sc sl q sr) # K)) s
      (del_step (LF pc p (Node sc sl q sr) # K) t))"
proof (cases sc)
  case Red
  then obtain bc bl b br where sl: "sl = Node bc bl b br" using assms(2) by (cases sl) auto
  let ?A = "set (inorder t) \<union> kaddrs (LF pc p (Node sc sl q sr) # K)"
  have A: "?A = set (inorder t) \<union> kaddrs (LF Red p (Node Black bl b br) # LF pc q sr # K)"
    by (auto simp: sl)
  obtain s1 where s1: "rebalance_red_right s p q = Some (s1, b)"
      "rep s1 (LF Red p (Node Black bl b br) # LF pc q sr # K) t" "touches ?A s s1"
    using rebalance_red_right_spec[OF assms(1)[unfolded Red sl]]
    by (auto simp: returns_def sl touches_def)
  obtain r where r: "rebalance_black_right s1 p b = Some r" "round_ok ?A s1 (del_black (LF Red p (Node Black bl b br) # LF pc q sr # K) t) r"
    using rebalance_black_right_ok[OF s1(2)] unfolding A [symmetric] by (auto simp: returns_def)
  have "rebalance_right s p q = Some r" using s1(1) r(1) by (simp add: rebalance_right_def)
  moreover have "round_ok ?A s (del_black (LF Red p (Node Black bl b br) # LF pc q sr # K) t) r" using s1(3) r(2) by (rule round_ok_trans)
  ultimately show ?thesis using Red by (simp add: returns_def sl)
next
  case Black
  with rebalance_black_right_ok[OF assms(1)] rebalance_black_not_red assms(1) show ?thesis
    by (auto simp: rebalance_right_def exec_simps)
qed

lemma rebalance_left_ok:
  assumes "rep s (RF pc (Node sc sl q sr) p # K) t" "del_step (RF pc (Node sc sl q sr) p # K) t \<noteq> Stuck"
  shows "returns (rebalance_left s p q)
    (round_ok (set (inorder t) \<union> kaddrs (RF pc (Node sc sl q sr) p # K)) s
      (del_step (RF pc (Node sc sl q sr) p # K) t))"
proof (cases sc)
  case Red
  then obtain bc bl b br where sr: "sr = Node bc bl b br" using assms(2) by (cases sr) auto
  let ?A = "set (inorder t) \<union> kaddrs (RF pc (Node sc sl q sr) p # K)"
  have A: "?A = set (inorder t) \<union> kaddrs (RF Red (Node Black bl b br) p # RF pc sl q # K)"
    by (auto simp: sr)
  obtain s1 where s1: "rebalance_red_left s p q = Some (s1, b)"
      "rep s1 (RF Red (Node Black bl b br) p # RF pc sl q # K) t" "touches ?A s s1"
    using rebalance_red_left_spec[OF assms(1)[unfolded Red sr]]
    by (auto simp: returns_def sr touches_def)
  obtain r where r: "rebalance_black_left s1 p b = Some r" "round_ok ?A s1 (del_black (RF Red (Node Black bl b br) p # RF pc sl q # K) t) r"
    using rebalance_black_left_ok[OF s1(2)] unfolding A [symmetric] by (auto simp: returns_def)
  have "rebalance_left s p q = Some r" using s1(1) r(1) by (simp add: rebalance_left_def)
  moreover have "round_ok ?A s (del_black (RF Red (Node Black bl b br) p # RF pc sl q # K) t) r" using s1(3) r(2) by (rule round_ok_trans)
  ultimately show ?thesis using Red by (simp add: returns_def sr)
next
  case Black
  with rebalance_black_left_ok[OF assms(1)] rebalance_black_not_red_left assms(1) show ?thesis
    by (auto simp: rebalance_left_def exec_simps)
qed

section \<open>The loop\<close>

definition rebalance_next :: "round \<Rightarrow> rb option" where
  "rebalance_next r =
     (case snd r of None \<Rightarrow> Some (fst r) | Some (parent, node) \<Rightarrow> rebalance_loop (fst r) parent node)"

lemma rebalance_loop_right:
  assumes "rep s (LF pc p (Node sc sl q sr) # K) t"
  shows "rebalance_loop s p (rp t) = Option.bind (rebalance_right s p q) rebalance_next"
proof -
  have "Right s p = Some q" "rp t \<noteq> q"
    using assms rp_notin[of q t] by (auto simp: rep_iff Right_def)
  then show ?thesis
    by (subst rebalance_loop.simps)
      (auto simp: rebalance_next_def split: prod.split intro!: arg_cong2[where f = Option.bind] ext)
qed

lemma rebalance_loop_left:
  assumes "rep s (RF pc (Node sc sl q sr) p # K) t"
  shows "rebalance_loop s p (rp t) = Option.bind (rebalance_left s p q) rebalance_next"
proof -
  have "Right s p = Some (rp t)" "Left s p = Some q"
    using assms by (auto simp: rep_iff Right_def Left_def)
  then show ?thesis
    by (subst rebalance_loop.simps)
      (auto simp: rebalance_next_def split: prod.split intro!: arg_cong2[where f = Option.bind] ext)
qed

lemma del_step_sibling:
  assumes "del_step K t \<noteq> Stuck"
  obtains pc p sc sl q sr K' where "K = LF pc p (Node sc sl q sr) # K'"
  | pc p sc sl q sr K' where "K = RF pc (Node sc sl q sr) p # K'"
  using assms by (cases "(K, t)" rule: del_step.cases) auto

lemma rebalance_loop_step:
  assumes "rep s K t" "del_step K t \<noteq> Stuck"
  shows "\<exists>r. round_ok (set (inorder t) \<union> kaddrs K) s (del_step K t) r \<and>
    rebalance_loop s (cparent K) (rp t) = rebalance_next r"
  using assms(2)
proof (cases rule: del_step_sibling)
  case (1 pc p sc sl q sr K')
  show ?thesis
    using rebalance_right_ok[OF assms[unfolded 1]] rebalance_loop_right[OF assms(1)[unfolded 1]]
    unfolding 1 cparent.simps by (elim returnsE) (simp del: split_paired_Ex; blast)
next
  case (2 pc p sc sl q sr K')
  show ?thesis
    using rebalance_left_ok[OF assms[unfolded 2]] rebalance_loop_left[OF assms(1)[unfolded 2]]
    unfolding 2 cparent.simps by (elim returnsE) (simp del: split_paired_Ex; blast)
qed

lemma rebalance_loop_spec:
  "del_fix K t = Some t' \<Longrightarrow> rep s K t \<Longrightarrow> K \<noteq> [] \<Longrightarrow> deficit_ok K t \<Longrightarrow>
   returns (rebalance_loop s (cparent K) (rp t)) (\<lambda>s'. rep s' [] t' \<and> touches (set (inorder (fill K t))) s s')"
proof (induction K t arbitrary: s rule: del_fix.induct)
  case (1 K t)
  let ?A = "set (inorder t) \<union> kaddrs K"
  have ok: "result_ok K t (del_step K t)" using "1.prems"(3,4) by (rule del_step_ok[rotated])
  then have "del_step K t \<noteq> Stuck" by auto
  then obtain r where r: "round_ok ?A s (del_step K t) r"
      "rebalance_loop s (cparent K) (rp t) = rebalance_next r"
    using rebalance_loop_step "1.prems"(2) by blast
  show ?case
  proof (cases "del_step K t")
    case (Done u)
    then have "t' = u" using "1.prems"(1,3) by (subst (asm) del_fix.simps) simp
    with Done r show ?thesis
      by (cases r) (auto simp: rebalance_next_def set_inorder_fill returns_def)
  next
    case (Up K1 t1)
    then have t': "del_fix K1 t1 = Some t'" using "1.prems"(1,3) by (subst (asm) del_fix.simps) simp
    obtain s1 again where s1: "r = (s1, again)" by (cases r)
    then have s1': "again = (if K1 = [] then None else Some (cparent K1, rp t1))" "rep s1 K1 t1" "touches ?A s s1"
      using r(1) Up by auto
    have same: "inorder (fill K1 t1) = inorder (fill K t)" "deficit_ok K1 t1" using ok Up by simp_all
    show ?thesis
    proof (cases "K1 = []")
      case True
      then have "t' = t1" using t' by (subst (asm) del_fix.simps) simp
      with True s1 s1' r(2) show ?thesis by (simp add: rebalance_next_def set_inorder_fill returns_def)
    next
      case False
      have "returns (rebalance_loop s1 (cparent K1) (rp t1))
          (\<lambda>s'. rep s' [] t' \<and> touches (set (inorder (fill K1 t1))) s1 s')"
        using "1.IH"[OF "1.prems"(3) Up t' s1'(2) False same(2)] .
      then show ?thesis
        using s1 s1' r(2) False same(1)
        by (auto simp: rebalance_next_def returns_def set_inorder_fill intro: touches_trans)
    qed
  qed (use ok in simp)
qed

section \<open>Unlinking a node with at most one child\<close>

lemma erase_unlink_one:
  assumes "rep s K (Node c l a r)" "l = Leaf \<or> r = Leaf"
  shows "returns (erase_unlink s a) (\<lambda>(s', rebalance).
    rebalance = (if l = Leaf \<and> r = Leaf \<and> c = Black then cparent K else 0) \<and>
    rep s' K (paint c (if l = Leaf then r else l)) \<and>
    touches (set (inorder l) \<union> set (inorder r) \<union> kaddrs K) s s')"
proof -
  have K: "aligned (cparent K)"
    using assms(1) ctx_at_cparent[of "nodes s" "root s" K a] by (simp add: rep_iff)
  consider "l = Leaf" "r = Leaf" | "l = Leaf" "r \<noteq> Leaf" | "l \<noteq> Leaf" "r = Leaf"
    using assms(2) by blast
  then show ?thesis
  proof cases
    case 1
    with assms K show ?thesis
      apply (cases c; clarsimp simp add: run_simps erase_unlink_def)
       apply (rule returns_ChangeChild; simp add: final_simps Int_commute)+
      done
  next
    case 2
    with assms K show ?thesis
      apply (cases r; clarsimp simp add: run_simps erase_unlink_def)
      apply (rule returns_ChangeChild; simp add: final_simps exec_simps Int_commute)
      done
  next
    case 3
    with assms K show ?thesis
      apply (cases l; clarsimp simp add: run_simps erase_unlink_def)
      apply (rule returns_ChangeChild; simp add: final_simps exec_simps Int_commute)
      done
  qed
qed

section \<open>Erasing\<close>

text \<open>A node without left child is red-black with its right subtree, a single red node or nothing.\<close>

lemma red_black_one_child:
  assumes "red_black (fill K (Node c l a r))" "l = Leaf \<or> r = Leaf"
  shows "if l = Leaf \<and> r = Leaf \<and> c = Black then deficit_ok K Leaf
    else red_black (fill K (paint c (if l = Leaf then r else l)))"
proof -
  have "c = Black \<and> root_color l = Red" if "l \<noteq> Leaf" "r = Leaf"
    using assms(1) that by (cases l; cases c) (auto simp: red_black_fill split: if_splits)
  moreover have "c = Black \<and> root_color r = Red" if "r \<noteq> Leaf" "l = Leaf"
    using assms(1) that by (cases r; cases c) (auto simp: red_black_fill split: if_splits)
  ultimately show ?thesis
    using assms by (cases l; cases r; cases c) (auto simp: red_black_fill deficit_ok_def)
qed

lemma RBNode_Erase_one:
  assumes "rep s K (Node c l a r)" "red_black (fill K (Node c l a r))" "l = Leaf \<or> r = Leaf"
  shows "returns (RBNode_Erase s a) (\<lambda>s'.
    (\<exists>t'. rep s' [] t' \<and> red_black t' \<and> inorder t' = lefts K @ inorder l @ inorder r @ rights K) \<and>
    touches (set (inorder l) \<union> set (inorder r) \<union> kaddrs K) s s')"
proof -
  let ?t = "paint c (if l = Leaf then r else l)" and ?A = "set (inorder l) \<union> set (inorder r) \<union> kaddrs K"
  obtain s1 reb where s1: "erase_unlink s a = Some (s1, reb)"
      "reb = (if l = Leaf \<and> r = Leaf \<and> c = Black then cparent K else 0)" "rep s1 K ?t" "touches ?A s s1"
    using erase_unlink_one[OF assms(1,3)] by (auto simp: returns_def)
  have ord: "inorder (fill K ?t) = lefts K @ inorder l @ inorder r @ rights K"
    using assms(3) by (auto simp: inorder_fill)
  have top: "cparent K = 0 \<longleftrightarrow> K = []"
    using s1(3) ctx_at_cparent[of "nodes s1" "root s1" K "rp ?t"] by (simp add: rep_iff)
  show ?thesis
  proof (cases "reb = 0")
    case True
    have "red_black (fill K ?t)"
      using red_black_one_child[OF assms(2,3)] s1(2) True top
      by (auto simp: deficit_ok_def red_black_def split: if_splits)
    then show ?thesis
      using True s1 ord rep_fill_iff[of s1 K ?t] by (auto simp: RBNode_Erase_def exec_simps)
  next
    case False
    then have c: "l = Leaf \<and> r = Leaf \<and> c = Black" "K \<noteq> []" using s1(2) top by (auto split: if_splits)
    then have d: "deficit_ok K Leaf" using red_black_one_child[OF assms(2,3)] by simp
    then obtain t' where t': "del_fix K Leaf = Some t'" "red_black t'" "inorder t' = inorder (fill K Leaf)"
      using del_fix_ok by blast
    have "rep s1 K Leaf" using s1(3) c by simp
    from rebalance_loop_spec[OF t'(1) this c(2) d] have
      "returns (rebalance_loop s1 (cparent K) 0) (\<lambda>s'. rep s' [] t' \<and> touches (kaddrs K) s1 s')"
      by (simp add: set_inorder_fill)
    then show ?thesis
      using False s1 c t' by (auto simp: RBNode_Erase_def returns_def inorder_fill touches_def)
  qed
qed

lemma EraseNode_one:
  assumes "rb_holds s (us @ a # vs)" "Left s a = Some 0 \<or> Right s a = Some 0"
  shows "\<exists>s'. EraseNode s a = Some (s', first_or_null vs) \<and> rb_holds s' (us @ vs) \<and>
    (\<forall>x. x \<in> set us \<or> x \<in> set vs \<or> nodes s' x = nodes s x)"
  using assms(1)
proof (rule rb_holds_split)
  fix K c l r
  assume at: "rep s K (Node c l a r)" "red_black (fill K (Node c l a r))"
    "us = lefts K @ inorder l" "vs = inorder r @ rights K"
  have "rep s (LF c a r # K) l" "rep s (RF c l a # K) r" using at(1) by (simp_all add: rep_LF rep_RF [symmetric])
  then have "rp l = 0 \<longleftrightarrow> l = Leaf" "rp r = 0 \<longleftrightarrow> r = Leaf" by (simp_all add: rp_eq_0)
  then have "l = Leaf \<or> r = Leaf" using assms(2) at(1) by simp
  from RBNode_Erase_one[OF at(1,2) this]
  obtain s1 t1 where s1: "RBNode_Erase s a = Some s1" "rep s1 [] t1" "red_black t1" "inorder t1 = us @ vs"
      "touches (set (inorder l) \<union> set (inorder r) \<union> kaddrs K) s s1"
    by (auto simp: returns_def at(3,4))
  have "rb_len s = of_nat (length us) + of_nat (length vs) + 1" using assms(1) by (simp add: rb_holds_def)
  then have "rb_holds (s1\<lparr>rb_len := rb_len s1 - 1\<rparr>) (us @ vs)"
    using s1 by (auto simp: rb_holds_def rb_holds_length_upd touches_def)
  moreover have "nodes s1 x = nodes s x" if "x \<notin> set us" "x \<notin> set vs" for x
    using that s1(5) by (auto simp: touches_def at(3,4) kaddrs_def)
  moreover have "a \<noteq> 0" using at(1) by (rule rep_nonnull)
  ultimately show ?thesis
    using s1(1) Next_holds[OF assms(1)] by (auto simp: EraseNode_def)
qed

section \<open>Erasing by key\<close>

lemma erase_range_all:
  "rb_holds s xs \<Longrightarrow> \<exists>s'. erase_range s (first_or_null xs) 0 n = Some (s', n + of_nat (length xs)) \<and> rb_holds s' []"
proof (induction xs arbitrary: s n)
  case Nil
  then show ?case by (subst erase_range.simps) simp
next
  case (Cons x xs)
  then have x: "rb_holds s ([] @ x # xs)" by simp
  have "Left s x = Some 0"
    using x
  proof (rule rb_holds_split)
    fix K c l r
    assume "rep s K (Node c l x r)" "[] = lefts K @ inorder l"
    then show ?thesis by (simp add: inorder_nil_iff)
  qed
  then obtain s1 where s1: "EraseNode s x = Some (s1, first_or_null xs)" "rb_holds s1 xs"
    using EraseNode_one[OF x] by auto
  from Cons.IH[OF s1(2), of "n + 1"] show ?case
    using s1(1) rb_holds_nonnull[OF Cons.prems, of x] by (subst erase_range.simps) (auto simp: ac_simps)
qed

context strict_weak_order
begin

lemma EraseKey_below_all_holds:
  assumes "rb_holds s xs" "sorted_by lt (map key xs)" "list_all (\<lambda>x. lt k (key x)) xs"
  shows "\<exists>s'. EraseKey key lt s k = Some (s', of_nat (length xs)) \<and> rb_holds s' []"
proof -
  have "filter (\<lambda>x. \<not> lt (key x) k) xs = xs"
    using assms(3) lt_asym by (auto simp: list_all_iff filter_id_conv)
  then have L: "LowerBound key lt s k = Some (first_or_null xs)"
    using LowerBound_holds[OF assms(1,2)] by simp
  have U: "UpperBound key lt s k = Some 0" using UpperBound_holds[OF assms(1,2)] assms(3) by simp
  show ?thesis
  proof (cases xs)
    case Nil
    then show ?thesis using L assms(1) by (simp add: EraseKey_def)
  next
    case (Cons x ys)
    then have "first_or_null xs \<noteq> 0" using rb_holds_nonnull[OF assms(1), of x] by simp
    with L U erase_range_all[OF assms(1), of 0] show ?thesis by (auto simp: EraseKey_def)
  qed
qed

lemma EraseKey_no_match_holds:
  assumes "rb_holds s xs" "sorted_by lt (map key xs)"
    and "\<not> list_all (\<lambda>x. lt k (key x)) xs" "list_all (\<lambda>x. lt (key x) k \<or> lt k (key x)) xs"
  shows "EraseKey key lt s k = Some (s, 0)"
proof -
  have "filter (\<lambda>x. \<not> lt (key x) k) xs = filter (\<lambda>x. lt k (key x)) xs"
    using assms(4) lt_asym by (intro filter_cong) (auto simp: list_all_iff)
  moreover have "erase_range s f f 0 = Some (s, 0)" for f
    by (subst erase_range.simps) simp
  ultimately show ?thesis
    using LowerBound_holds[OF assms(1,2), of k] UpperBound_holds[OF assms(1,2), of k] assms(3)
    by (simp add: EraseKey_def)
qed

end

section \<open>A node with two children\<close>

lemma leftmost_returns:
  assumes "leftmost s x = Some y"
  shows "\<not> (Left s x = Some x \<and> x \<noteq> 0)"
  by (rule leftmost.raw_induct[where P = "\<lambda>s x y. \<not> (Left s x = Some x \<and> x \<noteq> 0)", OF _ assms]) (fastforce split: if_splits)

lemma leftmost_self_loop: "Left s m = Some m \<Longrightarrow> m \<noteq> 0 \<Longrightarrow> leftmost s m = None"
  using leftmost_returns by (cases "leftmost s m") auto

lemma erase_unlink_two:
  assumes "rep s K (Node c (Node lc Leaf m lr) a r)" "r \<noteq> Leaf" "lc = Red \<or> lr \<noteq> Leaf"
  shows "returns (erase_unlink s a) (\<lambda>(s', rebalance). rebalance = 0 \<and> Left s' m = Some m \<and> (K = [] \<longrightarrow> root s' = m))"
proof -
  obtain rc rl x rr where r: "r = Node rc rl x rr" using assms(2) by (cases r) auto
  have loop: "successor_loop s x m = Some (x, m)"
    using assms(1) by (subst successor_loop.simps) (simp add: rep_iff Left_def)
  have K: "aligned (cparent K)"
    using assms(1) ctx_at_cparent[of "nodes s" "root s" K a] by (simp add: rep_iff)
  show ?thesis
    using assms K loop unfolding r
    apply (cases lr; clarsimp simp add: run_simps erase_unlink_def erase_two_def find_successor_def Left_def)
     apply (rule returns_ChangeChild; (cases "K = []"; simp add: final_simps exec_simps Int_commute))+
    done
qed

section \<open>The properties\<close>

text \<open>C2: erasing a node that has at most one child returns its successor in the
  order and leaves a red-black tree of the other nodes in the same order, one shorter. Only those
  nodes are written: the erased node keeps its old pointers, so it still counts as linked.\<close>
theorem Erase_correct:
  assumes "rb_holds s (us @ a # vs)" "Left s a = Some 0 \<or> Right s a = Some 0"
  shows "\<exists>s'. EraseNode s a = Some (s', first_or_null vs) \<and> rb_holds s' (us @ vs) \<and>
    (\<forall>x. x \<in> set us \<or> x \<in> set vs \<or> nodes s' x = nodes s x) \<and>
    RBNode_IsLinked s' a = Some True"
proof -
  obtain s' where s': "EraseNode s a = Some (s', first_or_null vs)" "rb_holds s' (us @ vs)"
      "\<forall>x. x \<in> set us \<or> x \<in> set vs \<or> nodes s' x = nodes s x"
    using EraseNode_one[OF assms] by blast
  have "a \<notin> set us" "a \<notin> set vs" using rb_holds_distinct[OF assms(1)] by auto
  then have "nodes s' a = nodes s a" using s'(3) by blast
  then have "RBNode_IsLinked s' a = RBNode_IsLinked s a" by (simp add: RBNode_IsLinked_def deref_def)
  moreover have "RBNode_IsLinked s a = Some True" using assms(1) by (rule rb_holds_split) (rule IsLinked_rep)
  ultimately show ?thesis using s' by (intro exI[of _ s']) simp
qed

lemma Erase_correct_witness:
  "\<exists>s'. EraseNode sample_tree 4 = Some (s', 8) \<and> rb_holds s' [8] \<and> RBNode_IsLinked s' 4 = Some True"
proof -
  have "Left sample_tree 4 = Some 0" by (simp add: sample_tree_def Left_def)
  with Erase_correct[of sample_tree "[]" 4 "[8]"] sample_tree_holds show ?thesis by auto
qed

text \<open>C25: erasing a root with two children whose left child has no left
  child of its own (and is red or has a right child) returns, but the left child has become its own
  left child: \<open>Begin\<close> on the result never returns.\<close>
theorem Erase_root_two_children:
  assumes "rep s [] (Node c (Node lc Leaf m lr) a r)" "r \<noteq> Leaf" "lc = Red \<or> lr \<noteq> Leaf"
  shows "\<exists>s'. RBNode_Erase s a = Some s' \<and> root s' = m \<and> Left s' m = Some m \<and> RBTree_Begin s' = None"
proof -
  have m: "m \<noteq> 0" using assms(1) by (simp add: rep_iff)
  obtain s' where s': "erase_unlink s a = Some (s', 0)" "Left s' m = Some m" "root s' = m"
    using erase_unlink_two[OF assms] by (auto elim!: returnsE)
  then have "RBNode_Erase s a = Some s'" by (simp add: RBNode_Erase_def)
  moreover have "RBTree_Begin s' = None"
    using leftmost_self_loop[OF s'(2) m] m s'(3) by (simp add: RBTree_Begin_def)
  ultimately show ?thesis using s'(2,3) by (intro exI[of _ s']) simp
qed

definition sample_tree3 :: rb where
  "sample_tree3 = \<lparr>nodes = [8 \<mapsto> \<lparr>rb_pc = 1, rb_left = 4, rb_right = 12\<rparr>,
     4 \<mapsto> \<lparr>rb_pc = 8, rb_left = 0, rb_right = 0\<rparr>, 12 \<mapsto> \<lparr>rb_pc = 8, rb_left = 0, rb_right = 0\<rparr>],
     root = 8, rb_len = 3\<rparr>"

lemma Erase_root_two_children_witness:
  "\<exists>s'. RBNode_Erase sample_tree3 8 = Some s' \<and> RBTree_Begin s' = None"
proof -
  have "rep sample_tree3 [] (Node Black (Node Red Leaf 4 Leaf) 8 (Node Red Leaf 12 Leaf))"
    by (simp add: rep_iff sample_tree3_def pack_def aligned_def)
  from Erase_root_two_children[OF this] show ?thesis by auto
qed

text \<open>\<open>Erase\<close> by key with a key that no node has leaves the tree alone when
  some node is below the key. When every node is above the key, \<open>UpperBound\<close> is null and every
  node of the tree is erased.\<close>
theorem EraseKey_ranges:
  assumes "strict_weak_order lt" "rb_holds s xs" "sorted_by lt (map key xs)"
    and "list_all (\<lambda>x. lt (key x) k \<or> lt k (key x)) xs"
  shows "if list_all (\<lambda>x. lt k (key x)) xs
    then \<exists>s'. EraseKey key lt s k = Some (s', of_nat (length xs)) \<and> rb_holds s' []
    else EraseKey key lt s k = Some (s, 0)"
  using strict_weak_order.EraseKey_below_all_holds[OF assms(1-3)]
    strict_weak_order.EraseKey_no_match_holds[OF assms(1-3) _ assms(4)] by simp

lemma EraseKey_ranges_witness:
  "(\<exists>s'. EraseKey id std_less sample_tree 3 = Some (s', 2) \<and> rb_holds s' []) \<and>
   EraseKey id std_less sample_tree 5 = Some (sample_tree, 0)"
  using EraseKey_ranges[OF std.strict_weak_order_axioms sample_tree_holds, of id 3]
    EraseKey_ranges[OF std.strict_weak_order_axioms sample_tree_holds, of id 5]
  by (simp add: sorted_by_def std_less_def)

end
