(* ===== verification/SortInsert.thy ===== *)
theory SortInsert
  imports Ordering
begin

text \<open>
  InsertSort and ShellSort (include/mzx/algorithm/sort/insert_sort.h, shell_sort.h). A range
  \<open>[begin, end)\<close> is a list and an iterator is its offset from \<open>begin\<close>; the algorithms
  read and write nothing outside the range. Moving an element is copying its value.
\<close>

section \<open>InsertSort\<close>

text \<open>The inner loop shifts the larger elements and returns the range and the gap it opened.\<close>

fun insert_shift :: "('a \<Rightarrow> 'a \<Rightarrow> bool) \<Rightarrow> 'a \<Rightarrow> 'a list \<Rightarrow> nat \<Rightarrow> 'a list \<times> nat" where
  "insert_shift cmp tmp xs 0 = (xs, 0)"
| "insert_shift cmp tmp xs (Suc i) =
     (if \<not> cmp tmp (xs ! i) then (xs, Suc i) else insert_shift cmp tmp (xs[Suc i := xs ! i]) i)"

definition insert_step :: "('a \<Rightarrow> 'a \<Rightarrow> bool) \<Rightarrow> nat \<Rightarrow> 'a list \<Rightarrow> 'a list" where
  "insert_step cmp i xs =
     (let tmp = xs ! i; (xs, hole) = insert_shift cmp tmp xs i in xs[hole := tmp])"

definition InsertSort :: "('a \<Rightarrow> 'a \<Rightarrow> bool) \<Rightarrow> 'a list \<Rightarrow> 'a list option" where
  "InsertSort cmp xs = do {
     _ \<leftarrow> check (length xs > 0);
     Some (fold (insert_step cmp) [1..<length xs] xs) }"

text \<open>The specification of a round: insertion into a list, seen from its right end.\<close>

fun ins_rev :: "('a \<Rightarrow> 'a \<Rightarrow> bool) \<Rightarrow> 'a \<Rightarrow> 'a list \<Rightarrow> 'a list" where
  "ins_rev cmp t [] = [t]"
| "ins_rev cmp t (a # as) = (if \<not> cmp t a then t # a # as else a # ins_rev cmp t as)"

definition ins :: "('a \<Rightarrow> 'a \<Rightarrow> bool) \<Rightarrow> 'a \<Rightarrow> 'a list \<Rightarrow> 'a list" where
  "ins cmp t as = rev (ins_rev cmp t (rev as))"

lemma ins_Nil [simp]: "ins cmp t [] = [t]"
  by (simp add: ins_def)

lemma ins_snoc [simp]: "ins cmp t (as @ [a]) = (if cmp t a then ins cmp t as @ [a] else as @ [a, t])"
  by (simp add: ins_def)

lemma insert_shift_ins:
  "insert_shift cmp t (as @ h # cs) (length as) = (ys, j) \<Longrightarrow> ys[j := t] = ins cmp t as @ cs"
proof (induction as arbitrary: h cs rule: rev_induct)
  case (snoc a as)
  show ?case
  proof (cases "cmp t a")
    case True
    with snoc.prems have "insert_shift cmp t (as @ a # a # cs) (length as) = (ys, j)"
      by (simp add: list_update_append nth_append)
    from snoc.IH[OF this] True show ?thesis by simp
  next
    case False
    with snoc.prems show ?thesis by (auto simp: nth_append list_update_append)
  qed
qed auto

lemma insert_step_ins: "insert_step cmp (length as) (as @ t # cs) = ins cmp t as @ cs"
  using insert_shift_ins[of cmp t as t cs] by (auto simp: insert_step_def Let_def split: prod.split)

lemma length_ins [simp]: "length (ins cmp t as) = Suc (length as)"
  by (induction as rule: rev_induct) auto

lemma mset_ins [simp]: "mset (ins cmp t as) = add_mset t (mset as)"
  by (induction as rule: rev_induct) auto

lemma set_ins [simp]: "set (ins cmp t as) = insert t (set as)"
  by (induction as rule: rev_induct) auto

text \<open>The whole sort is insertion of the elements one by one.\<close>

lemma insert_rounds:
  "fold (insert_step cmp) [length as..<length as + length bs] (as @ bs) = fold (ins cmp) bs as"
proof (induction bs arbitrary: as)
  case (Cons b bs)
  have "[length as..<length as + length (b # bs)] = length as # [Suc (length as)..<Suc (length as) + length bs]"
    by (subst upt_rec) simp
  with Cons[of "ins cmp b as"] show ?case by (simp add: insert_step_ins del: upt_Suc)
qed simp

lemma InsertSort_fold: "xs \<noteq> [] \<Longrightarrow> InsertSort cmp xs = Some (fold (ins cmp) xs [])"
  using insert_rounds[of cmp "[hd xs]" "tl xs"] by (cases xs) (simp_all add: InsertSort_def)

context strict_weak_order
begin

lemma sorted_by_ins: "sorted_by lt as \<Longrightarrow> sorted_by lt (ins lt t as)"
proof (induction as rule: rev_induct)
  case (snoc a as)
  show ?case
  proof (cases "lt t a")
    case True
    with snoc show ?thesis using lt_asym by auto
  next
    case False
    have "\<not> lt t x" if "x \<in> set as" for x
      using snoc.prems that False lt_negtrans[of t a x] by simp
    with False snoc.prems show ?thesis by auto
  qed
qed simp

lemma filter_ins:
  "filter (equiv_by lt x) (ins lt t as) = filter (equiv_by lt x) (as @ [t])"
proof (induction as rule: rev_induct)
  case (snoc a as)
  show ?case
  proof (cases "lt t a")
    case True
    then have "\<not> (equiv_by lt x t \<and> equiv_by lt x a)"
      using lt_negtrans by (auto simp: equiv_by_def)
    with True snoc show ?thesis by auto
  qed simp
qed simp

lemma fold_ins:
  "sorted_by lt as \<Longrightarrow> sorts_to lt (as @ bs) (fold (ins lt) bs as) \<and> stable_to lt (as @ bs) (fold (ins lt) bs as)"
proof (induction bs arbitrary: as)
  case (Cons b bs)
  have "sorted_by lt (ins lt b as)" using Cons.prems by (rule sorted_by_ins)
  from Cons.IH[OF this] show ?case
    by (auto simp: sorts_to_def stable_to_def filter_ins)
qed (simp add: sorts_to_def stable_to_def)

lemma InsertSort_sorts:
  "xs \<noteq> [] \<Longrightarrow> \<exists>ys. InsertSort lt xs = Some ys \<and> sorts_to lt xs ys \<and> stable_to lt xs ys"
  using fold_ins[of "[]" xs] InsertSort_fold[of xs lt] by simp

end

section \<open>ShellSort\<close>

text \<open>
  The gap of a pass is positive; the guard \<open>gap = 0\<close> only makes the function total.
\<close>

function shell_shift :: "('a \<Rightarrow> 'a \<Rightarrow> bool) \<Rightarrow> nat \<Rightarrow> 'a \<Rightarrow> 'a list \<Rightarrow> nat \<Rightarrow> 'a list \<times> nat" where
  "shell_shift cmp gap tmp xs i =
     (if gap = 0 \<or> i < gap then (xs, i)
      else if \<not> cmp tmp (xs ! (i - gap)) then (xs, i)
      else shell_shift cmp gap tmp (xs[i := xs ! (i - gap)]) (i - gap))"
  by pat_completeness auto
termination
  by (relation "measure (\<lambda>(cmp, gap, tmp, xs, i). i)") auto

declare shell_shift.simps [simp del]

definition shell_step :: "('a \<Rightarrow> 'a \<Rightarrow> bool) \<Rightarrow> nat \<Rightarrow> nat \<Rightarrow> 'a list \<Rightarrow> 'a list" where
  "shell_step cmp gap i xs =
     (let tmp = xs ! i; (xs, hole) = shell_shift cmp gap tmp xs i in xs[hole := tmp])"

function shell_loop :: "('a \<Rightarrow> 'a \<Rightarrow> bool) \<Rightarrow> nat \<Rightarrow> 'a list \<Rightarrow> 'a list" where
  "shell_loop cmp gap xs =
     (if gap > 0 then shell_loop cmp (gap div 2) (fold (shell_step cmp gap) [gap..<length xs] xs) else xs)"
  by pat_completeness auto
termination
  by (relation "measure (\<lambda>(cmp, gap, xs). gap)") auto

declare shell_loop.simps [simp del]

definition ShellSort :: "('a \<Rightarrow> 'a \<Rightarrow> bool) \<Rightarrow> 'a list \<Rightarrow> 'a list option" where
  "ShellSort cmp xs = do {
     _ \<leftarrow> check (length xs > 0);
     Some (shell_loop cmp (length xs div 2) xs) }"

text \<open>The last pass has gap 1 and is an insertion sort; every pass permutes the range.\<close>

lemma shell_shift_1: "shell_shift cmp 1 tmp xs i = insert_shift cmp tmp xs i"
  by (induction i arbitrary: xs) (subst shell_shift.simps; simp)+

lemma shell_step_1: "shell_step cmp 1 = insert_step cmp"
  by (rule ext)+ (simp add: shell_step_def insert_step_def shell_shift_1 [simplified])

lemma mset_two_updates: "i < length xs \<Longrightarrow> j < length xs \<Longrightarrow> j \<noteq> i \<Longrightarrow> mset (xs[i := xs ! j, j := t]) = mset (xs[i := t])"
proof -
  assume a: "i < length xs" "j < length xs" "j \<noteq> i"
  have "xs[i := xs ! j, j := t] = (xs[i := t])[i := xs[i := t] ! j, j := xs[i := t] ! i]"
    using a by (simp add: nth_list_update list_update_swap)
  then show "mset (xs[i := xs ! j, j := t]) = mset (xs[i := t])"
    using a mset_swap[of j "xs[i := t]" i] by (simp add: list_update_swap)
qed

lemma shell_shift_mset:
  "i < length xs \<Longrightarrow> shell_shift cmp gap tmp xs i = (ys, j) \<Longrightarrow>
   mset (ys[j := tmp]) = mset (xs[i := tmp]) \<and> length ys = length xs"
proof (induction cmp gap tmp xs i rule: shell_shift.induct)
  case (1 cmp gap tmp xs i)
  show ?case
  proof (cases "gap = 0 \<or> i < gap \<or> \<not> cmp tmp (xs ! (i - gap))")
    case True
    with "1.prems" show ?thesis by (subst (asm) shell_shift.simps) (auto split: if_splits)
  next
    case False
    with "1.prems" have "shell_shift cmp gap tmp (xs[i := xs ! (i - gap)]) (i - gap) = (ys, j)"
      by (subst (asm) shell_shift.simps) auto
    with "1.IH" False "1.prems" have
      "mset (ys[j := tmp]) = mset (xs[i := xs ! (i - gap), i - gap := tmp]) \<and> length ys = length xs"
      by auto
    moreover have "i - gap < length xs" "i - gap \<noteq> i" using False "1.prems"(1) by auto
    ultimately show ?thesis using "1.prems"(1) by (simp add: mset_two_updates)
  qed
qed

lemma shell_step_mset: "i < length xs \<Longrightarrow> mset (shell_step cmp gap i xs) = mset xs"
  using shell_shift_mset[of i xs cmp gap "xs ! i"] by (auto simp: shell_step_def Let_def split: prod.split)

lemma shell_pass_mset:
  "\<forall>i\<in>set is. i < length xs \<Longrightarrow> mset (fold (shell_step cmp gap) is xs) = mset xs"
proof (induction "is" arbitrary: xs)
  case (Cons i "is")
  have m: "mset (shell_step cmp gap i xs) = mset xs" using Cons.prems by (simp add: shell_step_mset)
  then have "length (shell_step cmp gap i xs) = length xs" by (rule mset_eq_length)
  with Cons m show ?case by simp
qed simp

lemma shell_loop_mset: "mset (shell_loop cmp gap xs) = mset xs"
proof (induction cmp gap xs rule: shell_loop.induct)
  case (1 cmp gap xs)
  then show ?case by (subst shell_loop.simps) (simp add: shell_pass_mset)
qed

context strict_weak_order
begin

lemma shell_loop_sorted: "gap > 0 \<Longrightarrow> sorted_by lt (shell_loop lt gap xs)"
proof (induction gap arbitrary: xs rule: less_induct)
  case (less gap)
  show ?case
  proof (cases "gap = 1")
    case True
    have "sorted_by lt (fold (insert_step lt) [1..<length xs] xs)"
      using InsertSort_sorts[of xs] by (cases "xs = []") (auto simp: InsertSort_def sorts_to_def)
    with True show ?thesis by (simp add: shell_loop.simps shell_step_1 [simplified])
  next
    case False
    with less show ?thesis by (subst shell_loop.simps) simp
  qed
qed

lemma ShellSort_sorts: "xs \<noteq> [] \<Longrightarrow> \<exists>ys. ShellSort lt xs = Some ys \<and> sorts_to lt xs ys"
proof -
  assume "xs \<noteq> []"
  moreover have "sorted_by lt (shell_loop lt (length xs div 2) xs)"
  proof (cases "length xs div 2 = 0")
    case True
    with \<open>xs \<noteq> []\<close> obtain x where "xs = [x]" by (cases xs; cases "tl xs") auto
    then show ?thesis by (simp add: shell_loop.simps)
  qed (simp add: shell_loop_sorted)
  ultimately show ?thesis by (simp add: ShellSort_def sorts_to_def shell_loop_mset)
qed

end

end
