(* ===== verification/SortExchange.thy ===== *)
theory SortExchange
  imports Ordering
begin

text \<open>
  SelectSort and BuddleSort (include/mzx/algorithm/sort/select_sort.h, buddle_sort.h): the sorts
  that exchange elements with \<open>std::iter_swap\<close>.
\<close>

section \<open>SelectSort\<close>

definition select_min :: "('a \<Rightarrow> 'a \<Rightarrow> bool) \<Rightarrow> 'a list \<Rightarrow> nat \<Rightarrow> nat" where
  "select_min cmp xs i = fold (\<lambda>j sel. if cmp (xs ! j) (xs ! sel) then j else sel) [Suc i..<length xs] i"

definition select_step :: "('a \<Rightarrow> 'a \<Rightarrow> bool) \<Rightarrow> nat \<Rightarrow> 'a list \<Rightarrow> 'a list" where
  "select_step cmp i xs = iter_swap xs i (select_min cmp xs i)"

definition SelectSort :: "('a \<Rightarrow> 'a \<Rightarrow> bool) \<Rightarrow> 'a list \<Rightarrow> 'a list option" where
  "SelectSort cmp xs = do {
     _ \<leftarrow> check (length xs > 0);
     Some (fold (select_step cmp) [0..<length xs - 1] xs) }"

section \<open>BuddleSort\<close>

text \<open>The second component is \<open>iter_tmp\<close>, the place of the last exchange.\<close>

definition bubble_step :: "('a \<Rightarrow> 'a \<Rightarrow> bool) \<Rightarrow> nat \<Rightarrow> 'a list \<times> nat \<Rightarrow> 'a list \<times> nat" where
  "bubble_step cmp i s =
     (let (xs, tmp) = s in if cmp (xs ! (i + 1)) (xs ! i) then (iter_swap xs (i + 1) i, i) else (xs, tmp))"

definition bubble_pass :: "('a \<Rightarrow> 'a \<Rightarrow> bool) \<Rightarrow> 'a list \<times> nat \<Rightarrow> 'a list \<times> nat" where
  "bubble_pass cmp s = fold (bubble_step cmp) [0..<snd s] s"

fun bubble_loop :: "('a \<Rightarrow> 'a \<Rightarrow> bool) \<Rightarrow> nat \<Rightarrow> 'a list \<times> nat \<Rightarrow> 'a list" where
  "bubble_loop cmp 0 s = fst s"
| "bubble_loop cmp (Suc n) s =
     (let s = bubble_pass cmp s in if snd s = 0 then fst s else bubble_loop cmp n s)"

definition BuddleSort :: "('a \<Rightarrow> 'a \<Rightarrow> bool) \<Rightarrow> 'a list \<Rightarrow> 'a list option" where
  "BuddleSort cmp xs = do {
     _ \<leftarrow> check (length xs > 0);
     Some (bubble_loop cmp (length xs - 1) (xs, length xs - 1)) }"

context strict_weak_order
begin

lemma select_min_spec:
  assumes "i < length xs"
  shows "i \<le> select_min lt xs i \<and> select_min lt xs i < length xs \<and>
    (\<forall>k. i \<le> k \<longrightarrow> k < length xs \<longrightarrow> \<not> lt (xs ! k) (xs ! select_min lt xs i))"
proof -
  let ?P = "\<lambda>n sel. i \<le> sel \<and> sel < n \<and> (\<forall>k. i \<le> k \<longrightarrow> k < n \<longrightarrow> \<not> lt (xs ! k) (xs ! sel))"
  have "?P (length xs) (select_min lt xs i)"
    unfolding select_min_def
  proof (rule fold_upt_invariant)
    fix j sel
    assume P: "?P j sel"
    show "?P (Suc j) (if lt (xs ! j) (xs ! sel) then j else sel)"
    proof (cases "lt (xs ! j) (xs ! sel)")
      case True
      have "\<not> lt (xs ! k) (xs ! j)" if "i \<le> k" "k < Suc j" for k
        using P that True lt_trans lt_irrefl by (cases "k = j") (auto simp: less_Suc_eq)
      with True P show ?thesis by auto
    qed (use P in \<open>auto simp: less_Suc_eq\<close>)
  qed (use assms lt_irrefl in \<open>auto simp: less_Suc_eq\<close>)
  then show ?thesis by simp
qed

lemma SelectSort_sorts: "xs \<noteq> [] \<Longrightarrow> \<exists>ys. SelectSort lt xs = Some ys \<and> sorts_to lt xs ys"
proof -
  assume ne: "xs \<noteq> []"
  let ?n = "length xs"
  let ?P = "\<lambda>i ys. mset ys = mset xs \<and> (\<forall>a b. a < b \<longrightarrow> a < i \<longrightarrow> b < ?n \<longrightarrow> \<not> lt (ys ! b) (ys ! a))"
  have "?P (?n - 1) (fold (select_step lt) [0..<?n - 1] xs)"
  proof (rule fold_upt_invariant)
    fix i ys
    assume i: "i < ?n - 1" and P: "?P i ys"
    then have len: "length ys = ?n" using mset_eq_length by blast
    define m where "m = select_min lt ys i"
    have m: "i \<le> m" "m < ?n" "\<And>k. i \<le> k \<Longrightarrow> k < ?n \<Longrightarrow> \<not> lt (ys ! k) (ys ! m)"
      using select_min_spec[of i ys] i len m_def by auto
    have nth: "select_step lt i ys ! k = (if k = i then ys ! m else if k = m then ys ! i else ys ! k)"
      if "k < ?n" for k
      using that i m len by (simp add: select_step_def m_def [symmetric] nth_iter_swap)
    have "\<not> lt (select_step lt i ys ! b) (select_step lt i ys ! a)" if ab: "a < b" "a < Suc i" "b < ?n" for a b
    proof (cases "a = i")
      case True
      then show ?thesis using ab m i nth[of a] nth[of b] by auto
    next
      case False
      then have "\<not> lt (ys ! b') (ys ! a)" if "a < b'" "b' < ?n" for b' using that ab P by simp
      then show ?thesis using ab m i False nth[of a] nth[of b] by auto
    qed
    moreover have "mset (select_step lt i ys) = mset xs"
      using P i m len by (simp add: select_step_def m_def [symmetric])
    ultimately show "?P (Suc i) (select_step lt i ys)" by blast
  qed simp_all
  then have "sorts_to lt xs (fold (select_step lt) [0..<?n - 1] xs)"
    using mset_eq_length by (fastforce simp: sorts_to_def sorted_by_nth)
  with ne show ?thesis by (simp add: SelectSort_def)
qed

text \<open>\<open>top_at xs j\<close>: no element before \<open>j\<close> is above the one at \<open>j\<close>.\<close>

definition top_at :: "'k list \<Rightarrow> nat \<Rightarrow> bool" where
  "top_at xs j \<longleftrightarrow> (\<forall>k<j. \<not> lt (xs ! j) (xs ! k))"

lemma sorted_by_top: "sorted_by lt xs \<longleftrightarrow> (\<forall>j<length xs. top_at xs j)"
  by (auto simp: sorted_by_nth top_at_def)

lemma top_at_swap:
  assumes "top_at xs j" "Suc i < j" "j < length xs"
  shows "top_at (iter_swap xs (i + 1) i) j"
  using assms by (auto simp: top_at_def nth_iter_swap)

text \<open>One pass from the front to \<open>flag\<close>, and what it leaves in \<open>iter_tmp\<close>.\<close>

definition pass_inv :: "'k list \<Rightarrow> nat \<Rightarrow> nat \<Rightarrow> 'k list \<times> nat \<Rightarrow> bool" where
  "pass_inv xs flag i s \<longleftrightarrow> mset (fst s) = mset xs \<and> (sorted_by lt xs \<longrightarrow> s = (xs, flag)) \<and>
    (\<forall>j. flag < j \<longrightarrow> j < length xs \<longrightarrow> top_at (fst s) j) \<and> top_at (fst s) i \<and>
    (if snd s = flag then \<forall>j\<le>i. top_at (fst s) j
     else snd s < i \<and> (\<forall>j. snd s < j \<longrightarrow> j \<le> i \<longrightarrow> top_at (fst s) j))"

lemma pass_inv_step:
  assumes "pass_inv xs flag i s" "i < flag" "flag < length xs"
  shows "pass_inv xs flag (Suc i) (bubble_step lt i s)"
proof -
  obtain ys t where s: "s = (ys, t)" by (cases s)
  have len: "length ys = length xs" using assms(1) s mset_eq_length by (fastforce simp: pass_inv_def)
  show ?thesis
  proof (cases "lt (ys ! (i + 1)) (ys ! i)")
    case True
    let ?zs = "iter_swap ys (i + 1) i"
    have "\<not> lt (ys ! i) (ys ! k)" if "k < Suc i" for k
      using assms(1) that lt_irrefl s by (auto simp: pass_inv_def top_at_def less_Suc_eq)
    then have "top_at ?zs (Suc i)"
      using True lt_asym assms(2,3) len by (auto simp: top_at_def nth_iter_swap)
    moreover have "top_at ?zs j" if "flag < j" "j < length xs" for j
      using assms that s len by (intro top_at_swap) (auto simp: pass_inv_def)
    moreover have "\<not> sorted_by lt xs"
    proof
      assume sorted: "sorted_by lt xs"
      with assms(1) s have "ys = xs" by (simp add: pass_inv_def)
      with sorted True assms(2,3) show False by (simp add: sorted_by_nth)
    qed
    moreover have "mset ?zs = mset xs" using assms s len by (simp add: pass_inv_def)
    ultimately show ?thesis
      using assms(2) True s by (auto simp: pass_inv_def bubble_step_def le_Suc_eq)
  next
    case False
    have "top_at ys (Suc i)"
      using assms(1) False lt_negtrans s by (auto simp: pass_inv_def top_at_def less_Suc_eq)
    with assms(1) False s show ?thesis by (auto simp: pass_inv_def bubble_step_def le_Suc_eq)
  qed
qed

lemma bubble_pass_spec:
  assumes "flag < length xs" "\<forall>j. flag < j \<longrightarrow> j < length xs \<longrightarrow> top_at xs j"
    and "bubble_pass lt (xs, flag) = (ys, tmp)"
  shows "mset ys = mset xs" "\<forall>j. tmp < j \<longrightarrow> j < length xs \<longrightarrow> top_at ys j" "tmp \<le> flag"
    "tmp = flag \<or> sorted_by lt xs \<longrightarrow> sorted_by lt ys"
proof -
  have "pass_inv xs flag flag (fold (bubble_step lt) [0..<flag] (xs, flag))"
  proof (rule fold_upt_invariant[where P = "pass_inv xs flag"])
    show "pass_inv xs flag 0 (xs, flag)" using assms(2) by (simp add: pass_inv_def top_at_def)
  qed (use assms(1) in \<open>auto intro: pass_inv_step\<close>)
  then have P: "pass_inv xs flag flag (ys, tmp)" using assms(3) by (simp add: bubble_pass_def)
  then show m: "mset ys = mset xs" and "tmp \<le> flag" by (auto simp: pass_inv_def split: if_splits)
  have len: "length ys = length xs" using m by (rule mset_eq_length)
  show top: "\<forall>j. tmp < j \<longrightarrow> j < length xs \<longrightarrow> top_at ys j"
    using P by (auto simp: pass_inv_def split: if_splits)
  have "top_at ys j" if "tmp = flag" "j < length xs" for j
    using P that by (cases "flag < j") (auto simp: pass_inv_def)
  then show "tmp = flag \<or> sorted_by lt xs \<longrightarrow> sorted_by lt ys"
    using P len by (auto simp: sorted_by_top pass_inv_def)
qed

lemma bubble_loop_sorts:
  "t < length xs \<Longrightarrow> \<forall>j. t < j \<longrightarrow> j < length xs \<longrightarrow> top_at xs j \<Longrightarrow> t \<le> n \<or> sorted_by lt xs \<Longrightarrow>
   sorts_to lt xs (bubble_loop lt n (xs, t))"
proof (induction n arbitrary: xs t)
  case 0
  then show ?case by (auto simp: sorts_to_def sorted_by_top top_at_def)
next
  case (Suc n)
  obtain ys u where p: "bubble_pass lt (xs, t) = (ys, u)" by fastforce
  note spec = bubble_pass_spec[OF Suc.prems(1,2) p]
  have len: "length ys = length xs" using spec(1) by (rule mset_eq_length)
  show ?case
  proof (cases "u = 0")
    case True
    then have "sorted_by lt ys" using spec len by (auto simp: sorted_by_top top_at_def)
    with True p spec show ?thesis by (simp add: sorts_to_def)
  next
    case False
    have "u \<le> n \<or> sorted_by lt ys" using spec(3,4) Suc.prems(3) by (cases "u = t") auto
    then have "sorts_to lt ys (bubble_loop lt n (ys, u))"
      using spec Suc.prems(1) len by (intro Suc.IH) auto
    with False p spec show ?thesis by (simp add: sorts_to_def)
  qed
qed

lemma BuddleSort_sorts: "xs \<noteq> [] \<Longrightarrow> \<exists>ys. BuddleSort lt xs = Some ys \<and> sorts_to lt xs ys"
  using bubble_loop_sorts[of "length xs - 1" xs "length xs - 1"]
  by (simp add: BuddleSort_def) linarith

end

end
