(* ===== verification/SortHeap.thy ===== *)
theory SortHeap
  imports Ordering
begin

text \<open>
  HeapSort (include/mzx/algorithm/sort/heap_sort.h): a binary heap in the range, the largest element
  at its front, from which the sorted range grows at the back.
\<close>

section \<open>The model\<close>

text \<open>The index of the largest of a node and its two children, \<open>swap_idx\<close> of the code.\<close>

definition heap_pick :: "('a \<Rightarrow> 'a \<Rightarrow> bool) \<Rightarrow> nat \<Rightarrow> nat \<Rightarrow> 'a list \<Rightarrow> nat" where
  "heap_pick cmp e idx xs =
     (let swap_idx = idx;
          child_idx = idx * 2 + 1;
          swap_idx = (if child_idx < e \<and> cmp (xs ! swap_idx) (xs ! child_idx) then child_idx else swap_idx);
          child_idx = idx * 2 + 2
      in if child_idx < e \<and> cmp (xs ! swap_idx) (xs ! child_idx) then child_idx else swap_idx)"

function adjust_heap :: "('a \<Rightarrow> 'a \<Rightarrow> bool) \<Rightarrow> nat \<Rightarrow> nat \<Rightarrow> 'a list \<Rightarrow> 'a list" where
  "adjust_heap cmp e idx xs =
     (let swap_idx = heap_pick cmp e idx xs
      in if swap_idx \<noteq> idx then adjust_heap cmp e swap_idx (iter_swap xs swap_idx idx) else xs)"
  by pat_completeness auto
termination
  by (relation "measure (\<lambda>(cmp, e, idx, xs). e - idx)")
    (auto simp: heap_pick_def Let_def split: if_splits)

declare adjust_heap.simps [simp del]

definition build_heap :: "('a \<Rightarrow> 'a \<Rightarrow> bool) \<Rightarrow> 'a list \<Rightarrow> 'a list" where
  "build_heap cmp xs = fold (adjust_heap cmp (length xs)) (rev [0..<(length xs - 1) div 2 + 1]) xs"

definition extract_step :: "('a \<Rightarrow> 'a \<Rightarrow> bool) \<Rightarrow> nat \<Rightarrow> 'a list \<Rightarrow> 'a list" where
  "extract_step cmp i xs = adjust_heap cmp i 0 (iter_swap xs i 0)"

definition HeapSort :: "('a \<Rightarrow> 'a \<Rightarrow> bool) \<Rightarrow> 'a list \<Rightarrow> 'a list option" where
  "HeapSort cmp xs = do {
     _ \<leftarrow> check (length xs > 0);
     Some (fold (extract_step cmp) (rev [1..<length xs]) (build_heap cmp xs)) }"

section \<open>The heap property\<close>

definition par :: "nat \<Rightarrow> nat" where
  "par c = (c - 1) div 2"

lemma par_iff: "0 < c \<Longrightarrow> par c = i \<longleftrightarrow> c = i * 2 + 1 \<or> c = i * 2 + 2"
  unfolding par_def by linarith

lemma par_less: "0 < c \<Longrightarrow> par c < c"
  by (simp add: par_def)

context strict_weak_order
begin

text \<open>
  \<open>heap_from e lo xs\<close>: no child is above its parent, for the parents from \<open>lo\<close> on. In
  \<open>heap_but\<close> the node \<open>idx\<close> may be below its children, but its parent is not.
\<close>

definition heap_from :: "nat \<Rightarrow> nat \<Rightarrow> 'k list \<Rightarrow> bool" where
  "heap_from e lo xs \<longleftrightarrow> (\<forall>c. 0 < c \<longrightarrow> c < e \<longrightarrow> lo \<le> par c \<longrightarrow> \<not> lt (xs ! par c) (xs ! c))"

definition heap_but :: "nat \<Rightarrow> nat \<Rightarrow> nat \<Rightarrow> 'k list \<Rightarrow> bool" where
  "heap_but e lo idx xs \<longleftrightarrow>
     (\<forall>c. 0 < c \<longrightarrow> c < e \<longrightarrow> lo \<le> par c \<longrightarrow> par c \<noteq> idx \<longrightarrow> \<not> lt (xs ! par c) (xs ! c)) \<and>
     (\<forall>c. 0 < c \<longrightarrow> c < e \<longrightarrow> par c = idx \<longrightarrow> 0 < idx \<longrightarrow> lo \<le> par idx \<longrightarrow> \<not> lt (xs ! par idx) (xs ! c))"

lemma heap_pick_spec:
  assumes "m = heap_pick lt e idx xs"
  shows "m = idx \<or> (0 < m \<and> m < e \<and> par m = idx \<and> lt (xs ! idx) (xs ! m))"
    and "\<And>c. 0 < c \<Longrightarrow> c < e \<Longrightarrow> par c = idx \<Longrightarrow> \<not> lt (xs ! m) (xs ! c)"
proof -
  have m: "m = idx \<and> \<not> (idx * 2 + 1 < e \<and> lt (xs ! idx) (xs ! (idx * 2 + 1))) \<and>
        \<not> (idx * 2 + 2 < e \<and> lt (xs ! idx) (xs ! (idx * 2 + 2))) \<or>
      m = idx * 2 + 1 \<and> m < e \<and> lt (xs ! idx) (xs ! m) \<and> \<not> (idx * 2 + 2 < e \<and> lt (xs ! m) (xs ! (idx * 2 + 2))) \<or>
      m = idx * 2 + 2 \<and> m < e \<and> lt (xs ! idx) (xs ! m) \<and> \<not> lt (xs ! m) (xs ! (idx * 2 + 1))"
  proof (cases "idx * 2 + 1 < e \<and> lt (xs ! idx) (xs ! (idx * 2 + 1))")
    case True
    then have "\<not> lt (xs ! (idx * 2 + 2)) (xs ! (idx * 2 + 1)) \<and> lt (xs ! idx) (xs ! (idx * 2 + 2))"
      if "lt (xs ! (idx * 2 + 1)) (xs ! (idx * 2 + 2))"
      using that lt_asym lt_trans by blast
    with True assms show ?thesis by (auto simp: heap_pick_def Let_def)
  next
    case False
    then have "\<not> lt (xs ! (idx * 2 + 2)) (xs ! (idx * 2 + 1))"
      if "lt (xs ! idx) (xs ! (idx * 2 + 2))" "idx * 2 + 2 < e"
      using that lt_trans[of "xs ! idx" "xs ! (idx * 2 + 2)" "xs ! (idx * 2 + 1)"] by auto
    with False assms show ?thesis by (auto simp: heap_pick_def Let_def)
  qed
  then show "m = idx \<or> (0 < m \<and> m < e \<and> par m = idx \<and> lt (xs ! idx) (xs ! m))"
    by (auto simp: par_def)
  show "\<not> lt (xs ! m) (xs ! c)" if "0 < c" "c < e" "par c = idx" for c
    using m that lt_irrefl by (auto simp: par_iff)
qed

lemma heap_but_step:
  assumes "heap_but e lo idx xs" "e \<le> length xs" "idx < e" "lo \<le> idx" "m = heap_pick lt e idx xs" "m \<noteq> idx"
  shows "heap_but e lo m (iter_swap xs m idx)"
proof -
  have m: "0 < m" "m < e" "par m = idx" "lt (xs ! idx) (xs ! m)" "idx < m"
    using heap_pick_spec(1)[OF assms(5)] assms(6) par_less[of m] by auto
  let ?ys = "iter_swap xs m idx"
  have ys: "?ys ! k = (if k = m then xs ! idx else if k = idx then xs ! m else xs ! k)" if "k < e" for k
    using that assms(2,3) m by (simp add: nth_iter_swap)
  have "\<not> lt (?ys ! par c) (?ys ! c)" if c: "0 < c" "c < e" "lo \<le> par c" "par c \<noteq> m" for c
  proof -
    have pc: "par c < e" using par_less[OF c(1)] c(2) by simp
    consider "c = m" | "c \<noteq> m" "par c = idx" | "c = idx" | "c \<noteq> m" "c \<noteq> idx" "par c \<noteq> idx" by blast
    then show ?thesis
    proof cases
      case 1
      then show ?thesis using m ys[OF c(2)] ys[OF pc] lt_asym by simp
    next
      case 2
      then have "c \<noteq> idx" using par_less[OF c(1)] by simp
      with 2 show ?thesis using heap_pick_spec(2)[OF assms(5) c(1,2)] ys[OF c(2)] ys[OF pc] m by simp
    next
      case 3
      then have "\<not> lt (xs ! par idx) (xs ! m)" using assms(1) m c by (simp add: heap_but_def)
      then show ?thesis using 3 ys[OF c(2)] ys[OF pc] c m par_less[OF c(1)] by auto
    next
      case 4
      then show ?thesis using ys[OF c(2)] ys[OF pc] c assms(1) by (simp add: heap_but_def)
    qed
  qed
  moreover have "\<not> lt (?ys ! par m) (?ys ! c)" if c: "0 < c" "c < e" "par c = m" for c
  proof -
    have "c \<noteq> m" "c \<noteq> idx" using par_less[OF c(1)] m c by auto
    moreover have "lo \<le> par c \<longrightarrow> par c \<noteq> idx \<longrightarrow> \<not> lt (xs ! par c) (xs ! c)"
      using assms(1) c(1,2) by (simp add: heap_but_def)
    then have "\<not> lt (xs ! par c) (xs ! c)" using assms(4) c(3) m by simp
    ultimately show ?thesis using ys[OF c(2)] ys[OF assms(3)] m c by simp
  qed
  ultimately show ?thesis by (simp add: heap_but_def)
qed

lemma adjust_heap_spec:
  "heap_but e lo idx xs \<Longrightarrow> e \<le> length xs \<Longrightarrow> idx < e \<Longrightarrow> lo \<le> idx \<Longrightarrow> ys = adjust_heap lt e idx xs \<Longrightarrow>
   heap_from e lo ys \<and> mset ys = mset xs \<and> (\<forall>k. e \<le> k \<longrightarrow> k < length xs \<longrightarrow> ys ! k = xs ! k)"
proof (induction "e - idx" arbitrary: idx xs rule: less_induct)
  case less
  define m where "m = heap_pick lt e idx xs"
  show ?case
  proof (cases "m = idx")
    case True
    then have "ys = xs" using less.prems(5) m_def by (subst (asm) adjust_heap.simps) simp
    moreover have "heap_from e lo xs"
      using less.prems(1) heap_pick_spec(2)[OF m_def] True by (auto simp: heap_from_def heap_but_def)
    ultimately show ?thesis by simp
  next
    case False
    have m: "idx < m" "m < e"
      using heap_pick_spec(1)[OF m_def] False par_less[of m] by auto
    have y: "ys = adjust_heap lt e m (iter_swap xs m idx)"
      using less.prems(5) m_def False by (subst (asm) adjust_heap.simps) (simp add: Let_def)
    note step = heap_but_step[OF less.prems(1-4) m_def False]
    have "heap_from e lo ys \<and> mset ys = mset (iter_swap xs m idx) \<and>
        (\<forall>k. e \<le> k \<longrightarrow> k < length (iter_swap xs m idx) \<longrightarrow> ys ! k = iter_swap xs m idx ! k)"
      using less.prems m y step by (intro less.hyps[of m]) auto
    with less.prems m show ?thesis by (simp add: nth_iter_swap)
  qed
qed

lemma build_heap_spec: "xs \<noteq> [] \<Longrightarrow> heap_from (length xs) 0 (build_heap lt xs) \<and> mset (build_heap lt xs) = mset xs"
proof -
  assume ne: "xs \<noteq> []"
  let ?n = "length xs"
  let ?P = "\<lambda>i ys. heap_from ?n i ys \<and> mset ys = mset xs"
  have "?P 0 (fold (adjust_heap lt ?n) (rev [0..<(?n - 1) div 2 + 1]) xs)"
  proof (rule fold_rev_upt_invariant[where P = ?P])
    show "?P ((?n - 1) div 2 + 1) xs" by (auto simp: heap_from_def par_def)
  next
    fix i ys
    assume i: "i < (?n - 1) div 2 + 1" and P: "?P (Suc i) ys"
    then have len: "length ys = ?n" using mset_eq_length by blast
    have "par i < i" if "0 < i" using that by (rule par_less)
    then have "heap_but ?n i i ys" using P by (auto simp: heap_but_def heap_from_def)
    moreover have "i < ?n" using i ne by (cases xs) auto
    ultimately show "?P i (adjust_heap lt ?n i ys)"
      using adjust_heap_spec[of ?n i i ys "adjust_heap lt ?n i ys"] len P by simp
  qed simp
  then show ?thesis by (simp add: build_heap_def)
qed

lemma heap_max: "heap_from e 0 xs \<Longrightarrow> k < e \<Longrightarrow> \<not> lt (xs ! 0) (xs ! k)"
proof (induction k rule: less_induct)
  case (less k)
  show ?case
  proof (cases "k = 0")
    case False
    then have "\<not> lt (xs ! 0) (xs ! par k)" "\<not> lt (xs ! par k) (xs ! k)"
      using less par_less[of k] by (auto simp: heap_from_def)
    then show ?thesis using lt_negtrans by blast
  qed (simp add: lt_irrefl)
qed

text \<open>While the heap shrinks, the back of the range is in order and above the heap.\<close>

definition extract_inv :: "'k list \<Rightarrow> nat \<Rightarrow> 'k list \<Rightarrow> bool" where
  "extract_inv xs i ys \<longleftrightarrow> heap_from i 0 ys \<and> mset ys = mset xs \<and>
     (\<forall>a b. a < b \<longrightarrow> i \<le> b \<longrightarrow> b < length xs \<longrightarrow> \<not> lt (ys ! b) (ys ! a))"

lemma extract_step_inv:
  assumes "extract_inv xs (Suc i) ys" "0 < i" "i < length xs"
  shows "extract_inv xs i (extract_step lt i ys)"
proof -
  have len: "length ys = length xs" using assms(1) mset_eq_length by (auto simp: extract_inv_def)
  let ?zs = "iter_swap ys i 0" and ?r = "extract_step lt i ys"
  have zs: "?zs ! k = (if k = i then ys ! 0 else if k = 0 then ys ! i else ys ! k)" if "k < length xs" for k
    using that assms(3) len by (subst nth_iter_swap) auto
  have "heap_but i 0 0 ?zs"
  proof -
    have "\<not> lt (?zs ! par c) (?zs ! c)" if "0 < c" "c < i" "par c \<noteq> 0" for c
      using that assms par_less[of c] zs[of c] zs[of "par c"] by (auto simp: extract_inv_def heap_from_def)
    then show ?thesis by (auto simp: heap_but_def)
  qed
  then have r: "heap_from i 0 ?r" "mset ?r = mset ?zs" "\<forall>k. i \<le> k \<longrightarrow> k < length xs \<longrightarrow> ?r ! k = ?zs ! k"
    using adjust_heap_spec[of i 0 0 ?zs ?r] assms len by (auto simp: extract_step_def)
  have top: "\<not> lt (ys ! 0) (ys ! k)" if "k \<le> i" for k
    using that assms(1) by (intro heap_max[of "Suc i"]) (simp_all add: extract_inv_def)
  have lr: "length ?r = length xs" using r(2) len by (metis length_iter_swap mset_eq_length)
  have front: "\<exists>k. k \<le> i \<and> ?r ! a = ys ! k" if "a < i" for a
  proof -
    have "mset (take i ?r) = mset (take i ?zs)"
    proof -
      have "drop i ?r = drop i ?zs" using r(3) lr len by (auto intro!: nth_equalityI)
      moreover have "mset (take i ?r) + mset (drop i ?r) = mset (take i ?zs) + mset (drop i ?zs)"
        using r(2) by (metis append_take_drop_id mset_append)
      ultimately show ?thesis by simp
    qed
    then have "?r ! a \<in> set (take i ?zs)"
      using that lr assms(3) by (metis in_set_conv_nth length_take mset_eq_setD min.absorb2 less_imp_le_nat nth_take)
    then obtain k where "k < i" "?r ! a = ?zs ! k" using len assms(3) by (auto simp: in_set_conv_nth)
    then show ?thesis using zs[of k] assms(3) by (intro exI[of _ "if k = 0 then i else k"]) auto
  qed
  have "\<not> lt (?r ! b) (?r ! a)" if ab: "a < b" "i \<le> b" "b < length xs" for a b
  proof (cases "a < i")
    case True
    then obtain k where k: "k \<le> i" "?r ! a = ys ! k" using front by blast
    then show ?thesis
      using ab r(3) zs[of b] top[OF k(1)] assms(1) by (cases "b = i") (auto simp: extract_inv_def)
  next
    case False
    then show ?thesis
      using ab r(3) zs[of a] zs[of b] assms by (cases "a = i") (auto simp: extract_inv_def)
  qed
  moreover have "mset ?zs = mset ys" using assms(3) len by (intro mset_iter_swap) auto
  then have "mset ?r = mset xs" using r(2) assms(1) by (simp add: extract_inv_def)
  ultimately show ?thesis using r(1) by (simp add: extract_inv_def)
qed

lemma HeapSort_sorts: "xs \<noteq> [] \<Longrightarrow> \<exists>ys. HeapSort lt xs = Some ys \<and> sorts_to lt xs ys"
proof -
  assume ne: "xs \<noteq> []"
  let ?ys = "fold (extract_step lt) (rev [1..<length xs]) (build_heap lt xs)"
  have inv: "extract_inv xs 1 ?ys"
  proof (rule fold_rev_upt_invariant[where P = "extract_inv xs"])
    show "extract_inv xs (length xs) (build_heap lt xs)"
      using build_heap_spec[OF ne] by (auto simp: extract_inv_def)
  qed (use ne extract_step_inv in \<open>auto simp: Suc_le_eq\<close>)
  then have "length ?ys = length xs" using mset_eq_length by (auto simp: extract_inv_def)
  with inv have "sorts_to lt xs ?ys"
    by (auto simp: extract_inv_def sorts_to_def sorted_by_nth)
  with ne show ?thesis by (simp add: HeapSort_def)
qed

end

end
