(* ===== verification/SortMerge.thy ===== *)
theory SortMerge
  imports Ordering
begin

text \<open>
  MergeSort (include/mzx/algorithm/sort/merge_sort.h). The recursion works on a part
  \<open>[b, e)\<close> of the range and on the scratch vector from offset \<open>k\<close>; all iterators are
  offsets. The loops that the code ends with \<open>!=\<close> start below their bound and step by one, and are
  written with \<open><\<close>.
\<close>

section \<open>The model\<close>

function merge_loop ::
  "('a \<Rightarrow> 'a \<Rightarrow> bool) \<Rightarrow> 'a list \<Rightarrow> nat \<Rightarrow> nat \<Rightarrow> nat \<Rightarrow> nat \<Rightarrow> 'a list \<Rightarrow> nat \<Rightarrow> 'a list \<times> nat \<times> nat \<times> nat" where
  "merge_loop cmp xs middle e first second store k =
     (if first < middle \<and> second < e
      then if cmp (xs ! second) (xs ! first)
        then merge_loop cmp xs middle e first (second + 1) (store[k := xs ! second]) (k + 1)
        else merge_loop cmp xs middle e (first + 1) second (store[k := xs ! first]) (k + 1)
      else (store, first, second, k))"
  by pat_completeness auto
termination
  by (relation "measure (\<lambda>(cmp, xs, middle, e, first, second, store, k). (middle - first) + (e - second))") auto

declare merge_loop.simps [simp del]

definition merge_halves :: "('a \<Rightarrow> 'a \<Rightarrow> bool) \<Rightarrow> 'a list \<Rightarrow> 'a list \<Rightarrow> nat \<Rightarrow> nat \<Rightarrow> nat \<Rightarrow> nat \<Rightarrow> 'a list \<times> 'a list" where
  "merge_halves cmp xs store b middle e k =
     (let (store, first, second, k') = merge_loop cmp xs middle e b middle store k;
          store = move_range xs first (middle - first) store k'
      in (move_range store k (second - b) xs b, store))"

text \<open>An empty part would recurse for ever.\<close>

function merge_sort_aux ::
  "('a \<Rightarrow> 'a \<Rightarrow> bool) \<Rightarrow> nat \<Rightarrow> nat \<Rightarrow> nat \<Rightarrow> 'a list \<times> 'a list \<Rightarrow> ('a list \<times> 'a list) option" where
  "merge_sort_aux cmp b e k s =
     (if e \<le> b then None
      else if e - b = 1 then Some s
      else let half = (e - b) div 2 in do {
        s \<leftarrow> merge_sort_aux cmp b (b + half) k s;
        s \<leftarrow> merge_sort_aux cmp (b + half) e (k + half) s;
        Some (merge_halves cmp (fst s) (snd s) b (b + half) e k) })"
  by pat_completeness auto
termination
  by (relation "measure (\<lambda>(cmp, b, e, k, s). e - b)") auto

declare merge_sort_aux.simps [simp del]

text \<open>\<open>init\<close> is the value of the elements of a fresh vector; it does not matter.\<close>

definition MergeSort_with :: "'a \<Rightarrow> ('a \<Rightarrow> 'a \<Rightarrow> bool) \<Rightarrow> 'a list \<Rightarrow> 'a list option" where
  "MergeSort_with init cmp xs = do {
     _ \<leftarrow> check (length xs > 0);
     s \<leftarrow> merge_sort_aux cmp 0 (length xs) 0 (xs, replicate (length xs) init);
     Some (fst s) }"

section \<open>Merging lists\<close>

fun merge :: "('a \<Rightarrow> 'a \<Rightarrow> bool) \<Rightarrow> 'a list \<Rightarrow> 'a list \<Rightarrow> 'a list" where
  "merge cmp [] bs = bs"
| "merge cmp as [] = as"
| "merge cmp (a # as) (b # bs) = (if cmp b a then b # merge cmp (a # as) bs else a # merge cmp as (b # bs))"

lemma merge_Nil2 [simp]: "merge cmp as [] = as"
  by (cases as) auto

lemma mset_merge [simp]: "mset (merge cmp as bs) = mset as + mset bs"
  by (induction cmp as bs rule: merge.induct) auto

lemma set_merge [simp]: "set (merge cmp as bs) = set as \<union> set bs"
  by (metis mset_merge set_mset_mset set_mset_union)

lemma length_merge [simp]: "length (merge cmp as bs) = length as + length bs"
  by (metis mset_merge size_mset size_union)

lemma merge_loop_spec:
  "merge_loop cmp xs middle e first second store k = (store', first', second', k') \<Longrightarrow>
   first \<le> middle \<Longrightarrow> second \<le> e \<Longrightarrow> middle \<le> length xs \<Longrightarrow> e \<le> length xs \<Longrightarrow>
   k + (middle - first) + (e - second) \<le> length store \<Longrightarrow>
   \<exists>out. store' = overwrite store k out \<and> k' = k + length out \<and>
     length out = (first' - first) + (second' - second) \<and>
     first \<le> first' \<and> first' \<le> middle \<and> second \<le> second' \<and> second' \<le> e \<and> (first' = middle \<or> second' = e) \<and>
     merge cmp (portion xs first middle) (portion xs second e) =
       out @ portion xs first' middle @ portion xs second' e"
proof (induction cmp xs middle e first second store k rule: merge_loop.induct)
  case (1 cmp xs middle e first second store k)
  show ?case
  proof (cases "first < middle \<and> second < e")
    case False
    then have "store' = store" "first' = first" "second' = second" "k' = k" "first = middle \<or> second = e"
      using "1.prems" by (auto simp: merge_loop.simps)
    then show ?thesis using "1.prems" by (intro exI[of _ "[]"]) auto
  next
    case go: True
    then have cut: "portion xs first middle = xs ! first # portion xs (Suc first) middle"
        "portion xs second e = xs ! second # portion xs (Suc second) e"
      using "1.prems" by (simp_all add: portion_Cons)
    show ?thesis
    proof (cases "cmp (xs ! second) (xs ! first)")
      case True
      then have "merge_loop cmp xs middle e first (second + 1) (store[k := xs ! second]) (k + 1) =
          (store', first', second', k')"
        using go "1.prems"(1) by (subst (asm) merge_loop.simps) simp
      moreover have "first \<le> middle" "second + 1 \<le> e"
          "k + 1 + (middle - (first)) + (e - (second + 1)) \<le> length (store[k := xs ! second])"
        using go "1.prems" by auto
      ultimately obtain out where out:
        "store' = overwrite (store[k := xs ! second]) (k + 1) out" "k' = k + 1 + length out"
        "length out = (first' - first) + (second' - Suc second)"
        "first \<le> first'" "first' \<le> middle" "Suc second \<le> second'" "second' \<le> e" "first' = middle \<or> second' = e"
        "merge cmp (portion xs first middle) (portion xs (Suc second) e) =
          out @ portion xs first' middle @ portion xs second' e"
        using "1.IH"(1)[OF go True] "1.prems"(4,5) by auto
      have "store' = overwrite store k (xs ! second # out)"
        using out overwrite_overwrite[of k "[xs ! second]" out store] overwrite_one[of k store] "1.prems" go by simp
      with out True cut show ?thesis by (intro exI[of _ "xs ! second # out"]) auto
    next
      case False
      then have "merge_loop cmp xs middle e (first + 1) second (store[k := xs ! first]) (k + 1) =
          (store', first', second', k')"
        using go "1.prems"(1) by (subst (asm) merge_loop.simps) simp
      moreover have "first + 1 \<le> middle" "second \<le> e"
          "k + 1 + (middle - (first + 1)) + (e - (second)) \<le> length (store[k := xs ! first])"
        using go "1.prems" by auto
      ultimately obtain out where out:
        "store' = overwrite (store[k := xs ! first]) (k + 1) out" "k' = k + 1 + length out"
        "length out = (first' - Suc first) + (second' - second)"
        "Suc first \<le> first'" "first' \<le> middle" "second \<le> second'" "second' \<le> e" "first' = middle \<or> second' = e"
        "merge cmp (portion xs (Suc first) middle) (portion xs second e) =
          out @ portion xs first' middle @ portion xs second' e"
        using "1.IH"(2)[OF go False] "1.prems"(4,5) by auto
      have "store' = overwrite store k (xs ! first # out)"
        using out overwrite_overwrite[of k "[xs ! first]" out store] overwrite_one[of k store] "1.prems" go by simp
      with out False cut show ?thesis by (intro exI[of _ "xs ! first # out"]) auto
    qed
  qed
qed

lemma merge_halves_spec:
  assumes "merge_halves cmp xs store b middle e k = (xs', store')"
    and "b \<le> middle" "middle \<le> e" "e \<le> length xs" "k + (e - b) \<le> length store"
  shows "xs' = overwrite xs b (merge cmp (portion xs b middle) (portion xs middle e)) \<and>
    length store' = length store"
proof -
  obtain store1 first second k1 where l: "merge_loop cmp xs middle e b middle store k = (store1, first, second, k1)"
    by (metis prod_cases4)
  obtain out where out: "store1 = overwrite store k out" "k1 = k + length out"
      "length out = (first - b) + (second - middle)" "b \<le> first" "first \<le> middle" "middle \<le> second" "second \<le> e"
      "first = middle \<or> second = e"
      "merge cmp (portion xs b middle) (portion xs middle e) = out @ portion xs first middle @ portion xs second e"
    using merge_loop_spec[OF l] assms(2-5) by auto
  let ?all = "out @ portion xs first middle"
  have len: "length ?all = second - b" using out assms(2-4) by auto
  have s2: "move_range xs first (middle - first) store1 k1 = overwrite store k ?all"
    using out assms(2-5) overwrite_overwrite[of k out "portion xs first middle" store]
    by (simp add: move_range_overwrite)
  have fit: "k + length ?all \<le> length store" using len out assms by simp
  have "move_range (overwrite store k ?all) k (second - b) xs b = overwrite xs b ?all"
    using move_range_overwrite[of k "second - b" "overwrite store k ?all" b xs] fit len
      portion_overwrite[OF fit] out assms(2-5) by simp
  also have "overwrite xs b ?all = overwrite xs b (?all @ portion xs second e)"
  proof -
    have "drop (b + length ?all) xs = portion xs second e @ drop e xs"
      using take_portion_drop[of second e xs] len out assms(2-4)
      by (metis add_diff_inverse_nat append_eq_conv_conj dual_order.trans drop_append append_take_drop_id
          le_add_diff_inverse not_less same_append_eq)
    moreover have "b + length (?all @ portion xs second e) = e" using len out assms(2-4) by simp
    ultimately show ?thesis by (simp add: overwrite_def)
  qed
  finally have "xs' = overwrite xs b (?all @ portion xs second e)" "store' = overwrite store k ?all"
    using assms(1) l s2 by (auto simp: merge_halves_def)
  with out(9) fit show ?thesis by simp
qed

section \<open>The recursion\<close>

context strict_weak_order
begin

lemma sorted_by_merge: "sorted_by lt as \<Longrightarrow> sorted_by lt bs \<Longrightarrow> sorted_by lt (merge lt as bs)"
proof (induction as arbitrary: bs)
  case (Cons a as)
  note outer = Cons
  show ?case
    using outer(3)
  proof (induction bs)
    case (Cons b bs)
    show ?case
    proof (cases "lt b a")
      case True
      have "\<not> lt x a" if "x \<in> set (a # as)" for x
        using that outer(2) lt_irrefl by auto
      then have "\<not> lt x b" if "x \<in> set (a # as)" for x
        using that lt_trans[of x b a] True by blast
      then show ?thesis using True Cons by auto
    next
      case False
      have "\<not> lt x a" if "x \<in> set (b # bs)" for x
        using that False Cons.prems lt_negtrans[of x b a] by auto
      with False outer Cons.prems show ?thesis by auto
    qed
  qed (use outer in simp)
qed simp

lemma filter_merge:
  "sorted_by lt as \<Longrightarrow> filter (equiv_by lt x) (merge lt as bs) = filter (equiv_by lt x) (as @ bs)"
proof (induction as arbitrary: bs)
  case (Cons a as)
  note outer = Cons
  show ?case
  proof (induction bs)
    case (Cons b bs)
    show ?case
    proof (cases "lt b a")
      case True
      have "filter (equiv_by lt x) (a # as) = []" if "equiv_by lt x b"
      proof -
        have "\<not> equiv_by lt x y" if "y \<in> set (a # as)" for y
          using that True outer(2) \<open>equiv_by lt x b\<close> lt_le_trans[of b a y] lt_negtrans[of b x y]
          by (auto simp: equiv_by_def)
        then show ?thesis by (simp add: filter_empty_conv)
      qed
      with True Cons show ?thesis by (auto split: if_splits)
    next
      case False
      with outer show ?thesis by auto
    qed
  qed simp
qed simp

text \<open>The recursion sorts its part of the range and leaves the rest alone.\<close>

lemma merge_sort_aux_spec:
  assumes "b < e" "e \<le> length xs" "k + (e - b) \<le> length store"
  shows "\<exists>ys store'. merge_sort_aux lt b e k (xs, store) = Some (overwrite xs b ys, store') \<and>
    length store' = length store \<and> sorts_to lt (portion xs b e) ys \<and> stable_to lt (portion xs b e) ys"
  using assms
proof (induction "e - b" arbitrary: b e k xs store rule: less_induct)
  case less
  show ?case
  proof (cases "e - b = 1")
    case True
    then have "e = Suc b" by simp
    then have "portion xs b e = [xs ! b]" using less.prems by (simp add: portion_Cons)
    moreover have "overwrite xs b [xs ! b] = xs" using less.prems by (simp add: overwrite_one)
    ultimately show ?thesis using True less.prems
      by (subst merge_sort_aux.simps) (auto simp: sorts_to_def stable_to_def intro!: exI[of _ "[xs ! b]"])
  next
    case False
    define half where "half = (e - b) div 2"
    define m where "m = b + half"
    have h: "b < m" "m < e" "m - b = half" "m - b < e - b" "e - m < e - b"
      using False less.prems(1) by (auto simp: half_def m_def)
    obtain ys st1 where 1: "merge_sort_aux lt b m k (xs, store) = Some (overwrite xs b ys, st1)"
        "length st1 = length store" "sorts_to lt (portion xs b m) ys" "stable_to lt (portion xs b m) ys"
      using less.hyps[of m b xs k store] h less.prems by auto
    have ly: "b + length ys = m" using 1(3) h less.prems by (auto simp: sorts_to_def dest!: mset_eq_length)
    let ?x1 = "overwrite xs b ys"
    have p1: "portion ?x1 m e = portion xs m e" "length ?x1 = length xs" "portion ?x1 b m = ys"
      using ly less.prems h portion_overwrite[of b ys xs] by (auto simp: overwrite_def portion_def)
    obtain zs st2 where 2: "merge_sort_aux lt m e (k + half) (?x1, st1) = Some (overwrite ?x1 m zs, st2)"
        "length st2 = length store" "sorts_to lt (portion xs m e) zs" "stable_to lt (portion xs m e) zs"
      using less.hyps[of e m ?x1 "k + half" st1] h less.prems p1 1(2) by auto
    have lz: "m + length zs = e" using 2(3) h less.prems by (auto simp: sorts_to_def dest!: mset_eq_length)
    let ?x2 = "overwrite ?x1 m zs"
    have x2: "?x2 = overwrite xs b (ys @ zs)" using overwrite_overwrite[of b ys zs xs] ly lz less.prems by simp
    have p2: "length ?x2 = length xs" "portion ?x2 b m = ys" "portion ?x2 m e = zs"
      using ly lz less.prems unfolding x2 by (auto simp: overwrite_def portion_def)
    obtain x3 st3 where 3: "merge_halves lt ?x2 st2 b m e k = (x3, st3)" by fastforce
    have "x3 = overwrite ?x2 b (merge lt ys zs) \<and> length st3 = length store"
      using merge_halves_spec[OF 3] h less.prems p2 2(2) by simp
    moreover have "overwrite ?x2 b (merge lt ys zs) = overwrite xs b (merge lt ys zs)"
      using ly lz less.prems unfolding x2 by (simp add: overwrite_def)
    moreover have "merge_sort_aux lt b e k (xs, store) = Some (x3, st3)"
      using 1(1) 2(1) 3 False less.prems(1)
      by (subst merge_sort_aux.simps) (simp add: Let_def half_def [symmetric] m_def [symmetric])
    moreover have "portion xs b e = portion xs b m @ portion xs m e"
      using h less.prems by (simp add: portion_append)
    moreover have "sorts_to lt (portion xs b m @ portion xs m e) (merge lt ys zs)"
      using 1(3) 2(3) by (simp add: sorts_to_def sorted_by_merge)
    moreover have "stable_to lt (portion xs b m @ portion xs m e) (merge lt ys zs)"
      using 1(3,4) 2(4) by (simp add: stable_to_def sorts_to_def filter_merge)
    ultimately show ?thesis by auto
  qed
qed

lemma MergeSort_sorts:
  "xs \<noteq> [] \<Longrightarrow> \<exists>ys. MergeSort_with init lt xs = Some ys \<and> sorts_to lt xs ys \<and> stable_to lt xs ys"
proof -
  assume ne: "xs \<noteq> []"
  then obtain ys store' where s: "merge_sort_aux lt 0 (length xs) 0 (xs, replicate (length xs) init) =
      Some (overwrite xs 0 ys, store')" "sorts_to lt xs ys" "stable_to lt xs ys"
    using merge_sort_aux_spec[of 0 "length xs" xs 0 "replicate (length xs) init"] by (auto simp: portion_full)
  then have "length ys = length xs" by (auto simp: sorts_to_def dest: mset_eq_length)
  with s ne show ?thesis by (simp add: MergeSort_with_def overwrite_def)
qed

end

end
