(* ===== verification/SortQuick.thy ===== *)
theory SortQuick
  imports Ordering
begin

text \<open>
  QuickSort (include/mzx/algorithm/sort/quick_sort.h): the partition fills the hole left by the
  pivot from both ends in turn. The recursion works on a part \<open>[b, e)\<close> of the range.
\<close>

section \<open>The model\<close>

fun scan_down :: "('a \<Rightarrow> 'a \<Rightarrow> bool) \<Rightarrow> 'a \<Rightarrow> 'a list \<Rightarrow> nat \<Rightarrow> nat \<Rightarrow> nat" where
  "scan_down cmp tmp xs i_first i_last =
     (if cmp tmp (xs ! i_last) \<and> i_first < i_last then scan_down cmp tmp xs i_first (i_last - 1) else i_last)"

function scan_up :: "('a \<Rightarrow> 'a \<Rightarrow> bool) \<Rightarrow> 'a \<Rightarrow> 'a list \<Rightarrow> nat \<Rightarrow> nat \<Rightarrow> nat" where
  "scan_up cmp tmp xs i_first i_last =
     (if cmp (xs ! i_first) tmp \<and> i_first < i_last then scan_up cmp tmp xs (i_first + 1) i_last else i_first)"
  by pat_completeness auto
termination
  by (relation "measure (\<lambda>(cmp, tmp, xs, i_first, i_last). i_last - i_first)") auto

declare scan_down.simps [simp del] scan_up.simps [simp del]

lemma scan_down_le: "i_first \<le> i_last \<Longrightarrow> i_first \<le> scan_down cmp tmp xs i_first i_last \<and> scan_down cmp tmp xs i_first i_last \<le> i_last"
proof (induction cmp tmp xs i_first i_last rule: scan_down.induct)
  case (1 cmp tmp xs i_first i_last)
  show ?case
  proof (cases "cmp tmp (xs ! i_last) \<and> i_first < i_last")
    case True
    then have "i_first \<le> i_last - 1" by auto
    from "1.IH"[OF True this] True show ?thesis
      using scan_down.simps[of cmp tmp xs i_first i_last] by auto
  qed (use "1.prems" scan_down.simps[of cmp tmp xs i_first i_last] in auto)
qed

lemma scan_up_le: "i_first \<le> i_last \<Longrightarrow> i_first \<le> scan_up cmp tmp xs i_first i_last \<and> scan_up cmp tmp xs i_first i_last \<le> i_last"
proof (induction cmp tmp xs i_first i_last rule: scan_up.induct)
  case (1 cmp tmp xs i_first i_last)
  show ?case
  proof (cases "cmp (xs ! i_first) tmp \<and> i_first < i_last")
    case True
    then have "i_first + 1 \<le> i_last" by auto
    from "1.IH"[OF True this] True show ?thesis
      using scan_up.simps[of cmp tmp xs i_first i_last] by auto
  qed (use "1.prems" scan_up.simps[of cmp tmp xs i_first i_last] in auto)
qed

text \<open>One round of the partition loop: the range and the new \<open>iter_first\<close> and \<open>iter_last\<close>.\<close>

definition partition_round :: "('a \<Rightarrow> 'a \<Rightarrow> bool) \<Rightarrow> 'a \<Rightarrow> 'a list \<Rightarrow> nat \<Rightarrow> nat \<Rightarrow> 'a list \<times> nat \<times> nat" where
  "partition_round cmp tmp xs i_first i_last =
     (let i_last = scan_down cmp tmp xs i_first i_last;
          (xs, i_first) = (if i_first < i_last then (xs[i_first := xs ! i_last], i_first + 1) else (xs, i_first));
          i_first = scan_up cmp tmp xs i_first i_last;
          (xs, i_last) = (if i_first < i_last then (xs[i_last := xs ! i_first], i_last - 1) else (xs, i_last))
      in (xs, i_first, i_last))"

lemma partition_round_less:
  assumes "i_first < i_last" "partition_round cmp tmp xs i_first i_last = (xs', i_first', i_last')"
  shows "i_first \<le> i_first' \<and> i_first' \<le> i_last' \<and> i_last' \<le> i_last \<and> i_last' - i_first' < i_last - i_first"
proof -
  define l where "l = scan_down cmp tmp xs i_first i_last"
  have l: "i_first \<le> l" "l \<le> i_last" using scan_down_le[of i_first i_last cmp tmp xs] assms(1) l_def by auto
  show ?thesis
  proof (cases "i_first < l")
    case True
    define ys where "ys = xs[i_first := xs ! l]"
    define f where "f = scan_up cmp tmp ys (Suc i_first) l"
    have "Suc i_first \<le> f" "f \<le> l" using scan_up_le[of "Suc i_first" l cmp tmp ys] True f_def by auto
    then show ?thesis
      using assms l True by (auto simp: partition_round_def Let_def l_def [symmetric] ys_def [symmetric] f_def [symmetric] split: if_splits)
  next
    case False
    then have "l = i_first" using l by simp
    moreover have "scan_up cmp tmp xs i_first i_first = i_first" by (simp add: scan_up.simps)
    ultimately show ?thesis using assms by (auto simp: partition_round_def Let_def l_def [symmetric])
  qed
qed

lemma partition_round_bounds:
  assumes "i_first < i_last" "r = partition_round cmp tmp xs i_first i_last"
  shows "i_first \<le> fst (snd r) \<and> fst (snd r) \<le> snd (snd r) \<and> snd (snd r) \<le> i_last \<and>
    snd (snd r) - fst (snd r) < i_last - i_first"
  using partition_round_less[OF assms(1), of cmp tmp xs "fst r" "fst (snd r)" "snd (snd r)"] assms(2) by simp

function partition_loop :: "('a \<Rightarrow> 'a \<Rightarrow> bool) \<Rightarrow> 'a \<Rightarrow> 'a list \<Rightarrow> nat \<Rightarrow> nat \<Rightarrow> 'a list \<times> nat" where
  "partition_loop cmp tmp xs i_first i_last =
     (if i_first < i_last
      then let r = partition_round cmp tmp xs i_first i_last
           in partition_loop cmp tmp (fst r) (fst (snd r)) (snd (snd r))
      else (xs, i_first))"
  by pat_completeness auto
termination
  by (relation "measure (\<lambda>(cmp, tmp, xs, i_first, i_last). i_last - i_first)")
    (simp, simp only: in_measure prod.case, blast dest: partition_round_bounds)

declare partition_loop.simps [simp del]

lemma partition_loop_le:
  "i_first \<le> i_last \<Longrightarrow> partition_loop cmp tmp xs i_first i_last = (ys, p) \<Longrightarrow> i_first \<le> p \<and> p \<le> i_last"
proof (induction cmp tmp xs i_first i_last rule: partition_loop.induct)
  case (1 cmp tmp xs i_first i_last)
  show ?case
  proof (cases "i_first < i_last")
    case True
    let ?r = "partition_round cmp tmp xs i_first i_last"
    have "partition_loop cmp tmp (fst ?r) (fst (snd ?r)) (snd (snd ?r)) = (ys, p)"
      using "1.prems"(2) True by (simp add: partition_loop.simps[of cmp tmp xs i_first i_last] Let_def)
    from "1.IH"[OF True refl _ this] partition_round_bounds[OF True refl, of cmp tmp xs] show ?thesis by linarith
  next
    case False
    with "1.prems" show ?thesis by (simp add: partition_loop.simps)
  qed
qed

function quick_sort_aux :: "('a \<Rightarrow> 'a \<Rightarrow> bool) \<Rightarrow> nat \<Rightarrow> nat \<Rightarrow> 'a list \<Rightarrow> 'a list" where
  "quick_sort_aux cmp b e xs =
     (if e - b \<le> 1 then xs
      else let tmp = xs ! b;
               r = partition_loop cmp tmp xs b (e - 1);
               xs = (fst r)[snd r := tmp];
               xs = quick_sort_aux cmp b (snd r) xs
           in quick_sort_aux cmp (snd r + 1) e xs)"
  by pat_completeness auto
termination
proof (relation "measure (\<lambda>(cmp, b, e, xs). e - b)", simp_all)
  fix cmp :: "'a \<Rightarrow> 'a \<Rightarrow> bool" and b e :: nat and xs :: "'a list"
  assume "\<not> e - b \<le> Suc 0"
  then have b: "b < e" "b \<le> e - 1" by auto
  note * = partition_loop_le[OF b(2), of cmp "xs ! b" xs "fst (partition_loop cmp (xs ! b) xs b (e - 1))"
      "snd (partition_loop cmp (xs ! b) xs b (e - 1))", simplified]
  show "snd (partition_loop cmp (xs ! b) xs b (e - Suc 0)) - b < e - b" using * b by auto
  show "e - Suc (snd (partition_loop cmp (xs ! b) xs b (e - Suc 0))) < e - b" using * b by auto
qed

declare quick_sort_aux.simps [simp del]

definition QuickSort :: "('a \<Rightarrow> 'a \<Rightarrow> bool) \<Rightarrow> 'a list \<Rightarrow> 'a list option" where
  "QuickSort cmp xs = do {
     _ \<leftarrow> check (length xs > 0);
     Some (quick_sort_aux cmp 0 (length xs) xs) }"

section \<open>The partition\<close>

lemma scan_down_spec:
  "i_first \<le> i_last \<Longrightarrow> l = scan_down cmp tmp xs i_first i_last \<Longrightarrow>
   (\<forall>k. l < k \<longrightarrow> k \<le> i_last \<longrightarrow> cmp tmp (xs ! k)) \<and> (l = i_first \<or> \<not> cmp tmp (xs ! l))"
proof (induction cmp tmp xs i_first i_last rule: scan_down.induct)
  case (1 cmp tmp xs i_first i_last)
  show ?case
  proof (cases "cmp tmp (xs ! i_last) \<and> i_first < i_last")
    case True
    then have "i_first \<le> i_last - 1" "l = scan_down cmp tmp xs i_first (i_last - 1)"
      using "1.prems"(2) scan_down.simps[of cmp tmp xs i_first i_last] by auto
    from "1.IH"[OF True this] have
      IH: "\<forall>k. l < k \<longrightarrow> k \<le> i_last - 1 \<longrightarrow> cmp tmp (xs ! k)" "l = i_first \<or> \<not> cmp tmp (xs ! l)" by auto
    have "cmp tmp (xs ! k)" if "l < k" "k \<le> i_last" for k
      using IH(1) True that by (cases "k = i_last") auto
    with IH(2) show ?thesis by blast
  qed (use "1.prems" scan_down.simps[of cmp tmp xs i_first i_last] in auto)
qed

lemma scan_up_spec:
  "i_first \<le> i_last \<Longrightarrow> f = scan_up cmp tmp xs i_first i_last \<Longrightarrow>
   (\<forall>k. i_first \<le> k \<longrightarrow> k < f \<longrightarrow> cmp (xs ! k) tmp) \<and> (f = i_last \<or> \<not> cmp (xs ! f) tmp)"
proof (induction cmp tmp xs i_first i_last rule: scan_up.induct)
  case (1 cmp tmp xs i_first i_last)
  show ?case
  proof (cases "cmp (xs ! i_first) tmp \<and> i_first < i_last")
    case True
    then have "i_first + 1 \<le> i_last" "f = scan_up cmp tmp xs (i_first + 1) i_last"
      using "1.prems"(2) scan_up.simps[of cmp tmp xs i_first i_last] by auto
    from "1.IH"[OF True this] have
      IH: "\<forall>k. i_first + 1 \<le> k \<longrightarrow> k < f \<longrightarrow> cmp (xs ! k) tmp" "f = i_last \<or> \<not> cmp (xs ! f) tmp" by auto
    have "cmp (xs ! k) tmp" if "i_first \<le> k" "k < f" for k
      using IH(1) True that by (cases "k = i_first") auto
    with IH(2) show ?thesis by blast
  qed (use "1.prems" scan_up.simps[of cmp tmp xs i_first i_last] in auto)
qed

text \<open>Moving an element into the hole moves the hole.\<close>

lemma mset_move_hole:
  assumes "i < length xs" "j < length xs" "i \<noteq> j"
  shows "mset ((xs[i := xs ! j])[j := t]) = mset (xs[i := t])"
proof -
  have "(xs[i := xs ! j])[j := t] = iter_swap (xs[i := t]) i j"
    using assms by (simp add: iter_swap_def)
  with assms show ?thesis by simp
qed

context strict_weak_order
begin

text \<open>The hole is at \<open>f\<close>; what has been passed on the left is not above the pivot, on the right not below.\<close>

definition part_inv :: "'k list \<Rightarrow> 'k \<Rightarrow> nat \<Rightarrow> nat \<Rightarrow> 'k list \<Rightarrow> nat \<Rightarrow> nat \<Rightarrow> nat \<Rightarrow> bool" where
  "part_inv xs0 t b e xs f l hole \<longleftrightarrow> length xs = length xs0 \<and> b \<le> f \<and> f \<le> l \<and> l < e \<and>
     (\<forall>k. k < b \<or> e \<le> k \<longrightarrow> k < length xs \<longrightarrow> xs ! k = xs0 ! k) \<and> mset (xs[hole := t]) = mset xs0 \<and>
     (\<forall>k. b \<le> k \<longrightarrow> k < f \<longrightarrow> \<not> lt t (xs ! k)) \<and> (\<forall>k. l < k \<longrightarrow> k < e \<longrightarrow> \<not> lt (xs ! k) t)"

lemma part_inv_down:
  assumes "part_inv xs0 t b e xs f l f" "e \<le> length xs0" "f < l" "l' = scan_down lt t xs f l"
  shows "if f < l' then part_inv xs0 t b e (xs[f := xs ! l']) (Suc f) l' l' else part_inv xs0 t b e xs f l' f"
proof -
  have l': "f \<le> l'" "l' \<le> l" using scan_down_le[of f l lt t xs] assms(3,4) by simp_all
  have "\<forall>k. l' < k \<longrightarrow> k \<le> l \<longrightarrow> lt t (xs ! k)" and stop: "l' = f \<or> \<not> lt t (xs ! l')"
    using scan_down_spec[of f l l' lt t xs] assms(3,4) by simp_all
  then have right: "\<not> lt (xs ! k) t" if "l' < k" "k < e" for k
    using that assms(1) lt_asym by (cases "k \<le> l") (auto simp: part_inv_def)
  show ?thesis
  proof (cases "f < l'")
    case True
    have "mset ((xs[f := xs ! l'])[l' := t]) = mset (xs[f := t])"
      using assms(1,2) True l' by (intro mset_move_hole) (auto simp: part_inv_def)
    with assms(1,2) True l' stop right show ?thesis
      by (auto simp: part_inv_def nth_list_update less_Suc_eq)
  next
    case False
    with assms(1) l' right show ?thesis by (auto simp: part_inv_def)
  qed
qed

lemma part_inv_up:
  assumes "part_inv xs0 t b e xs f l l" "e \<le> length xs0" "f' = scan_up lt t xs f l"
  shows "if f' < l then part_inv xs0 t b e (xs[l := xs ! f']) f' (l - 1) f' else part_inv xs0 t b e xs f' l f'"
proof -
  have fl: "f \<le> l" using assms(1) by (simp add: part_inv_def)
  have f': "f \<le> f'" "f' \<le> l" using scan_up_le[OF fl, of lt t xs] assms(3) by simp_all
  have "\<forall>k. f \<le> k \<longrightarrow> k < f' \<longrightarrow> lt (xs ! k) t" and stop: "f' = l \<or> \<not> lt (xs ! f') t"
    using scan_up_spec[OF fl assms(3)] by simp_all
  then have left: "\<not> lt t (xs ! k)" if "b \<le> k" "k < f'" for k
    using that assms(1) lt_asym by (cases "f \<le> k") (auto simp: part_inv_def)
  show ?thesis
  proof (cases "f' < l")
    case True
    have "mset ((xs[l := xs ! f'])[f' := t]) = mset (xs[l := t])"
      using assms(1,2) True f' by (intro mset_move_hole) (auto simp: part_inv_def)
    moreover have "k = l \<or> l < k" if "l - 1 < k" for k using that by auto
    ultimately show ?thesis using assms(1,2) True f' stop left
      by (auto simp: part_inv_def nth_list_update)
  next
    case False
    with assms(1) f' left show ?thesis by (auto simp: part_inv_def)
  qed
qed

lemma part_inv_round:
  assumes "part_inv xs0 t b e xs f l f" "e \<le> length xs0" "f < l"
    and "partition_round lt t xs f l = (xs', f', l')"
  shows "part_inv xs0 t b e xs' f' l' f'"
proof -
  define m where "m = scan_down lt t xs f l"
  note down = part_inv_down[OF assms(1-3) m_def]
  show ?thesis
  proof (cases "f < m")
    case True
    let ?ys = "xs[f := xs ! m]"
    have inv: "part_inv xs0 t b e ?ys (Suc f) m m" using down True by simp
    note up = part_inv_up[OF inv assms(2) refl]
    from assms(4) True up show ?thesis
      by (auto simp: partition_round_def Let_def m_def [symmetric] split: if_splits)
  next
    case False
    then have "part_inv xs0 t b e xs f m f" using down by simp
    moreover have "m = f" using scan_down_le[of f l lt t xs] assms(3) False m_def by simp
    moreover have "scan_up lt t xs f f = f" by (simp add: scan_up.simps)
    ultimately show ?thesis using assms(4) by (auto simp: partition_round_def Let_def m_def [symmetric])
  qed
qed

lemma partition_loop_spec:
  "part_inv xs0 t b e xs f l f \<Longrightarrow> e \<le> length xs0 \<Longrightarrow> partition_loop lt t xs f l = (ys, p) \<Longrightarrow>
   part_inv xs0 t b e ys p p p"
proof (induction "l - f" arbitrary: xs f l rule: less_induct)
  case less
  show ?case
  proof (cases "f < l")
    case True
    obtain xs' f' l' where r: "partition_round lt t xs f l = (xs', f', l')" by (metis prod_cases3)
    with less.prems(3) True have "partition_loop lt t xs' f' l' = (ys, p)"
      by (simp add: partition_loop.simps[of lt t xs f l])
    moreover have "l' - f' < l - f" using partition_round_less[OF True r] by simp
    ultimately show ?thesis
      using less.hyps part_inv_round[OF less.prems(1,2) True r] less.prems(2) by blast
  next
    case False
    then have "f = l" using less.prems(1) by (simp add: part_inv_def)
    with less.prems show ?thesis by (simp add: partition_loop.simps)
  qed
qed

text \<open>The partition cuts its part into a lower part, the pivot and an upper part.\<close>

lemma partition_parts:
  assumes "b < e" "e \<le> length xs" "partition_loop lt (xs ! b) xs b (e - 1) = (ys, p)"
  shows "\<exists>as cs. ys[p := xs ! b] = take b xs @ as @ xs ! b # cs @ drop e xs \<and> p = b + length as \<and>
    e = Suc p + length cs \<and> mset (as @ xs ! b # cs) = mset (portion xs b e) \<and>
    (\<forall>x\<in>set as. \<not> lt (xs ! b) x) \<and> (\<forall>x\<in>set cs. \<not> lt x (xs ! b))"
proof -
  let ?t = "xs ! b"
  have "part_inv xs ?t b e xs b (e - 1) b" using assms(1,2) by (auto simp: part_inv_def)
  from partition_loop_spec[OF this assms(2,3)] have inv: "part_inv xs ?t b e ys p p p" .
  let ?zs = "ys[p := ?t]"
  have p: "b \<le> p" "p < e" "length ys = length xs" using inv by (simp_all add: part_inv_def)
  define as cs where "as = portion ys b p" and "cs = portion ys (Suc p) e"
  have "take b ys = take b xs" "drop e ys = drop e xs"
    using inv p assms(2) by (auto simp: part_inv_def intro!: nth_equalityI)
  moreover have "ys = take b ys @ as @ ys ! p # cs @ drop e ys"
    using take_portion_drop[of b e ys] portion_append[of b p e ys, symmetric] portion_Cons[of p e ys] p assms(2)
    by (simp add: as_def cs_def)
  ultimately have ys: "ys = (take b xs @ as) @ ys ! p # cs @ drop e xs" by simp
  have "length (take b xs @ as) = p" using p assms(2) by (simp add: as_def)
  then have "((take b xs @ as) @ ys ! p # cs @ drop e xs)[p := ?t] = (take b xs @ as) @ ?t # cs @ drop e xs"
    using list_update_length[of "take b xs @ as" "ys ! p" "cs @ drop e xs" ?t] by metis
  then have zs: "?zs = take b xs @ as @ ?t # cs @ drop e xs" using ys by (metis append_assoc)
  have "mset ?zs = mset xs" using inv by (simp add: part_inv_def)
  moreover have "mset xs = mset (take b xs @ portion xs b e @ drop e xs)"
    using take_portion_drop[of b e xs] assms(1,2) by simp
  ultimately have "mset (as @ ?t # cs) = mset (portion xs b e)" by (simp add: zs)
  moreover have "length as = p - b" "length cs = e - Suc p" using p assms(2) by (simp_all add: as_def cs_def)
  moreover have "\<forall>x\<in>set as. \<not> lt ?t x"
    using inv p assms(2) by (auto simp: as_def in_set_conv_nth nth_portion part_inv_def)
  moreover have "\<forall>x\<in>set cs. \<not> lt x ?t"
    using inv p assms(2) by (auto simp: cs_def in_set_conv_nth nth_portion part_inv_def)
  ultimately show ?thesis using zs p by (intro exI[of _ as] exI[of _ cs]) auto
qed

lemma quick_sort_aux_spec:
  "b \<le> e \<Longrightarrow> e \<le> length xs \<Longrightarrow>
   \<exists>ys. quick_sort_aux lt b e xs = take b xs @ ys @ drop e xs \<and> sorts_to lt (portion xs b e) ys"
proof (induction "e - b" arbitrary: b e xs rule: less_induct)
  case less
  show ?case
  proof (cases "e - b \<le> 1")
    case True
    have "sorted_by lt (portion xs b e)"
    proof (cases "b < e")
      case True
      with \<open>e - b \<le> 1\<close> have "e = Suc b" by simp
      with less.prems show ?thesis by (simp add: portion_Cons)
    qed simp
    with True less.prems show ?thesis
      by (subst quick_sort_aux.simps) (auto simp: sorts_to_def take_portion_drop intro!: exI[of _ "portion xs b e"])
  next
    case False
    let ?t = "xs ! b"
    obtain ys p where r: "partition_loop lt ?t xs b (e - 1) = (ys, p)" by fastforce
    have "b < e" using False by simp
    from partition_parts[OF this less.prems(2) r] obtain as cs where
      as: "ys[p := ?t] = take b xs @ as @ ?t # cs @ drop e xs" "p = b + length as" "e = Suc p + length cs"
        "mset (as @ ?t # cs) = mset (portion xs b e)" "\<forall>x\<in>set as. \<not> lt ?t x" "\<forall>x\<in>set cs. \<not> lt x ?t"
      by blast
    let ?z = "take b xs @ as @ ?t # cs @ drop e xs"
    have len: "length ?z = length xs" "length (take b xs) = b" using as(2,3) less.prems by auto
    have "p - b < e - b" "b \<le> p" "p \<le> length ?z" using as(2,3) less.prems len by auto
    from less.hyps[OF this] obtain us where us:
      "quick_sort_aux lt b p ?z = take b ?z @ us @ drop p ?z" "sorts_to lt (portion ?z b p) us" by blast
    have cut1: "take b ?z = take b xs" "drop p ?z = ?t # cs @ drop e xs" "portion ?z b p = as"
      using as(2) len(2) by (simp_all add: portion_def)
    let ?w = "take b xs @ us @ ?t # cs @ drop e xs"
    have lus: "length us = length as" using us(2) cut1(3) by (auto simp: sorts_to_def dest: mset_eq_length)
    have "e - (p + 1) < e - b" "p + 1 \<le> e" "e \<le> length ?w" using as(2,3) less.prems lus len by auto
    from less.hyps[OF this] obtain vs where vs:
      "quick_sort_aux lt (p + 1) e ?w = take (p + 1) ?w @ vs @ drop e ?w" "sorts_to lt (portion ?w (p + 1) e) vs"
      by blast
    have cut2: "take (p + 1) ?w = take b xs @ us @ [?t]" "drop e ?w = drop e xs" "portion ?w (p + 1) e = cs"
      using as(2,3) len(2) lus by (simp_all add: portion_def)
    have "quick_sort_aux lt b p (ys[p := ?t]) = ?w" using us(1) unfolding as(1) cut1 .
    then have "quick_sort_aux lt b e xs = quick_sort_aux lt (p + 1) e ?w"
      using False r by (simp add: quick_sort_aux.simps[of lt b e] Let_def)
    then have "quick_sort_aux lt b e xs = take b xs @ (us @ ?t # vs) @ drop e xs"
      using vs(1) cut2 by simp
    moreover have "sorts_to lt (portion xs b e) (us @ ?t # vs)"
    proof -
      have m: "mset us = mset as" "mset vs = mset cs" "sorted_by lt us" "sorted_by lt vs"
        using us(2) vs(2) cut1(3) cut2(3) by (simp_all add: sorts_to_def)
      then have "set us = set as" "set vs = set cs" by (auto dest: mset_eq_setD)
      moreover have "\<not> lt y x" if "x \<in> set as" "y \<in> set cs" for x y
        using as(5,6) that lt_negtrans[of y ?t x] by blast
      ultimately show ?thesis using m as(4-6) by (simp add: sorts_to_def)
    qed
    ultimately show ?thesis by blast
  qed
qed

lemma QuickSort_sorts: "xs \<noteq> [] \<Longrightarrow> \<exists>ys. QuickSort lt xs = Some ys \<and> sorts_to lt xs ys"
  using quick_sort_aux_spec[of 0 "length xs" xs] by (auto simp: QuickSort_def portion_full)

end

end
