(* ===== verification/SortCount.thy ===== *)
theory SortCount
  imports SortInsert
begin

text \<open>
  The sorts of integers: CountSort, RadixSort and BucketSort (include/mzx/algorithm/sort/count_sort.h,
  radix_sort.h, bucket_sort.h). The element type is the C++ \<open>int\<close> of 32 bits: an operation that
  overflows has no defined result, and neither has an access outside a counter vector. A counter
  holds at most the length of the range, which is taken to fit \<open>int\<close>.
\<close>

section \<open>The counting loops\<close>

text \<open>\<open>key\<close> is the index into the counter, \<open>None\<close> when computing it overflows.\<close>

definition count_keys :: "(int \<Rightarrow> nat option) \<Rightarrow> int list \<Rightarrow> nat list \<Rightarrow> nat list option" where
  "count_keys key xs counter = for_each (\<lambda>x counter. do {
     j \<leftarrow> key x;
     _ \<leftarrow> check (j < length counter);
     Some (counter[j := counter ! j + 1]) }) xs counter"

definition prefix_sums :: "nat list \<Rightarrow> nat list" where
  "prefix_sums counter = fold (\<lambda>j c. c[j := c ! j + c ! (j - 1)]) [1..<length counter] counter"

definition place_back :: "(int \<Rightarrow> nat option) \<Rightarrow> int list \<Rightarrow> nat list \<Rightarrow> int list \<Rightarrow> (nat list \<times> int list) option" where
  "place_back key xs counter tmp = for_each (\<lambda>x (counter, tmp). do {
     j \<leftarrow> key x;
     _ \<leftarrow> check (j < length counter \<and> 0 < counter ! j \<and> counter ! j - 1 < length tmp);
     Some (counter[j := counter ! j - 1], tmp[counter ! j - 1 := x]) }) (rev xs) (counter, tmp)"

section \<open>CountSort\<close>

definition min_max :: "('a \<Rightarrow> 'a \<Rightarrow> bool) \<Rightarrow> 'a list \<Rightarrow> nat \<times> nat" where
  "min_max cmp xs = fold (\<lambda>i (min_index, max_index).
     if cmp (xs ! i) (xs ! min_index) then (i, max_index)
     else if cmp (xs ! max_index) (xs ! i) then (min_index, i)
     else (min_index, max_index)) [1..<length xs] (0, 0)"

definition count_key :: "int \<Rightarrow> int \<Rightarrow> nat option" where
  "count_key mn x = do { d \<leftarrow> int_result (x - mn); if d < 0 then None else Some (nat d) }"

text \<open>A vector of a negative size is not constructed: \<open>std::length_error\<close> is thrown.\<close>

definition CountSort :: "(int \<Rightarrow> int \<Rightarrow> bool) \<Rightarrow> int list \<Rightarrow> int list option" where
  "CountSort cmp xs = do {
     _ \<leftarrow> check (length xs > 0);
     let (min_index, max_index) = min_max cmp xs;
     d \<leftarrow> int_result (xs ! max_index - xs ! min_index);
     size \<leftarrow> int_result (d + 1);
     _ \<leftarrow> check (size > 0);
     counter \<leftarrow> count_keys (count_key (xs ! min_index)) xs (replicate (nat size) 0);
     let counter = prefix_sums counter;
     (counter, tmp) \<leftarrow> place_back (count_key (xs ! min_index)) xs counter (replicate (length xs) 0);
     Some (move_range tmp 0 (length xs) xs 0) }"

section \<open>RadixSort\<close>

partial_function (option) radix_digits :: "int \<Rightarrow> int \<Rightarrow> int \<Rightarrow> (int \<times> int) option" where
  "radix_digits x p d =
     (if x \<ge> p then do { p \<leftarrow> int_result (p * 10); radix_digits x p (d + 1) } else Some (p, d))"

definition radix_key :: "int \<Rightarrow> int \<Rightarrow> nat option" where
  "radix_key radix x = Some (nat (x div radix mod 10))"

definition radix_pass :: "int \<Rightarrow> int list \<Rightarrow> int list option" where
  "radix_pass radix xs = do {
     counter \<leftarrow> count_keys (radix_key radix) xs (replicate 10 0);
     let counter = prefix_sums counter;
     (counter, tmp) \<leftarrow> place_back (radix_key radix) xs counter (replicate (length xs) 0);
     Some (move_range tmp 0 (length xs) xs 0) }"

fun radix_passes :: "nat \<Rightarrow> int \<Rightarrow> int list \<Rightarrow> int list option" where
  "radix_passes 0 radix xs = Some xs"
| "radix_passes (Suc n) radix xs = do {
     xs \<leftarrow> radix_pass radix xs;
     radix \<leftarrow> int_result (radix * 10);
     radix_passes n radix xs }"

definition radix_scan :: "int list \<Rightarrow> int \<times> int \<Rightarrow> (int \<times> int) option" where
  "radix_scan xs s = for_each (\<lambda>x (p, d). do { _ \<leftarrow> check (x \<ge> 0); radix_digits x p d }) xs s"

definition RadixSort :: "(int \<Rightarrow> int \<Rightarrow> bool) \<Rightarrow> int list \<Rightarrow> int list option" where
  "RadixSort cmp xs = do {
     _ \<leftarrow> check (length xs > 0);
     (p, d) \<leftarrow> radix_scan xs (10, 1);
     radix_passes (nat d) 1 xs }"

section \<open>BucketSort\<close>

text \<open>
  \<open>std::map\<close> as an association list in the order of its keys; \<open>buckets[k]\<close> creates the
  bucket when there is none.
\<close>

definition bucket_of :: "int \<Rightarrow> int" where
  "bucket_of x = (if 0 \<le> x then x div 10 else - (- x div 10))"

fun bucket_add :: "int \<Rightarrow> int \<Rightarrow> (int \<times> int list) list \<Rightarrow> (int \<times> int list) list" where
  "bucket_add k x [] = [(k, [x])]"
| "bucket_add k x ((k', v) # bs) =
     (if k < k' then (k, [x]) # (k', v) # bs
      else if k = k' then (k', v @ [x]) # bs
      else (k', v) # bucket_add k x bs)"

definition BucketSort :: "(int \<Rightarrow> int \<Rightarrow> bool) \<Rightarrow> int list \<Rightarrow> int list option" where
  "BucketSort cmp xs = do {
     _ \<leftarrow> check (length xs > 0);
     let buckets = fold (\<lambda>x. bucket_add (bucket_of x) x) xs [];
     for_each (\<lambda>b out.
       if snd b = [] then Some out
       else do { v \<leftarrow> InsertSort cmp (snd b); Some (out @ v) }) buckets [] }"

section \<open>What the counting loops compute\<close>

text \<open>The elements of each key in their order, one key after the other.\<close>

definition bucketed :: "('a \<Rightarrow> nat) \<Rightarrow> nat \<Rightarrow> 'a list \<Rightarrow> 'a list" where
  "bucketed k m xs = concat (map (\<lambda>j. filter (\<lambda>x. k x = j) xs) [0..<m])"

definition key_count :: "('a \<Rightarrow> nat) \<Rightarrow> 'a list \<Rightarrow> nat \<Rightarrow> nat" where
  "key_count k xs j = length (filter (\<lambda>x. k x = j) xs)"

definition key_start :: "('a \<Rightarrow> nat) \<Rightarrow> 'a list \<Rightarrow> nat \<Rightarrow> nat" where
  "key_start k xs j = length (filter (\<lambda>x. k x < j) xs)"

lemma key_start_Suc: "key_start k xs (Suc j) = key_start k xs j + key_count k xs j"
  unfolding key_start_def key_count_def by (induction xs) auto

lemma key_count_Nil: "key_count k [] j = 0"
  by (simp add: key_count_def)

lemma key_start_0 [simp]: "key_start k xs 0 = 0"
  by (simp add: key_start_def)

lemma key_start_mono: "i \<le> j \<Longrightarrow> key_start k xs i \<le> key_start k xs j"
  by (induction rule: dec_induct) (auto simp: key_start_Suc)

lemma key_start_all: "\<forall>x\<in>set xs. k x < m \<Longrightarrow> key_start k xs m = length xs"
  by (simp add: key_start_def)

lemma mset_bucketed: "mset (bucketed k m xs) = mset (filter (\<lambda>x. k x < m) xs)"
proof (induction m)
  case (Suc m)
  have "mset (filter (\<lambda>x. k x < Suc m) xs) = mset (filter (\<lambda>x. k x < m) xs) + mset (filter (\<lambda>x. k x = m) xs)"
    by (induction xs) auto
  with Suc show ?case by (simp add: bucketed_def)
qed (simp add: bucketed_def)

lemma sorted_bucketed:
  "sorted_wrt R xs \<Longrightarrow> sorted_wrt (\<lambda>x y. k x < k y \<or> k x = k y \<and> R x y) (bucketed k m xs)"
proof (induction m)
  case (Suc m)
  have "sorted_wrt (\<lambda>x y. k x < k y \<or> k x = k y \<and> R x y) (filter (\<lambda>x. k x = m) xs)"
  proof (rule sorted_wrt_mono_rel)
    show "sorted_wrt R (filter (\<lambda>x. k x = m) xs)" using Suc.prems by (rule sorted_wrt_filter)
  qed auto
  moreover have "k x < m" if "x \<in> set (bucketed k m xs)" for x
    using that by (auto simp: bucketed_def)
  moreover have "bucketed k (Suc m) xs = bucketed k m xs @ filter (\<lambda>x. k x = m) xs"
    by (simp add: bucketed_def)
  ultimately show ?case using Suc by (auto simp: sorted_wrt_append)
qed (simp add: bucketed_def)

lemma count_keys_spec:
  assumes "\<forall>x\<in>set xs. key x = Some (k x) \<and> k x < length c"
  shows "\<exists>c'. count_keys key xs c = Some c' \<and> length c' = length c \<and>
    (\<forall>j<length c. c' ! j = c ! j + key_count k xs j)"
  using assms
proof (induction xs arbitrary: c)
  case (Cons x xs)
  let ?c = "c[k x := c ! k x + 1]"
  obtain c' where "count_keys key xs ?c = Some c'" "length c' = length c"
      "\<forall>j<length c. c' ! j = ?c ! j + key_count k xs j"
    using Cons.IH[of ?c] Cons.prems by auto
  with Cons.prems show ?case by (auto simp: count_keys_def key_count_def nth_list_update)
qed (simp add: count_keys_def key_count_def)

lemma prefix_sums_spec:
  assumes "\<forall>j<length c. c ! j = key_count k xs j"
  shows "length (prefix_sums c) = length c \<and> (\<forall>j<length c. prefix_sums c ! j = key_start k xs (Suc j))"
proof (cases "c = []")
  case False
  let ?P = "\<lambda>i c'. length c' = length c \<and>
    (\<forall>j<length c. c' ! j = (if j < i then key_start k xs (Suc j) else key_count k xs j))"
  have "?P (length c) (prefix_sums c)"
    unfolding prefix_sums_def
  proof (rule fold_upt_invariant[where P = ?P])
    show "?P 1 c" using assms by (auto simp: key_start_Suc)
  next
    fix i c'
    assume "1 \<le> i" "i < length c" "?P i c'"
    then show "?P (Suc i) (c'[i := c' ! i + c' ! (i - 1)])"
      by (auto simp: nth_list_update key_start_Suc less_Suc_eq)
  qed (use False in \<open>simp add: Suc_le_eq\<close>)
  then show ?thesis by simp
qed (simp add: prefix_sums_def)

definition place_inv :: "(int \<Rightarrow> nat) \<Rightarrow> nat \<Rightarrow> int list \<Rightarrow> int list \<Rightarrow> nat list \<times> int list \<Rightarrow> bool" where
  "place_inv k m ys zs s \<longleftrightarrow> length (fst s) = m \<and> length (snd s) = length (ys @ zs) \<and>
     (\<forall>j<m. fst s ! j = key_start k (ys @ zs) j + key_count k ys j \<and>
       portion (snd s) (fst s ! j) (key_start k (ys @ zs) (Suc j)) = filter (\<lambda>x. k x = j) zs)"

lemma place_inv_step:
  assumes inv: "place_inv k m (ys @ [y]) zs (c, tmp)" and keys: "\<forall>x\<in>set (ys @ y # zs). k x < m"
  shows "0 < c ! k y \<and> c ! k y - 1 < length tmp \<and>
    place_inv k m ys (y # zs) (c[k y := c ! k y - 1], tmp[c ! k y - 1 := y])"
proof -
  let ?xs = "ys @ y # zs" and ?p = "c ! k y - 1"
  have ky: "k y < m" and len: "length c = m" "length tmp = length ?xs"
    using assms by (simp_all add: place_inv_def)
  have both: "\<forall>j<m. c ! j = key_start k ?xs j + key_count k (ys @ [y]) j \<and>
      portion tmp (c ! j) (key_start k ?xs (Suc j)) = filter (\<lambda>x. k x = j) zs"
    using inv unfolding place_inv_def fst_conv snd_conv append_assoc append.simps by blast
  then have c: "c ! j = key_start k ?xs j + key_count k (ys @ [y]) j"
    and por: "portion tmp (c ! j) (key_start k ?xs (Suc j)) = filter (\<lambda>x. k x = j) zs" if "j < m" for j
    using that by blast+
  have p: "?p = key_start k ?xs (k y) + key_count k ys (k y)" "c ! k y = Suc ?p"
    using c[OF ky] by (simp_all add: key_count_def)
  have hi: "?p < key_start k ?xs (Suc (k y))"
    using p by (simp add: key_start_Suc key_count_def)
  have top: "key_start k ?xs (Suc j) \<le> length tmp" if "j < m" for j
    using key_start_mono[of "Suc j" m k ?xs] key_start_all[OF keys] that len(2) by simp
  let ?c = "c[k y := ?p]" and ?tmp = "tmp[?p := y]"
  have all: "?c ! j = key_start k ?xs j + key_count k ys j \<and>
      portion ?tmp (?c ! j) (key_start k ?xs (Suc j)) = filter (\<lambda>x. k x = j) (y # zs)" if j: "j < m" for j
  proof (cases "j = k y")
    case True
    have "portion ?tmp ?p (key_start k ?xs (Suc j)) = ?tmp ! ?p # portion ?tmp (Suc ?p) (key_start k ?xs (Suc j))"
      using hi top[OF j] True by (intro portion_Cons) simp_all
    also have "portion ?tmp (Suc ?p) (key_start k ?xs (Suc j)) = portion tmp (Suc ?p) (key_start k ?xs (Suc j))"
      by (rule portion_update_outside) simp
    also have "\<dots> = filter (\<lambda>x. k x = j) zs" using por[OF j] p(2) True by simp
    finally show ?thesis using p True ky len hi top[OF j] by simp
  next
    case False
    have "?p < c ! j \<or> key_start k ?xs (Suc j) \<le> ?p"
    proof (cases "j < k y")
      case True
      then show ?thesis using key_start_mono[of "Suc j" "k y" k ?xs] p(1) by simp
    next
      case False2: False
      then have "Suc (k y) \<le> j" using False by simp
      then show ?thesis using key_start_mono[of "Suc (k y)" j k ?xs] hi c[OF j] by simp
    qed
    then show ?thesis using False c[OF j] por[OF j] by (simp add: portion_update_outside key_count_def)
  qed
  have "?p < length tmp" using hi top[OF ky] by simp
  moreover have "place_inv k m ys (y # zs) (?c, ?tmp)"
    unfolding place_inv_def fst_conv snd_conv length_list_update using len all by blast
  ultimately show ?thesis using p(2) by (metis zero_less_Suc)
qed

lemma place_back_loop:
  assumes "\<forall>x\<in>set (ys @ zs). key x = Some (k x) \<and> k x < m" "place_inv k m ys zs (c, tmp)"
  shows "\<exists>s. place_back key ys c tmp = Some s \<and> place_inv k m [] (ys @ zs) s"
  using assms
proof (induction ys arbitrary: zs c tmp rule: rev_induct)
  case Nil
  then show ?case by (simp add: place_back_def)
next
  case (snoc y ys)
  have keys: "\<forall>x\<in>set (ys @ y # zs). k x < m" using snoc.prems(1) by auto
  note step = place_inv_step[OF snoc.prems(2) keys]
  have "k y < length c" using snoc.prems by (simp add: place_inv_def)
  then have "place_back key (ys @ [y]) c tmp = place_back key ys (c[k y := c ! k y - 1]) (tmp[c ! k y - 1 := y])"
    using step snoc.prems(1) by (simp add: place_back_def)
  with snoc.IH[of "y # zs"] step snoc.prems(1) show ?case by simp
qed

lemma counting_spec:
  assumes "\<forall>x\<in>set xs. key x = Some (k x) \<and> k x < m"
  shows "\<exists>c c'. count_keys key xs (replicate m 0) = Some c \<and>
    place_back key xs (prefix_sums c) (replicate (length xs) 0) = Some (c', bucketed k m xs)"
proof -
  obtain c where c: "count_keys key xs (replicate m 0) = Some c" "length c = m" "\<forall>j<m. c ! j = key_count k xs j"
    using count_keys_spec[of xs key k "replicate m 0"] assms by auto
  then have pre: "length (prefix_sums c) = m" "\<forall>j<m. prefix_sums c ! j = key_start k xs (Suc j)"
    using prefix_sums_spec[of c k xs] by simp_all
  then have "place_inv k m xs [] (prefix_sums c, replicate (length xs) 0)"
    by (simp add: place_inv_def key_start_Suc)
  with place_back_loop[of xs "[]" key k m] assms obtain c' tmp where
    s: "place_back key xs (prefix_sums c) (replicate (length xs) 0) = Some (c', tmp)" "place_inv k m [] xs (c', tmp)"
    by fastforce
  have len: "length tmp = length xs" using s(2) by (simp add: place_inv_def)
  have all: "key_start k xs m = length xs" using assms by (intro key_start_all) simp
  have "take (key_start k xs j) tmp = bucketed k j xs" if "j \<le> m" for j
    using that
  proof (induction j)
    case (Suc j)
    have b: "key_start k xs (Suc j) \<le> length tmp"
      using key_start_mono[of "Suc j" m k xs] all len Suc.prems by simp
    have "take (key_start k xs (Suc j)) tmp =
        take (key_start k xs j) tmp @ portion tmp (key_start k xs j) (key_start k xs (Suc j))"
      using portion_append[of 0 "key_start k xs j" "key_start k xs (Suc j)" tmp] b
      by (simp add: portion_def key_start_Suc)
    also have "portion tmp (key_start k xs j) (key_start k xs (Suc j)) = filter (\<lambda>x. k x = j) xs"
    proof -
      have "\<forall>j<m. c' ! j = key_start k xs j \<and> portion tmp (c' ! j) (key_start k xs (Suc j)) = filter (\<lambda>x. k x = j) xs"
        using s(2) unfolding place_inv_def fst_conv snd_conv append_Nil key_count_Nil add_0_right by blast
      then show ?thesis using Suc.prems by (metis Suc_le_eq)
    qed
    finally show ?case using Suc by (simp add: bucketed_def)
  qed (simp add: bucketed_def)
  from this[of m] all len have "tmp = bucketed k m xs" by simp
  with c(1) s(1) show ?thesis by blast
qed

section \<open>The sorts\<close>

lemma move_back: "length tmp = length xs \<Longrightarrow> move_range tmp 0 (length xs) xs 0 = tmp"
  using move_range_overwrite[of 0 "length xs" tmp 0 xs] portion_full[of tmp] by (simp add: overwrite_def)

lemma length_bucketed: "\<forall>x\<in>set xs. k x < m \<Longrightarrow> length (bucketed k m xs) = length xs"
proof -
  assume "\<forall>x\<in>set xs. k x < m"
  then have "filter (\<lambda>x. k x < m) xs = xs" by simp
  then show ?thesis using mset_bucketed[of k m xs] by (metis size_mset)
qed

context strict_weak_order
begin

lemma min_max_spec:
  assumes "xs \<noteq> []"
  shows "case min_max lt xs of (i, j) \<Rightarrow>
    i < length xs \<and> j < length xs \<and> (\<forall>l<length xs. \<not> lt (xs ! l) (xs ! i) \<and> \<not> lt (xs ! j) (xs ! l))"
  unfolding min_max_def
proof (rule fold_upt_invariant[where P = "\<lambda>n (i, j). i < n \<and> j < n \<and>
      (\<forall>l<n. \<not> lt (xs ! l) (xs ! i) \<and> \<not> lt (xs ! j) (xs ! l))"])
  fix l and s :: "nat \<times> nat"
  assume "case s of (i, j) \<Rightarrow> i < l \<and> j < l \<and> (\<forall>t<l. \<not> lt (xs ! t) (xs ! i) \<and> \<not> lt (xs ! j) (xs ! t))"
  then obtain a b where s: "s = (a, b)"
    and P: "a < l" "b < l" "\<And>t. t < l \<Longrightarrow> \<not> lt (xs ! t) (xs ! a)" "\<And>t. t < l \<Longrightarrow> \<not> lt (xs ! b) (xs ! t)"
    by (cases s) auto
  have below: "\<not> lt (xs ! t) (xs ! l)" "\<not> lt (xs ! b) (xs ! l)" if "lt (xs ! l) (xs ! a)" "t < l" for t
    using that P(3)[OF that(2)] P(4)[OF P(1)] lt_trans by blast+
  have above: "\<not> lt (xs ! l) (xs ! t)" if "lt (xs ! b) (xs ! l)" "t < l" for t
    using that P(4)[OF that(2)] lt_trans by blast
  show "case (case s of (min_index, max_index) \<Rightarrow>
        if lt (xs ! l) (xs ! min_index) then (l, max_index)
        else if lt (xs ! max_index) (xs ! l) then (min_index, l) else (min_index, max_index)) of
      (i, j) \<Rightarrow> i < Suc l \<and> j < Suc l \<and> (\<forall>t<Suc l. \<not> lt (xs ! t) (xs ! i) \<and> \<not> lt (xs ! j) (xs ! t))"
  proof (cases "lt (xs ! l) (xs ! a)")
    case True
    with P below lt_irrefl show ?thesis unfolding s by (simp add: less_Suc_eq)
  next
    case False
    show ?thesis
    proof (cases "lt (xs ! b) (xs ! l)")
      case True
      with False P above lt_irrefl show ?thesis unfolding s by (simp add: less_Suc_eq)
    next
      case False2: False
      with False P show ?thesis unfolding s by (simp add: less_Suc_eq)
    qed
  qed
qed (use assms lt_irrefl in \<open>auto simp: Suc_le_eq\<close>)

end

lemma CountSort_sorts:
  assumes "xs \<noteq> []" "\<forall>x\<in>set xs. \<forall>y\<in>set xs. x - y + 1 < 2 ^ 31"
  shows "CountSort std_less xs = Some (sort xs)"
proof -
  obtain i j where ij: "min_max std_less xs = (i, j)" by fastforce
  have b: "i < length xs" "j < length xs" "\<And>x. x \<in> set xs \<Longrightarrow> xs ! i \<le> x \<and> x \<le> xs ! j"
    using std.min_max_spec[OF assms(1)] ij by (auto simp: std_less_def not_less in_set_conv_nth)
  let ?mn = "xs ! i" and ?d = "xs ! j - xs ! i"
  let ?k = "\<lambda>x. nat (x - ?mn)"
  have d: "0 \<le> ?d" "?d + 1 < 2 ^ 31"
    using b(3)[OF nth_mem[OF b(1)]] assms(2) nth_mem[OF b(1)] nth_mem[OF b(2)] by (simp, blast)
  have key: "\<forall>x\<in>set xs. count_key ?mn x = Some (?k x) \<and> ?k x < nat (?d + 1)"
  proof
    fix x
    assume x: "x \<in> set xs"
    from b(3)[OF this] d show "count_key ?mn x = Some (?k x) \<and> ?k x < nat (?d + 1)"
      by (auto simp: count_key_def int_result_def in_int_def)
  qed
  from counting_spec[OF this] obtain c c' where
    "count_keys (count_key ?mn) xs (replicate (nat (?d + 1)) 0) = Some c"
    "place_back (count_key ?mn) xs (prefix_sums c) (replicate (length xs) 0) = Some (c', bucketed ?k (nat (?d + 1)) xs)"
    by blast
  then have "CountSort std_less xs = Some (bucketed ?k (nat (?d + 1)) xs)"
    using assms(1) ij d key by (simp add: CountSort_def int_result_def in_int_def move_back length_bucketed)
  moreover have "sorted (bucketed ?k (nat (?d + 1)) xs)"
  proof -
    have "sorted_wrt (\<lambda>x y. ?k x < ?k y \<or> ?k x = ?k y \<and> True) (bucketed ?k (nat (?d + 1)) xs)"
      by (rule sorted_bucketed) (induction xs, simp_all)
    moreover have "x \<le> y" if "x \<in> set xs" "y \<in> set xs" "?k x \<le> ?k y" for x y
      using b(3)[OF that(1)] b(3)[OF that(2)] that(3) by linarith
    moreover have "set (bucketed ?k (nat (?d + 1)) xs) \<subseteq> set xs" by (auto simp: bucketed_def)
    ultimately have "sorted_wrt (\<le>) (bucketed ?k (nat (?d + 1)) xs)"
    proof (elim sorted_wrt_mono_rel[rotated])
      fix x y
      assume sub: "set (bucketed ?k (nat (?d + 1)) xs) \<subseteq> set xs"
        and le: "\<And>x y. x \<in> set xs \<Longrightarrow> y \<in> set xs \<Longrightarrow> ?k x \<le> ?k y \<Longrightarrow> x \<le> y"
        and xy: "x \<in> set (bucketed ?k (nat (?d + 1)) xs)" "y \<in> set (bucketed ?k (nat (?d + 1)) xs)"
          "?k x < ?k y \<or> ?k x = ?k y \<and> True"
      have "?k x \<le> ?k y" using xy(3) by linarith
      with le sub xy(1,2) show "x \<le> y" by blast
    qed
    then show ?thesis .
  qed
  moreover have "mset (bucketed ?k (nat (?d + 1)) xs) = mset xs"
  proof -
    have "filter (\<lambda>x. ?k x < nat (?d + 1)) xs = xs" using key by (intro filter_True) blast
    then show ?thesis using mset_bucketed[of ?k "nat (?d + 1)" xs] by metis
  qed
  ultimately show ?thesis by (simp add: properties_for_sort)
qed

text \<open>With a descending comparison the \<open>min_index\<close> is the one of the largest element.\<close>

lemma CountSort_greater:
  assumes "x \<in> set xs" "y \<in> set xs" "x \<noteq> y"
  shows "CountSort std_greater xs = None"
proof -
  obtain i j where ij: "min_max std_greater xs = (i, j)" by fastforce
  have "xs \<noteq> []" using assms(1) by auto
  then have b: "\<And>x. x \<in> set xs \<Longrightarrow> xs ! j \<le> x \<and> x \<le> xs ! i"
    using gt.min_max_spec[of xs] ij by (auto simp: std_greater_def not_less in_set_conv_nth)
  have "xs ! j - xs ! i + 1 \<le> 0"
    using b[OF assms(1)] b[OF assms(2)] assms(3) by linarith
  then show ?thesis
    using ij by (cases "xs = []") (auto simp: CountSort_def int_result_def check_def)
qed

text \<open>Radix sort: the digit loop, one stable pass per digit.\<close>

lemma int_result_pow10: "n < 9 \<Longrightarrow> int_result (10 ^ n * 10) = Some (10 ^ Suc n)"
proof -
  assume "n < 9"
  define p :: int where "p = 10 ^ n"
  have "p \<le> 10 ^ 8" unfolding p_def using \<open>n < 9\<close> by (intro power_increasing) auto
  moreover have "0 \<le> p" by (simp add: p_def)
  ultimately have "int_result (p * 10) = Some (p * 10)" by (simp add: int_result_def in_int_def)
  then show ?thesis by (simp add: p_def mult.commute)
qed

lemma radix_digits_ok:
  "x < 10 ^ 9 \<Longrightarrow> n \<le> 9 \<Longrightarrow>
   \<exists>n'. radix_digits x (10 ^ n) (int n) = Some (10 ^ n', int n') \<and> n \<le> n' \<and> n' \<le> 9 \<and> x < 10 ^ n'"
proof (induction "9 - n" arbitrary: n)
  case 0
  then show ?case by (subst radix_digits.simps) auto
next
  case (Suc k)
  show ?case
  proof (cases "x < 10 ^ n")
    case True
    with Suc.prems show ?thesis by (subst radix_digits.simps) auto
  next
    case False
    have step: "int_result (10 ^ n * 10) = Some (10 ^ Suc n)"
      using Suc.hyps(2) by (intro int_result_pow10) simp
    have "radix_digits x (10 ^ n) (int n) = radix_digits x (10 ^ Suc n) (int (Suc n))"
      using step False by (subst radix_digits.simps) (simp add: add.commute del: power_Suc)
    moreover have "k = 9 - Suc n" "Suc n \<le> 9" using Suc.hyps(2) by auto
    then obtain n' where "radix_digits x (10 ^ Suc n) (int (Suc n)) = Some (10 ^ n', int n')"
        "Suc n \<le> n'" "n' \<le> 9" "x < 10 ^ n'"
      using Suc.hyps(1)[of "Suc n"] Suc.prems(1) by blast
    ultimately show ?thesis by (intro exI[of _ n']) simp
  qed
qed

lemma radix_digits_overflow: "10 ^ 9 \<le> x \<Longrightarrow> n \<le> 9 \<Longrightarrow> radix_digits x (10 ^ n) d = None"
proof (induction "9 - n" arbitrary: n d)
  case 0
  then have "n = 9" by simp
  then show ?case using 0 by (subst radix_digits.simps) (simp add: int_result_def in_int_def)
next
  case (Suc k)
  have "(10 :: int) ^ n \<le> 10 ^ 9" using Suc.prems by (intro power_increasing) auto
  then have x: "10 ^ n \<le> x" using Suc.prems by simp
  have step: "int_result (10 ^ n * 10) = Some (10 ^ Suc n)"
    using Suc.hyps(2) by (intro int_result_pow10) simp
  have "k = 9 - Suc n" "Suc n \<le> 9" using Suc.hyps(2) by auto
  then have "radix_digits x (10 ^ Suc n) (d + 1) = None" using Suc.hyps(1) Suc.prems(1) by blast
  then show ?case using step x by (subst radix_digits.simps) (simp del: power_Suc)
qed

lemma radix_scan_simps [simp]:
  "radix_scan [] s = Some s"
  "radix_scan (x # xs) (p, d) = do { _ \<leftarrow> check (x \<ge> 0); s \<leftarrow> radix_digits x p d; radix_scan xs s }"
  by (simp_all add: radix_scan_def)

lemma radix_scan_ok:
  "\<forall>x\<in>set xs. 0 \<le> x \<and> x < 10 ^ 9 \<Longrightarrow> n \<le> 9 \<Longrightarrow>
   \<exists>n'. radix_scan xs (10 ^ n, int n) = Some (10 ^ n', int n') \<and> n \<le> n' \<and> n' \<le> 9 \<and> (\<forall>x\<in>set xs. x < 10 ^ n')"
proof (induction xs arbitrary: n)
  case (Cons x xs)
  from radix_digits_ok[of x n] Cons.prems obtain m where
    m: "radix_digits x (10 ^ n) (int n) = Some (10 ^ m, int m)" "n \<le> m" "m \<le> 9" "x < 10 ^ m" by auto
  from Cons.IH[of m] Cons.prems m(3) obtain n' where
    n': "radix_scan xs (10 ^ m, int m) = Some (10 ^ n', int n')" "m \<le> n'" "n' \<le> 9" "\<forall>x\<in>set xs. x < 10 ^ n'"
    by auto
  have "(10 :: int) ^ m \<le> 10 ^ n'" using n'(2) by (intro power_increasing) auto
  with m(4) have "x < 10 ^ n'" by (rule less_le_trans)
  with m n' Cons.prems show ?case by (intro exI[of _ n']) auto
qed auto

lemma radix_scan_bad:
  "\<exists>x\<in>set xs. x < 0 \<or> 10 ^ 9 \<le> x \<Longrightarrow> n \<le> 9 \<Longrightarrow> radix_scan xs (10 ^ n, int n) = None"
proof (induction xs arbitrary: n)
  case (Cons x xs)
  consider "x < 0" | "10 ^ 9 \<le> x" | "0 \<le> x" "x < 10 ^ 9" by linarith
  then show ?case
  proof cases
    case 1
    then show ?thesis by simp
  next
    case 2
    then show ?thesis using Cons.prems radix_digits_overflow[of x n] by simp
  next
    case 3
    from radix_digits_ok[OF 3(2) Cons.prems(2)] obtain m where
      m: "radix_digits x (10 ^ n) (int n) = Some (10 ^ m, int m)" "m \<le> 9" by auto
    have "\<exists>x\<in>set xs. x < 0 \<or> 10 ^ 9 \<le> x" using Cons.prems(1) 3 by auto
    from Cons.IH[OF this m(2)] m(1) show ?thesis by simp
  qed
qed simp

lemma radix_pass_eq:
  assumes "0 < radix"
  shows "radix_pass radix xs = Some (bucketed (\<lambda>x. nat (x div radix mod 10)) 10 xs)"
proof -
  have key: "\<forall>x\<in>set xs. radix_key radix x = Some (nat (x div radix mod 10)) \<and> nat (x div radix mod 10) < 10"
    by (auto simp: radix_key_def nat_less_iff)
  from counting_spec[OF this] key show ?thesis
    by (auto simp: radix_pass_def move_back length_bucketed)
qed

lemma mset_radix_bucketed: "mset (bucketed (\<lambda>x. nat (x div r mod 10)) 10 xs) = mset (xs :: int list)"
proof -
  have "filter (\<lambda>x. nat (x div r mod 10) < 10) xs = xs" by (intro filter_True) (auto simp: nat_less_iff)
  then show ?thesis using mset_bucketed[of "\<lambda>x. nat (x div r mod 10)" 10 xs] by metis
qed

lemma mod_digit:
  fixes x y r :: int
  assumes "0 < r" "x div r mod 10 < y div r mod 10 \<or> x div r mod 10 = y div r mod 10 \<and> x mod r \<le> y mod r"
  shows "x mod (r * 10) \<le> y mod (r * 10)"
proof -
  have e: "z mod (r * 10) = r * (z div r mod 10) + z mod r" for z using zmod_zmult2_eq[of 10 z r] by simp
  have b: "0 \<le> z mod r" "z mod r < r" for z using assms(1) by simp_all
  show ?thesis
  proof (cases "x div r mod 10 < y div r mod 10")
    case True
    then have "r * (x div r mod 10 + 1) \<le> r * (y div r mod 10)" using assms(1) by (intro mult_left_mono) auto
    then have "r * (x div r mod 10) + r \<le> r * (y div r mod 10)" by (simp add: distrib_left)
    then show ?thesis using e[of x] e[of y] b(2)[of x] b(1)[of y] by linarith
  next
    case False
    then show ?thesis using assms(2) e[of x] e[of y] by simp
  qed
qed

lemma radix_passes_spec:
  "i + n \<le> 9 \<Longrightarrow> sorted_wrt (\<lambda>x y. x mod 10 ^ i \<le> y mod 10 ^ i) xs \<Longrightarrow>
   \<exists>ys. radix_passes n (10 ^ i) xs = Some ys \<and> mset ys = mset xs \<and>
     sorted_wrt (\<lambda>x y. x mod 10 ^ (i + n) \<le> y mod 10 ^ (i + n)) ys"
proof (induction n arbitrary: i xs)
  case (Suc n)
  let ?k = "\<lambda>x. nat (x div 10 ^ i mod 10)"
  let ?ys = "bucketed ?k 10 xs"
  have "sorted_wrt (\<lambda>x y. ?k x < ?k y \<or> ?k x = ?k y \<and> x mod 10 ^ i \<le> y mod 10 ^ i) ?ys"
    using Suc.prems(2) by (rule sorted_bucketed)
  then have "sorted_wrt (\<lambda>x y. x mod 10 ^ Suc i \<le> y mod 10 ^ Suc i) ?ys"
  proof (rule sorted_wrt_mono_rel[rotated])
    fix x y
    assume "?k x < ?k y \<or> ?k x = ?k y \<and> x mod 10 ^ i \<le> y mod 10 ^ i"
    then have "x div 10 ^ i mod 10 < y div 10 ^ i mod 10 \<or>
        x div 10 ^ i mod 10 = y div 10 ^ i mod 10 \<and> x mod 10 ^ i \<le> y mod 10 ^ i"
      by (auto simp: nat_less_eq_zless nat_eq_iff2)
    from mod_digit[OF _ this] show "x mod 10 ^ Suc i \<le> y mod 10 ^ Suc i" by (simp add: mult.commute)
  qed
  with Suc.IH[of "Suc i" ?ys] Suc.prems(1) obtain ys where
    ys: "radix_passes n (10 ^ Suc i) ?ys = Some ys" "mset ys = mset ?ys"
      "sorted_wrt (\<lambda>x y. x mod 10 ^ (i + Suc n) \<le> y mod 10 ^ (i + Suc n)) ys" by auto
  have step: "int_result (10 ^ i * 10) = Some (10 ^ Suc i)"
    using Suc.prems(1) by (intro int_result_pow10) simp
  with ys show ?case by (simp add: radix_pass_eq mset_radix_bucketed del: power_Suc)
qed simp

lemma RadixSort_eq:
  assumes "xs \<noteq> []"
  shows "RadixSort cmp xs = (if \<exists>x\<in>set xs. x < 0 \<or> 10 ^ 9 \<le> x then None else Some (sort xs))"
proof (cases "\<exists>x\<in>set xs. x < 0 \<or> 10 ^ 9 \<le> x")
  case True
  with radix_scan_bad[OF this, of 1] assms show ?thesis by (simp add: RadixSort_def)
next
  case False
  then have "\<forall>x\<in>set xs. 0 \<le> x \<and> x < 10 ^ 9" by auto
  from radix_scan_ok[OF this, of 1] obtain n where
    n: "radix_scan xs (10, 1) = Some (10 ^ n, int n)" "n \<le> 9" "\<forall>x\<in>set xs. x < 10 ^ n" by auto
  obtain ys where ys: "radix_passes n 1 xs = Some ys" "mset ys = mset xs"
      "sorted_wrt (\<lambda>x y. x mod 10 ^ n \<le> y mod 10 ^ n) ys"
    using radix_passes_spec[of 0 n xs] n(2) by (auto simp: sorted_wrt_iff_nth_less)
  have "set ys = set xs" using ys(2) by (rule mset_eq_setD)
  then have small: "x mod 10 ^ n = x" if "x \<in> set ys" for x
    using that n(3) False by (intro mod_pos_pos_trivial) auto
  have "sorted ys"
    using ys(3) by (rule sorted_wrt_mono_rel[rotated]) (simp add: small)
  then have "ys = sort xs" using ys(2) by (metis properties_for_sort)
  with n(1) ys(1) False assms show ?thesis by (auto simp: RadixSort_def)
qed

text \<open>Bucket sort: the map of buckets is ordered by its keys.\<close>

definition bucket_ok :: "int \<times> int list \<Rightarrow> bool" where
  "bucket_ok b \<longleftrightarrow> snd b \<noteq> [] \<and> (\<forall>x\<in>set (snd b). bucket_of x = fst b)"

lemma bucket_ok_simps [simp]:
  "bucket_ok (bucket_of x, [x])"
  "bucket_ok (k, v) \<Longrightarrow> bucket_of x = k \<Longrightarrow> bucket_ok (k, v @ [x])"
  by (auto simp: bucket_ok_def)

definition buckets_inv :: "int list \<Rightarrow> (int \<times> int list) list \<Rightarrow> bool" where
  "buckets_inv xs bs \<longleftrightarrow> sorted_wrt (<) (map fst bs) \<and> mset (concat (map snd bs)) = mset xs \<and>
     (\<forall>b\<in>set bs. bucket_ok b)"

lemma bucket_add_keys: "fst ` set (bucket_add k x bs) = insert k (fst ` set bs)"
  by (induction k x bs rule: bucket_add.induct) auto

lemma bucket_add_mset: "mset (concat (map snd (bucket_add k x bs))) = add_mset x (mset (concat (map snd bs)))"
  by (induction k x bs rule: bucket_add.induct) auto

lemma bucket_add_sorted: "sorted_wrt (<) (map fst bs) \<Longrightarrow> sorted_wrt (<) (map fst (bucket_add k x bs))"
proof (induction k x bs rule: bucket_add.induct)
  case (2 k x k' v bs)
  have keys: "set (map fst (bucket_add k x bs)) = insert k (set (map fst bs))"
    using bucket_add_keys[of k x bs] by simp
  show ?case
  proof (cases "k' < k")
    case True
    then show ?thesis using 2 keys by (simp del: set_map)
  next
    case False
    moreover have "\<forall>b\<in>set bs. k' < fst b" using 2 by simp
    ultimately show ?thesis using 2 by auto
  qed
qed simp

lemma bucket_add_members:
  "\<forall>b\<in>set bs. bucket_ok b \<Longrightarrow> k = bucket_of x \<Longrightarrow> \<forall>b\<in>set (bucket_add k x bs). bucket_ok b"
  by (induction k x bs rule: bucket_add.induct) simp_all

lemma buckets_inv_fold: "buckets_inv ys bs \<Longrightarrow> buckets_inv (ys @ xs) (fold (\<lambda>x. bucket_add (bucket_of x) x) xs bs)"
proof (induction xs arbitrary: ys bs)
  case (Cons x xs)
  have "buckets_inv (ys @ [x]) (bucket_add (bucket_of x) x bs)"
    using Cons.prems bucket_add_members[of bs "bucket_of x" x]
    by (simp add: buckets_inv_def bucket_add_sorted bucket_add_mset)
  from Cons.IH[OF this] show ?case by simp
qed simp

lemma bucket_of_mono: "x \<le> y \<Longrightarrow> bucket_of x \<le> bucket_of y"
  by (auto simp: bucket_of_def zdiv_mono1 intro: order_trans[of _ 0] simp: pos_imp_zdiv_nonneg_iff)

lemma buckets_out:
  "\<forall>b\<in>set bs. snd b \<noteq> [] \<Longrightarrow>
   for_each (\<lambda>b out. if snd b = [] then Some out else do { v \<leftarrow> InsertSort std_less (snd b); Some (out @ v) }) bs out =
   Some (out @ concat (map (\<lambda>b. sort (snd b)) bs))"
proof (induction bs arbitrary: out)
  case (Cons b bs)
  have "InsertSort std_less (snd b) = Some (sort (snd b))"
    using std.InsertSort_sorts[of "snd b"] Cons.prems by (auto simp: sorts_to_std_less)
  with Cons show ?case by simp
qed simp

lemma buckets_sorted:
  "buckets_inv xs bs \<Longrightarrow> sorted (concat (map (\<lambda>b. sort (snd b)) bs)) \<and> mset (concat (map (\<lambda>b. sort (snd b)) bs)) = mset xs"
proof (induction bs arbitrary: xs)
  case (Cons b bs)
  have "buckets_inv (concat (map snd bs)) bs" using Cons.prems by (simp add: buckets_inv_def)
  note IH = Cons.IH[OF this]
  have "x \<le> y" if x: "x \<in> set (snd b)" and y: "y \<in> set (concat (map snd bs))" for x y
  proof -
    from y obtain b' where b': "b' \<in> set bs" "y \<in> set (snd b')" by auto
    then have "bucket_of x < bucket_of y" using Cons.prems x by (auto simp: buckets_inv_def bucket_ok_def)
    then show ?thesis using bucket_of_mono[of y x] by linarith
  qed
  moreover have "set (concat (map (\<lambda>b. sort (snd b)) bs)) = set (concat (map snd bs))" by simp
  ultimately show ?case using IH Cons.prems by (auto simp: sorted_append buckets_inv_def)
qed (simp add: buckets_inv_def)

lemma BucketSort_sorts: "xs \<noteq> [] \<Longrightarrow> BucketSort std_less xs = Some (sort xs)"
proof -
  assume ne: "xs \<noteq> []"
  let ?bs = "fold (\<lambda>x. bucket_add (bucket_of x) x) xs []"
  have inv: "buckets_inv xs ?bs" using buckets_inv_fold[of "[]" "[]" xs] by (simp add: buckets_inv_def)
  then have "BucketSort std_less xs = Some (concat (map (\<lambda>b. sort (snd b)) ?bs))"
    using ne buckets_out[of ?bs "[]"] by (simp add: BucketSort_def buckets_inv_def bucket_ok_def)
  with buckets_sorted[OF inv] show ?thesis by (metis properties_for_sort)
qed

end
