(* ===== verification/Sorts.thy ===== *)
theory Sorts
  imports SortInsert SortExchange SortHeap SortMerge SortQuick SortCount
begin

text \<open>
  The sorts of include/mzx/algorithm/sort behind one interface, and what each of them guarantees.
\<close>

section \<open>The interface\<close>

lemma sorts_empty:
  "InsertSort cmp [] = None" "ShellSort cmp [] = None" "SelectSort cmp [] = None" "BuddleSort cmp [] = None"
  "HeapSort cmp [] = None" "QuickSort cmp [] = None" "MergeSort_with init cmp [] = None"
  "CountSort icmp [] = None" "RadixSort icmp [] = None" "BucketSort icmp [] = None"
  by (simp_all add: InsertSort_def ShellSort_def SelectSort_def BuddleSort_def HeapSort_def QuickSort_def
      MergeSort_with_def CountSort_def RadixSort_def BucketSort_def)

interpretation insert_sort: sorting InsertSort std_less
  by unfold_locales (simp add: sorts_empty, blast dest: std.InsertSort_sorts)

interpretation shell_sort: sorting ShellSort std_less
  by unfold_locales (simp add: sorts_empty, blast dest: std.ShellSort_sorts)

interpretation select_sort: sorting SelectSort std_less
  by unfold_locales (simp add: sorts_empty, blast dest: std.SelectSort_sorts)

interpretation buddle_sort: sorting BuddleSort std_less
  by unfold_locales (simp add: sorts_empty, blast dest: std.BuddleSort_sorts)

interpretation heap_sort: sorting HeapSort std_less
  by unfold_locales (simp add: sorts_empty, blast dest: std.HeapSort_sorts)

interpretation quick_sort: sorting QuickSort std_less
  by unfold_locales (simp add: sorts_empty, blast dest: std.QuickSort_sorts)

interpretation merge_sort: sorting "MergeSort_with init" std_less
  by unfold_locales (simp add: sorts_empty, blast dest: std.MergeSort_sorts)

interpretation bucket_sort: sorting BucketSort std_less
  by unfold_locales (simp_all add: sorts_empty BucketSort_sorts sorts_to_std_less)

section \<open>The comparison sorts\<close>

text \<open>\<open>InsertSort\<close> of a range that is not empty, with any strict weak order,
  ends with the elements in order, and elements that count as equal keep their relative order.\<close>
theorem InsertSort_correct:
  assumes "strict_weak_order lt" "xs \<noteq> []"
  shows "\<exists>ys. InsertSort lt xs = Some ys \<and> sorts_to lt xs ys \<and> stable_to lt xs ys"
  by (rule strict_weak_order.InsertSort_sorts[OF assms])

lemma InsertSort_correct_witness:
  "\<exists>ys. InsertSort std_less [3, 1, 2 :: int] = Some ys \<and> sorts_to std_less [3, 1, 2] ys"
  using InsertSort_correct[OF std.strict_weak_order_axioms, of "[3, 1, 2 :: int]"] by auto

text \<open>C5: \<open>MergeSort\<close> of a range that is not empty, with any strict weak order and
  whatever the fresh scratch vector holds, ends with the elements in order, and is stable.\<close>
theorem MergeSort_correct:
  assumes "strict_weak_order lt" "xs \<noteq> []"
  shows "\<exists>ys. MergeSort_with init lt xs = Some ys \<and> sorts_to lt xs ys \<and> stable_to lt xs ys"
  by (rule strict_weak_order.MergeSort_sorts[OF assms])

lemma MergeSort_correct_witness:
  "\<exists>ys. MergeSort_with 0 std_less [3, 1, 2 :: int] = Some ys \<and> sorts_to std_less [3, 1, 2] ys"
  using MergeSort_correct[OF std.strict_weak_order_axioms, of "[3, 1, 2 :: int]" 0] by auto

text \<open>C7: \<open>QuickSort\<close> of a range that is not empty, with any strict weak order,
  ends with the elements in order.\<close>
theorem QuickSort_correct:
  assumes "strict_weak_order lt" "xs \<noteq> []"
  shows "\<exists>ys. QuickSort lt xs = Some ys \<and> sorts_to lt xs ys"
  by (rule strict_weak_order.QuickSort_sorts[OF assms])

lemma QuickSort_correct_witness:
  "\<exists>ys. QuickSort std_less [3, 1, 2 :: int] = Some ys \<and> sorts_to std_less [3, 1, 2] ys"
  using QuickSort_correct[OF std.strict_weak_order_axioms, of "[3, 1, 2 :: int]"] by auto

text \<open>\<open>HeapSort\<close> of a range that is not empty, with any strict weak order,
  ends with the elements in order.\<close>
theorem HeapSort_correct:
  assumes "strict_weak_order lt" "xs \<noteq> []"
  shows "\<exists>ys. HeapSort lt xs = Some ys \<and> sorts_to lt xs ys"
  by (rule strict_weak_order.HeapSort_sorts[OF assms])

lemma HeapSort_correct_witness:
  "\<exists>ys. HeapSort std_less [3, 1, 2 :: int] = Some ys \<and> sorts_to std_less [3, 1, 2] ys"
  using HeapSort_correct[OF std.strict_weak_order_axioms, of "[3, 1, 2 :: int]"] by auto

text \<open>\<open>ShellSort\<close>, \<open>SelectSort\<close> and \<open>BuddleSort\<close> of a range that
  is not empty, with any strict weak order, end with the elements in order.\<close>
theorem simple_sorts_correct:
  assumes "strict_weak_order lt" "xs \<noteq> []"
  shows "(\<exists>ys. ShellSort lt xs = Some ys \<and> sorts_to lt xs ys) \<and>
    (\<exists>ys. SelectSort lt xs = Some ys \<and> sorts_to lt xs ys) \<and>
    (\<exists>ys. BuddleSort lt xs = Some ys \<and> sorts_to lt xs ys)"
  using strict_weak_order.ShellSort_sorts[OF assms] strict_weak_order.SelectSort_sorts[OF assms]
    strict_weak_order.BuddleSort_sorts[OF assms] by blast

lemma simple_sorts_correct_witness:
  "\<exists>ys. BuddleSort std_greater [3, 1, 2 :: int] = Some ys \<and> sorts_to std_greater [3, 1, 2] ys"
  using simple_sorts_correct[OF gt.strict_weak_order_axioms, of "[3, 1, 2 :: int]"] by blast

text \<open>every sort aborts on an empty range, because \<open>MZX_CHECK (end > begin)\<close> refuses
  it.\<close>
theorem sorts_reject_empty:
  "InsertSort cmp ([] :: 'a list) = None \<and> ShellSort cmp ([] :: 'a list) = None \<and>
   SelectSort cmp ([] :: 'a list) = None \<and> BuddleSort cmp ([] :: 'a list) = None \<and>
   HeapSort cmp ([] :: 'a list) = None \<and> QuickSort cmp ([] :: 'a list) = None \<and>
   MergeSort_with init cmp ([] :: 'a list) = None \<and>
   CountSort icmp [] = None \<and> RadixSort icmp [] = None \<and> BucketSort icmp [] = None"
  by (simp add: sorts_empty)

section \<open>The sorts of integers\<close>

text \<open>\<open>CountSort\<close> with the ascending comparison sorts every range of integers
  whose spread fits \<open>int\<close>; no counter is accessed out of range.\<close>
theorem CountSort_correct:
  assumes "xs \<noteq> []" "list_all (\<lambda>x. list_all (\<lambda>y. x - y + 1 < 2 ^ 31) xs) xs"
  shows "CountSort std_less xs = Some (sort xs)"
  using assms by (intro CountSort_sorts) (auto simp: list_all_iff)

lemma CountSort_correct_witness: "CountSort std_less [3, - 1, 2, 3] = Some [- 1, 2, 3, 3]"
  using CountSort_correct[of "[3, - 1, 2, 3]"] by simp

text \<open>\<open>CountSort\<close> does not support a descending comparison: on a range with two
  different elements it asks for a counter vector of a size that is not positive and does not return.\<close>
theorem CountSort_descending:
  assumes "x \<in> set xs" "y \<in> set xs" "x \<noteq> y"
  shows "CountSort std_greater xs = None"
  by (rule CountSort_greater[OF assms])

lemma CountSort_descending_witness: "CountSort std_greater [1, 2] = None"
  by (rule CountSort_descending[of 1 _ 2]) simp_all

text \<open>\<open>RadixSort\<close> ignores its comparison. It sorts ascending exactly the ranges
  whose elements are between 0 and \<open>10 ^ 9 - 1\<close>; a negative element fails its check, and with an
  element of ten digits the bound \<open>p\<close> overflows.\<close>
theorem RadixSort_exact:
  "RadixSort cmp xs =
   (if xs = [] \<or> list_ex (\<lambda>x. x < 0 \<or> 10 ^ 9 \<le> x) xs then None else Some (sort xs))"
proof (cases "xs = []")
  case True
  then show ?thesis by (simp add: RadixSort_def)
next
  case False
  then show ?thesis using RadixSort_eq[OF False, of cmp] by (simp add: list_ex_iff)
qed

text \<open>\<open>BucketSort\<close> with the ascending comparison sorts every range of integers
  that is not empty, negative ones included.\<close>
theorem BucketSort_correct:
  assumes "xs \<noteq> []"
  shows "BucketSort std_less xs = Some (sort xs)"
  by (rule BucketSort_sorts[OF assms])

lemma BucketSort_correct_witness: "BucketSort std_less [30, - 1, 2, - 12] = Some [- 12, - 1, 2, 30]"
  using BucketSort_correct[of "[30, - 1, 2, - 12]"] by simp

text \<open>C22: with the default comparison the seven comparison sorts and \<open>BucketSort\<close> compute
  the same function of the range.\<close>
theorem sorts_agree:
  assumes "xs \<noteq> ([] :: int list)"
  shows "list_all (\<lambda>f. f xs = Some (sort xs))
    [InsertSort std_less, ShellSort std_less, SelectSort std_less, BuddleSort std_less,
     HeapSort std_less, QuickSort std_less, MergeSort_with init std_less, BucketSort std_less]"
  using insert_sort.sorted_range[OF assms] shell_sort.sorted_range[OF assms] select_sort.sorted_range[OF assms]
    buddle_sort.sorted_range[OF assms] heap_sort.sorted_range[OF assms] quick_sort.sorted_range[OF assms]
    merge_sort.sorted_range[OF assms] bucket_sort.sorted_range[OF assms]
  by (auto simp: sorts_to_std_less)

lemma sorts_agree_witness: "QuickSort std_less [5, 3, 4 :: int] = Some [3, 4, 5]"
  using sorts_agree[of "[5, 3, 4]"] by simp

end
