(* ===== verification/PowerOfTwo.thy ===== *)
theory PowerOfTwo
  imports Prelude
begin

text \<open>
  The powers of two of include/mzx/algorithm/math.h on an unsigned type of \<open>w\<close> bits, which is
  \<open>'a word\<close>; decrement and increment wrap around.
\<close>

section \<open>The model\<close>

text \<open>The shift distance doubles until it reaches the width; \<open>0 < i\<close> only makes the loop total.\<close>

function smear_loop :: "nat \<Rightarrow> 'a::len word \<Rightarrow> 'a word" where
  "smear_loop i val =
     (if 0 < i \<and> i < LENGTH('a) then smear_loop (i * 2) (val OR drop_bit i val) else val)"
  by pat_completeness auto
termination
  by (relation "measure (\<lambda>(i, val :: 'a word). LENGTH('a) - i)") auto

declare smear_loop.simps [simp del]

definition NextPower2 :: "'a::len word \<Rightarrow> 'a word" where
  "NextPower2 val = smear_loop 1 (val - 1) + 1"

definition IsPowerOf2 :: "'a::len word \<Rightarrow> bool" where
  "IsPowerOf2 val = (val AND (val - 1) = 0)"

lemma unat_drop_1: "unat (drop_bit 1 (v :: 'a::len word)) = unat v div 2"
  by (simp only: unat_drop_bit_eq) (simp add: drop_bit_eq_div)

function power2_loop :: "'a::len word \<Rightarrow> nat \<Rightarrow> nat" where
  "power2_loop val index =
     (let val = drop_bit 1 val in if val \<noteq> 0 then power2_loop val (index + 1) else index)"
  by pat_completeness auto
termination
proof (relation "measure (\<lambda>(val, index). unat val)", simp)
  fix val v :: "'a word" and index :: nat
  assume v: "v = drop_bit 1 val" "v \<noteq> 0"
  have "unat v = unat val div 2" unfolding v(1) by (rule unat_drop_1)
  moreover have "0 < unat v" using v(2) by (simp add: unat_gt_0)
  ultimately show "((v, index + 1), val, index) \<in> measure (\<lambda>(val, index). unat val)" by simp
qed

declare power2_loop.simps [simp del]

definition Power2Index :: "'a::len word \<Rightarrow> nat" where
  "Power2Index val = power2_loop val 0"

definition NextPower2Index :: "'a::len word \<Rightarrow> nat" where
  "NextPower2Index val =
     (let index = Power2Index val in if \<not> IsPowerOf2 val then index + 1 else index)"

section \<open>The logarithm\<close>

lemma power2_loop_spec:
  "v \<noteq> 0 \<Longrightarrow> \<exists>m. power2_loop v i = i + m \<and> 2 ^ m \<le> unat v \<and> unat v < 2 ^ Suc m"
proof (induction v i rule: power2_loop.induct)
  case (1 v i)
  show ?case
  proof (cases "drop_bit 1 v = 0")
    case True
    then have "unat v div 2 = 0" using unat_drop_1[of v] by simp
    moreover have "unat v \<noteq> 0" using "1.prems" by (simp add: unsigned_eq_0_iff)
    ultimately show ?thesis using True by (intro exI[of _ 0]) (auto simp: power2_loop.simps[of v])
  next
    case False
    from "1.IH"[OF refl False False] obtain m where
      m: "power2_loop (drop_bit 1 v) (i + 1) = i + 1 + m" "2 ^ m \<le> unat v div 2" "unat v div 2 < 2 ^ Suc m"
      using unat_drop_1[of v] by auto
    then have "2 ^ Suc m \<le> unat v" "unat v < 2 ^ Suc (Suc m)" by auto
    with m(1) False show ?thesis by (intro exI[of _ "Suc m"]) (simp add: power2_loop.simps[of v])
  qed
qed

lemma Power2Index_bounds: "v \<noteq> 0 \<Longrightarrow> 2 ^ Power2Index v \<le> unat v \<and> unat v < 2 ^ Suc (Power2Index v)"
  using power2_loop_spec[of v 0] by (auto simp: Power2Index_def)

lemma Power2Index_less: "v \<noteq> 0 \<Longrightarrow> Power2Index v < LENGTH('a)" for v :: "'a::len word"
proof -
  assume "v \<noteq> 0"
  then have "2 ^ Power2Index v \<le> unat v" using Power2Index_bounds by blast
  also have "unat v < 2 ^ LENGTH('a)" by (rule unsigned_less)
  finally show ?thesis by simp
qed

text \<open>The index is the highest bit that is set.\<close>

lemma top_bit:
  fixes v :: "'a::len word"
  assumes "v \<noteq> 0"
  shows "bit v (Power2Index v)" and "bit v j \<Longrightarrow> j \<le> Power2Index v"
proof -
  let ?m = "Power2Index v"
  have m: "2 ^ ?m \<le> unat v" "unat v < 2 ^ Suc ?m" using Power2Index_bounds[OF assms] by simp_all
  have "unat v div 2 ^ ?m = 1"
    using m by (intro div_nat_eqI) simp_all
  then have "odd (unat v div 2 ^ ?m)" by simp
  then show "bit v ?m" using Power2Index_less[OF assms] by (simp add: bit_unsigned_iff flip: bit_iff_odd)
  show "j \<le> ?m" if "bit v j"
  proof (rule ccontr)
    assume "\<not> j \<le> ?m"
    then have "unat v < 2 ^ j" using m(2) power_increasing[of "Suc ?m" j "2 :: nat"] by simp
    then have "\<not> bit (unat v) j" by (simp add: bit_iff_odd)
    with that show False by (simp add: bit_unsigned_iff bit_imp_le_length)
  qed
qed

section \<open>Smearing\<close>

lemma smear_loop_bit:
  fixes v v0 :: "'a::len word"
  shows "0 < i \<Longrightarrow> (\<And>n. bit v n \<longleftrightarrow> (\<exists>j. n \<le> j \<and> j < n + i \<and> bit v0 j)) \<Longrightarrow>
   bit (smear_loop i v) n \<longleftrightarrow> (\<exists>j\<ge>n. bit v0 j)"
proof (induction i v arbitrary: n rule: smear_loop.induct)
  case (1 i v)
  show ?case
  proof (cases "i < LENGTH('a)")
    case True
    have "bit (v OR drop_bit i v) n \<longleftrightarrow> (\<exists>j. n \<le> j \<and> j < n + i * 2 \<and> bit v0 j)" for n
    proof -
      have "bit (v OR drop_bit i v) n \<longleftrightarrow> bit v n \<or> bit v (i + n)"
        by (simp add: bit_or_iff bit_drop_bit_eq)
      also have "\<dots> \<longleftrightarrow> (\<exists>j. n \<le> j \<and> j < n + i * 2 \<and> bit v0 j)"
      proof
        assume "bit v n \<or> bit v (i + n)"
        then obtain j where "n \<le> j \<and> j < n + i \<or> i + n \<le> j \<and> j < i + n + i" "bit v0 j"
          unfolding "1.prems"(2) by blast
        then show "\<exists>j. n \<le> j \<and> j < n + i * 2 \<and> bit v0 j" by (intro exI[of _ j]) auto
      next
        assume "\<exists>j. n \<le> j \<and> j < n + i * 2 \<and> bit v0 j"
        then obtain j where "n \<le> j" "j < n + i * 2" "bit v0 j" by blast
        then show "bit v n \<or> bit v (i + n)"
          unfolding "1.prems"(2) by (cases "j < n + i") (auto intro!: exI[of _ j])
      qed
      finally show ?thesis .
    qed
    with "1.IH"[of n] True "1.prems"(1) show ?thesis by (simp add: smear_loop.simps[of i v])
  next
    case False
    have "j < n + i" if "bit v0 j" for j using that bit_imp_le_length[of v0 j] False by simp
    then show ?thesis using False "1.prems"(2)[of n] by (auto simp: smear_loop.simps[of i v])
  qed
qed

lemma smear_mask:
  fixes v :: "'a::len word"
  assumes "v \<noteq> 0"
  shows "smear_loop 1 v = mask (Suc (Power2Index v))"
proof (rule bit_word_eqI)
  fix n
  assume "n < LENGTH('a)"
  have "bit (smear_loop 1 v) n \<longleftrightarrow> (\<exists>j\<ge>n. bit v j)"
  proof (rule smear_loop_bit)
    show "bit v n \<longleftrightarrow> (\<exists>j. n \<le> j \<and> j < n + 1 \<and> bit v j)" for n by (auto simp: less_Suc_eq)
  qed simp
  also have "\<dots> \<longleftrightarrow> n \<le> Power2Index v" using top_bit[OF assms] by (meson order_trans)
  finally show "bit (smear_loop 1 v) n \<longleftrightarrow> bit (mask (Suc (Power2Index v)) :: 'a word) n"
    using \<open>n < LENGTH('a)\<close> by (simp add: bit_mask_iff less_Suc_eq_le)
qed

lemma smear_0: "smear_loop i 0 = 0"
proof (induction i "0 :: 'a::len word" rule: smear_loop.induct)
  case (1 i)
  then show ?case by (subst smear_loop.simps) simp
qed

lemma unat_exp_word: "m < LENGTH('a) \<Longrightarrow> unat (2 ^ m :: 'a::len word) = 2 ^ m"
  using unat_of_nat[where 'a = 'a, of "2 ^ m"] by simp

lemma unat_mask_Suc: "m < LENGTH('a) \<Longrightarrow> unat (mask m :: 'a::len word) = 2 ^ m - 1"
  by (metis mask_eq_exp_minus_1 power_not_zero unat_exp_word unat_minus_one unsigned_0 zero_neq_numeral)

lemma unat_minus_1: "v \<noteq> 0 \<Longrightarrow> unat (v - 1) = unat v - 1" for v :: "'a::len word"
  by (rule unat_minus_one)

lemma IsPowerOf2_iff: "IsPowerOf2 (v :: 'a::len word) \<longleftrightarrow> unat v = 0 \<or> unat v = 2 ^ Power2Index v"
proof (cases "v = 0")
  case False
  let ?m = "Power2Index v"
  have m: "2 ^ ?m \<le> unat v" "unat v < 2 ^ Suc ?m" "?m < LENGTH('a)"
    using Power2Index_bounds[OF False] Power2Index_less[OF False] by simp_all
  show ?thesis
  proof (cases "unat v = 2 ^ ?m")
    case True
    then have "v = 2 ^ ?m" using m(3) by (metis unat_exp_word unsigned_word_eqI)
    then have "v - 1 = mask ?m" by (simp add: mask_eq_decr_exp)
    moreover have "(2 ^ ?m :: 'a word) AND mask ?m = 0" by (intro bit_word_eqI) (auto simp: bit_simps)
    ultimately show ?thesis using True \<open>v = 2 ^ ?m\<close> by (simp add: IsPowerOf2_def)
  next
    case not: False
    have "unat (v - 1) = unat v - 1" using False by (rule unat_minus_1)
    then have u: "2 ^ ?m \<le> unat (v - 1)" "unat (v - 1) < 2 ^ Suc ?m" using m not by linarith+
    then have "unat (v - 1) div 2 ^ ?m = 1" by (intro div_nat_eqI) simp_all
    then have "bit (unat (v - 1)) ?m" by (simp add: bit_iff_odd)
    then have "bit (v - 1) ?m" by (simp add: bit_unsigned_iff)
    then have "bit (v AND (v - 1)) ?m" using top_bit(1)[OF False] by (simp add: bit_and_iff)
    then have "v AND (v - 1) \<noteq> 0" by auto
    then show ?thesis using not False by (simp add: IsPowerOf2_def unsigned_eq_0_iff)
  qed
qed (simp add: IsPowerOf2_def)

section \<open>The properties\<close>

text \<open>C39: for a positive value that is at most the largest power of two of the type,
  \<open>NextPower2\<close> is the least power of two that is not below it.\<close>
theorem NextPower2_correct:
  fixes v :: "'a::len word"
  assumes "0 < unat v" "unat v \<le> 2 ^ (LENGTH('a) - 1)"
  shows "\<exists>k. unat (NextPower2 v) = 2 ^ k \<and> unat v \<le> 2 ^ k \<and> 2 ^ k < 2 * unat v"
proof (cases "v - 1 = 0")
  case True
  then have "v = 1" by simp
  then have "NextPower2 v = 1" by (simp add: NextPower2_def smear_0)
  with \<open>v = 1\<close> show ?thesis by (intro exI[of _ 0]) simp
next
  case False
  let ?m = "Power2Index (v - 1)"
  have v: "unat (v - 1) = unat v - 1" using assms(1) by (intro unat_minus_1) auto
  have m: "2 ^ ?m \<le> unat v - 1" "unat v - 1 < 2 ^ Suc ?m"
    using Power2Index_bounds[OF False] v by simp_all
  have "2 ^ ?m < (2 :: nat) ^ (LENGTH('a) - 1)" using m(1) assms by linarith
  then have len: "Suc ?m < LENGTH('a)" by simp
  then have "unat (mask (Suc ?m) :: 'a word) = 2 ^ Suc ?m - 1" by (rule unat_mask_Suc)
  moreover have "(2 :: nat) ^ Suc ?m < 2 ^ LENGTH('a)" using len by (intro power_strict_increasing) auto
  ultimately have "unat (mask (Suc ?m) + 1 :: 'a word) = 2 ^ Suc ?m"
    by (simp add: unat_word_ariths del: power_Suc)
  then have "unat (NextPower2 v) = 2 ^ Suc ?m" unfolding NextPower2_def smear_mask[OF False] .
  then show ?thesis using m assms(1) by (intro exI[of _ "Suc ?m"]) auto
qed

lemma NextPower2_correct_witness: "\<exists>k. unat (NextPower2 (5 :: 8 word)) = 2 ^ k \<and> 5 \<le> (2 :: nat) ^ k \<and> 2 ^ k < (10 :: nat)"
  using NextPower2_correct[of "5 :: 8 word"] by simp

text \<open>\<open>NextPower2\<close> of 0, and of a value above the largest power of two of the type,
  is 0.\<close>
theorem NextPower2_wraps:
  fixes v :: "'a::len word"
  assumes "unat v = 0 \<or> 2 ^ (LENGTH('a) - 1) < unat v" "1 < LENGTH('a)"
  shows "NextPower2 v = 0"
proof -
  have high: "2 ^ (LENGTH('a) - 1) \<le> unat (v - 1) \<and> v - 1 \<noteq> 0"
  proof (cases "unat v = 0")
    case True
    then have "v - 1 = - 1" by (simp add: unsigned_eq_0_iff)
    moreover have "unat (- 1 :: 'a word) = 2 ^ LENGTH('a) - 1" by (simp add: unsigned_minus_1_eq_mask mask_eq_exp_minus_1)
    moreover have "(2 :: nat) ^ LENGTH('a) = 2 * 2 ^ (LENGTH('a) - 1)" using assms(2) by (metis Suc_diff_1 less_trans power_Suc zero_less_one)
    ultimately show ?thesis by simp
  next
    case False
    then have "unat (v - 1) = unat v - 1" by (intro unat_minus_1) auto
    moreover have "(1 :: nat) \<le> 2 ^ (LENGTH('a) - 1)" by simp
    ultimately have "2 ^ (LENGTH('a) - 1) \<le> unat (v - 1)" "unat (v - 1) \<noteq> 0" using assms(1) False by linarith+
    then show ?thesis by (metis unsigned_eq_0_iff)
  qed
  let ?m = "Power2Index (v - 1)"
  have "2 ^ (LENGTH('a) - 1) < (2 :: nat) ^ Suc ?m"
    using high Power2Index_bounds[of "v - 1"] by (meson le_less_trans)
  then have "LENGTH('a) - 1 < Suc ?m" by (rule power_less_imp_less_exp[rotated]) simp
  then have "Suc ?m = LENGTH('a)" using Power2Index_less[of "v - 1"] high by linarith
  then have "smear_loop 1 (v - 1) = mask LENGTH('a)" using smear_mask[of "v - 1"] high by simp
  then show ?thesis by (simp add: NextPower2_def)
qed

lemma NextPower2_wraps_witness: "NextPower2 (200 :: 8 word) = 0"
  by (rule NextPower2_wraps) simp_all

text \<open>\<open>IsPowerOf2\<close> accepts exactly the powers of two and 0.\<close>
theorem IsPowerOf2_correct:
  "IsPowerOf2 (v :: 'a::len word) = (unat v = 0 \<or> unat v = 2 ^ Power2Index v)"
  by (rule IsPowerOf2_iff)

text \<open>\<open>Power2Index\<close> of a positive value is the logarithm rounded down and
  \<open>NextPower2Index\<close> the logarithm rounded up; both ends of the loop are reached for every value.\<close>
theorem Power2Index_correct:
  fixes v :: "'a::len word"
  assumes "unat v \<noteq> 0"
  shows "2 ^ Power2Index v \<le> unat v \<and> unat v < 2 ^ (Power2Index v + 1) \<and>
    unat v \<le> 2 ^ NextPower2Index v \<and> 2 ^ NextPower2Index v < 2 * unat v"
proof -
  have "v \<noteq> 0" using assms by auto
  note b = Power2Index_bounds[OF this]
  show ?thesis
  proof (cases "unat v = 2 ^ Power2Index v")
    case True
    have "IsPowerOf2 v"
      using True \<open>v \<noteq> 0\<close> IsPowerOf2_iff[of v] by simp
    with True b show ?thesis by (simp add: NextPower2Index_def Let_def)
  next
    case False
    have "\<not> IsPowerOf2 v"
      using False \<open>v \<noteq> 0\<close> IsPowerOf2_iff[of v] by (simp add: unsigned_eq_0_iff)
    with False b show ?thesis by (simp add: NextPower2Index_def Let_def)
  qed
qed

lemma Power2Index_correct_witness: "2 ^ Power2Index (20 :: 8 word) \<le> (20 :: nat) \<and> 20 \<le> (2 :: nat) ^ NextPower2Index (20 :: 8 word)"
  using Power2Index_correct[of "20 :: 8 word"] by simp

end
