(* ===== verification/TimerModel.thy ===== *)
theory TimerModel
  imports Prelude
begin

text \<open>
  The hierarchical timer wheels of include/mzx/timer_manager.h and src/timer_manager.cpp.

  A timer node is named by its position in \<open>node_list_\<close>, which it keeps for the life of the
  manager. The free list and the slots of the wheels are intrusive lists; theory DList shows that
  the pointer operations on them are the list operations written here. A node carries one link, so
  it can be in one of the lists only, and erasing its link removes it from whichever list holds it.
  A callback is code of the client: it is a parameter \<open>run\<close> that acts on the client's own state and
  on the manager, through which it may set and delete timers. The times are mathematical integers;
  the code has \<open>int64_t\<close>, whose overflow is undefined.
\<close>

section \<open>Constants\<close>

type_synonym timer_id = "64 word"

definition TIMER_ID_INVALID :: timer_id where
  "TIMER_ID_INVALID = - 1"

definition TIMER_WHEEL_BITS :: "nat list" where
  "TIMER_WHEEL_BITS = [8, 6, 6, 6, 6]"

definition TIMER_WHEEL_COUNT :: nat where
  "TIMER_WHEEL_COUNT = length TIMER_WHEEL_BITS"

definition TIMER_WHEEL_SIZE :: "nat \<Rightarrow> int" where
  "TIMER_WHEEL_SIZE i = push_bit (TIMER_WHEEL_BITS ! i) 1"

definition TIMER_WHEEL_MASK :: "nat \<Rightarrow> int" where
  "TIMER_WHEEL_MASK i = TIMER_WHEEL_SIZE i - 1"

fun TIMER_WHEEL_OFFSET :: "nat \<Rightarrow> nat" where
  "TIMER_WHEEL_OFFSET 0 = 0"
| "TIMER_WHEEL_OFFSET (Suc i) = TIMER_WHEEL_BITS ! i + TIMER_WHEEL_OFFSET i"

definition TIMER_ID_COUNT_BIT :: nat where
  "TIMER_ID_COUNT_BIT = 16"

definition TIMER_ID_COUNT_MASK :: timer_id where
  "TIMER_ID_COUNT_MASK = push_bit TIMER_ID_COUNT_BIT 1 - 1"

section \<open>State\<close>

text \<open>A null \<open>std::function\<close> is \<open>None\<close>; \<open>wheel_ready\<close> says that \<open>wheel_list_\<close> is not null.\<close>

record 'cb timer_node =
  node_id :: timer_id
  expire_time :: int
  interval :: int
  cb :: "'cb option"
  is_using :: bool

record 'cb timers =
  cur_time :: int
  next_time :: int
  node_list :: "'cb timer_node list"
  free_list :: "nat list"
  wheel_ready :: bool
  wheel_list :: "nat \<Rightarrow> nat \<Rightarrow> nat list"

definition TimerManager_new :: "'cb timers" where
  "TimerManager_new = \<lparr>cur_time = 0, next_time = 0, node_list = [], free_list = [],
     wheel_ready = False, wheel_list = (\<lambda>_ _. [])\<rparr>"

definition get_node :: "'cb timers \<Rightarrow> nat \<Rightarrow> 'cb timer_node option" where
  "get_node t n = (if n < length (node_list t) then Some (node_list t ! n) else None)"

definition set_node :: "nat \<Rightarrow> 'cb timer_node \<Rightarrow> 'cb timers \<Rightarrow> 'cb timers" where
  "set_node n x t = t\<lparr>node_list := (node_list t)[n := x]\<rparr>"

definition erase_link :: "nat \<Rightarrow> 'cb timers \<Rightarrow> 'cb timers" where
  "erase_link n t = t\<lparr>free_list := removeAll n (free_list t),
     wheel_list := (\<lambda>i k. removeAll n (wheel_list t i k))\<rparr>"

definition set_wheel :: "nat \<Rightarrow> nat \<Rightarrow> nat list \<Rightarrow> 'cb timers \<Rightarrow> 'cb timers" where
  "set_wheel i k ns t = t\<lparr>wheel_list := (wheel_list t)(i := (wheel_list t i)(k := ns))\<rparr>"

section \<open>Operations\<close>

definition Timer_Init :: "int \<Rightarrow> 'cb timers \<Rightarrow> 'cb timers" where
  "Timer_Init time t = t\<lparr>cur_time := time + 1, next_time := time + 1,
     wheel_ready := True, wheel_list := (\<lambda>_ _. [])\<rparr>"

definition Timer_Uninit :: "'cb timers \<Rightarrow> 'cb timers option" where
  "Timer_Uninit t = do {
     check (wheel_ready t);
     Some (t\<lparr>node_list := [], free_list := [], wheel_ready := False, wheel_list := (\<lambda>_ _. [])\<rparr>)
   }"

definition FindUsingTimerNode :: "'cb timers \<Rightarrow> timer_id \<Rightarrow> nat option" where
  "FindUsingTimerNode t i =
     (if i = TIMER_ID_INVALID then None
      else let n = unat (drop_bit TIMER_ID_COUNT_BIT i) in
        if n \<ge> length (node_list t) then None
        else let x = node_list t ! n in if i = node_id x \<and> is_using x then Some n else None)"

definition LeftTime :: "'cb timers \<Rightarrow> timer_id \<Rightarrow> int" where
  "LeftTime t i = (case FindUsingTimerNode t i of
       None \<Rightarrow> - 1
     | Some n \<Rightarrow> let left_time = expire_time (node_list t ! n) - cur_time t in
         if left_time < 0 then 0 else left_time)"

definition wheel_index :: "nat \<Rightarrow> int \<Rightarrow> nat" where
  "wheel_index i time = nat (drop_bit (TIMER_WHEEL_OFFSET i) time AND TIMER_WHEEL_MASK i)"

definition choose_wheel :: "int \<Rightarrow> int \<Rightarrow> nat \<times> nat" where
  "choose_wheel time expire =
     (let delay = expire - time in
      if delay \<le> 0 then (0, nat (time AND TIMER_WHEEL_MASK 0))
      else case find (\<lambda>i. drop_bit (TIMER_WHEEL_OFFSET i) delay < TIMER_WHEEL_SIZE i) [0..<TIMER_WHEEL_COUNT] of
        Some i \<Rightarrow> (i, wheel_index i expire)
      | None \<Rightarrow> let i = TIMER_WHEEL_COUNT - 1 in
          (i, nat ((drop_bit (TIMER_WHEEL_OFFSET i) time + TIMER_WHEEL_MASK i) AND TIMER_WHEEL_MASK i)))"

definition InsertTimerNodeToWheel :: "int \<Rightarrow> nat \<Rightarrow> 'cb timers \<Rightarrow> 'cb timers option" where
  "InsertTimerNodeToWheel time n t = do {
     check (wheel_ready t);
     x \<leftarrow> get_node t n;
     let t = erase_link n t;
     let (i, k) = choose_wheel time (expire_time x);
     Some (set_wheel i k (wheel_list t i k @ [n]) t)
   }"

definition NextTimerID :: "timer_id \<Rightarrow> timer_id" where
  "NextTimerID i = (i AND NOT TIMER_ID_COUNT_MASK) OR ((i + 1) AND TIMER_ID_COUNT_MASK)"

definition SetTimer :: "'cb option \<Rightarrow> int \<Rightarrow> int \<Rightarrow> 'cb timers \<Rightarrow> (timer_id \<times> 'cb timers) option" where
  "SetTimer fn delay period t = do {
     check (fn \<noteq> None);
     (n, i, t) \<leftarrow> (case free_list t of
         n # rest \<Rightarrow> do {
           x \<leftarrow> get_node t n;
           Some (n, NextTimerID (node_id x), t\<lparr>free_list := rest\<rparr>) }
       | [] \<Rightarrow> let n = length (node_list t) in
           Some (n, push_bit TIMER_ID_COUNT_BIT (of_nat n),
             t\<lparr>node_list := node_list t @ [\<lparr>node_id = TIMER_ID_INVALID, expire_time = 0, interval = 0,
               cb = None, is_using = False\<rparr>]\<rparr>));
     let t = set_node n \<lparr>node_id = i, expire_time = cur_time t + delay - 1, interval = period,
       cb = fn, is_using = True\<rparr> t;
     t \<leftarrow> InsertTimerNodeToWheel (cur_time t) n t;
     Some (i, t)
   }"

definition MoveTimerNodeToFreeList :: "nat \<Rightarrow> 'cb timers \<Rightarrow> 'cb timers option" where
  "MoveTimerNodeToFreeList n t = do {
     x \<leftarrow> get_node t n;
     check (is_using x);
     let t = set_node n (x\<lparr>expire_time := 0, interval := 0, cb := None, is_using := False\<rparr>) (erase_link n t);
     Some (t\<lparr>free_list := free_list t @ [n]\<rparr>)
   }"

definition DelTimer :: "timer_id \<Rightarrow> 'cb timers \<Rightarrow> 'cb timers option" where
  "DelTimer i t = (case FindUsingTimerNode t i of
     None \<Rightarrow> Some t | Some n \<Rightarrow> MoveTimerNodeToFreeList n t)"

section \<open>The passage of time\<close>

text \<open>A slot is emptied node by node; what runs in between may add nodes to it, so the loops need not
  end and are partial functions.\<close>

partial_function (option) cascade_slot :: "int \<Rightarrow> nat \<Rightarrow> nat \<Rightarrow> 'cb timers \<Rightarrow> 'cb timers option" where
  "cascade_slot time i k t = (case wheel_list t i k of
     [] \<Rightarrow> Some t
   | n # rest \<Rightarrow> do {
       t \<leftarrow> InsertTimerNodeToWheel time n (set_wheel i k rest t);
       cascade_slot time i k t })"

function TimerWheelCascade :: "int \<Rightarrow> nat \<Rightarrow> 'cb timers \<Rightarrow> 'cb timers option" where
  "TimerWheelCascade time i t = do {
     check (wheel_ready t);
     if i \<ge> TIMER_WHEEL_COUNT then Some t
     else do {
       t \<leftarrow> cascade_slot time i (wheel_index i time) t;
       if wheel_index i time = 0 then TimerWheelCascade time (i + 1) t else Some t }
   }"
  by pat_completeness auto
termination
  by (relation "measure (\<lambda>(time, i, t). TIMER_WHEEL_COUNT - i)") auto

declare TimerWheelCascade.simps [simp del]

type_synonym ('w, 'cb) callback = "'cb \<Rightarrow> 'w \<times> 'cb timers \<Rightarrow> ('w \<times> 'cb timers) option"

text \<open>What follows the call of a timer's callback.\<close>

definition after_callback :: "nat \<Rightarrow> 'cb timers \<Rightarrow> 'cb timers option" where
  "after_callback n t = do {
     x \<leftarrow> get_node t n;
     if \<not> is_using x then Some t
     else if interval x > 0 then
       InsertTimerNodeToWheel (cur_time t) n
         (set_node n (x\<lparr>expire_time := cur_time t + interval x\<rparr>) t)
     else MoveTimerNodeToFreeList n t
   }"

partial_function (option) fire_slot ::
  "('w, 'cb) callback \<Rightarrow> nat \<Rightarrow> 'w \<times> 'cb timers \<Rightarrow> ('w \<times> 'cb timers) option" where
  "fire_slot run k s = (case wheel_list (snd s) 0 k of
     [] \<Rightarrow> Some s
   | n # rest \<Rightarrow> do {
       x \<leftarrow> get_node (snd s) n;
       fn \<leftarrow> cb x;
       s \<leftarrow> run fn (fst s, set_wheel 0 k rest (snd s));
       t \<leftarrow> after_callback n (snd s);
       fire_slot run k (fst s, t) })"

definition update_tick :: "('w, 'cb) callback \<Rightarrow> 'w \<times> 'cb timers \<Rightarrow> ('w \<times> 'cb timers) option" where
  "update_tick run s = do {
     let t = snd s;
     let k = nat (cur_time t AND TIMER_WHEEL_MASK 0);
     t \<leftarrow> (if k = 0 then TimerWheelCascade (cur_time t) 1 t else Some t);
     check (wheel_ready t);
     fire_slot run k (fst s, t\<lparr>cur_time := cur_time t + 1\<rparr>)
   }"

partial_function (option) update_loop ::
  "('w, 'cb) callback \<Rightarrow> 'w \<times> 'cb timers \<Rightarrow> ('w \<times> 'cb timers) option" where
  "update_loop run s =
     (if cur_time (snd s) < next_time (snd s) then do { s \<leftarrow> update_tick run s; update_loop run s }
      else Some s)"

definition Timer_Update :: "('w, 'cb) callback \<Rightarrow> int \<Rightarrow> 'w \<times> 'cb timers \<Rightarrow> ('w \<times> 'cb timers) option" where
  "Timer_Update run time s =
     (if time < cur_time (snd s) then Some s
      else update_loop run (fst s, (snd s)\<lparr>next_time := time + 1\<rparr>))"

declare cascade_slot.simps [code] fire_slot.simps [code] update_loop.simps [code]

end
