(* ===== verification/TimerInv.thy ===== *)
theory TimerInv
  imports TimerModel
begin

text \<open>
  The structure of the timer manager: every node in use is in exactly one slot of the wheels, every
  other node is in the free list, and the slots in use exist. \<open>timers_ok H t\<close> lets the nodes of \<open>H\<close>
  be in no slot, as the node is whose callback is being called.
\<close>

section \<open>Slots\<close>

lemma wheel_count [simp]: "TIMER_WHEEL_COUNT = 5"
  by (simp add: TIMER_WHEEL_COUNT_def TIMER_WHEEL_BITS_def)

lemma wheel_size: "TIMER_WHEEL_SIZE i = 2 ^ (TIMER_WHEEL_BITS ! i)"
  by (simp add: TIMER_WHEEL_SIZE_def push_bit_eq_mult)

lemma and_wheel_mask: "x AND TIMER_WHEEL_MASK i = x mod TIMER_WHEEL_SIZE i"
  by (simp add: TIMER_WHEEL_MASK_def wheel_size flip: mask_eq_exp_minus_1 take_bit_eq_mask take_bit_eq_mod)

lemma wheel_size_pos [simp]: "0 < TIMER_WHEEL_SIZE i"
  by (simp add: wheel_size)

lemma wheel_index_less: "wheel_index i e < nat (TIMER_WHEEL_SIZE i)"
  by (simp add: wheel_index_def and_wheel_mask nat_less_eq_zless)

lemma choose_wheel_cases:
  obtains "e \<le> c" "choose_wheel c e = (0, nat (c mod TIMER_WHEEL_SIZE 0))"
  | i where "c < e" "i < 5" "drop_bit (TIMER_WHEEL_OFFSET i) (e - c) < TIMER_WHEEL_SIZE i"
      "\<And>j. j < i \<Longrightarrow> TIMER_WHEEL_SIZE j \<le> drop_bit (TIMER_WHEEL_OFFSET j) (e - c)"
      "choose_wheel c e = (i, wheel_index i e)"
  | "c < e" "\<And>j. j < 5 \<Longrightarrow> TIMER_WHEEL_SIZE j \<le> drop_bit (TIMER_WHEEL_OFFSET j) (e - c)"
      "choose_wheel c e = (4, nat ((drop_bit (TIMER_WHEEL_OFFSET 4) c + TIMER_WHEEL_MASK 4) mod TIMER_WHEEL_SIZE 4))"
proof (cases "e \<le> c")
  case True
  then show ?thesis using that(1) by (simp add: choose_wheel_def and_wheel_mask)
next
  case False
  let ?P = "\<lambda>i. drop_bit (TIMER_WHEEL_OFFSET i) (e - c) < TIMER_WHEEL_SIZE i"
  show ?thesis
  proof (cases "find ?P [0..<5]")
    case None
    then have "choose_wheel c e = (4, nat ((drop_bit (TIMER_WHEEL_OFFSET 4) c + TIMER_WHEEL_MASK 4) mod TIMER_WHEEL_SIZE 4))"
      using False by (simp add: choose_wheel_def and_wheel_mask)
    moreover have "\<forall>j<5. TIMER_WHEEL_SIZE j \<le> drop_bit (TIMER_WHEEL_OFFSET j) (e - c)"
      using None unfolding find_None_iff by (auto simp: Ball_def simp flip: not_less)
    ultimately show ?thesis using False that(3) by simp
  next
    case (Some i)
    then have "i < 5" "?P i" "\<forall>j<i. \<not> ?P j" by (auto simp: find_Some_iff)
    then show ?thesis using Some False that(2)[of i] by (simp add: choose_wheel_def not_less)
  qed
qed

lemma choose_wheel_range: "choose_wheel c e = (i, k) \<Longrightarrow> i < 5 \<and> k < nat (TIMER_WHEEL_SIZE i)"
  by (rule choose_wheel_cases[of e c]) (auto simp: wheel_index_less nat_less_eq_zless)

section \<open>The invariant\<close>

definition timers_ok :: "nat set \<Rightarrow> 'cb timers \<Rightarrow> bool" where
  "timers_ok H t \<longleftrightarrow>
     wheel_ready t \<and>
     (\<forall>i k. distinct (wheel_list t i k)) \<and>
     (\<forall>i k. \<forall>n \<in> set (wheel_list t i k). n < length (node_list t) \<and> is_using (node_list t ! n) \<and>
        i < TIMER_WHEEL_COUNT \<and> k < nat (TIMER_WHEEL_SIZE i)) \<and>
     (\<forall>n i k i' k'. n \<in> set (wheel_list t i k) \<longrightarrow> n \<in> set (wheel_list t i' k') \<longrightarrow> i = i' \<and> k = k') \<and>
     (\<forall>n < length (node_list t). is_using (node_list t ! n) \<longrightarrow> n \<notin> H \<longrightarrow> (\<exists>i k. n \<in> set (wheel_list t i k))) \<and>
     distinct (free_list t) \<and>
     (\<forall>n. n \<in> set (free_list t) \<longleftrightarrow> n < length (node_list t) \<and> \<not> is_using (node_list t ! n)) \<and>
     (\<forall>n < length (node_list t). is_using (node_list t ! n) \<longrightarrow> cb (node_list t ! n) \<noteq> None)"

lemma timers_okD:
  assumes "timers_ok H t"
  shows "wheel_ready t" "distinct (wheel_list t i k)"
    "n \<in> set (wheel_list t i k) \<Longrightarrow> n < length (node_list t)"
    "n \<in> set (wheel_list t i k) \<Longrightarrow> is_using (node_list t ! n)"
    "n \<in> set (wheel_list t i k) \<Longrightarrow> i < 5 \<and> k < nat (TIMER_WHEEL_SIZE i)"
    "n \<in> set (wheel_list t i k) \<Longrightarrow> n \<in> set (wheel_list t i' k') \<Longrightarrow> i = i' \<and> k = k'"
    "n < length (node_list t) \<Longrightarrow> is_using (node_list t ! n) \<Longrightarrow> n \<notin> H \<Longrightarrow> \<exists>i k. n \<in> set (wheel_list t i k)"
    "distinct (free_list t)"
    "n \<in> set (free_list t) \<longleftrightarrow> n < length (node_list t) \<and> \<not> is_using (node_list t ! n)"
    "n < length (node_list t) \<Longrightarrow> is_using (node_list t ! n) \<Longrightarrow> cb (node_list t ! n) \<noteq> None"
  using assms unfolding timers_ok_def by simp_all

lemma timers_okI:
  assumes "wheel_ready t" "\<And>i k. distinct (wheel_list t i k)"
    "\<And>n i k. n \<in> set (wheel_list t i k) \<Longrightarrow> n < length (node_list t) \<and> is_using (node_list t ! n)"
    "\<And>n i k. n \<in> set (wheel_list t i k) \<Longrightarrow> i < 5 \<and> k < nat (TIMER_WHEEL_SIZE i)"
    "\<And>n i k i' k'. n \<in> set (wheel_list t i k) \<Longrightarrow> n \<in> set (wheel_list t i' k') \<Longrightarrow> i = i' \<and> k = k'"
    "\<And>n. n < length (node_list t) \<Longrightarrow> is_using (node_list t ! n) \<Longrightarrow> n \<notin> H \<Longrightarrow> \<exists>i k. n \<in> set (wheel_list t i k)"
    "distinct (free_list t)"
    "\<And>n. n \<in> set (free_list t) \<longleftrightarrow> n < length (node_list t) \<and> \<not> is_using (node_list t ! n)"
    "\<And>n. n < length (node_list t) \<Longrightarrow> is_using (node_list t ! n) \<Longrightarrow> cb (node_list t ! n) \<noteq> None"
  shows "timers_ok H t"
  unfolding timers_ok_def using assms(1,2,7,8,9) by (auto dest: assms(3,4,5,6))

lemma timers_ok_mono: "timers_ok H t \<Longrightarrow> H \<subseteq> H' \<Longrightarrow> timers_ok H' t"
  unfolding timers_ok_def by blast

lemma timers_ok_time [simp]:
  "timers_ok H (t\<lparr>cur_time := c\<rparr>) = timers_ok H t" "timers_ok H (t\<lparr>next_time := d\<rparr>) = timers_ok H t"
  by (simp_all add: timers_ok_def)

lemma erase_link_simps [simp]:
  "free_list (erase_link n t) = removeAll n (free_list t)"
  "wheel_list (erase_link n t) i k = removeAll n (wheel_list t i k)"
  "node_list (erase_link n t) = node_list t" "wheel_ready (erase_link n t) = wheel_ready t"
  "cur_time (erase_link n t) = cur_time t" "next_time (erase_link n t) = next_time t"
  by (simp_all add: erase_link_def)

lemma set_wheel_simps [simp]:
  "free_list (set_wheel i k ns t) = free_list t"
  "wheel_list (set_wheel i k ns t) j l = (if j = i \<and> l = k then ns else wheel_list t j l)"
  "node_list (set_wheel i k ns t) = node_list t" "wheel_ready (set_wheel i k ns t) = wheel_ready t"
  "cur_time (set_wheel i k ns t) = cur_time t" "next_time (set_wheel i k ns t) = next_time t"
  by (simp_all add: set_wheel_def)

lemma set_node_simps [simp]:
  "free_list (set_node n x t) = free_list t" "wheel_list (set_node n x t) = wheel_list t"
  "node_list (set_node n x t) = (node_list t)[n := x]" "wheel_ready (set_node n x t) = wheel_ready t"
  "cur_time (set_node n x t) = cur_time t" "next_time (set_node n x t) = next_time t"
  by (simp_all add: set_node_def)

lemma get_node_Some [simp]: "get_node t n = Some x \<longleftrightarrow> n < length (node_list t) \<and> x = node_list t ! n"
  by (auto simp: get_node_def)

text \<open>Inserting a node takes it out of whatever list it is in and appends it to the chosen slot.\<close>

lemma Insert_eq:
  assumes "wheel_ready t" "n < length (node_list t)"
    "choose_wheel time (expire_time (node_list t ! n)) = (i, k)"
  shows "InsertTimerNodeToWheel time n t =
    Some (set_wheel i k (removeAll n (wheel_list t i k) @ [n]) (erase_link n t))"
  using assms by (simp add: InsertTimerNodeToWheel_def get_node_def)

text \<open>Taking a node out of its list and putting it into a slot keeps the invariant.\<close>

lemma timers_ok_place:
  assumes ok: "timers_ok H t" and n: "n < length (node_list t)" "is_using (node_list t ! n)"
    and slot: "i < 5" "k < nat (TIMER_WHEEL_SIZE i)"
  shows "timers_ok (H - {n}) (set_wheel i k (removeAll n (wheel_list t i k) @ [n]) (erase_link n t))"
proof -
  let ?t = "set_wheel i k (removeAll n (wheel_list t i k) @ [n]) (erase_link n t)"
  have mem: "m \<in> set (wheel_list ?t a b) \<longleftrightarrow> (if m = n then a = i \<and> b = k else m \<in> set (wheel_list t a b))" for m a b
    by auto
  show ?thesis
  proof (rule timers_okI)
    show "a < 5 \<and> b < nat (TIMER_WHEEL_SIZE a)" if "m \<in> set (wheel_list ?t a b)" for m a b
      using that slot timers_okD(5)[OF ok, of m a b] unfolding mem by (auto split: if_splits)
    show "a = a' \<and> b = b'" if "m \<in> set (wheel_list ?t a b)" "m \<in> set (wheel_list ?t a' b')" for m a b a' b'
      using that timers_okD(6)[OF ok, of m a b] unfolding mem by (auto split: if_splits)
    show "\<exists>a b. m \<in> set (wheel_list ?t a b)"
      if "m < length (node_list ?t)" "is_using (node_list ?t ! m)" "m \<notin> H - {n}" for m
      using timers_okD(7)[OF ok, of m] that unfolding mem by (cases "m = n") auto
    show "m < length (node_list ?t) \<and> is_using (node_list ?t ! m)" if "m \<in> set (wheel_list ?t a b)" for m a b
      using that n timers_okD(3,4)[OF ok, of m a b] unfolding mem by (auto split: if_splits)
  qed (use timers_okD(1,2,8,9,10)[OF ok] n in \<open>auto simp: distinct_removeAll\<close>)
qed

lemma Insert_ok:
  assumes "timers_ok H t" "n < length (node_list t)" "is_using (node_list t ! n)"
  obtains i k where "choose_wheel time (expire_time (node_list t ! n)) = (i, k)"
    "InsertTimerNodeToWheel time n t = Some (set_wheel i k (removeAll n (wheel_list t i k) @ [n]) (erase_link n t))"
    "timers_ok (H - {n}) (set_wheel i k (removeAll n (wheel_list t i k) @ [n]) (erase_link n t))"
proof -
  obtain i k where ik: "choose_wheel time (expire_time (node_list t ! n)) = (i, k)" by force
  show ?thesis
    using that[OF ik Insert_eq[OF timers_okD(1)[OF assms(1)] assms(2) ik]
        timers_ok_place[OF assms]] choose_wheel_range[OF ik] by blast
qed

section \<open>The operations keep the invariant\<close>

lemma Timer_Init_ok:
  assumes "node_list t = []" "free_list t = []"
  shows "timers_ok {} (Timer_Init time t)"
  using assms by (intro timers_okI) (auto simp: Timer_Init_def)

lemma MoveTimerNodeToFreeList_ok:
  assumes ok: "timers_ok H t" and n: "n < length (node_list t)" "is_using (node_list t ! n)"
  obtains t' where "MoveTimerNodeToFreeList n t = Some t'" "timers_ok (H - {n}) t'"
    "node_list t' = (node_list t)[n := (node_list t ! n)\<lparr>expire_time := 0, interval := 0, cb := None, is_using := False\<rparr>]"
    "free_list t' = removeAll n (free_list t) @ [n]" "\<And>i k. wheel_list t' i k = removeAll n (wheel_list t i k)"
    "cur_time t' = cur_time t" "next_time t' = next_time t"
proof -
  let ?t = "set_node n ((node_list t ! n)\<lparr>expire_time := 0, interval := 0, cb := None, is_using := False\<rparr>) (erase_link n t)"
  let ?t' = "?t\<lparr>free_list := free_list ?t @ [n]\<rparr>"
  have "timers_ok (H - {n}) ?t'"
  proof (rule timers_okI)
    show "\<exists>a b. m \<in> set (wheel_list ?t' a b)"
      if "m < length (node_list ?t')" "is_using (node_list ?t' ! m)" "m \<notin> H - {n}" for m
      using timers_okD(7)[OF ok, of m] that by (cases "m = n") auto
    show "a < 5 \<and> b < nat (TIMER_WHEEL_SIZE a)" if "m \<in> set (wheel_list ?t' a b)" for m a b
      using that timers_okD(5)[OF ok, of m a b] by simp
    show "a = a' \<and> b = b'" if "m \<in> set (wheel_list ?t' a b)" "m \<in> set (wheel_list ?t' a' b')" for m a b a' b'
      using that timers_okD(6)[OF ok, of m a b] by simp
    show "m < length (node_list ?t') \<and> is_using (node_list ?t' ! m)" if "m \<in> set (wheel_list ?t' a b)" for m a b
      using that timers_okD(3,4)[OF ok, of m a b] by simp
    show "m \<in> set (free_list ?t') \<longleftrightarrow> m < length (node_list ?t') \<and> \<not> is_using (node_list ?t' ! m)" for m
      using n timers_okD(9)[OF ok, of m] by (cases "m = n") auto
    show "cb (node_list ?t' ! m) \<noteq> None" if "m < length (node_list ?t')" "is_using (node_list ?t' ! m)" for m
      using that timers_okD(10)[OF ok, of m] by (cases "m = n") auto
  qed (use timers_okD(1,2,8)[OF ok] in \<open>auto simp: distinct_removeAll\<close>)
  then show ?thesis using n by (intro that[of ?t']) (auto simp: MoveTimerNodeToFreeList_def get_node_def)
qed

text \<open>A node that is given new contents in use, and has no link yet.\<close>

lemma timers_ok_reuse:
  assumes ok: "timers_ok H t" and n: "n < length (node_list t)" "\<not> is_using (node_list t ! n)"
    and x: "is_using x" "cb x \<noteq> None"
  shows "timers_ok (insert n H) (set_node n x (t\<lparr>free_list := removeAll n (free_list t)\<rparr>))"
    (is "timers_ok _ ?t")
proof (rule timers_okI)
  have none: "n \<notin> set (wheel_list t a b)" for a b using timers_okD(4)[OF ok, of n a b] n(2) by blast
  show "m < length (node_list ?t) \<and> is_using (node_list ?t ! m)" if "m \<in> set (wheel_list ?t a b)" for m a b
    using that timers_okD(3,4)[OF ok, of m a b] none[of a b] by (cases "m = n") auto
  show "m \<in> set (free_list ?t) \<longleftrightarrow> m < length (node_list ?t) \<and> \<not> is_using (node_list ?t ! m)" for m
    using n x timers_okD(9)[OF ok, of m] by (cases "m = n") auto
  show "cb (node_list ?t ! m) \<noteq> None" if "m < length (node_list ?t)" "is_using (node_list ?t ! m)" for m
    using that x timers_okD(10)[OF ok, of m] by (cases "m = n") auto
  show "\<exists>a b. m \<in> set (wheel_list ?t a b)"
    if "m < length (node_list ?t)" "is_using (node_list ?t ! m)" "m \<notin> insert n H" for m
    using timers_okD(7)[OF ok, of m] that by auto
qed (use timers_okD(1,2,5,6,8)[OF ok] in \<open>auto simp: distinct_removeAll\<close>)

lemma timers_ok_append:
  assumes "timers_ok H t" "is_using x" "cb x \<noteq> None"
  shows "timers_ok (insert (length (node_list t)) H) (t\<lparr>node_list := node_list t @ [x]\<rparr>)"
    (is "timers_ok _ ?t")
proof (rule timers_okI)
  show "m < length (node_list ?t) \<and> is_using (node_list ?t ! m)" if "m \<in> set (wheel_list ?t a b)" for m a b
    using that timers_okD(3,4)[OF assms(1), of m a b] by (auto simp: nth_append)
  show "m \<in> set (free_list ?t) \<longleftrightarrow> m < length (node_list ?t) \<and> \<not> is_using (node_list ?t ! m)" for m
    using assms(2) timers_okD(9)[OF assms(1), of m] by (auto simp: nth_append less_Suc_eq)
  show "cb (node_list ?t ! m) \<noteq> None" if "m < length (node_list ?t)" "is_using (node_list ?t ! m)" for m
    using that assms(3) timers_okD(10)[OF assms(1), of m] by (auto simp: nth_append less_Suc_eq)
  show "\<exists>a b. m \<in> set (wheel_list ?t a b)"
    if "m < length (node_list ?t)" "is_using (node_list ?t ! m)" "m \<notin> insert (length (node_list t)) H" for m
    using timers_okD(7)[OF assms(1), of m] that by (auto simp: nth_append less_Suc_eq)
qed (use timers_okD(1,2,5,6,8)[OF assms(1)] in auto)

text \<open>What \<open>SetTimer\<close> does to the nodes and the slots.\<close>

definition timer_set :: "'cb timers \<Rightarrow> 'cb timer_node \<Rightarrow> nat \<Rightarrow> 'cb timers \<Rightarrow> bool" where
  "timer_set t x n t' \<longleftrightarrow>
     (n < length (node_list t) \<and> \<not> is_using (node_list t ! n) \<and> node_id x = NextTimerID (node_id (node_list t ! n)) \<and>
        node_list t' = (node_list t)[n := x] \<and> free_list t = n # free_list t' \<or>
      n = length (node_list t) \<and> node_id x = push_bit TIMER_ID_COUNT_BIT (of_nat n) \<and>
        node_list t' = node_list t @ [x] \<and> free_list t = [] \<and> free_list t' = []) \<and>
     (\<forall>a b. wheel_list t' a b = wheel_list t a b @ (if choose_wheel (cur_time t) (expire_time x) = (a, b) then [n] else [])) \<and>
     cur_time t' = cur_time t \<and> next_time t' = next_time t"

lemma timer_set_node:
  assumes "timer_set t x n t'"
  shows "n < length (node_list t')" "node_list t' ! n = x" "length (node_list t) \<le> length (node_list t')"
    "m < length (node_list t) \<Longrightarrow> m \<noteq> n \<Longrightarrow> node_list t' ! m = node_list t ! m"
    "m < length (node_list t') \<Longrightarrow> m \<noteq> n \<Longrightarrow> m < length (node_list t)"
    "n < length (node_list t) \<Longrightarrow> \<not> is_using (node_list t ! n)"
  using assms by (auto simp: timer_set_def nth_append)

lemma SetTimer_ok:
  assumes ok: "timers_ok H t" and fn: "fn \<noteq> None"
  obtains x n t' where "SetTimer fn delay period t = Some (node_id x, t')" "timers_ok H t'" "timer_set t x n t'"
    "expire_time x = cur_time t + delay - 1" "interval x = period" "cb x = fn" "is_using x"
proof -
  obtain n i s where s: "(case free_list t of
         n # rest \<Rightarrow> do {
           x \<leftarrow> get_node t n;
           Some (n, NextTimerID (node_id x), t\<lparr>free_list := rest\<rparr>) }
       | [] \<Rightarrow> let n = length (node_list t) in
           Some (n, push_bit TIMER_ID_COUNT_BIT (of_nat n),
             t\<lparr>node_list := node_list t @ [\<lparr>node_id = TIMER_ID_INVALID, expire_time = 0, interval = 0,
               cb = None, is_using = False\<rparr>]\<rparr>)) = Some (n, i, s)"
    and n: "n < length (node_list t) \<and> \<not> is_using (node_list t ! n) \<and> i = NextTimerID (node_id (node_list t ! n)) \<and>
        free_list t = n # free_list s \<and> s = t\<lparr>free_list := removeAll n (free_list t)\<rparr> \<or>
      n = length (node_list t) \<and> i = push_bit TIMER_ID_COUNT_BIT (of_nat n) \<and> free_list t = [] \<and>
        s = t\<lparr>node_list := node_list t @ [\<lparr>node_id = TIMER_ID_INVALID, expire_time = 0, interval = 0,
               cb = None, is_using = False\<rparr>]\<rparr>"
  proof (cases "free_list t")
    case (Cons n rest)
    then have "n < length (node_list t)" "\<not> is_using (node_list t ! n)" "removeAll n (free_list t) = rest"
      using timers_okD(9)[OF ok, of n] timers_okD(8)[OF ok] by (auto simp: removeAll_id)
    with Cons show ?thesis by (intro that[of n]) (auto simp: get_node_def)
  qed (use that in \<open>simp add: Let_def\<close>)
  define x where "x = \<lparr>node_id = i, expire_time = cur_time t + delay - 1, interval = period, cb = fn, is_using = True\<rparr>"
  let ?s = "set_node n x s"
  have same: "cur_time s = cur_time t" "next_time s = next_time t" "wheel_list s = wheel_list t" using n by auto
  have ok': "timers_ok (insert n H) ?s"
    using n
  proof (elim disjE conjE)
    assume "n = length (node_list t)"
      "s = t\<lparr>node_list := node_list t @ [\<lparr>node_id = TIMER_ID_INVALID, expire_time = 0, interval = 0,
               cb = None, is_using = False\<rparr>]\<rparr>"
    then show ?thesis using timers_ok_append[OF ok, of x] fn by (simp add: set_node_def x_def)
  next
    assume "n < length (node_list t)" "\<not> is_using (node_list t ! n)" "s = t\<lparr>free_list := removeAll n (free_list t)\<rparr>"
    then show ?thesis using timers_ok_reuse[OF ok, of n x] fn by (simp add: x_def)
  qed
  have n': "n < length (node_list ?s)" "node_list ?s ! n = x" using n by auto
  have none: "n \<notin> set (wheel_list t a b)" for a b using timers_okD(3,4)[OF ok, of n a b] n by blast
  have nfree: "n \<notin> set (free_list s)" using timers_okD(9)[OF ok', of n] n' by (simp add: x_def)
  obtain a b where ab: "choose_wheel (cur_time t) (expire_time x) = (a, b)"
    "InsertTimerNodeToWheel (cur_time t) n ?s = Some (set_wheel a b (removeAll n (wheel_list ?s a b) @ [n]) (erase_link n ?s))"
    "timers_ok (insert n H - {n}) (set_wheel a b (removeAll n (wheel_list ?s a b) @ [n]) (erase_link n ?s))"
    using Insert_ok[OF ok' n'(1), of "cur_time t"] n'(2) by (metis timer_node.select_convs(5) x_def)
  let ?t' = "set_wheel a b (removeAll n (wheel_list ?s a b) @ [n]) (erase_link n ?s)"
  have "SetTimer fn delay period t = Some (node_id x, ?t')"
    unfolding SetTimer_def s using fn ab(2) by (auto simp: x_def same)
  moreover have "timers_ok H ?t'" using ab(3) by (rule timers_ok_mono) blast
  moreover have "timer_set t x n ?t'"
    using n ab(1) none nfree by (auto simp: timer_set_def same removeAll_id x_def)
  ultimately show ?thesis by (rule that) (simp_all add: x_def)
qed

lemma FindUsing_Some:
  assumes "FindUsingTimerNode t i = Some n"
  shows "n < length (node_list t)" "is_using (node_list t ! n)" "node_id (node_list t ! n) = i"
  using assms by (auto simp: FindUsingTimerNode_def Let_def split: if_splits)

lemma DelTimer_ok:
  assumes ok: "timers_ok H t"
  obtains t' where "DelTimer i t = Some t'" "timers_ok H t'" "length (node_list t') = length (node_list t)"
    "FindUsingTimerNode t' i = None"
proof (cases "FindUsingTimerNode t i")
  case None
  then show ?thesis using that[of t] ok by (simp add: DelTimer_def)
next
  case (Some n)
  note n = FindUsing_Some[OF Some]
  obtain t' where t': "MoveTimerNodeToFreeList n t = Some t'" "timers_ok (H - {n}) t'"
    "node_list t' = (node_list t)[n := (node_list t ! n)\<lparr>expire_time := 0, interval := 0, cb := None, is_using := False\<rparr>]"
    by (rule MoveTimerNodeToFreeList_ok[OF ok n(1,2)])
  have "FindUsingTimerNode t' i = None"
    using Some n(1) by (auto simp: FindUsingTimerNode_def Let_def t'(3) split: if_splits)
  moreover have "timers_ok H t'" using t'(2) by (rule timers_ok_mono) blast
  ultimately show ?thesis using that[of t'] Some t'(1,3) by (simp add: DelTimer_def)
qed

lemma timers_ok_unused:
  assumes ok: "timers_ok H t" and "\<not> is_using (node_list t ! n)"
  shows "timers_ok (H - {n}) t"
proof (rule timers_okI)
  show "a = a' \<and> b = b'" if "m \<in> set (wheel_list t a b)" "m \<in> set (wheel_list t a' b')" for m a b a' b'
    using timers_okD(6)[OF ok that] .
  show "\<exists>a b. m \<in> set (wheel_list t a b)"
    if "m < length (node_list t)" "is_using (node_list t ! m)" "m \<notin> H - {n}" for m
    using timers_okD(7)[OF ok that(1,2)] that assms(2) by (cases "m = n") auto
qed (use timers_okD(1,2,3,4,5,8,9,10)[OF ok] in auto)

lemma timers_ok_set_node:
  assumes "n < length (node_list t)" "is_using x = is_using (node_list t ! n)" "cb x = cb (node_list t ! n)"
  shows "timers_ok H (set_node n x t) = timers_ok H t"
proof -
  have "is_using ((node_list t)[n := x] ! m) = is_using (node_list t ! m)"
    "cb ((node_list t)[n := x] ! m) = cb (node_list t ! m)" for m
    using assms by (cases "m = n"; simp)+
  then show ?thesis by (simp add: timers_ok_def)
qed

lemma after_callback_ok:
  assumes ok: "timers_ok H t" and n: "n < length (node_list t)"
  obtains t' where "after_callback n t = Some t'" "timers_ok (H - {n}) t'" "length (node_list t') = length (node_list t)"
proof (cases "is_using (node_list t ! n)")
  case False
  then have "timers_ok (H - {n}) t" by (rule timers_ok_unused[OF ok])
  then show ?thesis using that[of t] n False by (simp add: after_callback_def get_node_def)
next
  case True
  show ?thesis
  proof (cases "0 < interval (node_list t ! n)")
    case per: True
    let ?x = "(node_list t ! n)\<lparr>expire_time := cur_time t + interval (node_list t ! n)\<rparr>"
    have "timers_ok H (set_node n ?x t)"
      using ok n by (simp add: timers_ok_set_node)
    moreover have "n < length (node_list (set_node n ?x t))" "is_using (node_list (set_node n ?x t) ! n)"
      using n True by simp_all
    ultimately obtain i k where
      "InsertTimerNodeToWheel (cur_time t) n (set_node n ?x t) = Some (set_wheel i k (removeAll n (wheel_list (set_node n ?x t) i k) @ [n]) (erase_link n (set_node n ?x t)))"
      "timers_ok (H - {n}) (set_wheel i k (removeAll n (wheel_list (set_node n ?x t) i k) @ [n]) (erase_link n (set_node n ?x t)))"
      by (rule Insert_ok)
    then obtain t' where "InsertTimerNodeToWheel (cur_time t) n (set_node n ?x t) = Some t'" "timers_ok (H - {n}) t'"
      "length (node_list t') = length (node_list t)" by simp
    then show ?thesis using that[of t'] True per n by (simp add: after_callback_def get_node_def)
  next
    case False
    obtain t' where "MoveTimerNodeToFreeList n t = Some t'" "timers_ok (H - {n}) t'" "length (node_list t') = length (node_list t)"
      by (rule MoveTimerNodeToFreeList_ok[OF ok n True]) auto
    then show ?thesis using that[of t'] True False n by (simp add: after_callback_def get_node_def)
  qed
qed

text \<open>A node at the head of a slot is taken out of it.\<close>

lemma timers_ok_pop:
  assumes ok: "timers_ok H t" and "wheel_list t i k = n # rest"
  shows "timers_ok (insert n H) (set_wheel i k rest t)" "n < length (node_list t)" "is_using (node_list t ! n)"
proof -
  show "n < length (node_list t)" "is_using (node_list t ! n)"
    using timers_okD(3,4)[OF ok, of n i k] assms(2) by auto
  have sub: "set (wheel_list (set_wheel i k rest t) a b) \<subseteq> set (wheel_list t a b)" for a b
    using assms(2) by auto
  show "timers_ok (insert n H) (set_wheel i k rest t)"
  proof (rule timers_okI)
    show "distinct (wheel_list (set_wheel i k rest t) a b)" for a b
      using timers_okD(2)[OF ok, of a b] assms(2) by auto
    show "m < length (node_list (set_wheel i k rest t)) \<and> is_using (node_list (set_wheel i k rest t) ! m)"
      if "m \<in> set (wheel_list (set_wheel i k rest t) a b)" for m a b
      using timers_okD(3,4)[OF ok, of m a b] that sub[of a b] by auto
    show "a < 5 \<and> b < nat (TIMER_WHEEL_SIZE a)" if "m \<in> set (wheel_list (set_wheel i k rest t) a b)" for m a b
      using timers_okD(5)[OF ok, of m a b] that sub[of a b] by blast
    show "a = a' \<and> b = b'" if "m \<in> set (wheel_list (set_wheel i k rest t) a b)"
      "m \<in> set (wheel_list (set_wheel i k rest t) a' b')" for m a b a' b'
      using timers_okD(6)[OF ok, of m a b a' b'] that sub[of a b] sub[of a' b'] by blast
    show "\<exists>a b. m \<in> set (wheel_list (set_wheel i k rest t) a b)"
      if m: "m < length (node_list (set_wheel i k rest t))" "is_using (node_list (set_wheel i k rest t) ! m)" "m \<notin> insert n H" for m
    proof -
      obtain a b where "m \<in> set (wheel_list t a b)" using timers_okD(7)[OF ok, of m] m by auto
      then have "m \<in> set (wheel_list (set_wheel i k rest t) a b)" using assms(2) m(3) by auto
      then show ?thesis by blast
    qed
  qed (use timers_okD(1,8,9,10)[OF ok] in auto)
qed

end
