(* ===== verification/TimerClient.thy ===== *)
theory TimerClient
  imports TimerInv
begin

text \<open>
  What the timer manager asks of its clients, and the invariant of \<open>Update\<close> for every client that
  keeps to it: a callback may do to the manager what \<open>SetTimer\<close> and \<open>DelTimer\<close> do. The clients of
  this kind are interpreted at the end.
\<close>

section \<open>Cascading\<close>

lemma cascade_slot_ok:
  assumes "cascade_slot time i k t = Some t'" "timers_ok H t"
  shows "timers_ok H t' \<and> length (node_list t') = length (node_list t)"
  using assms(2)
proof (rule cascade_slot.raw_induct[where P = "\<lambda>time i k t t'. timers_ok H t \<longrightarrow>
    timers_ok H t' \<and> length (node_list t') = length (node_list t)", OF _ assms(1), THEN mp, rotated])
  fix go :: "int \<Rightarrow> nat \<Rightarrow> nat \<Rightarrow> 'a timers \<Rightarrow> 'a timers option" and time i k t t'
  assume IH: "\<And>time i k t t'. go time i k t = Some t' \<Longrightarrow> timers_ok H t \<longrightarrow>
      timers_ok H t' \<and> length (node_list t') = length (node_list t)"
    and body: "(case wheel_list t i k of [] \<Rightarrow> Some t
      | n # rest \<Rightarrow> InsertTimerNodeToWheel time n (set_wheel i k rest t) \<bind> go time i k) = Some t'"
  show "timers_ok H t \<longrightarrow> timers_ok H t' \<and> length (node_list t') = length (node_list t)"
  proof
    assume ok: "timers_ok H t"
    show "timers_ok H t' \<and> length (node_list t') = length (node_list t)"
    proof (cases "wheel_list t i k")
      case Nil
      with body ok show ?thesis by simp
    next
      case (Cons n rest)
      note pop = timers_ok_pop[OF ok Cons]
      obtain s where s: "InsertTimerNodeToWheel time n (set_wheel i k rest t) = Some s"
        "timers_ok (insert n H - {n}) s" "length (node_list s) = length (node_list t)"
        by (rule Insert_ok[OF pop(1), of n time]) (use pop(2,3) in auto)
      have "go time i k s = Some t'" using body Cons s(1) by simp
      moreover have "timers_ok H s" using s(2) by (rule timers_ok_mono) blast
      ultimately show ?thesis using IH s(3) by auto
    qed
  qed
qed

lemma TimerWheelCascade_ok:
  assumes "TimerWheelCascade time i t = Some t'" "timers_ok H t"
  shows "timers_ok H t' \<and> length (node_list t') = length (node_list t)"
  using assms
proof (induction time i t rule: TimerWheelCascade.induct)
  case (1 time i t)
  show ?case
  proof (cases "5 \<le> i")
    case True
    then show ?thesis using "1.prems" by (simp add: TimerWheelCascade.simps[of time i t] Option.bind_eq_Some_conv)
  next
    case False
    obtain s where s: "cascade_slot time i (wheel_index i time) t = Some s"
      "(if wheel_index i time = 0 then TimerWheelCascade time (i + 1) s else Some s) = Some t'"
      using "1.prems"(1) False by (auto simp: TimerWheelCascade.simps[of time i t] Option.bind_eq_Some_conv)
    note s_ok = cascade_slot_ok[OF s(1) "1.prems"(2)]
    show ?thesis
    proof (cases "wheel_index i time = 0")
      case True
      from "1.IH"[of "()" s] show ?thesis
        using s s_ok True False timers_okD(1)[OF "1.prems"(2)] by simp
    next
      case False
      with s s_ok show ?thesis by simp
    qed
  qed
qed

section \<open>Clients\<close>

locale timer_client =
  fixes run :: "('w, 'cb) callback"
  assumes run_ok: "timers_ok H t \<Longrightarrow> run fn (w, t) = Some (w', t') \<Longrightarrow>
      timers_ok H t' \<and> length (node_list t) \<le> length (node_list t')"
begin

lemma fire_slot_ok:
  assumes "fire_slot run k s = Some s'" "timers_ok {} (snd s)"
  shows "timers_ok {} (snd s')"
  using assms(2)
proof (rule fire_slot.raw_induct[where P = "\<lambda>r k s s'. r = run \<longrightarrow> timers_ok {} (snd s) \<longrightarrow> timers_ok {} (snd s')",
      OF _ assms(1), THEN mp, THEN mp, OF _ refl, rotated])
  fix go :: "('w, 'cb) callback \<Rightarrow> nat \<Rightarrow> 'w \<times> 'cb timers \<Rightarrow> ('w \<times> 'cb timers) option" and r k s s'
  assume IH: "\<And>r k s s'. go r k s = Some s' \<Longrightarrow> r = run \<longrightarrow> timers_ok {} (snd s) \<longrightarrow> timers_ok {} (snd s')"
    and body: "(case wheel_list (snd s) 0 k of [] \<Rightarrow> Some s
      | n # rest \<Rightarrow> get_node (snd s) n \<bind> (\<lambda>x. cb x \<bind> (\<lambda>fn. r fn (fst s, set_wheel 0 k rest (snd s)) \<bind>
          (\<lambda>s. after_callback n (snd s) \<bind> (\<lambda>t. go r k (fst s, t)))))) = Some s'"
  show "r = run \<longrightarrow> timers_ok {} (snd s) \<longrightarrow> timers_ok {} (snd s')"
  proof (intro impI)
    assume r: "r = run" and ok: "timers_ok {} (snd s)"
    show "timers_ok {} (snd s')"
    proof (cases "wheel_list (snd s) 0 k")
      case Nil
      with body ok show ?thesis by simp
    next
      case (Cons n rest)
      note pop = timers_ok_pop[OF ok Cons]
      obtain fn w t t2 where step: "run fn (fst s, set_wheel 0 k rest (snd s)) = Some (w, t)"
        "after_callback n t = Some t2" "go r k (w, t2) = Some s'"
        using body Cons r by (auto simp: Option.bind_eq_Some_conv)
      from run_ok[OF pop(1) step(1)] pop(2) have ok': "timers_ok {n} t" "n < length (node_list t)" by auto
      from after_callback_ok[OF ok'] step(2) have "timers_ok {} t2" by (metis Diff_cancel option.inject)
      with IH[OF step(3)] r show ?thesis by simp
    qed
  qed
qed

lemma update_tick_ok:
  assumes "update_tick run s = Some s'" "timers_ok {} (snd s)"
  shows "timers_ok {} (snd s')"
proof -
  obtain t where t: "(if nat (cur_time (snd s) AND TIMER_WHEEL_MASK 0) = 0
      then TimerWheelCascade (cur_time (snd s)) 1 (snd s) else Some (snd s)) = Some t"
    "fire_slot run (nat (cur_time (snd s) AND TIMER_WHEEL_MASK 0)) (fst s, t\<lparr>cur_time := cur_time t + 1\<rparr>) = Some s'"
    using assms(1) by (auto simp: update_tick_def Let_def Option.bind_eq_Some_conv)
  have "timers_ok {} t" using t(1) assms(2) by (auto dest: TimerWheelCascade_ok split: if_splits)
  then show ?thesis using fire_slot_ok[OF t(2)] by simp
qed

lemma Timer_Update_ok:
  assumes "Timer_Update run time s = Some s'" "timers_ok {} (snd s)"
  shows "timers_ok {} (snd s')"
proof (cases "time < cur_time (snd s)")
  case True
  with assms show ?thesis by (simp add: Timer_Update_def)
next
  case False
  have "timers_ok {} (snd s) \<longrightarrow> timers_ok {} (snd s')" if "update_loop run s = Some s'" for s
  proof (rule update_loop.raw_induct[where P = "\<lambda>r s s'. r = run \<longrightarrow> timers_ok {} (snd s) \<longrightarrow> timers_ok {} (snd s')",
        OF _ that, THEN mp, OF _ refl], intro impI)
    fix go :: "('w, 'cb) callback \<Rightarrow> 'w \<times> 'cb timers \<Rightarrow> ('w \<times> 'cb timers) option" and r s s'
    assume IH: "\<And>r s s'. go r s = Some s' \<Longrightarrow> r = run \<longrightarrow> timers_ok {} (snd s) \<longrightarrow> timers_ok {} (snd s')"
      and body: "(if cur_time (snd s) < next_time (snd s) then update_tick r s \<bind> go r else Some s) = Some s'"
      and r: "r = run" "timers_ok {} (snd s)"
    show "timers_ok {} (snd s')"
    proof (cases "cur_time (snd s) < next_time (snd s)")
      case True
      then obtain s2 where "update_tick run s = Some s2" "go run s2 = Some s'"
        using body r(1) by (cases "update_tick run s") simp_all
      with IH[of run s2 s'] update_tick_ok r(2) show ?thesis by blast
    next
      case False
      with body r show ?thesis by simp
    qed
  qed
  then show ?thesis using assms False by (auto simp: Timer_Update_def)
qed

end

section \<open>Scripted clients\<close>

text \<open>A client that records each call with its time, and whose callbacks then set and delete timers as
  a script says; the script may depend on what happened before.\<close>

datatype 'cb timer_call = CallSetTimer "'cb option" int int | CallDelTimer timer_id

fun call_timer :: "'cb timer_call \<Rightarrow> 'cb timers \<Rightarrow> 'cb timers option" where
  "call_timer (CallSetTimer fn delay period) t = map_option snd (SetTimer fn delay period t)"
| "call_timer (CallDelTimer i) t = DelTimer i t"

fun call_timers :: "'cb timer_call list \<Rightarrow> 'cb timers \<Rightarrow> 'cb timers option" where
  "call_timers [] t = Some t"
| "call_timers (c # cs) t = do { t \<leftarrow> call_timer c t; call_timers cs t }"

definition run_script ::
  "(('cb \<times> int) list \<Rightarrow> 'cb \<Rightarrow> 'cb timer_call list) \<Rightarrow> (('cb \<times> int) list, 'cb) callback" where
  "run_script script fn s = map_option (Pair (fst s @ [(fn, cur_time (snd s))])) (call_timers (script (fst s) fn) (snd s))"

lemma call_timer_ok:
  assumes "call_timer c t = Some t'" "timers_ok H t"
  shows "timers_ok H t' \<and> length (node_list t) \<le> length (node_list t')"
proof (cases c)
  case (CallSetTimer fn delay period)
  then have "fn \<noteq> None" using assms(1) by (cases fn) (simp_all add: SetTimer_def)
  from SetTimer_ok[OF assms(2) this, of delay period] obtain i s where
    s: "SetTimer fn delay period t = Some (i, s)" "timers_ok H s" "length (node_list t) \<le> length (node_list s)"
    by (metis timer_set_node(3))
  with CallSetTimer assms(1) show ?thesis by simp
next
  case (CallDelTimer i)
  with assms(1) show ?thesis using DelTimer_ok[OF assms(2), of i]
    by (metis call_timer.simps(2) option.inject order_refl)
qed

lemma call_timers_ok:
  "call_timers cs t = Some t' \<Longrightarrow> timers_ok H t \<Longrightarrow> timers_ok H t' \<and> length (node_list t) \<le> length (node_list t')"
proof (induction cs arbitrary: t)
  case (Cons c cs)
  then obtain s where "call_timer c t = Some s" "call_timers cs s = Some t'" by (auto simp: Option.bind_eq_Some_conv)
  with Cons call_timer_ok[of c t s H] show ?case by fastforce
qed simp

interpretation scripted: timer_client "run_script script"
  by unfold_locales (auto simp: run_script_def dest: call_timers_ok)

end
