(* ===== verification/TimerWindow.thy ===== *)
theory TimerWindow
  imports TimerClient
begin

text \<open>
  When the slots of the wheels come up. A slot of wheel \<open>i\<close> stands for a span of \<open>wheel_span i\<close>
  ticks and is emptied once per turn, at the first tick of its span. \<open>window c i k e\<close> says that slot
  \<open>(i, k)\<close> is, at time \<open>c\<close>, a right place for a timer that expires at \<open>e\<close>: the next time the slot
  comes up is not after \<open>e\<close>, and for wheel 0 it is the tick of \<open>e\<close>, or the present tick for a timer
  that is overdue. \<open>placed\<close> is what remains of it when the slots that come up at \<open>c\<close> have been
  cascaded.
\<close>

section \<open>Spans\<close>

definition wheel_span :: "nat \<Rightarrow> int" where
  "wheel_span i = 2 ^ TIMER_WHEEL_OFFSET i"

lemma wheel_span_pos [simp]: "0 < wheel_span i"
  by (simp add: wheel_span_def)

lemma wheel_span_0 [simp]: "wheel_span 0 = 1"
  by (simp add: wheel_span_def)

lemma wheel_span_Suc: "wheel_span (Suc i) = TIMER_WHEEL_SIZE i * wheel_span i"
  by (simp add: wheel_span_def wheel_size power_add)

lemma wheel_size_0 [simp]: "TIMER_WHEEL_SIZE 0 = 256"
  by (simp add: wheel_size TIMER_WHEEL_BITS_def)

lemma wheel_span_1 [simp]: "wheel_span (Suc 0) = 256"
  by (simp add: wheel_span_Suc)

lemma drop_offset: "drop_bit (TIMER_WHEEL_OFFSET i) x = x div wheel_span i"
  by (simp add: wheel_span_def drop_bit_eq_div)

lemma wheel_index_eq: "wheel_index i x = nat (x div wheel_span i mod TIMER_WHEEL_SIZE i)"
  by (simp add: wheel_index_def and_wheel_mask drop_offset)

lemma wheel_span_dvd: "i \<le> j \<Longrightarrow> wheel_span i dvd wheel_span j"
  by (induction rule: dec_induct) (auto simp: wheel_span_Suc)

lemma le_div_span: "s \<le> x div wheel_span i \<longleftrightarrow> s * wheel_span i \<le> x"
proof
  assume "s \<le> x div wheel_span i"
  then have "s * wheel_span i \<le> x div wheel_span i * wheel_span i" by simp
  also have "\<dots> \<le> x" by (simp add: minus_mod_eq_div_mult [symmetric])
  finally show "s * wheel_span i \<le> x" .
next
  assume "s * wheel_span i \<le> x"
  from zdiv_mono1[OF this wheel_span_pos[of i]] show "s \<le> x div wheel_span i"
    by (simp add: less_imp_neq[OF wheel_span_pos, symmetric])
qed

text \<open>The next wheel comes up when this one is at slot 0.\<close>

lemma wheel_index_0_iff:
  assumes "wheel_span i dvd c"
  shows "wheel_index i c = 0 \<longleftrightarrow> wheel_span (Suc i) dvd c"
proof -
  obtain b where "c = wheel_span i * b" using assms by blast
  moreover have "0 \<le> b mod TIMER_WHEEL_SIZE i" by simp
  then have "b mod TIMER_WHEEL_SIZE i \<le> 0 \<longleftrightarrow> b mod TIMER_WHEEL_SIZE i = 0" by linarith
  ultimately show ?thesis
    by (simp add: wheel_index_eq wheel_span_Suc dvd_eq_mod_eq_0 mult.commute less_imp_neq[OF wheel_span_pos, symmetric])
qed

section \<open>Windows\<close>

definition turn :: "int \<Rightarrow> nat \<Rightarrow> nat \<Rightarrow> int \<Rightarrow> int \<Rightarrow> bool" where
  "turn c i k e b \<longleftrightarrow> k = nat (b mod TIMER_WHEEL_SIZE i) \<and> c \<le> b * wheel_span i \<and>
     b * wheel_span i < c + TIMER_WHEEL_SIZE i * wheel_span i \<and> b * wheel_span i \<le> e"

definition now_or_soon :: "int \<Rightarrow> nat \<Rightarrow> int \<Rightarrow> bool" where
  "now_or_soon c k e \<longleftrightarrow> c \<le> e \<and> e < c + 256 \<and> k = nat (e mod 256) \<or> e < c \<and> k = nat (c mod 256)"

definition window :: "int \<Rightarrow> nat \<Rightarrow> nat \<Rightarrow> int \<Rightarrow> bool" where
  "window c i k e \<longleftrightarrow> (if i = 0 then now_or_soon c k e else (\<exists>b. turn c i k e b))"

definition placed :: "int \<Rightarrow> nat \<Rightarrow> nat \<Rightarrow> int \<Rightarrow> bool" where
  "placed c i k e \<longleftrightarrow> (if i = 0 then now_or_soon c k e else (\<exists>b. turn c i k e b \<and> c < b * wheel_span i))"

lemma placed_window: "placed c i k e \<Longrightarrow> window c i k e"
  by (auto simp: placed_def window_def)

lemma placed_next: "placed c i k e \<Longrightarrow> i \<noteq> 0 \<Longrightarrow> window (c + 1) i k e"
  by (force simp: placed_def window_def turn_def)

lemma placed_later: "placed c i k e \<Longrightarrow> i \<noteq> 0 \<Longrightarrow> c < e"
  by (auto simp: placed_def turn_def)

lemma now_or_soon_due: "now_or_soon c k e \<Longrightarrow> (k = nat (c mod 256)) = (e \<le> c)"
proof -
  assume *: "now_or_soon c k e"
  show ?thesis
  proof (cases "e < c")
    case False
    then have e: "c \<le> e" "e < c + 256" "k = nat (e mod 256)" using * by (auto simp: now_or_soon_def)
    have "e mod 256 = c mod 256 \<longleftrightarrow> e = c"
    proof
      assume "e mod 256 = c mod 256"
      then have "(e - c) mod 256 = 0" by (simp add: mod_eq_dvd_iff)
      with e show "e = c" by simp
    qed simp
    then show ?thesis using e by auto
  qed (use * in \<open>auto simp: now_or_soon_def\<close>)
qed

lemma now_or_soon_next: "now_or_soon c k e \<Longrightarrow> c < e \<Longrightarrow> now_or_soon (c + 1) k e"
  by (auto simp: now_or_soon_def)

lemma dvd_turn:
  assumes "wheel_span i dvd c" "turn c i k e b"
  shows "k = wheel_index i c \<longleftrightarrow> b * wheel_span i = c"
proof -
  obtain a where a: "c = a * wheel_span i" using assms(1) by (metis dvd_def mult.commute)
  have b: "a \<le> b" "b < a + TIMER_WHEEL_SIZE i" "k = nat (b mod TIMER_WHEEL_SIZE i)"
    using assms(2) wheel_span_pos[of i] by (auto simp: turn_def a simp flip: distrib_right)
  have k: "wheel_index i c = nat (a mod TIMER_WHEEL_SIZE i)"
    by (simp add: wheel_index_eq a less_imp_neq[OF wheel_span_pos, symmetric])
  have "b = a" if "b mod TIMER_WHEEL_SIZE i = a mod TIMER_WHEEL_SIZE i"
  proof -
    have "(b - a) mod TIMER_WHEEL_SIZE i = 0" using that by (simp add: mod_eq_dvd_iff)
    with b show ?thesis by (simp add: mod_pos_pos_trivial)
  qed
  then show ?thesis
    using b k by (auto simp: a eq_nat_nat_iff less_imp_neq[OF wheel_span_pos, symmetric])
qed

lemma placed_other_slot:
  assumes "placed c i k e" "i \<noteq> 0" "wheel_span i dvd c"
  shows "k \<noteq> wheel_index i c"
  using assms dvd_turn[OF assms(3)] by (auto simp: placed_def)

lemma window_placed:
  assumes "window c i k e" "wheel_span i dvd c \<Longrightarrow> i \<noteq> 0 \<Longrightarrow> k \<noteq> wheel_index i c"
  shows "placed c i k e"
proof (cases "i = 0")
  case False
  then obtain b where b: "turn c i k e b" using assms(1) by (auto simp: window_def)
  have "b * wheel_span i \<noteq> c"
    using dvd_turn[OF _ b] assms(2) False by (metis dvd_triv_right)
  with b False show ?thesis by (auto simp: placed_def turn_def order_le_less)
qed (use assms(1) in \<open>simp add: window_def placed_def\<close>)

text \<open>The slot that is chosen for a timer is a right place for it.\<close>

lemma span_turn:
  assumes "wheel_span i \<le> e - c" "(e - c) div wheel_span i < TIMER_WHEEL_SIZE i" "i \<noteq> 0"
  shows "placed c i (wheel_index i e) e"
proof -
  let ?P = "wheel_span i"
  have e: "e div ?P * ?P = e - e mod ?P" "0 \<le> e mod ?P" "e mod ?P < ?P" by (simp_all add: minus_mod_eq_div_mult)
  have "e - c < TIMER_WHEEL_SIZE i * ?P" using assms(2) le_div_span[of "TIMER_WHEEL_SIZE i" "e - c" i] by linarith
  then have "turn c i (wheel_index i e) e (e div ?P)"
    using e assms(1) unfolding turn_def wheel_index_eq by (intro conjI refl; linarith)
  moreover have "c < e div ?P * ?P" using e assms(1) by linarith
  ultimately have "turn c i (wheel_index i e) e (e div ?P)" "c < e div ?P * ?P" by blast+
  with assms(3) show ?thesis by (auto simp: placed_def)
qed

lemma choose_wheel_placed: "choose_wheel c e = (i, k) \<Longrightarrow> placed c i k e"
proof (rule choose_wheel_cases[of e c])
  assume ik: "choose_wheel c e = (i, k)"
  {
    assume "e \<le> c" "choose_wheel c e = (0, nat (c mod TIMER_WHEEL_SIZE 0))"
    then show ?thesis using ik by (auto simp: placed_def now_or_soon_def)
  next
    fix j
    assume j: "c < e" "j < 5" "drop_bit (TIMER_WHEEL_OFFSET j) (e - c) < TIMER_WHEEL_SIZE j"
      "\<And>l. l < j \<Longrightarrow> TIMER_WHEEL_SIZE l \<le> drop_bit (TIMER_WHEEL_OFFSET l) (e - c)"
      "choose_wheel c e = (j, wheel_index j e)"
    show ?thesis
    proof (cases j)
      case 0
      then show ?thesis using j ik by (auto simp: placed_def now_or_soon_def wheel_index_eq)
    next
      case (Suc l)
      have "wheel_span j \<le> e - c"
        using j(4)[of l] Suc by (simp add: wheel_span_Suc drop_offset le_div_span)
      moreover have "(e - c) div wheel_span j < TIMER_WHEEL_SIZE j" using j(3) by (simp add: drop_offset)
      ultimately have "placed c j (wheel_index j e) e" using Suc by (intro span_turn) simp_all
      then show ?thesis using j(5) ik by simp
    qed
  next
    let ?P = "wheel_span 4" and ?S = "TIMER_WHEEL_SIZE 4" and ?b = "c div wheel_span 4 + (TIMER_WHEEL_SIZE 4 - 1)"
    assume far: "c < e" "\<And>j. j < 5 \<Longrightarrow> TIMER_WHEEL_SIZE j \<le> drop_bit (TIMER_WHEEL_OFFSET j) (e - c)"
      "choose_wheel c e = (4, nat ((drop_bit (TIMER_WHEEL_OFFSET 4) c + TIMER_WHEEL_MASK 4) mod ?S))"
    have size: "?S = 64" by (simp add: wheel_size TIMER_WHEEL_BITS_def)
    have "?S * ?P \<le> e - c" using far(2)[of 4] by (simp add: drop_offset le_div_span)
    then have d: "64 * ?P \<le> e - c" "c div ?P * ?P = c - c mod ?P" "0 \<le> c mod ?P" "c mod ?P < ?P"
      by (simp_all add: minus_mod_eq_div_mult size)
    have b: "?b * ?P = c - c mod ?P + 63 * ?P" by (simp add: distrib_right d(2) size)
    have "turn c 4 (nat (?b mod ?S)) e ?b"
      unfolding turn_def b unfolding size using d by (intro conjI refl; linarith)
    moreover have "c < ?b * ?P" unfolding b using d by linarith
    ultimately have "turn c 4 (nat (?b mod ?S)) e ?b" "c < ?b * ?P" by blast+
    then show ?thesis using far(3) ik by (auto simp: placed_def drop_offset TIMER_WHEEL_MASK_def)
  }
qed

end
