(* ===== verification/TimerFire.thy ===== *)
theory TimerFire
  imports TimerWindow
begin

text \<open>
  What \<open>Update\<close> calls and when. The abstract manager is a map from nodes to their next expiry, their
  period and their callback; a tick calls the callbacks of what is due. The clients here are those
  whose callbacks leave the manager alone; their world records the calls.
\<close>

section \<open>Cascades end and leave the right places\<close>

definition in_windows :: "int \<Rightarrow> 'cb timers \<Rightarrow> bool" where
  "in_windows c t \<longleftrightarrow> (\<forall>i k. \<forall>n \<in> set (wheel_list t i k). window c i k (expire_time (node_list t ! n)))"

definition all_placed :: "int \<Rightarrow> 'cb timers \<Rightarrow> bool" where
  "all_placed c t \<longleftrightarrow> (\<forall>i k. \<forall>n \<in> set (wheel_list t i k). placed c i k (expire_time (node_list t ! n)))"

definition same_nodes :: "'cb timers \<Rightarrow> 'cb timers \<Rightarrow> bool" where
  "same_nodes t t' \<longleftrightarrow> node_list t' = node_list t \<and> free_list t' = free_list t \<and>
     cur_time t' = cur_time t \<and> next_time t' = next_time t"

lemma using_not_free: "timers_ok H t \<Longrightarrow> n < length (node_list t) \<Longrightarrow> is_using (node_list t ! n) \<Longrightarrow> n \<notin> set (free_list t)"
  using timers_okD(9) by blast

lemma cascade_slot_returns:
  assumes "timers_ok H t" "i \<noteq> 0" "wheel_span i dvd c" "k = wheel_index i c"
  shows "\<exists>t'. cascade_slot c i k t = Some t' \<and> timers_ok H t' \<and> same_nodes t t' \<and> wheel_list t' i k = [] \<and>
    (\<forall>j l n. n \<in> set (wheel_list t' j l) \<longrightarrow> n \<in> set (wheel_list t j l) \<or> placed c j l (expire_time (node_list t ! n)))"
  using assms(1)
proof (induction "wheel_list t i k" arbitrary: t)
  case Nil
  then show ?case by (subst cascade_slot.simps) (simp add: same_nodes_def)
next
  case (Cons n rest)
  note pop = timers_ok_pop[OF Cons.prems Cons.hyps(2)[symmetric]]
  let ?t = "set_wheel i k rest t"
  obtain a b where ab: "choose_wheel c (expire_time (node_list ?t ! n)) = (a, b)"
    "InsertTimerNodeToWheel c n ?t = Some (set_wheel a b (removeAll n (wheel_list ?t a b) @ [n]) (erase_link n ?t))"
    "timers_ok (insert n H - {n}) (set_wheel a b (removeAll n (wheel_list ?t a b) @ [n]) (erase_link n ?t))"
    by (rule Insert_ok[OF pop(1), of n c]) (use pop(2,3) in auto)
  let ?s = "set_wheel a b (removeAll n (wheel_list ?t a b) @ [n]) (erase_link n ?t)"
  have place: "placed c a b (expire_time (node_list t ! n))" using choose_wheel_placed[OF ab(1)] by simp
  then have "\<not> (a = i \<and> b = k)" using placed_other_slot[of c a b] assms(2-4) by blast
  moreover have "n \<notin> set rest" using timers_okD(2)[OF Cons.prems, of i k] Cons.hyps(2) by (metis distinct.simps(2))
  ultimately have rest: "rest = wheel_list ?s i k" by auto
  have ok: "timers_ok H ?s" using ab(3) by (rule timers_ok_mono) blast
  have same: "same_nodes t ?s" using using_not_free[OF Cons.prems pop(2,3)] by (simp add: same_nodes_def removeAll_id)
  from Cons.hyps(1)[OF rest ok] obtain t' where t': "cascade_slot c i k ?s = Some t'" "timers_ok H t'"
    "same_nodes ?s t'" "wheel_list t' i k = []"
    "\<And>j l m. m \<in> set (wheel_list t' j l) \<Longrightarrow> m \<in> set (wheel_list ?s j l) \<or> placed c j l (expire_time (node_list ?s ! m))"
    by blast
  have "cascade_slot c i k t = Some t'"
    by (subst cascade_slot.simps) (simp only: Cons.hyps(2)[symmetric] list.case ab(2) t'(1) Option.bind.bind_lunit)
  moreover have "m \<in> set (wheel_list t j l) \<or> placed c j l (expire_time (node_list t ! m))"
    if "m \<in> set (wheel_list t' j l)" for j l m
  proof -
    have "m \<in> set (wheel_list ?s j l) \<longrightarrow> m \<in> set (wheel_list t j l) \<or> m = n \<and> j = a \<and> l = b"
      by (auto simp flip: Cons.hyps(2) split: if_splits)
    then show ?thesis using t'(5)[OF that] place by auto
  qed
  ultimately show ?case using t'(2-4) same by (auto simp: same_nodes_def)
qed

lemma TimerWheelCascade_returns:
  assumes "timers_ok H t" "i \<noteq> 0" "wheel_span i dvd c"
    and "\<And>j l n. n \<in> set (wheel_list t j l) \<Longrightarrow>
      (if j < i then placed else window) c j l (expire_time (node_list t ! n))"
  shows "\<exists>t'. TimerWheelCascade c i t = Some t' \<and> timers_ok H t' \<and> same_nodes t t' \<and> all_placed c t'"
  using assms
proof (induction c i t rule: TimerWheelCascade.induct)
  case (1 c i t)
  have ready: "wheel_ready t" by (rule timers_okD(1)[OF "1.prems"(1)])
  show ?case
  proof (cases "5 \<le> i")
    case True
    have "all_placed c t" unfolding all_placed_def
    proof (intro allI ballI)
      fix j l n
      assume n: "n \<in> set (wheel_list t j l)"
      then have "j < i" using timers_okD(5)[OF "1.prems"(1) n] True by simp
      then show "placed c j l (expire_time (node_list t ! n))" using "1.prems"(4)[OF n] by simp
    qed
    then show ?thesis using True ready "1.prems"(1)
      by (auto simp: TimerWheelCascade.simps[of c i t] same_nodes_def)
  next
    case False
    let ?k = "wheel_index i c"
    from cascade_slot_returns[OF "1.prems"(1,2,3) refl] obtain s where s: "cascade_slot c i ?k t = Some s"
      "timers_ok H s" "same_nodes t s" "wheel_list s i ?k = []"
      "\<And>j l n. n \<in> set (wheel_list s j l) \<Longrightarrow> n \<in> set (wheel_list t j l) \<or> placed c j l (expire_time (node_list t ! n))"
      by blast
    have nodes: "node_list s = node_list t" using s(3) by (simp add: same_nodes_def)
    have s_win: "(if j < i + 1 then placed else window) c j l (expire_time (node_list s ! n))"
      if n: "n \<in> set (wheel_list s j l)" for j l n
    proof -
      have w: "(if j < i then placed else window) c j l (expire_time (node_list t ! n))"
        using s(5)[OF n] "1.prems"(4)[of n j l] by (auto intro: placed_window)
      show ?thesis
      proof (cases "j = i")
        case True
        then have "l \<noteq> ?k" using n s(4) by auto
        with True w show ?thesis by (simp add: nodes window_placed)
      qed (use w in \<open>auto simp: nodes less_Suc_eq split: if_splits\<close>)
    qed
    show ?thesis
    proof (cases "?k = 0")
      case True
      then have dvd: "wheel_span (i + 1) dvd c" using wheel_index_0_iff[OF "1.prems"(3)] by simp
      have "\<exists>t'. TimerWheelCascade c (i + 1) s = Some t' \<and> timers_ok H t' \<and> same_nodes s t' \<and> all_placed c t'"
        using "1.IH"[of "()" s] True False ready s(1,2) dvd s_win by simp
      then show ?thesis using s(1,3) True False ready
        by (auto simp: TimerWheelCascade.simps[of c i t] same_nodes_def)
    next
      case k: False
      have "\<not> wheel_span (Suc i) dvd c" using wheel_index_0_iff[OF "1.prems"(3)] k by simp
      then have "\<not> wheel_span j dvd c" if "Suc i \<le> j" for j using wheel_span_dvd[OF that] dvd_trans by blast
      then have "all_placed c s" unfolding all_placed_def
      proof (intro allI ballI)
        fix j l n
        assume n: "n \<in> set (wheel_list s j l)"
        show "placed c j l (expire_time (node_list s ! n))"
        proof (cases "j < i + 1")
          case True
          then show ?thesis using s_win[OF n] by simp
        next
          case False
          then show ?thesis using s_win[OF n] \<open>\<And>j. Suc i \<le> j \<Longrightarrow> \<not> wheel_span j dvd c\<close>[of j]
            by (intro window_placed) simp_all
        qed
      qed
      then show ?thesis using s(1-3) k False ready
        by (auto simp: TimerWheelCascade.simps[of c i t])
    qed
  qed
qed

lemma tick_cascade:
  assumes "timers_ok H t" "in_windows c t" "k = nat (c AND TIMER_WHEEL_MASK 0)"
  shows "\<exists>t'. (if k = 0 then TimerWheelCascade c 1 t else Some t) = Some t' \<and>
    timers_ok H t' \<and> same_nodes t t' \<and> all_placed c t'"
proof -
  have k: "k = 0 \<longleftrightarrow> wheel_span 1 dvd c"
    by (simp add: assms(3) and_wheel_mask dvd_eq_mod_eq_0 order_antisym_conv)
  have win: "window c j l (expire_time (node_list t ! n))" if "n \<in> set (wheel_list t j l)" for j l n
    using assms(2) that by (auto simp: in_windows_def)
  show ?thesis
  proof (cases "k = 0")
    case True
    have "(if j < 1 then placed else window) c j l (expire_time (node_list t ! n))"
      if "n \<in> set (wheel_list t j l)" for j l n
      using win[OF that] by (auto simp: window_def placed_def)
    from TimerWheelCascade_returns[OF assms(1) _ _ this] k True show ?thesis by simp
  next
    case False
    have "placed c j l (expire_time (node_list t ! n))" if "n \<in> set (wheel_list t j l)" for j l n
    proof (rule window_placed[OF win[OF that]])
      assume "wheel_span j dvd c" "j \<noteq> 0"
      then have "wheel_span 1 dvd c" using wheel_span_dvd[of 1 j] dvd_trans by (metis One_nat_def Suc_leI neq0_conv)
      with k False show "l \<noteq> wheel_index j c" by simp
    qed
    then show ?thesis using assms(1) False by (auto simp: all_placed_def same_nodes_def)
  qed
qed

section \<open>The abstract manager\<close>

type_synonym 'cb agenda = "nat \<rightharpoonup> int \<times> int \<times> 'cb"

definition agenda :: "'cb timers \<Rightarrow> 'cb agenda" where
  "agenda t n = (if n < length (node_list t) \<and> is_using (node_list t ! n)
     then Some (expire_time (node_list t ! n), interval (node_list t ! n), the (cb (node_list t ! n))) else None)"

definition rearm :: "int \<Rightarrow> nat list \<Rightarrow> 'cb agenda \<Rightarrow> 'cb agenda" where
  "rearm c ns A = (\<lambda>n. if n \<in> set ns
     then (case A n of Some (e, p, f) \<Rightarrow> if 0 < p then Some (c + 1 + p, p, f) else None | None \<Rightarrow> None)
     else A n)"

definition due :: "int \<Rightarrow> 'cb agenda \<Rightarrow> nat set" where
  "due c A = {n. \<exists>e p f. A n = Some (e, p, f) \<and> e \<le> c}"

definition calls_at :: "int \<Rightarrow> 'cb agenda \<Rightarrow> nat list \<Rightarrow> ('cb \<times> int) list" where
  "calls_at c A ns = map (\<lambda>n. (snd (snd (the (A n))), c + 1)) ns"

text \<open>A run from time \<open>c\<close> to time \<open>d\<close>: each tick calls what is due, in some order, re-arms the
  periodic timers and forgets the others. The callbacks see the time after the tick.\<close>

inductive agenda_run :: "int \<Rightarrow> 'cb agenda \<Rightarrow> ('cb \<times> int) list \<Rightarrow> int \<Rightarrow> 'cb agenda \<Rightarrow> bool" where
  stop: "agenda_run c A [] c A"
| tick: "distinct ns \<Longrightarrow> set ns = due c A \<Longrightarrow> agenda_run (c + 1) (rearm c ns A) log d B \<Longrightarrow>
    agenda_run c A (calls_at c A ns @ log) d B"

lemma agenda_Some: "agenda t n = Some x \<longleftrightarrow> n < length (node_list t) \<and> is_using (node_list t ! n) \<and>
    x = (expire_time (node_list t ! n), interval (node_list t ! n), the (cb (node_list t ! n)))"
  by (auto simp: agenda_def)

lemma agenda_cong: "node_list t' = node_list t \<Longrightarrow> agenda t' = agenda t"
  by (rule ext) (simp add: agenda_def)

lemma agenda_update:
  "node_list t' = (node_list t)[n := x] \<Longrightarrow> n < length (node_list t) \<Longrightarrow>
   agenda t' = (agenda t)(n := if is_using x then Some (expire_time x, interval x, the (cb x)) else None)"
  by (rule ext) (auto simp: agenda_def)

section \<open>Emptying a slot\<close>

definition record_calls :: "(('cb \<times> int) list, 'cb) callback" where
  "record_calls = run_script (\<lambda>_ _. [])"

lemma record_calls_simp [simp]: "record_calls fn (w, t) = Some (w @ [(fn, cur_time t)], t)"
  by (simp add: record_calls_def run_script_def)

text \<open>One step of the loop: the called node is freed or moves to another slot.\<close>

lemma after_callback_passive:
  assumes ok: "timers_ok {n} t" and n: "n < length (node_list t)" "is_using (node_list t ! n)"
    and time: "cur_time t = c + 1" and p: "interval (node_list t ! n) \<noteq> 255"
  shows "\<exists>t'. after_callback n t = Some t' \<and> timers_ok {} t' \<and> agenda t' = rearm c [n] (agenda t) \<and>
    (\<forall>m. m \<noteq> n \<longrightarrow> node_list t' ! m = node_list t ! m) \<and> length (node_list t') = length (node_list t) \<and>
    cur_time t' = cur_time t \<and> next_time t' = next_time t \<and>
    (\<forall>j l m. m \<noteq> n \<longrightarrow> m \<in> set (wheel_list t' j l) \<longrightarrow> m \<in> set (wheel_list t j l)) \<and>
    (\<forall>j l. n \<in> set (wheel_list t' j l) \<longrightarrow>
       window (c + 1) j l (expire_time (node_list t' ! n)) \<and> (j, l) \<noteq> (0, nat (c mod 256))) \<and>
    wheel_list t' 0 (nat (c mod 256)) = removeAll n (wheel_list t 0 (nat (c mod 256)))"
proof (cases "0 < interval (node_list t ! n)")
  case True
  let ?p = "interval (node_list t ! n)" and ?k = "nat (c mod 256)"
  let ?x = "(node_list t ! n)\<lparr>expire_time := c + 1 + ?p\<rparr>"
  let ?s = "set_node n ?x t"
  have "timers_ok {n} ?s" using ok n by (simp add: timers_ok_set_node)
  moreover have "n < length (node_list ?s)" "is_using (node_list ?s ! n)" using n by simp_all
  ultimately obtain a b where ab: "choose_wheel (c + 1) (expire_time (node_list ?s ! n)) = (a, b)"
    "InsertTimerNodeToWheel (c + 1) n ?s = Some (set_wheel a b (removeAll n (wheel_list ?s a b) @ [n]) (erase_link n ?s))"
    "timers_ok ({n} - {n}) (set_wheel a b (removeAll n (wheel_list ?s a b) @ [n]) (erase_link n ?s))"
    by (rule Insert_ok)
  let ?t' = "set_wheel a b (removeAll n (wheel_list ?s a b) @ [n]) (erase_link n ?s)"
  have place: "placed (c + 1) a b (c + 1 + ?p)" using choose_wheel_placed[OF ab(1)] n by simp
  have other: "(a, b) \<noteq> (0, ?k)"
  proof
    assume "(a, b) = (0, ?k)"
    then have "now_or_soon (c + 1) ?k (c + 1 + ?p)" using place by (simp add: placed_def)
    then have "?p < 256" "nat ((c + 1 + ?p) mod 256) = ?k" using True by (auto simp: now_or_soon_def)
    then have "(c + 1 + ?p - c) mod 256 = 0" by (simp add: eq_nat_nat_iff mod_eq_dvd_iff)
    with True p \<open>?p < 256\<close> show False by simp
  qed
  have "after_callback n t = Some ?t'" using n True ab(2) by (simp add: after_callback_def get_node_def time)
  moreover have "agenda ?t' = rearm c [n] (agenda t)"
    using n True by (intro ext) (auto simp: agenda_def rearm_def)
  ultimately show ?thesis using ab(3) place other n placed_window[OF place]
    by (intro exI[of _ ?t']) (auto split: if_splits)
next
  case False
  obtain t' where t': "MoveTimerNodeToFreeList n t = Some t'" "timers_ok ({n} - {n}) t'"
    "node_list t' = (node_list t)[n := (node_list t ! n)\<lparr>expire_time := 0, interval := 0, cb := None, is_using := False\<rparr>]"
    "free_list t' = removeAll n (free_list t) @ [n]"
    "\<And>i k. wheel_list t' i k = removeAll n (wheel_list t i k)" "cur_time t' = cur_time t" "next_time t' = next_time t"
    using MoveTimerNodeToFreeList_ok[OF ok n] by blast
  have "after_callback n t = Some t'" using n False t'(1) by (simp add: after_callback_def get_node_def)
  moreover have "agenda t' = rearm c [n] (agenda t)"
    using n False by (intro ext) (auto simp: agenda_def rearm_def t'(3))
  ultimately show ?thesis using t' by (intro exI[of _ t']) auto
qed

lemma fire_slot_passive:
  assumes "timers_ok {} t" "cur_time t = c + 1" "wheel_list t 0 (nat (c mod 256)) = ns"
    and "\<And>j l n. n \<in> set (wheel_list t j l) \<Longrightarrow> (j, l) \<noteq> (0, nat (c mod 256)) \<Longrightarrow>
      window (c + 1) j l (expire_time (node_list t ! n))"
    and "\<And>n. n \<in> set ns \<Longrightarrow> interval (node_list t ! n) \<noteq> 255"
  shows "\<exists>t'. fire_slot record_calls (nat (c mod 256)) (w, t) = Some (w @ calls_at c (agenda t) ns, t') \<and>
    timers_ok {} t' \<and> in_windows (c + 1) t' \<and> cur_time t' = c + 1 \<and> next_time t' = next_time t \<and>
    agenda t' = rearm c ns (agenda t)"
  using assms
proof (induction ns arbitrary: t w)
  case Nil
  let ?k = "nat (c mod 256)"
  have "in_windows (c + 1) t" unfolding in_windows_def
  proof (intro allI ballI)
    fix j l n
    assume n: "n \<in> set (wheel_list t j l)"
    then have "(j, l) \<noteq> (0, ?k)" using Nil.prems(3) by auto
    with n show "window (c + 1) j l (expire_time (node_list t ! n))" by (rule Nil.prems(4))
  qed
  then show ?case using Nil.prems by (subst fire_slot.simps) (simp add: calls_at_def rearm_def)
next
  case (Cons n ns)
  let ?k = "nat (c mod 256)"
  let ?t = "set_wheel 0 ?k ns t"
  note pop = timers_ok_pop[OF Cons.prems(1,3)]
  have dist: "n \<notin> set ns" "distinct ns" using timers_okD(2)[OF Cons.prems(1), of 0 ?k] Cons.prems(3) by simp_all
  obtain fn where fn: "cb (node_list t ! n) = Some fn" using timers_okD(10)[OF Cons.prems(1) pop(2,3)] by blast
  have n: "n < length (node_list ?t)" "is_using (node_list ?t ! n)" "cur_time ?t = c + 1" "interval (node_list ?t ! n) \<noteq> 255"
    using pop Cons.prems(2,5) by simp_all
  obtain s where s: "after_callback n ?t = Some s" "timers_ok {} s" "agenda s = rearm c [n] (agenda ?t)"
    "\<And>m. m \<noteq> n \<Longrightarrow> node_list s ! m = node_list ?t ! m" "length (node_list s) = length (node_list ?t)"
    "cur_time s = cur_time ?t" "next_time s = next_time ?t"
    "\<And>j l m. m \<noteq> n \<Longrightarrow> m \<in> set (wheel_list s j l) \<Longrightarrow> m \<in> set (wheel_list ?t j l)"
    "\<And>j l. n \<in> set (wheel_list s j l) \<Longrightarrow>
       window (c + 1) j l (expire_time (node_list s ! n)) \<and> (j, l) \<noteq> (0, ?k)"
    "wheel_list s 0 ?k = removeAll n (wheel_list ?t 0 ?k)"
    using after_callback_passive[OF pop(1) n] by blast
  have ns: "wheel_list s 0 ?k = ns" using s(10) dist(1) by (simp add: removeAll_id)
  have win: "window (c + 1) j l (expire_time (node_list s ! m))"
    if m: "m \<in> set (wheel_list s j l)" "(j, l) \<noteq> (0, ?k)" for j l m
  proof (cases "m = n")
    case False
    then have "m \<in> set (wheel_list t j l)" using s(8)[OF False m(1)] m(2) by auto
    then show ?thesis using Cons.prems(4)[OF _ m(2)] s(4)[OF False] by simp
  qed (use s(9) m in blast)
  have per: "interval (node_list s ! m) \<noteq> 255" if "m \<in> set ns" for m
    using that dist(1) Cons.prems(5)[of m] s(4)[of m] by (cases "m = n") auto
  have time: "cur_time s = c + 1" using s(6) Cons.prems(2) by simp
  obtain t' where t': "fire_slot record_calls ?k (w @ [(fn, c + 1)], s) = Some ((w @ [(fn, c + 1)]) @ calls_at c (agenda s) ns, t')"
    "timers_ok {} t'" "in_windows (c + 1) t'" "cur_time t' = c + 1" "next_time t' = next_time s"
    "agenda t' = rearm c ns (agenda s)"
    using Cons.IH[OF s(2) time ns win per, of "w @ [(fn, c + 1)]"] by blast
  have ag: "agenda ?t = agenda t" by (rule agenda_cong) simp
  have "calls_at c (agenda s) ns = calls_at c (agenda t) ns"
    using dist(1) by (auto simp: calls_at_def s(3) rearm_def ag)
  moreover have "snd (snd (the (agenda t n))) = fn" using pop(2,3) fn by (simp add: agenda_def)
  ultimately have "fire_slot record_calls ?k (w, t) = Some (w @ calls_at c (agenda t) (n # ns), t')"
    using t'(1) s(1) pop(2) fn Cons.prems(2,3) by (subst fire_slot.simps) (simp add: get_node_def calls_at_def)
  moreover have "agenda t' = rearm c (n # ns) (agenda t)"
    using dist(1) by (auto simp: t'(6) s(3) ag rearm_def)
  ultimately show ?case using t'(2-5) s(7) by auto
qed

end
