(* ===== verification/Timers.thy ===== *)
theory Timers
  imports TimerFire
begin

text \<open>
  The timer manager as its clients see it: its reachable states, the identifiers of timers, what
  \<open>Update\<close> calls, and the two uses of callbacks that go wrong.
\<close>

section \<open>A tick and a whole update\<close>

definition timely :: "'cb timers \<Rightarrow> bool" where
  "timely t \<longleftrightarrow> timers_ok {} t \<and> in_windows (cur_time t) t \<and> (\<forall>n e p f. agenda t n = Some (e, p, f) \<longrightarrow> p \<noteq> 255)"

lemma same_nodes_agenda: "same_nodes t t' \<Longrightarrow> agenda t' = agenda t"
  by (rule agenda_cong) (simp add: same_nodes_def)

text \<open>When everything is in its place, the slot that comes up holds exactly what is due.\<close>

lemma slot_due:
  assumes ok: "timers_ok {} t" and place: "all_placed c t"
  shows "set (wheel_list t 0 (nat (c mod 256))) = due c (agenda t)"
proof (intro set_eqI iffI)
  fix n
  assume n: "n \<in> set (wheel_list t 0 (nat (c mod 256)))"
  then have "placed c 0 (nat (c mod 256)) (expire_time (node_list t ! n))" using place by (simp add: all_placed_def)
  then have "expire_time (node_list t ! n) \<le> c" using now_or_soon_due by (auto simp: placed_def)
  then show "n \<in> due c (agenda t)" using timers_okD(3,4)[OF ok n] by (simp add: due_def agenda_Some)
next
  fix n
  assume "n \<in> due c (agenda t)"
  then have n: "n < length (node_list t)" "is_using (node_list t ! n)" "expire_time (node_list t ! n) \<le> c"
    by (auto simp: due_def agenda_Some)
  obtain i k where ik: "n \<in> set (wheel_list t i k)" using timers_okD(7)[OF ok n(1,2)] by blast
  then have p: "placed c i k (expire_time (node_list t ! n))" using place by (simp add: all_placed_def)
  have "i = 0" using placed_later[OF p] n(3) by (cases "i = 0") auto
  moreover from this have "k = nat (c mod 256)" using p n(3) now_or_soon_due by (auto simp: placed_def)
  ultimately show "n \<in> set (wheel_list t 0 (nat (c mod 256)))" using ik by simp
qed

lemma update_tick_eq:
  assumes "(if nat (cur_time t AND TIMER_WHEEL_MASK 0) = 0 then TimerWheelCascade (cur_time t) 1 t else Some t) = Some s"
    and "wheel_ready s"
  shows "update_tick run (w, t) = fire_slot run (nat (cur_time t mod 256)) (w, s\<lparr>cur_time := cur_time s + 1\<rparr>)"
  unfolding update_tick_def Let_def snd_conv fst_conv assms(1)
  by (simp add: assms(2) and_wheel_mask)

lemma update_tick_passive:
  assumes "timely t"
  obtains ns t' where
    "update_tick record_calls (w, t) = Some (w @ calls_at (cur_time t) (agenda t) ns, t')"
    "distinct ns" "set ns = due (cur_time t) (agenda t)" "agenda t' = rearm (cur_time t) ns (agenda t)"
    "cur_time t' = cur_time t + 1" "next_time t' = next_time t" "timely t'"
proof -
  let ?c = "cur_time t" and ?k = "nat (cur_time t mod 256)"
  have ok: "timers_ok {} t" and win: "in_windows ?c t" and per: "\<And>n e p f. agenda t n = Some (e, p, f) \<Longrightarrow> p \<noteq> 255"
    using assms by (auto simp: timely_def)
  obtain s where s: "(if nat (?c AND TIMER_WHEEL_MASK 0) = 0 then TimerWheelCascade ?c 1 t else Some t) = Some s"
    "timers_ok {} s" "same_nodes t s" "all_placed ?c s"
    using tick_cascade[OF ok win refl] by blast
  let ?s = "s\<lparr>cur_time := ?c + 1\<rparr>" and ?ns = "wheel_list s 0 ?k"
  have nodes: "node_list s = node_list t" "cur_time s = ?c" "next_time s = next_time t" using s(3) by (simp_all add: same_nodes_def)
  have ag: "agenda ?s = agenda t" "agenda s = agenda t" by (rule agenda_cong, simp add: nodes)+
  have ns: "set ?ns = due ?c (agenda t)" using slot_due[OF s(2,4)] ag by simp
  have ok': "timers_ok {} ?s" using s(2) by simp
  have win': "window (?c + 1) j l (expire_time (node_list ?s ! n))"
    if n: "n \<in> set (wheel_list ?s j l)" "(j, l) \<noteq> (0, ?k)" for j l n
  proof -
    have p: "placed ?c j l (expire_time (node_list s ! n))" using s(4) n(1) by (simp add: all_placed_def)
    show ?thesis
    proof (cases "j = 0")
      case True
      then have "now_or_soon ?c l (expire_time (node_list s ! n))" "l \<noteq> ?k" using p n(2) by (auto simp: placed_def)
      then have "now_or_soon (?c + 1) l (expire_time (node_list s ! n))"
        using now_or_soon_due now_or_soon_next by (metis not_le)
      with True show ?thesis by (simp add: window_def)
    qed (use placed_next[OF p] in simp)
  qed
  have per': "interval (node_list ?s ! n) \<noteq> 255" if "n \<in> set (wheel_list ?s 0 ?k)" for n
  proof -
    have "n \<in> due ?c (agenda t)" using that ns by simp
    then obtain e p f where "agenda t n = Some (e, p, f)" by (auto simp: due_def)
    then show ?thesis using per[of n e p f] by (simp add: agenda_Some nodes)
  qed
  obtain t' where t': "fire_slot record_calls ?k (w, ?s) = Some (w @ calls_at ?c (agenda ?s) ?ns, t')"
    "timers_ok {} t'" "in_windows (?c + 1) t'" "cur_time t' = ?c + 1" "next_time t' = next_time ?s"
    "agenda t' = rearm ?c ?ns (agenda ?s)"
    using fire_slot_passive[OF ok' _ refl win' per', of w] by auto
  have "update_tick record_calls (w, t) = Some (w @ calls_at ?c (agenda t) ?ns, t')"
    using update_tick_eq[OF s(1) timers_okD(1)[OF s(2)], of record_calls w] t'(1) by (simp add: ag nodes)
  moreover have "p \<noteq> 255" if "agenda t' n = Some (e, p, f)" for n e p f
    using that per by (auto simp: t'(6) ag rearm_def split: if_splits option.splits)
  then have "timely t'" using t' by (auto simp: timely_def)
  ultimately show ?thesis using that[of ?ns t'] ns t' timers_okD(2)[OF s(2)] by (simp add: ag nodes)
qed

lemma update_loop_passive:
  assumes "timely t"
  shows "\<exists>log t'. update_loop record_calls (w, t) = Some (w @ log, t') \<and> timely t' \<and>
    cur_time t' = max (cur_time t) (next_time t) \<and> agenda_run (cur_time t) (agenda t) log (cur_time t') (agenda t')"
  using assms
proof (induction "nat (next_time t - cur_time t)" arbitrary: t w)
  case 0
  then show ?case by (intro exI[of _ "[]"] exI[of _ t]) (simp add: update_loop.simps agenda_run.stop)
next
  case (Suc d)
  obtain ns s where s: "update_tick record_calls (w, t) = Some (w @ calls_at (cur_time t) (agenda t) ns, s)"
    "distinct ns" "set ns = due (cur_time t) (agenda t)" "agenda s = rearm (cur_time t) ns (agenda t)"
    "cur_time s = cur_time t + 1" "next_time s = next_time t" "timely s"
    by (rule update_tick_passive[OF Suc.prems])
  have "d = nat (next_time s - cur_time s)" using Suc.hyps(2) s(5,6) by linarith
  from Suc.hyps(1)[OF this s(7), of "w @ calls_at (cur_time t) (agenda t) ns"] obtain log t' where
    t': "update_loop record_calls (w @ calls_at (cur_time t) (agenda t) ns, s) = Some ((w @ calls_at (cur_time t) (agenda t) ns) @ log, t')"
    "timely t'" "cur_time t' = max (cur_time s) (next_time s)" "agenda_run (cur_time s) (agenda s) log (cur_time t') (agenda t')"
    by blast
  have "agenda_run (cur_time t) (agenda t) (calls_at (cur_time t) (agenda t) ns @ log) (cur_time t') (agenda t')"
    using t'(4) s(4,5) by (intro agenda_run.tick[OF s(2,3)]) simp
  moreover have "cur_time t < next_time t" using Suc.hyps(2) by linarith
  then have "update_loop record_calls (w, t) = Some (w @ calls_at (cur_time t) (agenda t) ns @ log, t')"
    using s(1) t'(1) by (subst update_loop.simps) simp
  ultimately show ?case using t'(2,3) s(5,6) \<open>cur_time t < next_time t\<close>
    by (intro exI[of _ "calls_at (cur_time t) (agenda t) ns @ log"] exI[of _ t']) simp
qed

lemma Timer_Update_passive:
  assumes "timely t"
  shows "\<exists>log t'. Timer_Update record_calls time (w, t) = Some (w @ log, t') \<and> timely t' \<and>
    cur_time t' = max (cur_time t) (time + 1) \<and> agenda_run (cur_time t) (agenda t) log (cur_time t') (agenda t')"
proof (cases "time < cur_time t")
  case True
  then show ?thesis using assms by (intro exI[of _ "[]"] exI[of _ t]) (simp add: Timer_Update_def agenda_run.stop)
next
  case False
  have ag: "agenda (t\<lparr>next_time := time + 1\<rparr>) = agenda t" by (rule agenda_cong) simp
  then have "timely (t\<lparr>next_time := time + 1\<rparr>)" using assms by (simp add: timely_def in_windows_def)
  with update_loop_passive[of "t\<lparr>next_time := time + 1\<rparr>" w] ag False show ?thesis by (simp add: Timer_Update_def)
qed

section \<open>Setting timers\<close>

lemma timer_set_agenda:
  assumes "timer_set t x n t'" "is_using x"
  shows "agenda t' = (agenda t)(n \<mapsto> (expire_time x, interval x, the (cb x)))"
proof
  fix m
  show "agenda t' m = ((agenda t)(n \<mapsto> (expire_time x, interval x, the (cb x)))) m"
    using assms by (cases "m = n") (auto simp: timer_set_def agenda_def nth_append less_Suc_eq)
qed

lemma timer_set_timely:
  assumes "timely t" "timer_set t x n t'" "timers_ok {} t'" "is_using x" "interval x \<noteq> 255"
  shows "timely t'"
proof -
  have ok: "timers_ok {} t" and win: "in_windows (cur_time t) t" using assms(1) by (auto simp: timely_def)
  have time: "cur_time t' = cur_time t" using assms(2) by (simp add: timer_set_def)
  have "window (cur_time t) j l (expire_time (node_list t' ! m))" if m: "m \<in> set (wheel_list t' j l)" for j l m
  proof (cases "m \<in> set (wheel_list t j l)")
    case True
    then have "m \<noteq> n" using timers_okD(3,4)[OF ok True] timer_set_node(6)[OF assms(2)] by blast
    then show ?thesis
      using timer_set_node(4)[OF assms(2) timers_okD(3)[OF ok True]] win True by (simp add: in_windows_def)
  next
    case False
    then have "m = n" "choose_wheel (cur_time t) (expire_time x) = (j, l)"
      using m assms(2) by (auto simp: timer_set_def split: if_splits)
    then show ?thesis using choose_wheel_placed placed_window timer_set_node(2)[OF assms(2)] by metis
  qed
  then have "in_windows (cur_time t') t'" by (simp add: in_windows_def time)
  moreover have "p \<noteq> 255" if "agenda t' m = Some (e, p, f)" for m e p f
    using that assms(1,5) by (auto simp: timer_set_agenda[OF assms(2,4)] timely_def split: if_splits)
  ultimately show ?thesis using assms(3) by (auto simp: timely_def)
qed

lemma timely_Init: "timely (Timer_Init time TimerManager_new)"
proof -
  have "timers_ok {} (Timer_Init time TimerManager_new)"
    by (rule Timer_Init_ok) (simp_all add: TimerManager_new_def)
  then show ?thesis
    by (simp add: timely_def in_windows_def agenda_def Timer_Init_def TimerManager_new_def)
qed

lemma SetTimer_timely:
  assumes "timely t" "period \<noteq> 255"
  obtains i n t' where "SetTimer (Some f) delay period t = Some (i, t')" "timely t'" "cur_time t' = cur_time t"
    "agenda t' = (agenda t)(n \<mapsto> (cur_time t + delay - 1, period, f))"
proof -
  have ok: "timers_ok {} t" using assms(1) by (simp add: timely_def)
  obtain x n t' where s: "SetTimer (Some f) delay period t = Some (node_id x, t')" "timers_ok {} t'" "timer_set t x n t'"
    "expire_time x = cur_time t + delay - 1" "interval x = period" "cb x = Some f" "is_using x"
    by (rule SetTimer_ok[OF ok, of "Some f" delay period]) auto
  have "timely t'" using timer_set_timely[OF assms(1) s(3,2,7)] s(5) assms(2) by simp
  moreover have "cur_time t' = cur_time t" using s(3) by (simp add: timer_set_def)
  ultimately show ?thesis using that[of "node_id x" t' n] s timer_set_agenda[OF s(3,7)] by simp
qed

lemma agenda_run_calls:
  "agenda_run c A log d B \<Longrightarrow> A n = Some (e, p, f) \<Longrightarrow> max c e < d \<Longrightarrow> (f, max c e + 1) \<in> set log"
proof (induction arbitrary: e rule: agenda_run.induct)
  case (tick ns c A log d B)
  show ?case
  proof (cases "e \<le> c")
    case True
    then have "n \<in> set ns" using tick.prems tick.hyps(2) by (auto simp: due_def)
    moreover have "max c e = c" "snd (snd (the (A n))) = f" using True tick.prems by simp_all
    ultimately have "(f, max c e + 1) \<in> set (calls_at c A ns)" by (force simp: calls_at_def)
    then show ?thesis by simp
  next
    case False
    then have "n \<notin> set ns" using tick.prems tick.hyps(2) by (auto simp: due_def)
    then have "rearm c ns A n = Some (e, p, f)" using tick.prems by (simp add: rearm_def)
    from tick.IH[OF this] False tick.prems(2) show ?thesis by simp
  qed
qed simp

lemma agenda_run_not_early:
  "agenda_run c A log d B \<Longrightarrow> (f, time) \<in> set log \<Longrightarrow> c < time \<and> time \<le> d \<and> (\<exists>n e p. A n = Some (e, p, f) \<and> e < time)"
proof (induction rule: agenda_run.induct)
  case (tick ns c A log d B)
  have le: "c + 1 \<le> d" using tick.hyps(3) by (induction rule: agenda_run.induct) auto
  show ?case
  proof (cases "(f, time) \<in> set (calls_at c A ns)")
    case True
    then obtain n where "n \<in> set ns" "f = snd (snd (the (A n)))" "time = c + 1" by (auto simp: calls_at_def)
    moreover from this obtain e p g where "A n = Some (e, p, g)" "e \<le> c" using tick.hyps(2) by (auto simp: due_def)
    ultimately show ?thesis using le by (intro conjI exI[of _ n] exI[of _ e] exI[of _ p]) auto
  next
    case False
    then have "c + 1 < time \<and> time \<le> d \<and> (\<exists>n e p. rearm c ns A n = Some (e, p, f) \<and> e < time)"
      using tick by auto
    then obtain n e p where n: "rearm c ns A n = Some (e, p, f)" "e < time" "c + 1 < time" "time \<le> d" by blast
    show ?thesis
    proof (cases "n \<in> set ns")
      case True
      then obtain e' p' g where "A n = Some (e', p', g)" "e' \<le> c" using tick.hyps(2) by (auto simp: due_def)
      with True n show ?thesis
        by (intro conjI exI[of _ n] exI[of _ e'] exI[of _ p']) (auto simp: rearm_def split: if_splits)
    next
      case False
      with n show ?thesis by (auto simp: rearm_def)
    qed
  qed
qed simp

section \<open>A period of 255\<close>

text \<open>A timer with the period 255 goes back to the slot that is being emptied.\<close>

lemma after_callback_other:
  assumes "after_callback m t = Some t'" "n \<noteq> m" "n \<in> set (wheel_list t j l)"
  shows "n \<in> set (wheel_list t' j l) \<and> node_list t' ! n = node_list t ! n \<and> cur_time t' = cur_time t"
  using assms
  by (auto simp: after_callback_def Option.bind_eq_Some_conv InsertTimerNodeToWheel_def MoveTimerNodeToFreeList_def
      Let_def get_node_def split: if_splits prod.splits)

definition spinning :: "int \<Rightarrow> nat \<Rightarrow> 'cb timers \<Rightarrow> bool" where
  "spinning c n t \<longleftrightarrow> timers_ok {} t \<and> n \<in> set (wheel_list t 0 (nat (c mod 256))) \<and> cur_time t = c + 1 \<and>
     interval (node_list t ! n) = 255"

lemma spinning_step:
  assumes spin: "spinning c n t" and m: "wheel_list t 0 (nat (c mod 256)) = m # rest"
    and step: "after_callback m (set_wheel 0 (nat (c mod 256)) rest t) = Some t'"
  shows "spinning c n t'"
proof -
  let ?k = "nat (c mod 256)" and ?t = "set_wheel 0 (nat (c mod 256)) rest t"
  have ok: "timers_ok {} t" using spin by (simp add: spinning_def)
  note pop = timers_ok_pop[OF ok m]
  have "n < length (node_list ?t)" "m < length (node_list ?t)" using pop(2) spin timers_okD(3)[OF ok] by (auto simp: spinning_def)
  obtain t2 where "after_callback m ?t = Some t2" "timers_ok ({m} - {m}) t2"
    using after_callback_ok[OF pop(1), of m] pop(2) by auto
  then have ok': "timers_ok {} t'" using step by simp
  show ?thesis
  proof (cases "m = n")
    case False
    then have "n \<in> set (wheel_list ?t 0 ?k)" using spin m by (auto simp: spinning_def)
    from after_callback_other[OF step _ this] False ok' spin show ?thesis by (simp add: spinning_def)
  next
    case True
    let ?x = "(node_list t ! n)\<lparr>expire_time := c + 1 + 255\<rparr>"
    have "choose_wheel (c + 1) (c + 1 + 255) = (0, ?k)"
      by (simp add: choose_wheel_def upt_conv_Cons wheel_index_eq drop_offset)
    moreover have "after_callback n ?t = InsertTimerNodeToWheel (c + 1) n (set_node n ?x ?t)"
      using pop True spin by (simp add: after_callback_def get_node_def spinning_def add.assoc)
    ultimately have "t' = set_wheel 0 ?k (removeAll n (wheel_list (set_node n ?x ?t) 0 ?k) @ [n]) (erase_link n (set_node n ?x ?t))"
      using step True pop(2) timers_okD(1)[OF ok] Insert_eq[of "set_node n ?x ?t" n "c + 1" 0 ?k]
      by (simp add: set_node_simps)
    then show ?thesis using ok' spin pop(2) True by (simp add: spinning_def)
  qed
qed

lemma fire_slot_spins:
  assumes "spinning c n t"
  shows "fire_slot record_calls (nat (c mod 256)) (w, t) = None"
proof (rule ccontr)
  assume "fire_slot record_calls (nat (c mod 256)) (w, t) \<noteq> None"
  then obtain s' where s': "fire_slot record_calls (nat (c mod 256)) (w, t) = Some s'" by blast
  have "\<not> spinning c n (snd (w, t))"
  proof (rule fire_slot.raw_induct[where P = "\<lambda>r k s s'. r = record_calls \<longrightarrow> k = nat (c mod 256) \<longrightarrow> \<not> spinning c n (snd s)",
        OF _ s', THEN mp, THEN mp, OF _ refl refl], intro impI notI)
    fix go :: "(('a \<times> int) list, 'a) callback \<Rightarrow> nat \<Rightarrow> ('a \<times> int) list \<times> 'a timers \<Rightarrow> (('a \<times> int) list \<times> 'a timers) option"
      and r k s s'
    assume IH: "\<And>r k s s'. go r k s = Some s' \<Longrightarrow> r = record_calls \<longrightarrow> k = nat (c mod 256) \<longrightarrow> \<not> spinning c n (snd s)"
      and body: "(case wheel_list (snd s) 0 k of [] \<Rightarrow> Some s
        | n # rest \<Rightarrow> get_node (snd s) n \<bind> (\<lambda>x. cb x \<bind> (\<lambda>fn. r fn (fst s, set_wheel 0 k rest (snd s)) \<bind>
            (\<lambda>s. after_callback n (snd s) \<bind> (\<lambda>t. go r k (fst s, t)))))) = Some s'"
      and r: "r = record_calls" "k = nat (c mod 256)" and spin: "spinning c n (snd s)"
    obtain m rest where m: "wheel_list (snd s) 0 (nat (c mod 256)) = m # rest"
      using spin by (cases "wheel_list (snd s) 0 (nat (c mod 256))") (auto simp: spinning_def)
    obtain v t2 where "after_callback m (set_wheel 0 (nat (c mod 256)) rest (snd s)) = Some t2" "go r k (v, t2) = Some s'"
      using body m r by (auto simp: Option.bind_eq_Some_conv)
    with IH[of r k "(v, t2)" s'] spinning_step[OF spin m] r show False by simp
  qed
  with assms show False by simp
qed

end
