(* ===== verification/TimerProps.thy ===== *)
theory TimerProps
  imports Timers
begin

text \<open>
  The properties of the timer manager: what holds in every reachable state, the identifiers, the
  refinement of \<open>Update\<close> to the abstract agenda, and the uses that go wrong.
\<close>

section \<open>Identifiers\<close>

definition ids_ok :: "'cb timers \<Rightarrow> bool" where
  "ids_ok t \<longleftrightarrow> length (node_list t) < 2 ^ 48 \<and>
     (\<forall>n < length (node_list t). drop_bit TIMER_ID_COUNT_BIT (node_id (node_list t ! n)) = of_nat n)"

lemma NextTimerID_index: "drop_bit TIMER_ID_COUNT_BIT (NextTimerID i) = drop_bit TIMER_ID_COUNT_BIT i"
proof (rule bit_word_eqI)
  fix k
  assume "k < LENGTH(64)"
  have "TIMER_ID_COUNT_MASK = mask TIMER_ID_COUNT_BIT"
    by (simp add: TIMER_ID_COUNT_MASK_def mask_eq_exp_minus_1 push_bit_eq_mult)
  then show "bit (drop_bit TIMER_ID_COUNT_BIT (NextTimerID i)) k = bit (drop_bit TIMER_ID_COUNT_BIT i) k"
    unfolding NextTimerID_def \<open>TIMER_ID_COUNT_MASK = mask TIMER_ID_COUNT_BIT\<close>
    by (auto simp: bit_simps TIMER_ID_COUNT_BIT_def dest: bit_imp_le_length)
qed

lemma index_of_id: "n < 2 ^ 48 \<Longrightarrow> drop_bit TIMER_ID_COUNT_BIT (push_bit TIMER_ID_COUNT_BIT (of_nat n) :: timer_id) = of_nat n"
proof (rule bit_word_eqI)
  fix k
  assume n: "n < 2 ^ 48" and k: "k < LENGTH(64)"
  have "\<not> bit n k" if "48 \<le> k"
  proof -
    have "n < 2 ^ k" using n power_increasing[OF that, of "2 :: nat"] by linarith
    then show ?thesis by (simp add: bit_iff_odd)
  qed
  then show "bit (drop_bit TIMER_ID_COUNT_BIT (push_bit TIMER_ID_COUNT_BIT (of_nat n) :: timer_id)) k = bit (of_nat n :: timer_id) k"
    using k by (cases "48 \<le> k") (auto simp: bit_simps TIMER_ID_COUNT_BIT_def)
qed

lemma unat_index: "n < 2 ^ 48 \<Longrightarrow> unat (of_nat n :: timer_id) = n"
  by (simp add: unat_of_nat)

lemma valid_id:
  assumes "drop_bit TIMER_ID_COUNT_BIT i = of_nat n" "n < 2 ^ 48 - 1"
  shows "i \<noteq> TIMER_ID_INVALID"
proof
  assume "i = TIMER_ID_INVALID"
  then have "unat (drop_bit TIMER_ID_COUNT_BIT (TIMER_ID_INVALID)) = n" using assms unat_index[of n] by simp
  moreover have "drop_bit TIMER_ID_COUNT_BIT TIMER_ID_INVALID = (2 ^ 48 - 1 :: timer_id)"
    by (simp add: TIMER_ID_COUNT_BIT_def TIMER_ID_INVALID_def mask_eq_exp_minus_1)
  ultimately show False using assms(2) by simp
qed

lemma FindUsing_node:
  assumes "ids_ok t" "n < length (node_list t)"
  shows "FindUsingTimerNode t (node_id (node_list t ! n)) = (if is_using (node_list t ! n) then Some n else None)"
proof -
  have n: "n < 2 ^ 48 - 1" "drop_bit TIMER_ID_COUNT_BIT (node_id (node_list t ! n)) = of_nat n"
    using assms by (auto simp: ids_ok_def)
  then show ?thesis using valid_id[OF n(2,1)] assms(2) by (simp add: FindUsingTimerNode_def unat_index)
qed

lemma FindUsing_index: "FindUsingTimerNode t i = Some n \<Longrightarrow> n = unat (drop_bit TIMER_ID_COUNT_BIT i)"
  by (auto simp: FindUsingTimerNode_def Let_def split: if_splits)

lemma timer_set_ids:
  assumes "ids_ok t" "timer_set t x n t'" "length (node_list t) < 2 ^ 48 - 1"
  shows "ids_ok t'"
  unfolding ids_ok_def
proof (intro conjI allI impI)
  show "length (node_list t') < 2 ^ 48" using assms by (auto simp: timer_set_def)
  fix m
  assume m: "m < length (node_list t')"
  show "drop_bit TIMER_ID_COUNT_BIT (node_id (node_list t' ! m)) = of_nat m"
  proof (cases "m = n")
    case False
    then show ?thesis using assms(1) timer_set_node(4,5)[OF assms(2)] m by (simp add: ids_ok_def)
  next
    case True
    then show ?thesis using assms by (auto simp: timer_set_def ids_ok_def NextTimerID_index index_of_id)
  qed
qed

text \<open>C26: \<open>SetTimer\<close> returns an identifier that named no timer before and names the new
  one afterwards, so that \<open>LeftTime\<close> is its delay less one, and no other identifier changes its meaning;
  \<open>DelTimer\<close> with that identifier makes it name nothing again.\<close>
theorem timer_id_correct:
  assumes "timers_ok {} t" "ids_ok t" "length (node_list t) < 2 ^ 48 - 1"
  shows "\<exists>i t' t''. SetTimer (Some f) delay period t = Some (i, t') \<and> ids_ok t' \<and>
    LeftTime t i = - 1 \<and> LeftTime t' i = max 0 (delay - 1) \<and> (\<forall>j. j = i \<or> LeftTime t' j = LeftTime t j) \<and>
    DelTimer i t' = Some t'' \<and> LeftTime t'' i = - 1"
proof -
  obtain x n t' where s: "SetTimer (Some f) delay period t = Some (node_id x, t')" "timers_ok {} t'" "timer_set t x n t'"
    "expire_time x = cur_time t + delay - 1" "interval x = period" "cb x = Some f" "is_using x"
    by (rule SetTimer_ok[OF assms(1), of "Some f" delay period]) auto
  note node = timer_set_node[OF s(3)]
  have ids: "ids_ok t'" by (rule timer_set_ids[OF assms(2) s(3) assms(3)])
  have found: "FindUsingTimerNode t' (node_id x) = Some n" using FindUsing_node[OF ids node(1)] node(2) s(7) by simp
  have time: "cur_time t' = cur_time t" using s(3) by (simp add: timer_set_def)
  have before: "FindUsingTimerNode t j = None" if "unat (drop_bit TIMER_ID_COUNT_BIT j) = n" for j
  proof (rule ccontr)
    assume "FindUsingTimerNode t j \<noteq> None"
    then obtain m where m: "FindUsingTimerNode t j = Some m" by blast
    then have "m = n" using FindUsing_index[OF m] that by simp
    then show False using FindUsing_Some[OF m] node(6) by simp
  qed
  have other: "LeftTime t' j = LeftTime t j" if "j \<noteq> node_id x" for j
  proof (cases "unat (drop_bit TIMER_ID_COUNT_BIT j) = n")
    case True
    then have "FindUsingTimerNode t' j = None" using that node(2) by (auto simp: FindUsingTimerNode_def Let_def)
    then show ?thesis using before[OF True] by (simp add: LeftTime_def)
  next
    case False
    have "unat (drop_bit TIMER_ID_COUNT_BIT j) < length (node_list t') \<longleftrightarrow> unat (drop_bit TIMER_ID_COUNT_BIT j) < length (node_list t)"
      using node(3) node(5)[OF _ False] by linarith
    then have "FindUsingTimerNode t' j = FindUsingTimerNode t j"
      using node(4)[OF _ False] by (simp add: FindUsingTimerNode_def Let_def not_le [symmetric] cong: if_cong)
    moreover have "node_list t' ! m = node_list t ! m" if "FindUsingTimerNode t j = Some m" for m
      using node(4)[OF FindUsing_Some(1)[OF that]] FindUsing_index[OF that] False by simp
    ultimately show ?thesis by (simp add: LeftTime_def time split: option.split)
  qed
  obtain t'' where "DelTimer (node_id x) t' = Some t''" "FindUsingTimerNode t'' (node_id x) = None"
    by (rule DelTimer_ok[OF s(2), of "node_id x"])
  moreover have "LeftTime t (node_id x) = - 1"
    using before[of "node_id x"] FindUsing_index[OF found] by (simp add: LeftTime_def)
  moreover have "LeftTime t' (node_id x) = max 0 (delay - 1)"
    using found node(2) s(4) time by (simp add: LeftTime_def Let_def max_def)
  ultimately show ?thesis using s(1) ids other
    by (intro exI[of _ "node_id x"] exI[of _ t'] exI[of _ t'']) (auto simp: LeftTime_def)
qed

definition sample_timers :: "bool timers" where
  "sample_timers = Timer_Init 0 TimerManager_new"

lemma sample_timely: "timely sample_timers"
  by (simp add: sample_timers_def timely_Init)

lemma timer_id_correct_witness:
  "\<exists>i t'. SetTimer (Some True) 5 0 sample_timers = Some (i, t') \<and> LeftTime t' i = 4"
proof -
  have "ids_ok sample_timers \<and> length (node_list sample_timers) < 2 ^ 48 - 1"
    by (simp add: ids_ok_def sample_timers_def Timer_Init_def TimerManager_new_def)
  then show ?thesis
    using timer_id_correct[of sample_timers True 5 0] sample_timely by (auto simp: timely_def)
qed

section \<open>Reachable states\<close>

inductive timer_reach :: "(('cb \<times> int) list \<Rightarrow> 'cb \<Rightarrow> 'cb timer_call list) \<Rightarrow> 'cb timers \<Rightarrow> bool" for script where
  init: "timer_reach script (Timer_Init time TimerManager_new)"
| set_timer: "timer_reach script t \<Longrightarrow> SetTimer fn delay period t = Some (i, t') \<Longrightarrow> timer_reach script t'"
| del_timer: "timer_reach script t \<Longrightarrow> DelTimer i t = Some t' \<Longrightarrow> timer_reach script t'"
| update: "timer_reach script t \<Longrightarrow> Timer_Update (run_script script) time (w, t) = Some (w', t') \<Longrightarrow> timer_reach script t'"

text \<open>C8: in every state that calls from outside and from callbacks lead to, each timer in
  use is in exactly one slot of the wheels, the slots in use exist, the free list holds exactly the
  other nodes, and \<open>SetTimer\<close> and \<open>DelTimer\<close> return.\<close>
theorem timers_reachable_ok:
  assumes "timer_reach script t"
  shows "timers_ok {} t \<and> (\<exists>t'. DelTimer i t = Some t') \<and> (\<exists>j t'. SetTimer (Some f) delay period t = Some (j, t'))"
proof -
  have "timers_ok {} t"
    using assms
  proof induction
    case (init time)
    then show ?case using timely_Init by (auto simp: timely_def)
  next
    case (set_timer t fn delay period i t')
    then show ?case using call_timer_ok[of "CallSetTimer fn delay period" t t' "{}"] by simp
  next
    case (del_timer t i t')
    then show ?case using call_timer_ok[of "CallDelTimer i" t t' "{}"] by simp
  next
    case (update t time w w' t')
    then show ?case using scripted.Timer_Update_ok[of script time "(w, t)" "(w', t')"] by simp
  qed
  then show ?thesis
    using DelTimer_ok[of "{}" t i] SetTimer_ok[of "{}" t "Some f" delay period] by (metis option.distinct(1))
qed

lemma timers_reachable_ok_witness: "\<exists>t'. DelTimer 7 sample_timers = Some t'"
  using timers_reachable_ok[OF timer_reach.init[of "\<lambda>_ _. []" 0], of 7 True 0 0]
  unfolding sample_timers_def by blast

section \<open>What Update calls\<close>

text \<open>C3: for callbacks that leave the manager alone, and a manager whose timers are in the windows of their slots and
  have no period of 255: \<open>Update\<close> returns and runs the agenda: at every tick up to the given time it calls exactly
  the timers that are due, once each, in some order, re-arms the periodic ones and drops the others.\<close>
theorem Timer_Update_refines:
  assumes "timely t"
  shows "\<exists>log t'. Timer_Update record_calls time (w, t) = Some (w @ log, t') \<and> timely t' \<and>
    cur_time t' = max (cur_time t) (time + 1) \<and> agenda_run (cur_time t) (agenda t) log (cur_time t') (agenda t')"
  by (rule Timer_Update_passive[OF assms])

lemma Timer_Update_refines_witness:
  "\<exists>log t'. Timer_Update record_calls 9 ([], sample_timers) = Some (log, t') \<and> cur_time t' = 10"
  using Timer_Update_refines[OF sample_timely, of 9 "[]"]
  by (force simp: sample_timers_def Timer_Init_def)

text \<open>C9: for callbacks that leave the manager alone, and a manager whose timers are in the windows of their slots, no
  timer, the new one included, having the period 255: a timer that is set with a delay is called by the \<open>Update\<close> that
  passes its time, at the tick of that time, whatever its delay and whatever else is set; every call is of a timer
  whose time has come.\<close>
theorem timer_is_called:
  assumes "timely t" "period \<noteq> 255" "cur_time t + max 0 (delay - 1) \<le> time"
  shows "\<exists>i t1 log t'. SetTimer (Some f) delay period t = Some (i, t1) \<and>
    Timer_Update record_calls time ([], t1) = Some (log, t') \<and>
    (f, cur_time t + max 0 (delay - 1) + 1) \<in> set log \<and>
    list_all (\<lambda>(g, c). \<exists>n e p. agenda t1 n = Some (e, p, g) \<and> e < c) log"
proof -
  obtain i n t1 where t1: "SetTimer (Some f) delay period t = Some (i, t1)" "timely t1" "cur_time t1 = cur_time t"
    "agenda t1 = (agenda t)(n \<mapsto> (cur_time t + delay - 1, period, f))"
    by (rule SetTimer_timely[OF assms(1,2)])
  obtain log t' where t': "Timer_Update record_calls time ([], t1) = Some (log, t')"
    "cur_time t' = max (cur_time t1) (time + 1)" "agenda_run (cur_time t1) (agenda t1) log (cur_time t') (agenda t')"
    using Timer_Update_passive[OF t1(2), of time "[]"] by auto
  have "max (cur_time t1) (cur_time t + delay - 1) < cur_time t'" using t1(3) t'(2) assms(3) by linarith
  from agenda_run_calls[OF t'(3) _ this, of n period f]
  have "(f, max (cur_time t1) (cur_time t + delay - 1) + 1) \<in> set log" by (simp add: t1(4))
  moreover have "max (cur_time t1) (cur_time t + delay - 1) = cur_time t + max 0 (delay - 1)" using t1(3) by linarith
  moreover have "list_all (\<lambda>(g, c). \<exists>n e p. agenda t1 n = Some (e, p, g) \<and> e < c) log"
    using agenda_run_not_early[OF t'(3)] by (auto simp: list_all_iff)
  ultimately show ?thesis using t1(1) t'(1) by auto
qed

lemma timer_is_called_witness:
  "\<exists>i t1 log t'. SetTimer (Some True) 300 0 sample_timers = Some (i, t1) \<and>
    Timer_Update record_calls 1000 ([], t1) = Some (log, t') \<and> (True, 301) \<in> set log"
proof -
  have "cur_time sample_timers = 1" by (simp add: sample_timers_def Timer_Init_def)
  then show ?thesis using timer_is_called[OF sample_timely, of 0 300 1000 True] by auto
qed

section \<open>What goes wrong\<close>

text \<open>C27: for callbacks that leave the manager alone, and a manager whose timers are in the windows of their slots: when a
  timer with the period 255 is due, \<open>Update\<close> never returns: the timer goes back to the slot that is being emptied.\<close>
theorem period_255_never_returns:
  assumes "timers_ok {} t" "in_windows (cur_time t) t" "agenda t n = Some (e, 255, f)" "e \<le> cur_time t" "cur_time t \<le> time"
  shows "Timer_Update record_calls time (w, t) = None"
proof -
  let ?t = "t\<lparr>next_time := time + 1\<rparr>" and ?c = "cur_time t"
  have "timers_ok {} ?t" "in_windows ?c ?t" using assms(1,2) by (simp_all add: in_windows_def)
  from tick_cascade[OF this refl] obtain s where
    s: "(if nat (?c AND TIMER_WHEEL_MASK 0) = 0 then TimerWheelCascade ?c 1 ?t else Some ?t) = Some s"
    "timers_ok {} s" "same_nodes ?t s" "all_placed ?c s" by blast
  have nodes: "node_list s = node_list t" "cur_time s = ?c" using s(3) by (simp_all add: same_nodes_def)
  have "n \<in> due ?c (agenda s)" using assms(3,4) by (simp add: due_def agenda_Some nodes)
  then have "n \<in> set (wheel_list s 0 (nat (?c mod 256)))" using slot_due[OF s(2,4)] by simp
  then have "spinning ?c n (s\<lparr>cur_time := ?c + 1\<rparr>)"
    using s(2) assms(3) by (simp add: spinning_def agenda_Some nodes)
  from fire_slot_spins[OF this, of w] have "update_tick record_calls (w, ?t) = None"
    using update_tick_eq[of ?t s record_calls w] s(1) timers_okD(1)[OF s(2)] by (simp add: nodes cong: if_cong)
  then show ?thesis using assms(5) by (simp add: Timer_Update_def update_loop.simps)
qed

lemma period_255_never_returns_witness:
  "(do { (i, t) \<leftarrow> SetTimer (Some True) 0 255 sample_timers; Timer_Update record_calls 5 ([], t) }) = None"
proof -
  have ok: "timers_ok {} sample_timers" "in_windows (cur_time sample_timers) sample_timers"
    using sample_timely by (simp_all add: timely_def)
  obtain x n t where s: "SetTimer (Some True) 0 255 sample_timers = Some (node_id x, t)" "timers_ok {} t"
    "timer_set sample_timers x n t" "expire_time x = cur_time sample_timers + 0 - 1" "interval x = 255" "cb x = Some True" "is_using x"
    by (rule SetTimer_ok[OF ok(1), of "Some True" 0 255]) auto
  have none: "wheel_list sample_timers = (\<lambda>_ _. [])" "cur_time sample_timers = 1"
    by (simp_all add: sample_timers_def Timer_Init_def)
  have "in_windows (cur_time t) t"
    using s(3,4) timer_set_node(2)[OF s(3)] choose_wheel_placed placed_window
    by (auto simp: in_windows_def timer_set_def none split: if_splits)
  moreover have "agenda t n = Some (0, 255, True)" using s(4-7) timer_set_agenda[OF s(3,7)] none by simp
  moreover have "cur_time t = 1" using s(3) none by (simp add: timer_set_def)
  ultimately have "Timer_Update record_calls 5 ([], t) = None"
    using period_255_never_returns[OF s(2)] by simp
  then show ?thesis using s(1) by simp
qed

definition restart_script :: "(bool \<times> int) list \<Rightarrow> bool \<Rightarrow> bool timer_call list" where
  "restart_script log fn = (if fn then [] else [CallDelTimer 0, CallSetTimer (Some True) 10 0])"

definition chain_script :: "(bool \<times> int) list \<Rightarrow> bool \<Rightarrow> bool timer_call list" where
  "chain_script log fn = (if fn then [] else [CallSetTimer (Some True) 256 0])"

text \<open>a callback that deletes its own timer and sets another one loses the new timer: it
  gets the node of the old one, which \<open>Update\<close> frees after the call. And a timer that a callback sets with
  the delay 256 is called in the same tick.\<close>
theorem callback_timers_lost:
  "map_option (\<lambda>(log, t). (log, LeftTime t 1))
     (do { (i, t) \<leftarrow> SetTimer (Some False) 1 0 sample_timers; Timer_Update (run_script restart_script) 20 ([], t) })
     = Some ([(False, 2)], - 1) \<and>
   map_option fst
     (do { (i, t) \<leftarrow> SetTimer (Some False) 1 0 sample_timers; Timer_Update (run_script chain_script) 1 ([], t) })
     = Some [(False, 2), (True, 2)]"
  by code_simp

end
