(* ===== verification/SPSCModel.thy ===== *)
theory SPSCModel
  imports Prelude
begin

text \<open>
  The bounded queue between two threads of include/mzx/spsc_queue.h. The storage is raw memory: a slot
  holds an object between its construction and its destruction, \<open>None\<close> is a slot without one, and
  using such an object has no result. \<open>Product\<close> and \<open>Consume\<close> take a callback of the client, which acts
  on a state \<open>'s\<close> of its own. Here the operations are one call of one thread; theory SPSCThreads runs
  them against each other, one access to memory at a time.

  Four places of the header do not compile for the types it is meant for, and are taken for what they mean: \<open>Pop\<close>
  takes the element where it writes \<open>*tmp\<close>, \<open>Product\<close> constructs one where it writes \<open>tmp.T()\<close>, \<open>Data\<close> casts a pointer to
  characters with a cast that C++ does not have for it, and \<open>Consume\<close> calls the static \<open>ReadAvailable\<close> without its third
  argument, the size.
\<close>

record 'a spsc =
  data :: "nat \<Rightarrow> 'a option"
  max_size :: nat
  read_index :: nat
  write_index :: nat

text \<open>The size is one more than what is asked for, as a \<open>size_t\<close>.\<close>

definition SPSCQueue_new :: "nat \<Rightarrow> 'a spsc option" where
  "SPSCQueue_new n = do {
     let m = (n + 1) mod 2 ^ 64;
     check (m > 1);
     Some \<lparr>data = (\<lambda>_. None), max_size = m, read_index = 0, write_index = 0\<rparr>
   }"

function wrap_index :: "nat \<Rightarrow> nat \<Rightarrow> nat" where
  "wrap_index m index = (if 0 < m \<and> m \<le> index then wrap_index m (index - m) else index)"
  by pat_completeness auto
termination
  by (relation "measure snd") auto

declare wrap_index.simps [simp del]

definition NextIndex :: "'a spsc \<Rightarrow> nat \<Rightarrow> nat" where
  "NextIndex q index = wrap_index (max_size q) (index + 1)"

definition read_available :: "nat \<Rightarrow> nat \<Rightarrow> nat \<Rightarrow> nat" where
  "read_available w r m = (if w \<ge> r then w - r else w + m - r)"

definition write_available :: "nat \<Rightarrow> nat \<Rightarrow> nat \<Rightarrow> nat" where
  "write_available w r m = (if w \<ge> r then m - w + r - 1 else r - w - 1)"

definition ReadAvailable :: "'a spsc \<Rightarrow> nat" where
  "ReadAvailable q = read_available (write_index q) (read_index q) (max_size q)"

definition WriteAvailable :: "'a spsc \<Rightarrow> nat" where
  "WriteAvailable q = write_available (write_index q) (read_index q) (max_size q)"

text \<open>\<open>MaxSize\<close> is declared to return \<open>bool\<close>.\<close>

definition MaxSize :: "'a spsc \<Rightarrow> bool" where
  "MaxSize q = (max_size q \<noteq> 0)"

definition Push :: "'a \<Rightarrow> 'a spsc \<Rightarrow> bool \<times> 'a spsc" where
  "Push x q = (let next = NextIndex q (write_index q) in
     if next = read_index q then (False, q)
     else (True, q\<lparr>data := (data q)(write_index q \<mapsto> x), write_index := next\<rparr>))"

text \<open>\<open>Pop\<close> copies the object out. The source writes \<open>*data = *tmp\<close> for a reference \<open>tmp\<close>, which the
  compiler rejects for the element types in use; \<open>tmp\<close> is meant.\<close>

definition Pop :: "'a spsc \<Rightarrow> ('a option \<times> 'a spsc) option" where
  "Pop q = (if write_index q = read_index q then Some (None, q)
     else do {
       x \<leftarrow> data q (read_index q);
       Some (Some x, q\<lparr>data := (data q)(read_index q := None), read_index := NextIndex q (read_index q)\<rparr>) })"

fun product_loop :: "'a \<Rightarrow> ('s \<times> 'a \<Rightarrow> 's \<times> 'a) \<Rightarrow> nat \<Rightarrow> nat \<Rightarrow> 's \<times> 'a spsc \<Rightarrow> 's \<times> 'a spsc" where
  "product_loop init cb 0 w (s, q) = (s, q\<lparr>write_index := w\<rparr>)"
| "product_loop init cb (Suc num) w (s, q) =
     (let (s, x) = cb (s, init) in
      product_loop init cb num (NextIndex q w) (s, q\<lparr>data := (data q)(w \<mapsto> x)\<rparr>))"

definition Product :: "'a \<Rightarrow> ('s \<times> 'a \<Rightarrow> 's \<times> 'a) \<Rightarrow> nat \<Rightarrow> 's \<times> 'a spsc \<Rightarrow> (nat \<times> 's \<times> 'a spsc) option" where
  "Product init cb num = (\<lambda>(s, q). do {
     check (num > 0);
     let avail = WriteAvailable q;
     if avail = 0 then Some (0, s, q)
     else let num = min num avail in
       Some (num, product_loop init cb num (write_index q) (s, q)) })"

fun consume_loop :: "('s \<Rightarrow> 'a \<Rightarrow> 's) \<Rightarrow> nat \<Rightarrow> nat \<Rightarrow> 's \<times> 'a spsc \<Rightarrow> ('s \<times> 'a spsc) option" where
  "consume_loop cb 0 r (s, q) = Some (s, q\<lparr>read_index := r\<rparr>)"
| "consume_loop cb (Suc num) r (s, q) = do {
     x \<leftarrow> data q r;
     consume_loop cb num (NextIndex q r) (cb s x, q\<lparr>data := (data q)(r := None)\<rparr>) }"

definition Consume :: "('s \<Rightarrow> 'a \<Rightarrow> 's) \<Rightarrow> nat \<Rightarrow> 's \<times> 'a spsc \<Rightarrow> (nat \<times> 's \<times> 'a spsc) option" where
  "Consume cb num = (\<lambda>(s, q). do {
     check (num > 0);
     let avail = ReadAvailable q;
     if avail = 0 then Some (0, s, q)
     else let num = min num avail in
       map_option (Pair num) (consume_loop cb num (read_index q) (s, q)) })"

text \<open>The destructor pops until \<open>Pop\<close> returns false.\<close>

partial_function (option) SPSCQueue_destroy :: "'a spsc \<Rightarrow> 'a spsc option" where
  "SPSCQueue_destroy q = do {
     (out, q) \<leftarrow> Pop q;
     if out = None then Some q else SPSCQueue_destroy q }"

declare SPSCQueue_destroy.simps [code]

section \<open>The contents\<close>

text \<open>The slots from \<open>read_index\<close> on, going round, hold the elements \<open>xs\<close>; the others hold nothing.\<close>

definition spsc_holds :: "'a spsc \<Rightarrow> 'a list \<Rightarrow> bool" where
  "spsc_holds q xs \<longleftrightarrow> 1 < max_size q \<and> read_index q < max_size q \<and> length xs < max_size q \<and>
     write_index q = (read_index q + length xs) mod max_size q \<and>
     (\<forall>i < max_size q. data q ((read_index q + i) mod max_size q) = (if i < length xs then Some (xs ! i) else None))"

lemma wrap_index_mod: "0 < m \<Longrightarrow> wrap_index m i = i mod m"
proof (induction m i rule: wrap_index.induct)
  case (1 m i)
  then show ?case by (cases "m \<le> i") (simp_all add: wrap_index.simps[of m i] le_mod_geq)
qed

lemma NextIndex_mod: "0 < max_size q \<Longrightarrow> NextIndex q i = (i + 1) mod max_size q"
  by (simp add: NextIndex_def wrap_index_mod)

text \<open>Positions counted from \<open>r\<close> going round are distinct.\<close>

lemma ring_index_inj:
  assumes "(r + i) mod m = (r + j) mod m" "i < m" "j < m"
  shows "i = (j :: nat)"
proof -
  obtain a b where "r + i + m * a = r + j + m * b" using assms(1) unfolding nat_mod_eq_iff by blast
  then have "i + m * a = j + m * b" by simp
  then have "i mod m = j mod m" by (metis mod_mult_self2)
  with assms show ?thesis by simp
qed

end
