(* ===== verification/SPSCQueue.thy ===== *)
theory SPSCQueue
  imports SPSCModel
begin

text \<open>
  One call at a time the queue is a bounded first-in first-out queue. The contract that its clients
  use is the locale \<open>bounded_queue\<close>, interpreted here on the code's operations.
\<close>

section \<open>The contract\<close>

locale bounded_queue =
  fixes holds :: "'q \<Rightarrow> 'a list \<Rightarrow> bool"
    and capacity :: "'q \<Rightarrow> nat"
    and push :: "'a \<Rightarrow> 'q \<Rightarrow> bool \<times> 'q"
    and pop :: "'q \<Rightarrow> ('a option \<times> 'q) option"
  assumes push_room: "holds q xs \<Longrightarrow> length xs < capacity q \<Longrightarrow>
      \<exists>q'. push x q = (True, q') \<and> holds q' (xs @ [x]) \<and> capacity q' = capacity q"
    and push_full: "holds q xs \<Longrightarrow> capacity q \<le> length xs \<Longrightarrow> push x q = (False, q)"
    and pop_empty: "holds q [] \<Longrightarrow> pop q = Some (None, q)"
    and pop_Cons: "holds q (x # xs) \<Longrightarrow> \<exists>q'. pop q = Some (Some x, q') \<and> holds q' xs \<and> capacity q' = capacity q"
begin

text \<open>Pushing a list of elements, as far as they fit, and popping a number of them.\<close>

fun push_list :: "'a list \<Rightarrow> 'q \<Rightarrow> 'q" where
  "push_list [] q = q"
| "push_list (x # xs) q = push_list xs (snd (push x q))"

fun pop_list :: "nat \<Rightarrow> 'q \<Rightarrow> ('a option list \<times> 'q) option" where
  "pop_list 0 q = Some ([], q)"
| "pop_list (Suc k) q = do { (x, q) \<leftarrow> pop q; (xs, q) \<leftarrow> pop_list k q; Some (x # xs, q) }"

lemma push_list_holds:
  "holds q xs \<Longrightarrow> length xs \<le> capacity q \<Longrightarrow>
   holds (push_list ys q) (xs @ take (capacity q - length xs) ys) \<and> capacity (push_list ys q) = capacity q"
proof (induction ys arbitrary: q xs)
  case (Cons y ys)
  show ?case
  proof (cases "length xs < capacity q")
    case True
    from push_room[OF Cons.prems(1) this, of y] obtain q' where
      q': "push y q = (True, q')" "holds q' (xs @ [y])" "capacity q' = capacity q" by blast
    have "capacity q - length xs = Suc (capacity q - Suc (length xs))" using True by simp
    with Cons.IH[OF q'(2)] q'(1,3) True show ?thesis by simp
  next
    case False
    then have "push y q = (False, q)" using push_full[OF Cons.prems(1)] by simp
    with Cons.IH[OF Cons.prems] False show ?thesis by simp
  qed
qed simp

lemma pop_list_holds:
  "holds q xs \<Longrightarrow> \<exists>q'. pop_list k q = Some (map Some (take k xs) @ replicate (k - length xs) None, q') \<and>
     holds q' (drop k xs) \<and> capacity q' = capacity q"
proof (induction k arbitrary: q xs)
  case (Suc k)
  show ?case
  proof (cases xs)
    case Nil
    then show ?thesis using Suc.IH[OF Suc.prems] pop_empty[of q] Suc.prems by auto
  next
    case (Cons x ys)
    from pop_Cons[of q x ys] Suc.prems Cons obtain q' where
      q': "pop q = Some (Some x, q')" "holds q' ys" "capacity q' = capacity q" by blast
    with Suc.IH[OF q'(2)] Cons show ?thesis by auto
  qed
qed simp

lemma fifo:
  assumes "holds q []" "length xs \<le> capacity q"
  shows "\<exists>q'. pop_list (length xs) (push_list xs q) = Some (map Some xs, q') \<and> holds q' []"
proof -
  have "holds (push_list xs q) xs" using push_list_holds[OF assms(1), of xs] assms(2) by simp
  from pop_list_holds[OF this, of "length xs"] show ?thesis by auto
qed

end

section \<open>The code keeps the contract\<close>

lemma spsc_holdsD:
  assumes "spsc_holds q xs"
  shows "0 < max_size q" "1 < max_size q" "read_index q < max_size q" "length xs < max_size q"
    "write_index q = (read_index q + length xs) mod max_size q" "write_index q < max_size q"
    "i < max_size q \<Longrightarrow> data q ((read_index q + i) mod max_size q) = (if i < length xs then Some (xs ! i) else None)"
  using assms by (auto simp: spsc_holds_def)

lemma ring_index_eq_iff: "i < m \<Longrightarrow> j < m \<Longrightarrow> (r + i) mod m = (r + j) mod m \<longleftrightarrow> i = (j :: nat)"
  using ring_index_inj by blast

lemma available:
  assumes "spsc_holds q xs"
  shows "ReadAvailable q = length xs" "WriteAvailable q = max_size q - 1 - length xs"
proof -
  have w: "write_index q = (if read_index q + length xs < max_size q then read_index q + length xs
      else read_index q + length xs - max_size q)"
    using spsc_holdsD[OF assms] by (auto simp: mod_if)
  then show "ReadAvailable q = length xs" "WriteAvailable q = max_size q - 1 - length xs"
    using spsc_holdsD(1-4)[OF assms]
    by (auto simp: ReadAvailable_def read_available_def WriteAvailable_def write_available_def)
qed

lemma full_iff:
  assumes "spsc_holds q xs"
  shows "NextIndex q (write_index q) = read_index q \<longleftrightarrow> Suc (length xs) = max_size q"
proof -
  note D = spsc_holdsD[OF assms]
  have "NextIndex q (write_index q) = (read_index q + Suc (length xs)) mod max_size q"
    using D by (simp add: NextIndex_mod mod_Suc_eq)
  moreover have "(read_index q + Suc (length xs)) mod max_size q = read_index q \<longleftrightarrow> Suc (length xs) = max_size q"
  proof (cases "Suc (length xs) = max_size q")
    case False
    then have "Suc (length xs) < max_size q" using D(4) by simp
    from ring_index_eq_iff[OF this D(1), of "read_index q"] D(3) False show ?thesis by simp
  next
    case True
    then show ?thesis using D(3) by (simp only: mod_add_self2 mod_less refl)
  qed
  ultimately show ?thesis by simp
qed

lemma empty_iff:
  assumes "spsc_holds q xs"
  shows "write_index q = read_index q \<longleftrightarrow> xs = []"
proof -
  note D = spsc_holdsD[OF assms]
  from ring_index_eq_iff[OF D(4,1), of "read_index q"] D(3,5) show ?thesis by simp
qed

text \<open>Constructing an object behind the last one, and destroying the first one.\<close>

lemma spsc_holds_store:
  assumes "spsc_holds q xs" "Suc (length xs) < max_size q"
  shows "spsc_holds (q\<lparr>data := (data q)(write_index q \<mapsto> x), write_index := NextIndex q (write_index q)\<rparr>) (xs @ [x])"
proof -
  note D = spsc_holdsD[OF assms(1)]
  have "((data q)(write_index q \<mapsto> x)) ((read_index q + i) mod max_size q) =
      (if i < Suc (length xs) then Some ((xs @ [x]) ! i) else None)" if "i < max_size q" for i
    using D(7)[OF that] ring_index_eq_iff[OF that D(4), of "read_index q"]
    by (auto simp: D(5) nth_append less_Suc_eq)
  then show ?thesis using D assms(2) by (simp add: spsc_holds_def NextIndex_mod mod_Suc_eq)
qed

lemma spsc_holds_remove:
  assumes "spsc_holds q (x # xs)"
  shows "data q (read_index q) = Some x"
    and "spsc_holds (q\<lparr>data := (data q)(read_index q := None), read_index := NextIndex q (read_index q)\<rparr>) xs"
proof -
  note D = spsc_holdsD[OF assms]
  let ?m = "max_size q" and ?r = "read_index q"
  show "data q ?r = Some x" using D(7)[OF D(1)] D(3) by simp
  have "((data q)(?r := None)) ((?r + 1 + i) mod ?m) = (if i < length xs then Some (xs ! i) else None)"
    if i: "i < ?m" for i
  proof (cases "Suc i = ?m")
    case True
    then have "?r + 1 + i = ?r + ?m" by simp
    then have "(?r + 1 + i) mod ?m = ?r" using D(3) by (simp only: mod_add_self2 mod_less)
    then show ?thesis using D(4) True by simp
  next
    case False
    then have "Suc i < ?m" using i by simp
    from D(7)[OF this] ring_index_eq_iff[OF this D(1), of ?r] D(3) show ?thesis by simp
  qed
  then show "spsc_holds (q\<lparr>data := (data q)(?r := None), read_index := NextIndex q ?r\<rparr>) xs"
    using D by (simp add: spsc_holds_def NextIndex_mod mod_simps)
qed

definition spsc_capacity :: "'a spsc \<Rightarrow> nat" where
  "spsc_capacity q = max_size q - 1"

interpretation spsc: bounded_queue spsc_holds spsc_capacity Push Pop
proof
  fix q :: "'a spsc" and xs x
  assume h: "spsc_holds q xs"
  show "\<exists>q'. Push x q = (True, q') \<and> spsc_holds q' (xs @ [x]) \<and> spsc_capacity q' = spsc_capacity q"
    if "length xs < spsc_capacity q"
    using that spsc_holds_store[OF h, of x] full_iff[OF h] by (auto simp: Push_def spsc_capacity_def)
  show "Push x q = (False, q)" if "spsc_capacity q \<le> length xs"
    using that full_iff[OF h] spsc_holdsD(4)[OF h] by (simp add: Push_def spsc_capacity_def)
next
  fix q :: "'a spsc"
  assume "spsc_holds q []"
  then show "Pop q = Some (None, q)" using empty_iff[of q "[]"] by (simp add: Pop_def)
next
  fix q :: "'a spsc" and x xs
  assume h: "spsc_holds q (x # xs)"
  then show "\<exists>q'. Pop q = Some (Some x, q') \<and> spsc_holds q' xs \<and> spsc_capacity q' = spsc_capacity q"
    using spsc_holds_remove[OF h] empty_iff[OF h] by (auto simp: Pop_def spsc_capacity_def)
qed

lemma SPSCQueue_new_holds:
  assumes "0 < n" "n < 2 ^ 64 - 1"
  shows "\<exists>q. SPSCQueue_new n = Some q \<and> spsc_holds q [] \<and> spsc_capacity q = n"
  using assms by (simp add: SPSCQueue_new_def spsc_holds_def spsc_capacity_def)

section \<open>Product and Consume\<close>

text \<open>The elements that \<open>k\<close> calls of the producer's callback make.\<close>

fun produce :: "'a \<Rightarrow> ('s \<times> 'a \<Rightarrow> 's \<times> 'a) \<Rightarrow> nat \<Rightarrow> 's \<Rightarrow> 's \<times> 'a list" where
  "produce init cb 0 s = (s, [])"
| "produce init cb (Suc k) s = (let (s, x) = cb (s, init); (s, xs) = produce init cb k s in (s, x # xs))"

lemma length_produce: "length (snd (produce init cb k s)) = k"
  by (induction k arbitrary: s) (simp_all add: split_beta Let_def)

text \<open>During the loop the index that the other thread sees does not move: the objects made so far are
  those behind it.\<close>

lemma product_loop_holds:
  "spsc_holds (q\<lparr>write_index := w\<rparr>) xs \<Longrightarrow> length xs + k < max_size q \<Longrightarrow>
   \<exists>q'. product_loop init cb k w (s, q) = (fst (produce init cb k s), q') \<and>
     spsc_holds q' (xs @ snd (produce init cb k s)) \<and> max_size q' = max_size q"
proof (induction k arbitrary: s q w xs)
  case (Suc k)
  obtain s1 x where x: "cb (s, init) = (s1, x)" by force
  let ?q = "q\<lparr>data := (data q)(w \<mapsto> x)\<rparr>"
  have next_eq: "NextIndex (q\<lparr>write_index := w\<rparr>) w = NextIndex q w" by (simp add: NextIndex_def)
  have "spsc_holds (?q\<lparr>write_index := NextIndex q w\<rparr>) (xs @ [x])"
    using spsc_holds_store[OF Suc.prems(1), of x] Suc.prems(2) by (simp add: next_eq)
  from Suc.IH[OF this, where s = s1] Suc.prems(2) x show ?case by (auto simp: split_beta Let_def)
qed (auto simp: spsc_holds_def)

lemma consume_loop_holds:
  "spsc_holds (q\<lparr>read_index := r\<rparr>) xs \<Longrightarrow> k \<le> length xs \<Longrightarrow>
   \<exists>q'. consume_loop cb k r (s, q) = Some (foldl cb s (take k xs), q') \<and> spsc_holds q' (drop k xs) \<and>
     max_size q' = max_size q"
proof (induction k arbitrary: s q r xs)
  case (Suc k)
  then obtain x ys where xs: "xs = x # ys" by (cases xs) auto
  let ?q = "q\<lparr>data := (data q)(r := None)\<rparr>"
  have next_eq: "NextIndex (q\<lparr>read_index := r\<rparr>) r = NextIndex q r" by (simp add: NextIndex_def)
  have "spsc_holds (?q\<lparr>read_index := NextIndex q r\<rparr>) ys" "data q r = Some x"
    using spsc_holds_remove[of "q\<lparr>read_index := r\<rparr>" x ys] Suc.prems(1) xs by (simp_all add: next_eq)
  with Suc.IH[where q = ?q and r = "NextIndex q r" and xs = ys and s = "cb s x"] Suc.prems(2) xs show ?case by auto
qed auto

section \<open>The properties of one call\<close>

text \<open>C6: one call at a time the queue refines a bounded list: \<open>Push\<close> appends or reports a full
  queue, \<open>Pop\<close> takes the first element or reports an empty one, and the two counts are right.\<close>
theorem spsc_refines_queue:
  assumes "spsc_holds q xs"
  shows "(if length xs < max_size q - 1 then \<exists>q'. Push x q = (True, q') \<and> spsc_holds q' (xs @ [x])
      else Push x q = (False, q)) \<and>
    (case xs of [] \<Rightarrow> Pop q = Some (None, q) | y # ys \<Rightarrow> \<exists>q'. Pop q = Some (Some y, q') \<and> spsc_holds q' ys) \<and>
    ReadAvailable q = length xs \<and> WriteAvailable q = max_size q - 1 - length xs"
proof (intro conjI)
  show "if length xs < max_size q - 1 then \<exists>q'. Push x q = (True, q') \<and> spsc_holds q' (xs @ [x]) else Push x q = (False, q)"
    using spsc.push_room[OF assms, of x] spsc.push_full[OF assms, of x] unfolding spsc_capacity_def
    by (cases "length xs < max_size q - 1") auto
  show "case xs of [] \<Rightarrow> Pop q = Some (None, q) | y # ys \<Rightarrow> \<exists>q'. Pop q = Some (Some y, q') \<and> spsc_holds q' ys"
  proof (cases xs)
    case Nil
    with spsc.pop_empty[of q] assms show ?thesis by simp
  next
    case (Cons y ys)
    with spsc.pop_Cons[of q y ys] assms show ?thesis by auto
  qed
qed (rule available[OF assms])+

lemma spsc_refines_queue_witness:
  "\<exists>q q'. SPSCQueue_new 3 = Some q \<and> Push True q = (True, q') \<and> spsc_holds q' [True]"
  using SPSCQueue_new_holds[of 3] spsc_refines_queue[of _ "[]" True] by (fastforce simp: spsc_capacity_def)

text \<open>\<open>Product\<close> makes as many elements as are asked for and fit, in the order of its calls,
  and \<open>Consume\<close> passes as many as are asked for and there, in order, and removes them; both return their
  number.\<close>
theorem spsc_batches:
  assumes "spsc_holds q xs" "0 < k"
  shows "(\<exists>q'. Product init cb k (s, q) =
      Some (min k (max_size q - 1 - length xs), fst (produce init cb (min k (max_size q - 1 - length xs)) s), q') \<and>
      spsc_holds q' (xs @ snd (produce init cb (min k (max_size q - 1 - length xs)) s))) \<and>
    (\<exists>q'. Consume g k (s, q) = Some (min k (length xs), foldl g s (take k xs), q') \<and> spsc_holds q' (drop k xs))"
proof (intro conjI)
  have q: "q\<lparr>write_index := write_index q\<rparr> = q" "q\<lparr>read_index := read_index q\<rparr> = q" by simp_all
  note D = spsc_holdsD[OF assms(1)] and av = available[OF assms(1)]
  let ?n = "min k (max_size q - 1 - length xs)"
  show "\<exists>q'. Product init cb k (s, q) = Some (?n, fst (produce init cb ?n s), q') \<and>
      spsc_holds q' (xs @ snd (produce init cb ?n s))"
  proof (cases "WriteAvailable q = 0")
    case True
    then show ?thesis using av assms by (auto simp: Product_def)
  next
    case False
    then have "length xs + ?n < max_size q" using av by simp
    with False product_loop_holds[where q = q and w = "write_index q" and xs = xs and k = ?n and init = init and cb = cb and s = s] show ?thesis
      using av assms D(4) q(1) by (auto simp: Product_def Let_def)
  qed
  show "\<exists>q'. Consume g k (s, q) = Some (min k (length xs), foldl g s (take k xs), q') \<and> spsc_holds q' (drop k xs)"
  proof (cases "xs = []")
    case True
    then show ?thesis using av assms by (auto simp: Consume_def)
  next
    case False
    have "take (min k (length xs)) xs = take k xs" "drop (min k (length xs)) xs = drop k xs"
      by (simp_all add: min_def)
    with consume_loop_holds[where q = q and r = "read_index q" and xs = xs and k = "min k (length xs)" and cb = g and s = s] False show ?thesis
      using av assms q(2) by (auto simp: Consume_def Let_def)
  qed
qed

lemma spsc_batches_witness:
  "\<exists>q q'. SPSCQueue_new 2 = Some q \<and>
     Product 0 (\<lambda>(s, x). (s + 1, s)) 5 (7 :: nat, q) = Some (2, 9, q') \<and> spsc_holds q' [7, 8 :: nat]"
proof -
  obtain q :: "nat spsc" where q: "SPSCQueue_new 2 = Some q" "spsc_holds q []" "max_size q = 3"
    by (auto simp: SPSCQueue_new_def spsc_holds_def)
  from spsc_batches[OF q(2), of 5 0 "\<lambda>(s, x). (s + 1, s)" 7] q(3)
  have "\<exists>q'. Product 0 (\<lambda>(s, x). (s + 1, s)) 5 (7, q) = Some (2, 9, q') \<and> spsc_holds q' [7, 8]"
    by (simp add: eval_nat_numeral)
  with q(1) show ?thesis by blast
qed

end
