(* ===== verification/SPSCThreads.thy ===== *)
theory SPSCThreads
  imports SPSCQueue "HOL-Library.Sublist"
begin

text \<open>
  \<open>Push\<close> on one thread against \<open>Pop\<close> on another. Every access to memory that the two share is a
  step of its own: the loads and stores of the two atomic indices, the construction, the copy and the
  destruction of an object. The indices are the only data both threads write to and read; with the
  acquire and release orders of the source their steps are seen in the order of this interleaving.
  The histories \<open>pushed\<close> and \<open>popped\<close> record what the finished calls did; no step reads them.
\<close>

section \<open>The steps\<close>

text \<open>Where a call of \<open>Push\<close> is: after loading \<open>write_index_\<close>, after finding room, after constructing.\<close>

datatype 'a producer = PIdle | PLoaded 'a nat | PRoom 'a nat | PMade 'a nat

text \<open>Where a call of \<open>Pop\<close> is: after loading \<open>write_index_\<close>, after finding an element, after copying it,
  after destroying it.\<close>

datatype 'a consumer = CIdle | CLoaded nat | CFound nat | CCopied 'a nat | CGone 'a nat

record 'a threads =
  queue :: "'a spsc"
  producer :: "'a producer"
  consumer :: "'a consumer"
  pushed :: "'a list"
  popped :: "'a list"

definition threads_init :: "'a spsc \<Rightarrow> 'a threads" where
  "threads_init q = \<lparr>queue = q, producer = PIdle, consumer = CIdle, pushed = [], popped = []\<rparr>"

inductive thread_step :: "'a threads \<Rightarrow> 'a threads \<Rightarrow> bool" where
  push_load: "producer s = PIdle \<Longrightarrow>
    thread_step s (s\<lparr>producer := PLoaded x (write_index (queue s))\<rparr>)"
| push_full: "producer s = PLoaded x w \<Longrightarrow> NextIndex (queue s) w = read_index (queue s) \<Longrightarrow>
    thread_step s (s\<lparr>producer := PIdle\<rparr>)"
| push_room: "producer s = PLoaded x w \<Longrightarrow> NextIndex (queue s) w \<noteq> read_index (queue s) \<Longrightarrow>
    thread_step s (s\<lparr>producer := PRoom x w\<rparr>)"
| push_make: "producer s = PRoom x w \<Longrightarrow>
    thread_step s (s\<lparr>producer := PMade x w, queue := (queue s)\<lparr>data := (data (queue s))(w \<mapsto> x)\<rparr>\<rparr>)"
| push_store: "producer s = PMade x w \<Longrightarrow>
    thread_step s (s\<lparr>producer := PIdle, queue := (queue s)\<lparr>write_index := NextIndex (queue s) w\<rparr>, pushed := pushed s @ [x]\<rparr>)"
| pop_load: "consumer s = CIdle \<Longrightarrow>
    thread_step s (s\<lparr>consumer := CLoaded (write_index (queue s))\<rparr>)"
| pop_empty: "consumer s = CLoaded w \<Longrightarrow> w = read_index (queue s) \<Longrightarrow>
    thread_step s (s\<lparr>consumer := CIdle\<rparr>)"
| pop_found: "consumer s = CLoaded w \<Longrightarrow> w \<noteq> read_index (queue s) \<Longrightarrow>
    thread_step s (s\<lparr>consumer := CFound (read_index (queue s))\<rparr>)"
| pop_copy: "consumer s = CFound r \<Longrightarrow> data (queue s) r = Some x \<Longrightarrow>
    thread_step s (s\<lparr>consumer := CCopied x r\<rparr>)"
| pop_destroy: "consumer s = CCopied x r \<Longrightarrow>
    thread_step s (s\<lparr>consumer := CGone x r, queue := (queue s)\<lparr>data := (data (queue s))(r := None)\<rparr>\<rparr>)"
| pop_store: "consumer s = CGone x r \<Longrightarrow>
    thread_step s (s\<lparr>consumer := CIdle, queue := (queue s)\<lparr>read_index := NextIndex (queue s) r\<rparr>, popped := popped s @ [x]\<rparr>)"

inductive_cases thread_stepE: "thread_step s s'"

section \<open>The invariant\<close>

text \<open>\<open>buf\<close> is what is pushed and not popped. Its slots hold it, but for the first when the consumer has
  destroyed it; the slot behind it holds an object when the producer has made one.\<close>

fun made_object :: "'a producer \<Rightarrow> 'a option" where
  "made_object (PMade x w) = Some x"
| "made_object _ = None"

fun first_gone :: "'a consumer \<Rightarrow> bool" where
  "first_gone (CGone x r) = True"
| "first_gone _ = False"

definition slot_content :: "'a list \<Rightarrow> 'a producer \<Rightarrow> 'a consumer \<Rightarrow> nat \<Rightarrow> 'a option" where
  "slot_content buf p c i =
     (if i < length buf then (if i = 0 \<and> first_gone c then None else Some (buf ! i))
      else if i = length buf then made_object p else None)"

definition producer_ok :: "'a spsc \<Rightarrow> 'a list \<Rightarrow> 'a producer \<Rightarrow> bool" where
  "producer_ok q buf p \<longleftrightarrow> (case p of PIdle \<Rightarrow> True | PLoaded x w \<Rightarrow> w = write_index q
     | PRoom x w \<Rightarrow> w = write_index q \<and> Suc (length buf) < max_size q
     | PMade x w \<Rightarrow> w = write_index q \<and> Suc (length buf) < max_size q)"

definition consumer_ok :: "'a spsc \<Rightarrow> 'a list \<Rightarrow> 'a consumer \<Rightarrow> bool" where
  "consumer_ok q buf c \<longleftrightarrow> (case c of CIdle \<Rightarrow> True
     | CLoaded w \<Rightarrow> (\<exists>j \<le> length buf. w = (read_index q + j) mod max_size q)
     | CFound r \<Rightarrow> r = read_index q \<and> buf \<noteq> []
     | CCopied x r \<Rightarrow> r = read_index q \<and> buf \<noteq> [] \<and> x = hd buf
     | CGone x r \<Rightarrow> r = read_index q \<and> buf \<noteq> [] \<and> x = hd buf)"

lemma ok_frame [simp]:
  "consumer_ok (q\<lparr>data := d\<rparr>) buf c = consumer_ok q buf c"
  "consumer_ok (q\<lparr>write_index := w\<rparr>) buf c = consumer_ok q buf c"
  "producer_ok (q\<lparr>data := d\<rparr>) buf p = producer_ok q buf p"
  "producer_ok (q\<lparr>read_index := r\<rparr>) buf p = producer_ok q buf p"
  by (cases c; simp add: consumer_ok_def) (cases c; simp add: consumer_ok_def; fail | cases p; simp add: producer_ok_def)+

lemma ok_simps [simp]:
  "producer_ok q buf PIdle" "producer_ok q buf (PLoaded x w) = (w = write_index q)"
  "producer_ok q buf (PRoom x w) = (w = write_index q \<and> Suc (length buf) < max_size q)"
  "producer_ok q buf (PMade x w) = (w = write_index q \<and> Suc (length buf) < max_size q)"
  "consumer_ok q buf CIdle"
  "consumer_ok q buf (CLoaded w) = (\<exists>j \<le> length buf. w = (read_index q + j) mod max_size q)"
  "consumer_ok q buf (CFound r) = (r = read_index q \<and> buf \<noteq> [])"
  "consumer_ok q buf (CCopied x r) = (r = read_index q \<and> buf \<noteq> [] \<and> x = hd buf)"
  "consumer_ok q buf (CGone x r) = (r = read_index q \<and> buf \<noteq> [] \<and> x = hd buf)"
  by (simp_all add: producer_ok_def consumer_ok_def)

definition threads_hold :: "'a threads \<Rightarrow> 'a list \<Rightarrow> bool" where
  "threads_hold s buf \<longleftrightarrow>
     (let q = queue s; m = max_size q; r = read_index q in
      1 < m \<and> r < m \<and> length buf < m \<and> write_index q = (r + length buf) mod m \<and>
      (\<forall>i < m. data q ((r + i) mod m) = slot_content buf (producer s) (consumer s) i) \<and>
      producer_ok q buf (producer s) \<and> consumer_ok q buf (consumer s) \<and> pushed s = popped s @ buf)"

lemma threads_holdD:
  assumes "threads_hold s buf"
  shows "1 < max_size (queue s)" "read_index (queue s) < max_size (queue s)" "length buf < max_size (queue s)"
    "write_index (queue s) = (read_index (queue s) + length buf) mod max_size (queue s)"
    "i < max_size (queue s) \<Longrightarrow>
      data (queue s) ((read_index (queue s) + i) mod max_size (queue s)) = slot_content buf (producer s) (consumer s) i"
    "producer_ok (queue s) buf (producer s)" "consumer_ok (queue s) buf (consumer s)" "pushed s = popped s @ buf"
  using assms by (auto simp: threads_hold_def Let_def)

lemma threads_holdI:
  assumes "1 < max_size (queue s)" "read_index (queue s) < max_size (queue s)" "length buf < max_size (queue s)"
    "write_index (queue s) = (read_index (queue s) + length buf) mod max_size (queue s)"
    "\<And>i. i < max_size (queue s) \<Longrightarrow>
      data (queue s) ((read_index (queue s) + i) mod max_size (queue s)) = slot_content buf (producer s) (consumer s) i"
    "producer_ok (queue s) buf (producer s)" "consumer_ok (queue s) buf (consumer s)" "pushed s = popped s @ buf"
  shows "threads_hold s buf"
  using assms by (simp add: threads_hold_def Let_def)

lemma threads_hold_init:
  assumes "spsc_holds q []"
  shows "threads_hold (threads_init q) []"
  using spsc_holdsD[OF assms]
  by (intro threads_holdI) (auto simp: threads_init_def slot_content_def producer_ok_def consumer_ok_def)

text \<open>A step that only moves a thread on.\<close>

lemma threads_hold_move:
  assumes h: "threads_hold s buf"
    and "made_object p = made_object (producer s)" "first_gone c = first_gone (consumer s)"
    and "producer_ok (queue s) buf p" "consumer_ok (queue s) buf c"
  shows "threads_hold (s\<lparr>producer := p, consumer := c\<rparr>) buf"
  using threads_holdD[OF h] assms(2-5) by (intro threads_holdI) (simp_all add: slot_content_def)

lemma hold_next_full:
  assumes h: "threads_hold s buf"
  shows "NextIndex (queue s) (write_index (queue s)) = (read_index (queue s) + Suc (length buf)) mod max_size (queue s)"
    "Suc (length buf) < max_size (queue s) \<longleftrightarrow> NextIndex (queue s) (write_index (queue s)) \<noteq> read_index (queue s)"
proof -
  note D = threads_holdD[OF h]
  let ?m = "max_size (queue s)" and ?r = "read_index (queue s)"
  show n: "NextIndex (queue s) (write_index (queue s)) = (?r + Suc (length buf)) mod ?m"
    using D(1,4) by (simp add: NextIndex_mod mod_Suc_eq)
  show "Suc (length buf) < ?m \<longleftrightarrow> NextIndex (queue s) (write_index (queue s)) \<noteq> ?r"
  proof (cases "Suc (length buf) < ?m")
    case True
    then have "(?r + Suc (length buf)) mod ?m \<noteq> (?r + 0) mod ?m" using D(1) by (subst ring_index_eq_iff) auto
    with True n D(2) show ?thesis by simp
  next
    case False
    then have "Suc (length buf) = ?m" using D(3) by simp
    then have "NextIndex (queue s) (write_index (queue s)) = ?r" using D(2) unfolding n by (simp only: mod_add_self2 mod_less)
    with False show ?thesis by simp
  qed
qed

lemma hold_make:
  assumes h: "threads_hold s buf" and p: "producer s = PRoom x w"
  shows "threads_hold (s\<lparr>producer := PMade x w, queue := (queue s)\<lparr>data := (data (queue s))(w \<mapsto> x)\<rparr>\<rparr>) buf"
proof -
  note D = threads_holdD[OF h]
  have w: "w = write_index (queue s)" "Suc (length buf) < max_size (queue s)" using D(6) p by simp_all
  have "((data (queue s))(w \<mapsto> x)) ((read_index (queue s) + i) mod max_size (queue s)) =
      slot_content buf (PMade x w) (consumer s) i" if "i < max_size (queue s)" for i
    using D(5)[OF that] ring_index_eq_iff[OF that D(3), of "read_index (queue s)"]
    by (auto simp: w(1) D(4) slot_content_def p)
  with D w show ?thesis by (intro threads_holdI) auto
qed

lemma hold_push_store:
  assumes h: "threads_hold s buf" and p: "producer s = PMade x w"
  shows "threads_hold (s\<lparr>producer := PIdle, queue := (queue s)\<lparr>write_index := NextIndex (queue s) w\<rparr>,
    pushed := pushed s @ [x]\<rparr>) (buf @ [x])"
proof -
  note D = threads_holdD[OF h]
  have w: "w = write_index (queue s)" "Suc (length buf) < max_size (queue s)" using D(6) p by simp_all
  have "slot_content (buf @ [x]) PIdle (consumer s) i = slot_content buf (producer s) (consumer s) i" for i
    using D(7) by (cases "consumer s") (auto simp: slot_content_def p nth_append consumer_ok_def)
  moreover have "consumer_ok (queue s) (buf @ [x]) (consumer s)"
    using D(7) by (auto simp: consumer_ok_def split: consumer.splits intro: le_SucI)
  ultimately show ?thesis using D w hold_next_full(1)[OF h]
    by (intro threads_holdI) auto
qed

lemma hold_copy:
  assumes h: "threads_hold s buf" and c: "consumer s = CFound r" and "data (queue s) r = Some x"
  shows "x = hd buf \<and> buf \<noteq> []"
proof -
  note D = threads_holdD[OF h]
  have "r = read_index (queue s)" "buf \<noteq> []" using D(7) c by simp_all
  with D(2) D(5)[of 0] assms(3) c show ?thesis by (simp add: slot_content_def hd_conv_nth)
qed

lemma hold_destroy:
  assumes h: "threads_hold s buf" and c: "consumer s = CCopied x r"
  shows "threads_hold (s\<lparr>consumer := CGone x r, queue := (queue s)\<lparr>data := (data (queue s))(r := None)\<rparr>\<rparr>) buf"
proof -
  note D = threads_holdD[OF h]
  have r: "r = read_index (queue s)" "buf \<noteq> []" "x = hd buf" using D(7) c by simp_all
  have "((data (queue s))(r := None)) ((read_index (queue s) + i) mod max_size (queue s)) =
      slot_content buf (producer s) (CGone x r) i" if "i < max_size (queue s)" for i
    using D(2) D(5)[OF that] ring_index_eq_iff[OF that, of 0 "read_index (queue s)"] r c
    by (auto simp: slot_content_def)
  with D r show ?thesis by (intro threads_holdI) auto
qed

lemma hold_pop_store:
  assumes h: "threads_hold s buf" and c: "consumer s = CGone x r"
  shows "threads_hold (s\<lparr>consumer := CIdle, queue := (queue s)\<lparr>read_index := NextIndex (queue s) r\<rparr>,
    popped := popped s @ [x]\<rparr>) (tl buf)"
proof -
  note D = threads_holdD[OF h]
  let ?m = "max_size (queue s)"
  have r: "r = read_index (queue s)" "buf \<noteq> []" "x = hd buf" using D(7) c by simp_all
  have n: "NextIndex (queue s) r = (r + 1) mod ?m" using D(1) by (simp add: NextIndex_mod)
  have slots: "data (queue s) (((r + 1) mod ?m + i) mod ?m) = slot_content (tl buf) (producer s) CIdle i" if i: "i < ?m" for i
  proof -
    have "((r + 1) mod ?m + i) mod ?m = (r + Suc i) mod ?m" by (simp add: mod_simps)
    moreover have "data (queue s) ((r + Suc i) mod ?m) = slot_content (tl buf) (producer s) CIdle i"
    proof (cases "Suc i = ?m")
      case True
      then have "(r + Suc i) mod ?m = (r + 0) mod ?m" by simp
      then have "data (queue s) ((r + Suc i) mod ?m) = None"
        using D(5)[of 0] D(1) r c by (simp add: slot_content_def)
      moreover have "slot_content (tl buf) (producer s) CIdle i = None"
        using True D(3,6) r(2) by (cases "producer s") (auto simp: slot_content_def)
      ultimately show ?thesis by simp
    next
      case False
      then have "Suc i < ?m" using i by simp
      from D(5)[OF this] r show ?thesis by (auto simp: slot_content_def nth_tl)
    qed
    ultimately show ?thesis by simp
  qed
  have "producer_ok (queue s) (tl buf) (producer s)" using D(6) by (auto simp: producer_ok_def split: producer.splits)
  moreover have "(r + length buf) mod ?m = ((r + 1) mod ?m + length (tl buf)) mod ?m"
    using r(2) by (cases buf) (simp_all add: mod_simps)
  ultimately show ?thesis using D r n slots
    by (intro threads_holdI) auto
qed

lemma thread_step_hold:
  assumes h: "threads_hold s buf" and "thread_step s s'"
  shows "\<exists>buf'. threads_hold s' buf'"
  using assms(2)
proof cases
  case (push_load x)
  then show ?thesis using threads_hold_move[OF h, of "PLoaded x (write_index (queue s))" "consumer s"] threads_holdD(7)[OF h]
    by auto
next
  case (push_full x w)
  then show ?thesis using threads_hold_move[OF h, of PIdle "consumer s"] threads_holdD(7)[OF h]
    by auto
next
  case (push_room x w)
  then have "w = write_index (queue s)" using threads_holdD(6)[OF h] by (simp add: producer_ok_def)
  then show ?thesis using push_room hold_next_full(2)[OF h] threads_hold_move[OF h, of "PRoom x w" "consumer s"] threads_holdD(7)[OF h]
    by auto
next
  case (pop_load)
  have "consumer_ok (queue s) buf (CLoaded (write_index (queue s)))"
    using threads_holdD(4)[OF h] by (auto simp: consumer_ok_def)
  then show ?thesis using pop_load threads_hold_move[OF h, of "producer s" "CLoaded (write_index (queue s))"] threads_holdD(6)[OF h]
    by auto
next
  case (pop_empty w)
  then show ?thesis using threads_hold_move[OF h, of "producer s" CIdle] threads_holdD(6)[OF h]
    by auto
next
  case (pop_found w)
  then have "buf \<noteq> []" using threads_holdD(2,7)[OF h] by (auto simp: consumer_ok_def)
  then show ?thesis using pop_found threads_hold_move[OF h, of "producer s" "CFound (read_index (queue s))"] threads_holdD(6)[OF h]
    by auto
next
  case (pop_copy r x)
  then show ?thesis
    using hold_copy[OF h] threads_hold_move[OF h, of "producer s" "CCopied x r"] threads_holdD(6,7)[OF h]
    by auto
qed (use hold_make[OF h] hold_push_store[OF h] hold_destroy[OF h] hold_pop_store[OF h] in blast)+

section \<open>The properties of two threads\<close>

abbreviation thread_steps :: "'a threads \<Rightarrow> 'a threads \<Rightarrow> bool" where
  "thread_steps \<equiv> thread_step\<^sup>*\<^sup>*"

lemma thread_steps_hold:
  "thread_steps s s' \<Longrightarrow> threads_hold s buf \<Longrightarrow> \<exists>buf'. threads_hold s' buf'"
  by (induction arbitrary: buf rule: converse_rtranclp_induct) (blast dest: thread_step_hold)+

lemma max_size_step: "thread_step s s' \<Longrightarrow> max_size (queue s') = max_size (queue s)"
  by (erule thread_stepE) simp_all

lemma max_size_steps: "thread_steps s s' \<Longrightarrow> max_size (queue s') = max_size (queue s)"
  by (induction rule: rtranclp_induct) (simp_all add: max_size_step)

text \<open>C4: however a pushing and a popping thread interleave, what is popped is a prefix of what is
  pushed, in the same order, and never more than the capacity is in between.\<close>
theorem spsc_threads_fifo:
  assumes "spsc_holds q []" "thread_steps (threads_init q) s"
  shows "prefix (popped s) (pushed s) \<and> length (pushed s) - length (popped s) < max_size q"
proof -
  obtain buf where h: "threads_hold s buf" using thread_steps_hold[OF assms(2) threads_hold_init[OF assms(1)]] by blast
  have "max_size (queue s) = max_size q" using max_size_steps[OF assms(2)] by (simp add: threads_init_def)
  then show ?thesis using threads_holdD(3,8)[OF h] by simp
qed

text \<open>C23: the two threads never use the same slot at the same time: when the producer constructs
  an object its slot is free, and when the consumer copies or destroys one its slot holds it; so no
  step gets stuck on a slot without an object.\<close>
theorem spsc_threads_safe:
  assumes "spsc_holds q []" "thread_steps (threads_init q) s"
  shows "(case producer s of PRoom x w \<Rightarrow> data (queue s) w = None | _ \<Rightarrow> True) \<and>
    (case consumer s of CFound r \<Rightarrow> data (queue s) r \<noteq> None | CCopied x r \<Rightarrow> data (queue s) r = Some x | _ \<Rightarrow> True) \<and>
    (case (producer s, consumer s) of (PRoom x w, CFound r) \<Rightarrow> w \<noteq> r | (PRoom x w, CCopied y r) \<Rightarrow> w \<noteq> r | _ \<Rightarrow> True)"
proof -
  obtain buf where h: "threads_hold s buf" using thread_steps_hold[OF assms(2) threads_hold_init[OF assms(1)]] by blast
  note D = threads_holdD[OF h]
  let ?m = "max_size (queue s)" and ?r = "read_index (queue s)"
  have w: "w = (?r + length buf) mod ?m \<and> data (queue s) w = None" if "producer s = PRoom x w" for x w
    using that D(6) D(4) D(5)[OF D(3)] by (simp add: producer_ok_def slot_content_def)
  have r: "r = ?r \<and> buf \<noteq> [] \<and> data (queue s) r = Some (hd buf)"
    if "consumer s = CFound r \<or> (\<exists>x. consumer s = CCopied x r)" for r
    using that D(2,7) D(5)[of 0] by (auto simp: consumer_ok_def slot_content_def hd_conv_nth)
  have ne: "(?r + length buf) mod ?m \<noteq> ?r" if "buf \<noteq> []"
    using ring_index_eq_iff[OF D(3), of 0 ?r] D(1,2) that by simp
  show ?thesis
    using w r ne D(7) by (auto simp: consumer_ok_def split: producer.split consumer.split)
qed

text \<open>Running one thread alone is the call of theory SPSCModel.\<close>

definition push_result :: "'a \<Rightarrow> 'a threads \<Rightarrow> 'a threads" where
  "push_result x s = s\<lparr>queue := snd (Push x (queue s)), pushed := pushed s @ (if fst (Push x (queue s)) then [x] else [])\<rparr>"

lemma push_run:
  assumes "producer s = PIdle"
  shows "thread_steps s (push_result x s)"
proof -
  let ?q = "queue s" and ?w = "write_index (queue s)"
  have made: "thread_step t (t\<lparr>producer := PIdle, queue := (queue t)\<lparr>write_index := NextIndex (queue t) w\<rparr>, pushed := pushed t @ [x]\<rparr>)"
    if "producer t = PMade x w" for t w by (rule thread_step.push_store[OF that])
  have room: "thread_step t (t\<lparr>producer := PMade x w, queue := (queue t)\<lparr>data := (data (queue t))(w \<mapsto> x)\<rparr>\<rparr>)"
    if "producer t = PRoom x w" for t w by (rule thread_step.push_make[OF that])
  let ?s1 = "s\<lparr>producer := PLoaded x ?w\<rparr>"
  have load: "thread_step s ?s1" by (rule thread_step.push_load[OF assms])
  show ?thesis
  proof (cases "NextIndex ?q ?w = read_index ?q")
    case True
    then have "thread_step ?s1 (?s1\<lparr>producer := PIdle\<rparr>)" by (intro thread_step.push_full[of _ x ?w]) simp_all
    moreover have "?s1\<lparr>producer := PIdle\<rparr> = push_result x s"
      using assms True by (simp add: push_result_def Push_def)
    ultimately show ?thesis using load by (metis converse_rtranclp_into_rtranclp r_into_rtranclp)
  next
    case False
    let ?s2 = "?s1\<lparr>producer := PRoom x ?w\<rparr>"
    let ?s3 = "?s2\<lparr>producer := PMade x ?w, queue := (queue ?s2)\<lparr>data := (data (queue ?s2))(?w \<mapsto> x)\<rparr>\<rparr>"
    let ?s4 = "?s3\<lparr>producer := PIdle, queue := (queue ?s3)\<lparr>write_index := NextIndex (queue ?s3) ?w\<rparr>, pushed := pushed ?s3 @ [x]\<rparr>"
    have s12: "thread_step ?s1 ?s2" using False by (intro thread_step.push_room) simp_all
    have s23: "thread_step ?s2 ?s3" by (rule room) simp
    have s34: "thread_step ?s3 ?s4" by (rule made) simp
    have "?s4 = push_result x s"
      using assms False by (simp add: push_result_def Push_def Let_def NextIndex_def)
    moreover have "thread_steps s ?s4"
      by (rule converse_rtranclp_into_rtranclp[of thread_step, OF load converse_rtranclp_into_rtranclp[of thread_step, OF s12
            converse_rtranclp_into_rtranclp[of thread_step, OF s23 r_into_rtranclp[of thread_step, OF s34]]]])
    ultimately show ?thesis by simp
  qed
qed

lemma push_ends:
  assumes "p \<in> {PLoaded x w, PRoom x w, PMade x w}"
  shows "\<exists>s'. thread_steps (s\<lparr>producer := p\<rparr>) s' \<and> producer s' = PIdle \<and> consumer s' = consumer s"
proof -
  let ?q = "queue s"
  have made: "thread_step t (t\<lparr>producer := PIdle, queue := (queue t)\<lparr>write_index := NextIndex (queue t) w\<rparr>, pushed := pushed t @ [x]\<rparr>)"
    if "producer t = PMade x w" for t w by (rule thread_step.push_store[OF that])
  have room: "thread_step t (t\<lparr>producer := PMade x w, queue := (queue t)\<lparr>data := (data (queue t))(w \<mapsto> x)\<rparr>\<rparr>)"
    if "producer t = PRoom x w" for t w by (rule thread_step.push_make[OF that])
  have end_made: "\<exists>s'. thread_steps t s' \<and> producer s' = PIdle \<and> consumer s' = consumer t" if "producer t = PMade x w" for t
    using made[OF that] by (intro exI conjI, rule r_into_rtranclp) simp_all
  have end_room: "\<exists>s'. thread_steps t s' \<and> producer s' = PIdle \<and> consumer s' = consumer t" if "producer t = PRoom x w" for t
    using room[OF that] end_made[of "t\<lparr>producer := PMade x w, queue := (queue t)\<lparr>data := (data (queue t))(w \<mapsto> x)\<rparr>\<rparr>"]
    by (auto intro: converse_rtranclp_into_rtranclp)
  from assms consider "p = PLoaded x w" | "p = PRoom x w" | "p = PMade x w" by blast
  then show ?thesis
  proof cases
    case 1
    let ?t = "s\<lparr>producer := p\<rparr>"
    show ?thesis
    proof (cases "NextIndex ?q w = read_index ?q")
      case True
      then have "thread_step ?t (?t\<lparr>producer := PIdle\<rparr>)" using 1 by (intro thread_step.push_full) simp_all
      then show ?thesis by (intro exI[of _ "?t\<lparr>producer := PIdle\<rparr>"]) (simp add: r_into_rtranclp)
    next
      case False
      then have "thread_step ?t (?t\<lparr>producer := PRoom x w\<rparr>)" using 1 by (intro thread_step.push_room) simp_all
      with end_room[of "?t\<lparr>producer := PRoom x w\<rparr>"] show ?thesis by (auto intro: converse_rtranclp_into_rtranclp)
    qed
  qed (use end_room[of "s\<lparr>producer := p\<rparr>"] end_made[of "s\<lparr>producer := p\<rparr>"] in simp_all)
qed

text \<open>a call of \<open>Push\<close> that is not interrupted is a run of the steps of the producer; and a
  call that has begun always ends in the steps of its own thread, whatever the other thread has done.\<close>
theorem spsc_push_steps:
  assumes "producer s = PIdle"
  shows "thread_steps s (push_result x s) \<and> (\<forall>p \<in> {PLoaded x w, PRoom x w, PMade x w}.
    \<exists>s'. thread_steps (s\<lparr>producer := p\<rparr>) s' \<and> producer s' = PIdle \<and> consumer s' = consumer s)"
  by (intro conjI ballI push_run[OF assms]) (erule push_ends)

definition sample_queue :: "bool spsc" where
  "sample_queue = \<lparr>data = (\<lambda>_. None), max_size = 3, read_index = 0, write_index = 0\<rparr>"

lemma sample_queue_holds: "spsc_holds sample_queue []"
  by (simp add: spsc_holds_def sample_queue_def)

text \<open>A finished call of \<open>Push\<close>, and one that has found room.\<close>

lemma sample_idle: "producer (threads_init sample_queue) = PIdle"
  by (simp add: threads_init_def)

lemma sample_room: "thread_steps (threads_init sample_queue) (threads_init sample_queue\<lparr>producer := PRoom True 0\<rparr>)"
proof -
  let ?s = "threads_init sample_queue"
  have load: "thread_step ?s (?s\<lparr>producer := PLoaded True (write_index (queue ?s))\<rparr>)"
    by (rule thread_step.push_load[OF sample_idle])
  have "thread_step (?s\<lparr>producer := PLoaded True 0\<rparr>) (?s\<lparr>producer := PLoaded True 0\<rparr>\<lparr>producer := PRoom True 0\<rparr>)"
    by (rule thread_step.push_room) (simp_all add: threads_init_def sample_queue_def NextIndex_def wrap_index.simps)
  with load show ?thesis
    by (intro converse_rtranclp_into_rtranclp[of thread_step, OF _ r_into_rtranclp[of thread_step]]) (simp_all add: threads_init_def sample_queue_def)
qed

lemma spsc_threads_fifo_witness:
  "\<exists>s. thread_steps (threads_init sample_queue) s \<and> pushed s = [True] \<and> prefix (popped s) [True]"
proof -
  let ?s = "push_result True (threads_init sample_queue)"
  have "pushed ?s = [True]"
    by (simp add: push_result_def Push_def threads_init_def sample_queue_def NextIndex_def wrap_index.simps)
  with spsc_threads_fifo[OF sample_queue_holds push_run[OF sample_idle, of True]] push_run[OF sample_idle, of True]
  show ?thesis by (intro exI[of _ ?s]) simp
qed

lemma spsc_threads_safe_witness:
  "\<exists>s. thread_steps (threads_init sample_queue) s \<and> producer s = PRoom True 0 \<and> data (queue s) 0 = None"
  using spsc_threads_safe[OF sample_queue_holds sample_room] sample_room by force

lemma spsc_push_steps_witness: "\<exists>s'. thread_steps (threads_init sample_queue) s' \<and> pushed s' = [True]"
  using spsc_push_steps[OF sample_idle, of True 0]
  by (intro exI[of _ "push_result True (threads_init sample_queue)"])
    (simp add: push_result_def Push_def threads_init_def sample_queue_def NextIndex_def wrap_index.simps)

end
