(* ===== verification/StringUtil.thy ===== *)
theory StringUtil
  imports Prelude
begin

text \<open>
  The string functions of include/mzx/string/string_util.h on strings as lists of characters. The
  searches of \<open>std::string\<close> return a position or \<open>npos\<close>, which is \<open>None\<close>. Each function has one version
  for a single character and one for a set of characters given as a C string.
\<close>

section \<open>The searches of the standard library\<close>

definition find_first :: "(char \<Rightarrow> bool) \<Rightarrow> string \<Rightarrow> nat \<Rightarrow> nat option" where
  "find_first P str pos = find (\<lambda>i. P (str ! i)) [pos..<length str]"

definition find_last :: "(char \<Rightarrow> bool) \<Rightarrow> string \<Rightarrow> nat option" where
  "find_last P str = find (\<lambda>i. P (str ! i)) (rev [0..<length str])"

definition substr :: "string \<Rightarrow> nat \<Rightarrow> nat \<Rightarrow> string" where
  "substr str pos len = take len (drop pos str)"

section \<open>The functions\<close>



definition TrimLeft_char :: "string \<Rightarrow> char \<Rightarrow> string" where
  "TrimLeft_char str c = (case find_first (\<lambda>x. x \<noteq> c) str 0 of
     Some pos \<Rightarrow> drop pos str | None \<Rightarrow> [])"

definition TrimLeft :: "string \<Rightarrow> string \<Rightarrow> string" where
  "TrimLeft str cs = (case find_first (\<lambda>x. x \<notin> set cs) str 0 of
     Some pos \<Rightarrow> drop pos str | None \<Rightarrow> [])"

definition TrimRight_char :: "string \<Rightarrow> char \<Rightarrow> string" where
  "TrimRight_char str c = (case find_last (\<lambda>x. x \<noteq> c) str of
     Some pos \<Rightarrow> substr str 0 (pos + 1) | None \<Rightarrow> [])"

definition TrimRight :: "string \<Rightarrow> string \<Rightarrow> string" where
  "TrimRight str cs = (case find_last (\<lambda>x. x \<notin> set cs) str of
     Some pos \<Rightarrow> substr str 0 (pos + 1) | None \<Rightarrow> [])"

definition Trim_char :: "string \<Rightarrow> char \<Rightarrow> string" where
  "Trim_char str c = (case find_first (\<lambda>x. x \<noteq> c) str 0 of
       None \<Rightarrow> []
     | Some begin_pos \<Rightarrow> (case find_last (\<lambda>x. x \<noteq> c) str of
         None \<Rightarrow> []
       | Some end_pos \<Rightarrow> if begin_pos > end_pos then [] else substr str begin_pos (end_pos + 1 - begin_pos)))"

definition Trim :: "string \<Rightarrow> string \<Rightarrow> string" where
  "Trim str cs = (case find_first (\<lambda>x. x \<notin> set cs) str 0 of
       None \<Rightarrow> []
     | Some begin_pos \<Rightarrow> (case find_last (\<lambda>x. x \<notin> set cs) str of
         None \<Rightarrow> []
       | Some end_pos \<Rightarrow> if begin_pos > end_pos then [] else substr str begin_pos (end_pos + 1 - begin_pos)))"

lemma find_upt_Some:
  "find P [a..<b] = Some i \<longleftrightarrow> a \<le> i \<and> i < b \<and> P i \<and> (\<forall>j. a \<le> j \<longrightarrow> j < i \<longrightarrow> \<not> P j)"
proof
  assume "find P [a..<b] = Some i"
  then obtain k where k: "k < b - a" "P (a + k)" "i = a + k" "\<forall>j<k. \<not> P (a + j)" by (auto simp: find_Some_iff)
  have "\<not> P j" if "a \<le> j" "j < i" for j using k(3,4) that by (metis add_less_cancel_left le_Suc_ex)
  then show "a \<le> i \<and> i < b \<and> P i \<and> (\<forall>j. a \<le> j \<longrightarrow> j < i \<longrightarrow> \<not> P j)" using k by auto
next
  assume i: "a \<le> i \<and> i < b \<and> P i \<and> (\<forall>j. a \<le> j \<longrightarrow> j < i \<longrightarrow> \<not> P j)"
  then have "i - a < length [a..<b] \<and> P ([a..<b] ! (i - a)) \<and> i = [a..<b] ! (i - a) \<and> (\<forall>j < i - a. \<not> P ([a..<b] ! j))"
    by auto
  then show "find P [a..<b] = Some i" unfolding find_Some_iff by blast
qed

lemma find_first_Some:
  "find_first P str pos = Some i \<longleftrightarrow> pos \<le> i \<and> i < length str \<and> P (str ! i) \<and> (\<forall>j. pos \<le> j \<longrightarrow> j < i \<longrightarrow> \<not> P (str ! j))"
  by (simp add: find_first_def find_upt_Some)

lemma find_first_None: "find_first P str pos = None \<longleftrightarrow> (\<forall>j. pos \<le> j \<longrightarrow> j < length str \<longrightarrow> \<not> P (str ! j))"
  by (auto simp: find_first_def find_None_iff)

text \<open>The loop of \<open>Split\<close>; \<open>stop\<close> says which characters delimit.\<close>

function split_loop :: "(char \<Rightarrow> bool) \<Rightarrow> string \<Rightarrow> nat \<Rightarrow> string list \<Rightarrow> string list" where
  "split_loop stop str prev_pos v =
     (case find_first stop str prev_pos of
        Some pos \<Rightarrow> split_loop stop str (pos + 1) (if pos > prev_pos then v @ [substr str prev_pos (pos - prev_pos)] else v)
      | None \<Rightarrow> if prev_pos < length str then v @ [drop prev_pos str] else v)"
  by pat_completeness auto
termination
  by (relation "measure (\<lambda>(stop, str, prev, v). length str - prev)") (auto simp: find_first_Some)

declare split_loop.simps [simp del]

definition Split_char :: "string \<Rightarrow> char \<Rightarrow> string list" where
  "Split_char str delimiter = split_loop (\<lambda>x. x = delimiter) str 0 []"

definition Split :: "string \<Rightarrow> string \<Rightarrow> string list" where
  "Split str delimiter = split_loop (\<lambda>x. x \<in> set delimiter) str 0 []"

section \<open>Trimming\<close>

lemma dropWhile_all: "\<forall>x \<in> set xs. P x \<Longrightarrow> dropWhile P xs = []"
  by simp

lemma find_first_dropWhile:
  "(case find_first P str 0 of Some pos \<Rightarrow> drop pos str | None \<Rightarrow> []) = dropWhile (\<lambda>x. \<not> P x) str"
proof (cases "find_first P str 0")
  case None
  then have "\<forall>x \<in> set str. \<not> P x" by (auto simp: find_first_None in_set_conv_nth)
  then show ?thesis by (subst dropWhile_all) (simp_all add: None)
next
  case (Some i)
  then have i: "i < length str" "P (str ! i)" "\<And>j. j < i \<Longrightarrow> \<not> P (str ! j)" by (auto simp: find_first_Some)
  have "dropWhile (\<lambda>x. \<not> P x) (take i str @ drop i str) = drop i str"
    using i by (subst dropWhile_append2) (auto simp: in_set_conv_nth Cons_nth_drop_Suc[symmetric])
  with Some show ?thesis by simp
qed

lemma find_last_rev: "find_last P str = map_option (\<lambda>i. length str - 1 - i) (find_first P (rev str) 0)"
proof (cases "find_first P (rev str) 0")
  case None
  then have "\<forall>x \<in> set (rev str). \<not> P x" unfolding find_first_None by (metis in_set_conv_nth le0 length_rev)
  then have "\<forall>x \<in> set str. \<not> P x" by simp
  then have "find_last P str = None" by (auto simp: find_last_def find_None_iff)
  with None show ?thesis by simp
next
  case (Some i)
  then have i: "i < length str" "P (str ! (length str - 1 - i))" "\<And>j. j < i \<Longrightarrow> \<not> P (str ! (length str - 1 - j))"
    by (auto simp: find_first_Some rev_nth)
  have "find_last P str = Some (length str - 1 - i)"
    unfolding find_last_def find_Some_iff using i by (intro exI[of _ i]) (auto simp: rev_nth)
  with Some show ?thesis by simp
qed

lemma find_last_dropWhile:
  "(case find_last P str of Some pos \<Rightarrow> substr str 0 (pos + 1) | None \<Rightarrow> []) = rev (dropWhile (\<lambda>x. \<not> P x) (rev str))"
proof (cases "find_first P (rev str) 0")
  case None
  then show ?thesis using find_first_dropWhile[where P = P and str = "rev str"] by (simp add: find_last_rev)
next
  case (Some i)
  then have "i < length str" by (auto simp: find_first_Some)
  then show ?thesis using find_first_dropWhile[where P = P and str = "rev str", symmetric] Some
    by (simp add: find_last_rev substr_def rev_drop Suc_diff_Suc)
qed

lemma trim_both:
  "(case find_first P str 0 of None \<Rightarrow> [] | Some b \<Rightarrow> (case find_last P str of None \<Rightarrow> []
      | Some e \<Rightarrow> if b > e then [] else substr str b (e + 1 - b))) =
   rev (dropWhile (\<lambda>x. \<not> P x) (rev (dropWhile (\<lambda>x. \<not> P x) str)))"
proof (cases "find_first P str 0")
  case None
  then have "dropWhile (\<lambda>x. \<not> P x) str = []" using find_first_dropWhile[where P = P and str = str] by simp
  then show ?thesis by (simp only: None option.case dropWhile.simps rev.simps)
next
  case (Some b)
  then have b: "b < length str" "P (str ! b)" "\<And>j. j < b \<Longrightarrow> \<not> P (str ! j)" by (auto simp: find_first_Some)
  have d: "dropWhile (\<lambda>x. \<not> P x) str = drop b str" using find_first_dropWhile[where P = P and str = str] Some by simp
  have hit: "\<exists>x \<in> set (rev (drop b str)). P x" using b(1,2) by (simp add: Cons_nth_drop_Suc[OF b(1), symmetric])
  then obtain e where e: "find_last P str = Some e"
    by (cases "find_last P str") (auto simp: find_last_def find_None_iff in_set_conv_nth dest!: in_set_dropD)
  have "rev str = rev (drop b str) @ rev (take b str)" by (simp flip: rev_append)
  then have "dropWhile (\<lambda>x. \<not> P x) (rev str) = dropWhile (\<lambda>x. \<not> P x) (rev (drop b str)) @ rev (take b str)"
    using hit by (metis dropWhile_append1)
  then have eq: "take (e + 1) str = take b str @ rev (dropWhile (\<lambda>x. \<not> P x) (rev (drop b str)))"
    using find_last_dropWhile[where P = P and str = str] e by (simp add: substr_def)
  have "dropWhile (\<lambda>x. \<not> P x) (rev (drop b str)) \<noteq> []" using hit by (simp add: dropWhile_eq_Nil_conv)
  then have "0 < length (rev (dropWhile (\<lambda>x. \<not> P x) (rev (drop b str))))" by simp
  moreover have "length (take (e + 1) str) = b + length (rev (dropWhile (\<lambda>x. \<not> P x) (rev (drop b str))))"
    unfolding eq using b(1) by simp
  moreover have "length (take (e + 1) str) \<le> e + 1" by simp
  ultimately have "b \<le> e" by linarith
  moreover have "substr str b (e + 1 - b) = drop b (take (e + 1) str)" by (simp add: substr_def drop_take)
  then have "substr str b (e + 1 - b) = rev (dropWhile (\<lambda>x. \<not> P x) (rev (drop b str)))"
    unfolding eq using b(1) by simp
  ultimately show ?thesis using Some e d by simp
qed

text \<open>Each trimming function is the removal of the longest such ends.\<close>

lemmas trim_defs = TrimLeft_char_def TrimLeft_def TrimRight_char_def TrimRight_def Trim_char_def Trim_def

lemma Trim_dropWhile:
  "TrimLeft str cs = dropWhile (\<lambda>x. x \<in> set cs) str"
  "TrimRight str cs = rev (dropWhile (\<lambda>x. x \<in> set cs) (rev str))"
  "Trim str cs = rev (dropWhile (\<lambda>x. x \<in> set cs) (rev (dropWhile (\<lambda>x. x \<in> set cs) str)))"
  "TrimLeft_char str c = TrimLeft str [c]" "TrimRight_char str c = TrimRight str [c]" "Trim_char str c = Trim str [c]"
  unfolding trim_defs find_first_dropWhile find_last_dropWhile trim_both by simp_all

section \<open>Splitting\<close>

text \<open>The reference: drop delimiters, take a word, go on.\<close>

function tokens :: "(char \<Rightarrow> bool) \<Rightarrow> string \<Rightarrow> string list" where
  "tokens stop str = (case dropWhile stop str of [] \<Rightarrow> []
     | x # xs \<Rightarrow> takeWhile (\<lambda>c. \<not> stop c) (x # xs) # tokens stop (dropWhile (\<lambda>c. \<not> stop c) (x # xs)))"
  by pat_completeness auto
termination
proof (relation "measure (\<lambda>(stop, str). length str)", simp)
  fix stop str x xs
  assume *: "dropWhile stop str = x # xs"
  then have "\<not> stop x" by (simp add: dropWhile_eq_Cons_conv)
  then have "length (dropWhile (\<lambda>c. \<not> stop c) (x # xs)) \<le> length xs" by (simp add: length_dropWhile_le)
  also have "length xs < length str" using * length_dropWhile_le[of stop str] by simp
  finally show "((stop, dropWhile (\<lambda>c. \<not> stop c) (x # xs)), stop, str) \<in> measure (\<lambda>(stop, str). length str)" by simp
qed

declare tokens.simps [simp del]

lemma tokens_Nil [simp]: "tokens stop [] = []"
  by (simp add: tokens.simps)

lemma tokens_stop [simp]: "stop c \<Longrightarrow> tokens stop (c # str) = tokens stop str"
  by (subst (1 2) tokens.simps) simp

lemma tokens_word: "w \<noteq> [] \<Longrightarrow> \<forall>c \<in> set w. \<not> stop c \<Longrightarrow> (rest = [] \<or> stop (hd rest)) \<Longrightarrow>
    tokens stop (w @ rest) = w # tokens stop rest"
proof -
  assume w: "w \<noteq> []" "\<forall>c \<in> set w. \<not> stop c" and rest: "rest = [] \<or> stop (hd rest)"
  then obtain c cs where c: "w = c # cs" by (cases w) auto
  have "dropWhile stop (w @ rest) = w @ rest" using c w by simp
  moreover have "takeWhile (\<lambda>c. \<not> stop c) (w @ rest) = w" "dropWhile (\<lambda>c. \<not> stop c) (w @ rest) = rest"
    using w rest by (cases rest; simp)+
  ultimately show ?thesis using c by (subst tokens.simps) simp
qed

lemma split_loop_tokens: "split_loop stop str prev v = v @ tokens stop (drop prev str)"
proof (induction stop str prev v rule: split_loop.induct)
  case (1 stop str prev v)
  show ?case
  proof (cases "find_first stop str prev")
    case None
    then have none: "\<forall>c \<in> set (drop prev str). \<not> stop c" by (auto simp: find_first_None in_set_conv_nth)
    show ?thesis
    proof (cases "prev < length str")
      case True
      then have "tokens stop (drop prev str) = [drop prev str]" using tokens_word[OF _ none, of "[]"] by simp
      with None True show ?thesis by (simp add: split_loop.simps[of stop str prev])
    qed (use None in \<open>simp add: split_loop.simps[of stop str prev]\<close>)
  next
    case (Some pos)
    then have pos: "prev \<le> pos" "pos < length str" "stop (str ! pos)" "\<And>j. prev \<le> j \<Longrightarrow> j < pos \<Longrightarrow> \<not> stop (str ! j)"
      by (auto simp: find_first_Some)
    let ?w = "substr str prev (pos - prev)"
    have split: "drop prev str = ?w @ str ! pos # drop (pos + 1) str"
      using pos(1,2) by (simp add: substr_def Cons_nth_drop_Suc) (metis append_take_drop_id drop_drop le_add_diff_inverse2)
    have word: "\<forall>c \<in> set ?w. \<not> stop c"
    proof
      fix c
      assume "c \<in> set ?w"
      then obtain k where "k < pos - prev" "c = str ! (prev + k)" using pos(2) by (auto simp: substr_def in_set_conv_nth)
      with pos(4)[of "prev + k"] show "\<not> stop c" by simp
    qed
    have "tokens stop (drop prev str) = (if pos > prev then [?w] else []) @ tokens stop (drop (pos + 1) str)"
    proof (cases "pos > prev")
      case True
      then have "?w \<noteq> []" using pos(2) by (simp add: substr_def)
      from tokens_word[OF this word, of "str ! pos # drop (pos + 1) str"] pos(3) True show ?thesis by (simp add: split)
    next
      case False
      then show ?thesis using pos(1,3) by (subst split) (simp add: substr_def)
    qed
    with "1.IH"[OF Some] Some show ?thesis by (simp add: split_loop.simps[of stop str prev])
  qed
qed

lemma Split_tokens: "Split str ds = tokens (\<lambda>c. c \<in> set ds) str" "Split_char str d = Split str [d]"
  by (simp_all add: Split_def Split_char_def split_loop_tokens)


section \<open>The properties\<close>

text \<open>\<open>Trim\<close> cuts the text into three parts, of which the outer ones consist of characters to
  trim and the inner one, the result, begins and ends with another character unless it is empty.\<close>
theorem Trim_correct:
  "\<exists>l r. str = l @ Trim str cs @ r \<and> list_all (\<lambda>c. c \<in> set cs) (l @ r) \<and>
    (Trim str cs = [] \<or> hd (Trim str cs) \<notin> set cs \<and> List.last (Trim str cs) \<notin> set cs)"
proof -
  let ?P = "\<lambda>x. x \<in> set cs"
  define m where "m = dropWhile ?P str"
  have t: "Trim str cs = rev (dropWhile ?P (rev m))" by (simp add: Trim_dropWhile m_def)
  have m: "m = Trim str cs @ rev (takeWhile ?P (rev m))"
    unfolding t by (metis rev_append rev_rev_ident takeWhile_dropWhile_id)
  have "str = takeWhile ?P str @ Trim str cs @ rev (takeWhile ?P (rev m))"
    using m by (metis m_def takeWhile_dropWhile_id)
  moreover have "list_all ?P (takeWhile ?P str @ rev (takeWhile ?P (rev m)))"
    by (auto simp: list_all_iff dest: set_takeWhileD)
  moreover have "hd (Trim str cs) \<notin> set cs \<and> List.last (Trim str cs) \<notin> set cs" if ne: "Trim str cs \<noteq> []"
  proof
    have "m \<noteq> []" using ne t by (cases m) auto
    then have "hd m \<notin> set cs" using hd_dropWhile[of ?P str] by (simp add: m_def)
    then show "hd (Trim str cs) \<notin> set cs" using m ne by (metis hd_append2)
    show "List.last (Trim str cs) \<notin> set cs" using ne hd_dropWhile[of ?P "rev m"] by (simp add: t last_rev)
  qed
  ultimately show ?thesis by blast
qed



text \<open>the versions for one character are the versions for a set of one character, and
  \<open>Split\<close> is the reference that takes words one after the other.\<close>
theorem string_overloads_agree:
  "TrimLeft_char str c = TrimLeft str [c] \<and> TrimRight_char str c = TrimRight str [c] \<and>
   Trim_char str c = Trim str [c] \<and> Split_char str c = Split str [c] \<and>
   Trim str cs = TrimRight (TrimLeft str cs) cs \<and> Split str cs = tokens (\<lambda>x. x \<in> set cs) str"
  by (simp add: Trim_dropWhile Split_tokens)

end
