(* ===== verification/Utf8.thy ===== *)
theory Utf8
  imports Prelude
begin

text \<open>
  UTF-8 strings: include/mzx/string/utf8_string.h and src/string/utf8_string.cpp, and the tests of
  characters of src/string/unicode_util.cpp. A string is its bytes. A pointer into a string is what
  follows it, and a C string ends before the first zero byte. \<open>char\<close> is signed on the platforms of the
  build files, so a byte is compared as its signed value where the source compares a \<open>char\<close>.
\<close>

type_synonym byte = "8 word"

section \<open>Utf8String\<close>

record utf8_string =
  bytes :: "byte list"
  offset_list :: "nat list"

definition is_start :: "byte \<Rightarrow> bool" where
  "is_start c = (c \<le> 0x7F \<or> c \<ge> 0xC0)"

definition c_string :: "byte list \<Rightarrow> byte list" where
  "c_string p = takeWhile (\<lambda>c. c \<noteq> 0) p"

definition UpdateOffset :: "utf8_string \<Rightarrow> utf8_string" where
  "UpdateOffset u = (if bytes u = [] then u
     else u\<lparr>offset_list := fold (\<lambda>i os. if is_start (bytes u ! i) then os @ [i] else os) [0..<length (bytes u)] []\<rparr>)"

definition Utf8String_empty :: utf8_string where
  "Utf8String_empty = \<lparr>bytes = [], offset_list = []\<rparr>"

definition Utf8String :: "byte list \<Rightarrow> utf8_string" where
  "Utf8String s = UpdateOffset (Utf8String_empty\<lparr>bytes := s\<rparr>)"

definition Utf8String_c :: "byte list \<Rightarrow> utf8_string" where
  "Utf8String_c p = UpdateOffset (Utf8String_empty\<lparr>bytes := c_string p\<rparr>)"

definition Utf8String_n :: "byte list \<Rightarrow> nat \<Rightarrow> utf8_string" where
  "Utf8String_n p len = UpdateOffset (Utf8String_empty\<lparr>bytes := take len p\<rparr>)"

text \<open>\<open>CharAt\<close> returns the pointer and writes the length.\<close>

definition CharAt :: "utf8_string \<Rightarrow> nat \<Rightarrow> (byte list \<times> nat) option" where
  "CharAt u index = (if index \<ge> length (offset_list u) then None
     else Some (drop (offset_list u ! index) (bytes u),
       if index + 1 \<ge> length (offset_list u) then length (bytes u) - offset_list u ! index
       else offset_list u ! (index + 1) - offset_list u ! index))"

definition Substring :: "utf8_string \<Rightarrow> nat \<Rightarrow> nat \<Rightarrow> byte list" where
  "Substring u index len =
     (if len = 0 \<or> index \<ge> length (offset_list u) then []
      else if length (offset_list u) - index \<le> len then c_string (drop (offset_list u ! index) (bytes u))
      else take (offset_list u ! (index + len) - offset_list u ! index) (drop (offset_list u ! index) (bytes u)))"

definition Utf8Substring :: "utf8_string \<Rightarrow> nat \<Rightarrow> nat \<Rightarrow> utf8_string" where
  "Utf8Substring u index len =
     (if len = 0 \<or> index \<ge> length (offset_list u) then Utf8String_empty
      else if length (offset_list u) - index \<le> len then Utf8String_c (drop (offset_list u ! index) (bytes u))
      else Utf8String_n (drop (offset_list u ! index) (bytes u)) (offset_list u ! (index + len) - offset_list u ! index))"

definition Utf8_Length :: "utf8_string \<Rightarrow> nat" where
  "Utf8_Length u = length (offset_list u)"

definition Utf8_at :: "utf8_string \<Rightarrow> nat \<Rightarrow> byte list" where
  "Utf8_at u index =
     (if index \<ge> length (offset_list u) then []
      else if index + 1 \<ge> length (offset_list u)
      then take (length (bytes u) - offset_list u ! index) (drop (offset_list u ! index) (bytes u))
      else take (offset_list u ! (index + 1) - offset_list u ! index) (drop (offset_list u ! index) (bytes u)))"

definition Utf8_plus :: "utf8_string \<Rightarrow> byte list \<Rightarrow> utf8_string" where
  "Utf8_plus u s = Utf8String (bytes u @ s)"

definition Utf8_plus_utf8 :: "utf8_string \<Rightarrow> utf8_string \<Rightarrow> utf8_string" where
  "Utf8_plus_utf8 u v = Utf8String (bytes u @ bytes v)"

definition Utf8_Length_static :: "byte list \<Rightarrow> nat" where
  "Utf8_Length_static s = fold (\<lambda>c n. if is_start c then n + 1 else n) s 0"

section \<open>unicode_util\<close>

text \<open>The callback \<open>cb\<close> acts on a state of the client and says whether to go on.\<close>

function foreach_loop :: "byte list \<Rightarrow> ('s \<Rightarrow> byte list \<Rightarrow> 's \<times> bool) \<Rightarrow> nat \<Rightarrow> nat \<Rightarrow> 's \<Rightarrow> 's" where
  "foreach_loop str cb pos prev_pos s =
     (if pos < length str then
        (if is_start (str ! pos) \<and> prev_pos \<noteq> pos then
           (let (s, go) = cb s (take (pos - prev_pos) (drop prev_pos str)) in
            if \<not> go then s else foreach_loop str cb (pos + 1) pos s)
         else foreach_loop str cb (pos + 1) prev_pos s)
      else if prev_pos \<noteq> pos then fst (cb s (take (pos - prev_pos) (drop prev_pos str)))
      else s)"
  by pat_completeness auto
termination
  by (relation "measure (\<lambda>(str, cb, pos, prev, s). length str - pos)") auto

declare foreach_loop.simps [simp del]

definition ForeachUtf8Char :: "byte list option \<Rightarrow> ('s \<Rightarrow> byte list \<Rightarrow> 's \<times> bool) option \<Rightarrow> 's \<Rightarrow> 's" where
  "ForeachUtf8Char str cb s = (case (str, cb) of
     (Some p, Some f) \<Rightarrow> foreach_loop (c_string p) f 0 0 s | _ \<Rightarrow> s)"

definition CalculateUtf8Value :: "byte list \<Rightarrow> 64 word" where
  "CalculateUtf8Value str = foldl (\<lambda>val c. push_bit 8 val + ucast c) 0 str"

definition IsChineseUtf8Char :: "byte list \<Rightarrow> bool" where
  "IsChineseUtf8Char str = (if length str \<noteq> 3 then False
     else let val = CalculateUtf8Value str in val \<ge> 0xE4B880 \<and> val \<le> 0xE9BEA5)"

definition IsEngLishUtf8Char :: "byte list \<Rightarrow> bool" where
  "IsEngLishUtf8Char str = (if length str \<noteq> 1 then False
     else let c = sint (str ! 0) in (c \<ge> 97 \<and> c \<le> 122) \<or> (c \<ge> 65 \<and> c \<le> 122))"

definition IsNumberUtf8Char :: "byte list \<Rightarrow> bool" where
  "IsNumberUtf8Char str = (if length str \<noteq> 1 then False
     else let c = sint (str ! 0) in c \<ge> 48 \<and> c \<le> 57)"

definition IsAsciiUtf8Char :: "byte list \<Rightarrow> bool" where
  "IsAsciiUtf8Char str = (if length str \<noteq> 1 then False else sint (str ! 0) \<le> 0x7F)"

section \<open>Characters\<close>

text \<open>The reference: a character is a byte and the continuation bytes behind it.\<close>

function utf8_chars :: "byte list \<Rightarrow> byte list list" where
  "utf8_chars [] = []"
| "utf8_chars (b # bs) = (b # takeWhile (\<lambda>c. \<not> is_start c) bs) # utf8_chars (dropWhile (\<lambda>c. \<not> is_start c) bs)"
  by pat_completeness auto
termination
  by (relation "measure length") (auto simp: length_dropWhile_le le_imp_less_Suc)

lemma concat_utf8_chars [simp]: "concat (utf8_chars bs) = bs"
  by (induction bs rule: utf8_chars.induct) simp_all

lemma utf8_chars_append:
  assumes "list_all (\<lambda>c. \<not> is_start c) cs" "bs = [] \<or> is_start (hd bs)"
  shows "utf8_chars (b # cs @ bs) = (b # cs) # utf8_chars bs"
proof -
  have "takeWhile (\<lambda>c. \<not> is_start c) (cs @ bs) = cs" "dropWhile (\<lambda>c. \<not> is_start c) (cs @ bs) = bs"
    using assms by (cases bs; simp add: list_all_iff)+
  then show ?thesis by simp
qed

definition char_starts :: "byte list list \<Rightarrow> nat list" where
  "char_starts cs = map (\<lambda>i. length (concat (take i cs))) [0..<length cs]"

lemma char_starts_Cons: "char_starts (c # cs) = 0 # map ((+) (length c)) (char_starts cs)"
  by (simp add: char_starts_def upt_conv_Cons map_Suc_upt[symmetric] del: upt_Suc map_Suc_upt)

lemma fold_filter_append: "fold (\<lambda>i os. if P i then os @ [i] else os) is os = os @ filter P is"
  by (induction "is" arbitrary: os) simp_all

definition starts_from :: "nat \<Rightarrow> byte list \<Rightarrow> nat list" where
  "starts_from k bs = map ((+) k) (filter (\<lambda>i. is_start (bs ! i)) [0..<length bs])"

lemma starts_from_Nil [simp]: "starts_from k [] = []"
  by (simp add: starts_from_def)

lemma starts_from_Cons: "starts_from k (b # bs) = (if is_start b then [k] else []) @ starts_from (Suc k) bs"
proof -
  have "filter (\<lambda>i. is_start ((b # bs) ! i)) [0..<Suc (length bs)] =
      (if is_start b then [0] else []) @ map Suc (filter (\<lambda>i. is_start (bs ! i)) [0..<length bs])"
    by (simp add: upt_conv_Cons map_Suc_upt[symmetric] filter_map comp_def del: upt_Suc map_Suc_upt)
  then show ?thesis by (simp add: starts_from_def del: upt_Suc)
qed

lemma starts_from_chars: "bs = [] \<or> is_start (hd bs) \<Longrightarrow> starts_from k bs = map ((+) k) (char_starts (utf8_chars bs))"
proof (induction bs arbitrary: k rule: utf8_chars.induct)
  case (2 b bs)
  let ?cont = "takeWhile (\<lambda>c. \<not> is_start c) bs" and ?rest = "dropWhile (\<lambda>c. \<not> is_start c) bs"
  have skip: "starts_from k (cs @ ds) = starts_from (k + length cs) ds" if "list_all (\<lambda>c. \<not> is_start c) cs" for k cs ds
    using that by (induction cs arbitrary: k) (simp_all add: starts_from_Cons)
  have "starts_from (Suc k) bs = starts_from (Suc k + length ?cont) ?rest"
    using skip[of ?cont "Suc k" ?rest] by (simp add: list_all_iff) (metis set_takeWhileD)
  moreover have "?rest = [] \<or> is_start (hd ?rest)" using hd_dropWhile[of "\<lambda>c. \<not> is_start c" bs] by blast
  ultimately show ?case using "2.IH"[of "Suc k + length ?cont"] "2.prems"
    by (simp add: starts_from_Cons char_starts_Cons comp_def add.assoc)
qed (simp add: char_starts_def)

lemma offset_list_chars:
  assumes "bs = [] \<or> is_start (hd bs)"
  shows "offset_list (Utf8String bs) = char_starts (utf8_chars bs)" "bytes (Utf8String bs) = bs"
proof -
  have "starts_from 0 bs = filter (\<lambda>i. is_start (bs ! i)) [0..<length bs]"
    by (simp add: starts_from_def map_idI)
  then show "offset_list (Utf8String bs) = char_starts (utf8_chars bs)"
    using starts_from_chars[OF assms, of 0]
    by (cases "bs = []") (simp_all add: Utf8String_def UpdateOffset_def Utf8String_empty_def fold_filter_append
        char_starts_def comp_def)
  show "bytes (Utf8String bs) = bs" by (simp add: Utf8String_def UpdateOffset_def Utf8String_empty_def)
qed

text \<open>A run of characters is between two offsets.\<close>

lemma drop_char_start: "i \<le> length cs \<Longrightarrow> drop (length (concat (take i cs))) (concat cs) = concat (drop i cs)"
  by (metis append_eq_conv_conj append_take_drop_id concat_append)

lemma take_chars:
  assumes "i + n \<le> length cs"
  shows "take (length (concat (take (i + n) cs)) - length (concat (take i cs)))
      (drop (length (concat (take i cs))) (concat cs)) = concat (take n (drop i cs))"
proof -
  have "concat (take (i + n) cs) = concat (take i cs) @ concat (take n (drop i cs))"
    by (simp add: take_add)
  moreover have "drop (length (concat (take i cs))) (concat cs) = concat (take n (drop i cs)) @ concat (drop n (drop i cs))"
    using assms by (subst drop_char_start) (simp, metis append_take_drop_id concat_append)
  ultimately show ?thesis by simp
qed

lemma Utf8_at_chars:
  assumes "bs = [] \<or> is_start (hd bs)"
  shows "Utf8_at (Utf8String bs) i = (if i < length (utf8_chars bs) then utf8_chars bs ! i else [])"
proof -
  let ?cs = "utf8_chars bs"
  have bs: "bs = concat ?cs" by simp
  note off = offset_list_chars[OF assms]
  show ?thesis
  proof (cases "i < length ?cs")
    case True
    have one: "concat (take 1 (drop i ?cs)) = ?cs ! i" using True by (simp add: take_Suc hd_drop_conv_nth)
    show ?thesis
    proof (cases "i + 1 < length ?cs")
      case False
      then have "drop (length (concat (take i ?cs))) bs = ?cs ! i"
        using drop_char_start[of i ?cs] True one by (simp add: take_all)
      moreover from this have "length bs - length (concat (take i ?cs)) = length (?cs ! i)" by (metis length_drop)
      ultimately show ?thesis using True False by (simp add: Utf8_at_def off char_starts_def)
    next
      case more: True
      from take_chars[of i 1 ?cs] more one bs show ?thesis
        by (simp add: Utf8_at_def off char_starts_def)
    qed
  qed (simp add: Utf8_at_def off char_starts_def)
qed

lemma CharAt_chars:
  assumes "bs = [] \<or> is_start (hd bs)"
  shows "CharAt (Utf8String bs) i = (if i < length (utf8_chars bs)
    then Some (concat (drop i (utf8_chars bs)), length (utf8_chars bs ! i)) else None)"
proof -
  let ?cs = "utf8_chars bs"
  note off = offset_list_chars[OF assms]
  show ?thesis
  proof (cases "i < length ?cs")
    case True
    have rest: "drop (length (concat (take i ?cs))) bs = concat (drop i ?cs)"
      using drop_char_start[of i ?cs] True by simp
    show ?thesis
    proof (cases "i + 1 < length ?cs")
      case more: True
      have "length (concat (take (Suc i) ?cs)) - length (concat (take i ?cs)) = length (?cs ! i)"
        using True by (simp add: take_Suc_conv_app_nth)
      then show ?thesis using True more rest by (simp add: CharAt_def off char_starts_def)
    next
      case False
      then have "concat (drop i ?cs) = ?cs ! i" using True by (simp add: Cons_nth_drop_Suc[symmetric])
      moreover from this have "length bs - length (concat (take i ?cs)) = length (?cs ! i)" using rest by (metis length_drop)
      ultimately show ?thesis using True False rest by (simp add: CharAt_def off char_starts_def)
    qed
  qed (simp add: CharAt_def off char_starts_def)
qed

lemma Substring_chars:
  assumes "bs = [] \<or> is_start (hd bs)"
  shows "Substring (Utf8String bs) i n =
    (let s = concat (take n (drop i (utf8_chars bs))) in if i + n \<ge> length (utf8_chars bs) then c_string s else s)"
proof -
  let ?cs = "utf8_chars bs"
  note off = offset_list_chars[OF assms]
  show ?thesis
  proof (cases "n = 0 \<or> length ?cs \<le> i")
    case True
    then show ?thesis by (auto simp: Substring_def off char_starts_def c_string_def)
  next
    case False
    show ?thesis
    proof (cases "length ?cs - i \<le> n")
      case True
      then have "take n (drop i ?cs) = drop i ?cs" by simp
      moreover have "length ?cs \<le> i + n" using True by simp
      ultimately show ?thesis using True False drop_char_start[of i ?cs]
        by (simp add: Substring_def off char_starts_def Let_def)
    next
      case more: False
      then have "i + n < length ?cs" by linarith
      with take_chars[of i n ?cs] False show ?thesis by (simp add: Substring_def off char_starts_def Let_def c_string_def)
    qed
  qed
qed

section \<open>Encoded code points\<close>

definition utf8_encode :: "nat \<Rightarrow> byte list" where
  "utf8_encode cp =
     (if cp < 0x80 then [of_nat cp]
      else if cp < 0x800 then [of_nat (0xC0 + cp div 64), of_nat (0x80 + cp mod 64)]
      else if cp < 0x10000 then [of_nat (0xE0 + cp div 4096), of_nat (0x80 + cp div 64 mod 64), of_nat (0x80 + cp mod 64)]
      else [of_nat (0xF0 + cp div 262144), of_nat (0x80 + cp div 4096 mod 64), of_nat (0x80 + cp div 64 mod 64),
        of_nat (0x80 + cp mod 64)])"

lemma is_start_of_nat: "n < 256 \<Longrightarrow> is_start (of_nat n) \<longleftrightarrow> n < 0x80 \<or> n \<ge> 0xC0"
  by (auto simp: is_start_def word_le_nat_alt unat_of_nat)

lemma utf8_encode_char:
  assumes "cp < 0x110000"
  obtains b cs where "utf8_encode cp = b # cs" "is_start b" "list_all (\<lambda>c. \<not> is_start c) cs"
proof -
  have m: "0x80 + x mod 64 < 256 \<and> \<not> is_start (of_nat (0x80 + x mod 64))" for x :: nat
  proof -
    have "x mod 64 < 64" by simp
    then have "0x80 + x mod 64 < 256" "\<not> (0x80 + x mod 64 < 0x80 \<or> 0x80 + x mod 64 \<ge> 0xC0)" by linarith+
    then show ?thesis using is_start_of_nat by blast
  qed
  have "is_start (of_nat (0xC0 + cp div 64))" if "cp < 0x800"
    using that by (subst is_start_of_nat) auto
  moreover have "is_start (of_nat (0xE0 + cp div 4096))" if "cp < 0x10000"
    using that by (subst is_start_of_nat) auto
  moreover have "is_start (of_nat (0xF0 + cp div 262144))"
    using assms by (subst is_start_of_nat) auto
  moreover have "is_start (of_nat cp)" if "cp < 0x80" using that by (subst is_start_of_nat) auto
  moreover have "list_all (\<lambda>c. \<not> is_start c) (map (\<lambda>x. of_nat (0x80 + x mod 64)) xs)" for xs :: "nat list"
    using m by (simp add: list_all_iff)
  from this[of "[]"] this[of "[cp]"] this[of "[cp div 64, cp]"] this[of "[cp div 4096, cp div 64, cp]"]
  have "list_all (\<lambda>c. \<not> is_start c) (tl (utf8_encode cp))" by (simp add: utf8_encode_def)
  ultimately have "is_start (hd (utf8_encode cp))" "list_all (\<lambda>c. \<not> is_start c) (tl (utf8_encode cp))" "utf8_encode cp \<noteq> []"
    by (simp_all add: utf8_encode_def)
  then show ?thesis by (intro that[of "hd (utf8_encode cp)" "tl (utf8_encode cp)"]) simp_all
qed

lemma utf8_chars_encode:
  assumes "list_all (\<lambda>cp. cp < 0x110000) cps"
  shows "utf8_chars (concat (map utf8_encode cps)) = map utf8_encode cps \<and>
    (concat (map utf8_encode cps) = [] \<or> is_start (hd (concat (map utf8_encode cps))))"
  using assms
proof (induction cps)
  case (Cons cp cps)
  obtain b cs where b: "utf8_encode cp = b # cs" "is_start b" "list_all (\<lambda>c. \<not> is_start c) cs"
    using utf8_encode_char[of cp] Cons.prems by auto
  with Cons utf8_chars_append[OF b(3), of "concat (map utf8_encode cps)" b] show ?case by simp
qed simp

section \<open>Walking\<close>

text \<open>Walking over characters until the callback says stop.\<close>

fun walk :: "('s \<Rightarrow> byte list \<Rightarrow> 's \<times> bool) \<Rightarrow> byte list list \<Rightarrow> 's \<Rightarrow> 's" where
  "walk cb [] s = s"
| "walk cb (c # cs) s = (case cb s c of (s, go) \<Rightarrow> if go then walk cb cs s else s)"

text \<open>At a position inside the string the loop has a started character behind it.\<close>

lemma foreach_loop_walk:
  assumes "prev \<le> pos" "pos \<le> length str"
    and "\<And>i. prev < i \<Longrightarrow> i < pos \<Longrightarrow> \<not> is_start (str ! i)" "prev = pos \<longrightarrow> pos = length str \<or> pos = 0"
  shows "foreach_loop str cb pos prev s = walk cb (utf8_chars (drop prev str)) s"
  using assms
proof (induction str cb pos prev s rule: foreach_loop.induct)
  case (1 str cb pos prev s)
  let ?w = "take (pos - prev) (drop prev str)"
  have chars: "utf8_chars (drop prev str) = ?w # utf8_chars (drop pos str)"
    if "prev < pos" "pos = length str \<or> is_start (str ! pos)"
  proof -
    have split: "drop prev str = str ! prev # take (pos - Suc prev) (drop (Suc prev) str) @ drop pos str"
      using that(1) "1.prems"(2)
      by (metis Cons_nth_drop_Suc Suc_leI append_take_drop_id drop_drop le_add_diff_inverse2 less_le_trans)
    have "list_all (\<lambda>c. \<not> is_start c) (take (pos - Suc prev) (drop (Suc prev) str))"
      using "1.prems"(2,3) that(1) by (auto simp: list_all_iff in_set_conv_nth)
    moreover have "drop pos str = [] \<or> is_start (hd (drop pos str))"
      using that(2) "1.prems"(2) by (cases "pos = length str") (auto simp: hd_drop_conv_nth)
    ultimately have "utf8_chars (drop prev str) = (str ! prev # take (pos - Suc prev) (drop (Suc prev) str)) # utf8_chars (drop pos str)"
      using utf8_chars_append split by metis
    moreover have "?w = str ! prev # take (pos - Suc prev) (drop (Suc prev) str)"
      using that(1) "1.prems"(2) by (metis Cons_nth_drop_Suc Suc_diff_Suc less_le_trans take_Suc_Cons)
    ultimately show ?thesis by simp
  qed
  show ?case
  proof (cases "pos < length str")
    case False
    then have "pos = length str" using "1.prems"(2) by simp
    then show ?thesis using chars "1.prems"(1)
      by (cases "prev = pos"; subst foreach_loop.simps) (auto split: prod.split)
  next
    case True
    show ?thesis
    proof (cases "is_start (str ! pos) \<and> prev \<noteq> pos")
      case start: True
      obtain s' go where cb: "cb s ?w = (s', go)" by force
      show ?thesis
      proof (cases go)
        case go: True
        have "foreach_loop str cb (pos + 1) pos s' = walk cb (utf8_chars (drop pos str)) s'"
          using "1.IH"(1)[OF True start cb[symmetric]] go True by simp
        then show ?thesis using True start cb go chars "1.prems"(1) by (simp add: foreach_loop.simps[of str cb pos prev s])
      qed (use True start cb chars "1.prems"(1) in \<open>simp add: foreach_loop.simps[of str cb pos prev s]\<close>)
    next
      case go_on: False
      have "\<not> is_start (str ! i)" if "prev < i" "i < pos + 1" for i
        using that go_on "1.prems"(3)[of i] by (cases "i = pos") auto
      then have "foreach_loop str cb (pos + 1) prev s = walk cb (utf8_chars (drop prev str)) s"
        using "1.IH"(2)[OF True go_on] True "1.prems"(1) by simp
      then show ?thesis using True go_on by (subst foreach_loop.simps) auto
    qed
  qed
qed

section \<open>The properties\<close>

definition encode :: "nat list \<Rightarrow> byte list" where
  "encode cps = concat (map utf8_encode cps)"

lemma encode_chars:
  assumes "list_all (\<lambda>cp. cp < 0x110000) cps"
  shows "utf8_chars (encode cps) = map utf8_encode cps" "encode cps = [] \<or> is_start (hd (encode cps))"
  using utf8_chars_encode[OF assms] by (simp_all add: encode_def)

lemma c_string_id: "0 \<notin> set s \<Longrightarrow> c_string s = s"
  by (auto simp: c_string_def takeWhile_eq_all_conv)

lemma static_Length: "Utf8_Length_static s = length (filter is_start s)"
proof -
  have "fold (\<lambda>c n. if is_start c then n + 1 else n) s n = n + length (filter is_start s)" for n
    by (induction s arbitrary: n) simp_all
  then show ?thesis by (simp add: Utf8_Length_static_def)
qed

lemma length_filter_chars: "bs = [] \<or> is_start (hd bs) \<Longrightarrow> length (filter is_start bs) = length (utf8_chars bs)"
proof (induction bs rule: utf8_chars.induct)
  case (2 b bs)
  have "filter is_start (takeWhile (\<lambda>c. \<not> is_start c) bs) = []" by (auto simp: filter_empty_conv dest: set_takeWhileD)
  then have "filter is_start bs = filter is_start (dropWhile (\<lambda>c. \<not> is_start c) bs)"
    by (metis append_Nil filter_append takeWhile_dropWhile_id)
  moreover have "dropWhile (\<lambda>c. \<not> is_start c) bs = [] \<or> is_start (hd (dropWhile (\<lambda>c. \<not> is_start c) bs))"
    using hd_dropWhile[of "\<lambda>c. \<not> is_start c" bs] by blast
  ultimately show ?case using 2 by simp
qed simp

text \<open>C28: a string of encoded code points has as many characters as code points, by both counts;
  the subscript \<open>i\<close> is the encoding of code point \<open>i\<close>, and \<open>CharAt i\<close> points at the encoding of what is left from
  code point \<open>i\<close> on, with the length of that code point's encoding, and is null past the end.\<close>
theorem Utf8_roundtrip:
  assumes "list_all (\<lambda>cp. cp < 0x110000) cps"
  shows "Utf8_Length (Utf8String (encode cps)) = length cps \<and> Utf8_Length_static (encode cps) = length cps \<and>
    map (Utf8_at (Utf8String (encode cps))) [0..<length cps] = map utf8_encode cps \<and>
    (\<forall>i. CharAt (Utf8String (encode cps)) i =
      (if i < length cps then Some (encode (drop i cps), length (utf8_encode (cps ! i))) else None))"
proof (intro conjI allI)
  note e = encode_chars[OF assms]
  show "Utf8_Length (Utf8String (encode cps)) = length cps" "Utf8_Length_static (encode cps) = length cps"
    using offset_list_chars[OF e(2)] length_filter_chars[OF e(2)]
    by (simp_all add: Utf8_Length_def static_Length e(1) char_starts_def)
  show "map (Utf8_at (Utf8String (encode cps))) [0..<length cps] = map utf8_encode cps"
    using Utf8_at_chars[OF e(2)] by (auto simp: e(1) intro!: nth_equalityI)
  fix i
  show "CharAt (Utf8String (encode cps)) i =
      (if i < length cps then Some (encode (drop i cps), length (utf8_encode (cps ! i))) else None)"
    using CharAt_chars[OF e(2), of i] unfolding e(1) by (simp add: encode_def drop_map cong: if_cong)
qed

lemma Utf8_roundtrip_witness:
  "Utf8_Length (Utf8String (encode [0x41, 0x4E2D, 0x1F600])) = 3 \<and>
   CharAt (Utf8String (encode [0x41, 0x4E2D, 0x1F600])) 1 = Some (encode [0x4E2D, 0x1F600], 3)"
  using Utf8_roundtrip[of "[0x41, 0x4E2D, 0x1F600]"] by (simp add: utf8_encode_def)

text \<open>\<open>Substring\<close> of encoded code points is the encoding of that part of the code
  points, and so is \<open>Utf8Substring\<close>; when the part reaches the end it is cut at a zero byte, which
  matters only for the code point 0.\<close>
theorem Utf8_Substring_correct:
  assumes "list_all (\<lambda>cp. cp < 0x110000) cps"
  shows "Substring (Utf8String (encode cps)) i n =
      (let s = encode (take n (drop i cps)) in if i + n \<ge> length cps then c_string s else s) \<and>
    (list_all (\<lambda>cp. cp \<noteq> 0) cps \<longrightarrow> Substring (Utf8String (encode cps)) i n = encode (take n (drop i cps))) \<and>
    Utf8Substring (Utf8String (encode cps)) i n = Utf8String (Substring (Utf8String (encode cps)) i n)"
proof (intro conjI impI)
  show sub: "Substring (Utf8String (encode cps)) i n =
      (let s = encode (take n (drop i cps)) in if i + n \<ge> length cps then c_string s else s)"
    using Substring_chars[OF encode_chars(2)[OF assms]] encode_chars(1)[OF assms]
    by (simp add: encode_def take_map drop_map)
  show "Substring (Utf8String (encode cps)) i n = encode (take n (drop i cps))" if "list_all (\<lambda>cp. cp \<noteq> 0) cps"
  proof -
    have zero: "(0 :: byte) \<noteq> of_nat n" if "0 < n" "n < 256" for n :: nat
    proof
      assume "(0 :: byte) = of_nat n"
      then have "unat (of_nat n :: byte) = 0" by (metis unsigned_0)
      then show False using that by (simp add: unat_of_nat)
    qed
    have "0 \<notin> set (utf8_encode cp)" if "cp \<noteq> 0" "cp < 0x110000" for cp
    proof -
      have "0x80 + x mod 64 < 256" for x :: nat using mod_less_divisor[of 64 x] by linarith
      then have "(0 :: byte) \<noteq> of_nat (0x80 + x mod 64)" for x :: nat by (intro zero) simp_all
      moreover have "(0 :: byte) \<noteq> of_nat (0xC0 + cp div 64)" if "cp < 0x800" using that by (intro zero) auto
      moreover have "(0 :: byte) \<noteq> of_nat (0xE0 + cp div 4096)" if "cp < 0x10000" using that by (intro zero) auto
      moreover have "(0 :: byte) \<noteq> of_nat (0xF0 + cp div 262144)" using that by (intro zero) auto
      moreover have "(0 :: byte) \<noteq> of_nat cp" if "cp < 0x80" using that \<open>cp \<noteq> 0\<close> by (intro zero) auto
      ultimately show ?thesis unfolding utf8_encode_def by (simp del: of_nat_add)
    qed
    then have "0 \<notin> set (encode (take n (drop i cps)))" using that assms
      by (fastforce simp: encode_def list_all_iff dest: in_set_takeD in_set_dropD)
    from c_string_id[OF this] show ?thesis unfolding sub by (simp only: Let_def if_cancel)
  qed
  show "Utf8Substring (Utf8String (encode cps)) i n = Utf8String (Substring (Utf8String (encode cps)) i n)"
    by (simp add: Utf8Substring_def Substring_def Utf8String_c_def Utf8String_n_def Utf8String_def)
      (simp add: UpdateOffset_def Utf8String_empty_def)
qed

lemma Utf8_Substring_correct_witness:
  "Substring (Utf8String (encode [0x41, 0x4E2D, 0x1F600])) 1 1 = encode [0x4E2D] \<and>
   Substring (Utf8String (encode [0x41, 0, 0x42])) 0 3 = encode [0x41]"
  using Utf8_Substring_correct[of "[0x41, 0x4E2D, 0x1F600]" 1 1] Utf8_Substring_correct[of "[0x41, 0, 0x42]" 0 3]
  by (simp add: encode_def utf8_encode_def c_string_def)

text \<open>\<open>ForeachUtf8Char\<close> passes the characters of the string in order until the
  callback says stop, and passes nothing for a null string or callback.\<close>
theorem ForeachUtf8Char_correct:
  "ForeachUtf8Char (Some p) (Some cb) s = walk cb (utf8_chars (c_string p)) s \<and>
   ForeachUtf8Char None cb' s = s \<and> ForeachUtf8Char p' None s = s"
  using foreach_loop_walk[of 0 0 "c_string p" cb s] by (simp add: ForeachUtf8Char_def split: option.split)

lemma Utf8Value_3: "CalculateUtf8Value [a, b, c] = of_nat (unat a * 65536 + unat b * 256 + unat c)"
proof -
  have "CalculateUtf8Value [a, b, c] = (ucast a * 256 + ucast b) * 256 + ucast c"
    by (simp add: CalculateUtf8Value_def push_bit_eq_mult)
  also have "\<dots> = of_nat (unat a) * 65536 + of_nat (unat b) * 256 + of_nat (unat c)"
    by (simp add: distrib_right)
  finally show ?thesis by simp
qed

text \<open>Three digits compare alike in base 64 and in base 256.\<close>

lemma three_digits:
  assumes "y < 64" "z < 64" "Y < 64" "Z < (64 :: nat)"
  shows "X * 65536 + Y * 256 + Z \<le> x * 65536 + y * 256 + z \<longleftrightarrow> X * 4096 + Y * 64 + Z \<le> x * 4096 + y * 64 + z"
proof -
  consider "X < x" | "X = x" "Y < y" | "X = x" "Y = y" | "X = x" "y < Y" | "x < X" by linarith
  then show ?thesis
  proof cases
    case 1
    then have "X + 1 \<le> x" by simp
    then have "X * 65536 + 65536 \<le> x * 65536" "X * 4096 + 4096 \<le> x * 4096" by linarith+
    then have "X * 65536 + Y * 256 + Z \<le> x * 65536 + y * 256 + z" "X * 4096 + Y * 64 + Z \<le> x * 4096 + y * 64 + z"
      using assms by linarith+
    then show ?thesis by blast
  next
    case 5
    then have "x + 1 \<le> X" by simp
    then have "x * 65536 + 65536 \<le> X * 65536" "x * 4096 + 4096 \<le> X * 4096" by linarith+
    then have "\<not> X * 65536 + Y * 256 + Z \<le> x * 65536 + y * 256 + z" "\<not> X * 4096 + Y * 64 + Z \<le> x * 4096 + y * 64 + z"
      using assms by linarith+
    then show ?thesis by blast
  qed (use assms in linarith)+
qed

text \<open>\<open>IsChineseUtf8Char\<close> accepts exactly the encodings of U+4E00 to U+9FA5,
  \<open>IsNumberUtf8Char\<close> the ten digits; \<open>IsEngLishUtf8Char\<close> everything from \<open>A\<close> to \<open>z\<close>, six signs between the letters
  included; \<open>IsAsciiUtf8Char\<close> every single byte.\<close>
theorem unicode_classes:
  assumes "cp < 0x110000"
  shows "IsChineseUtf8Char (utf8_encode cp) = (0x4E00 \<le> cp \<and> cp \<le> 0x9FA5) \<and>
    IsNumberUtf8Char [b] = (48 \<le> unat b \<and> unat b \<le> 57) \<and>
    IsEngLishUtf8Char [b] = (65 \<le> unat b \<and> unat b \<le> 122) \<and> IsAsciiUtf8Char [b]"
proof (intro conjI)
  have sint: "sint b = (if unat b < 128 then int (unat b) else int (unat b) - 256)"
  proof -
    have b: "unat b < 256" using unsigned_less[of b, where ?'a = nat] by simp
    have "sint b = (uint b + 128) mod 256 - 128"
      by (simp add: sint_uint signed_take_bit_eq_take_bit_shift take_bit_eq_mod)
    also have "uint b = int (unat b)" by simp
    also have "(int (unat b) + 128) mod 256 - 128 = (if unat b < 128 then int (unat b) else int (unat b) - 256)"
    proof (cases "unat b < 128")
      case False
      have "(int (unat b) + 128) mod 256 = (int (unat b) + 128 - 256) mod 256"
        using mod_add_self2[of "int (unat b) + 128 - 256" "256 :: int"] by (simp only: diff_add_cancel)
      also have "\<dots> = int (unat b) + 128 - 256" using b False by (intro mod_pos_pos_trivial) linarith+
      finally show ?thesis using False by simp
    next
      case True
      then have "(int (unat b) + 128) mod 256 = int (unat b) + 128" by (intro mod_pos_pos_trivial) linarith+
      with True show ?thesis by (simp only: if_True)
    qed
    finally show ?thesis .
  qed
  show "IsNumberUtf8Char [b] = (48 \<le> unat b \<and> unat b \<le> 57)"
    "IsEngLishUtf8Char [b] = (65 \<le> unat b \<and> unat b \<le> 122)" "IsAsciiUtf8Char [b]"
  proof -
    define k where "k = unat b"
    have "sint b = (if k < 128 then int k else int k - 256)" "k < 256"
      using sint unsigned_less[of b, where ?'a = nat] by (simp_all only: k_def) simp
    then show "IsNumberUtf8Char [b] = (48 \<le> unat b \<and> unat b \<le> 57)"
      "IsEngLishUtf8Char [b] = (65 \<le> unat b \<and> unat b \<le> 122)" "IsAsciiUtf8Char [b]"
      unfolding k_def[symmetric]
      by (auto simp: IsNumberUtf8Char_def IsEngLishUtf8Char_def IsAsciiUtf8Char_def Let_def)
  qed
  show "IsChineseUtf8Char (utf8_encode cp) = (0x4E00 \<le> cp \<and> cp \<le> 0x9FA5)"
  proof (cases "0x800 \<le> cp \<and> cp < 0x10000")
    case True
    define x y z where "x = cp div 4096" and "y = cp div 64 mod 64" and "z = cp mod 64"
    have cp: "cp = x * 4096 + y * 64 + z" "x < 16" "y < 64" "z < 64"
    proof -
      have "x * 64 + y = cp div 64" using div_mult_mod_eq[of "cp div 64" 64] by (simp add: x_def y_def flip: div_mult2_eq)
      moreover have "cp div 64 * 64 + z = cp" using div_mult_mod_eq[of cp 64] by (simp add: z_def)
      ultimately show "cp = x * 4096 + y * 64 + z" by linarith
      show "x < 16" "y < 64" "z < 64" using True by (auto simp: x_def y_def z_def)
    qed
    have u: "unat (of_nat (0xE0 + x) :: byte) = 0xE0 + x" "unat (of_nat (0x80 + y) :: byte) = 0x80 + y"
      "unat (of_nat (0x80 + z) :: byte) = 0x80 + z"
      using cp(2-4) by (simp_all add: unat_of_nat del: of_nat_add)
    let ?v = "(0xE0 + x) * 65536 + (0x80 + y) * 256 + (0x80 + z)"
    have enc: "utf8_encode cp = [of_nat (0xE0 + x), of_nat (0x80 + y), of_nat (0x80 + z)]"
      using True by (simp add: utf8_encode_def x_def y_def z_def)
    have val: "unat (CalculateUtf8Value (utf8_encode cp)) = ?v"
      unfolding enc Utf8Value_3 u using cp(2-4) by (simp add: unat_of_nat del: of_nat_add of_nat_mult)
    have "IsChineseUtf8Char (utf8_encode cp) \<longleftrightarrow> 0xE4B880 \<le> ?v \<and> ?v \<le> 0xE9BEA5"
      using val by (simp add: IsChineseUtf8Char_def Let_def word_le_nat_alt enc)
    also have "\<dots> \<longleftrightarrow> 0x4E00 \<le> x * 4096 + y * 64 + z \<and> x * 4096 + y * 64 + z \<le> 0x9FA5"
      using three_digits[of y z 56 0 4 x] three_digits[of 62 37 y z x 9] cp(3,4)
      by (simp add: add.assoc)
    finally show ?thesis by (simp add: cp(1))
  next
    case False
    then have "length (utf8_encode cp) \<noteq> 3" by (simp add: utf8_encode_def)
    then show ?thesis using False by (auto simp: IsChineseUtf8Char_def)
  qed
qed

lemma unicode_classes_witness: "IsChineseUtf8Char (utf8_encode 0x4E2D) \<and> IsEngLishUtf8Char [95] \<and> IsAsciiUtf8Char [200]"
  using unicode_classes[of "0x4E2D" 95] unicode_classes[of "0x4E2D" 200] by simp

end
