(* ===== verification/NetIds.thy ===== *)
theory NetIds
  imports Prelude
begin

text \<open>
  Connection identifiers (include/mzx/net/net_define.h) and network buffers
  (include/mzx/net/net_buffer.h). \<open>std::size_t\<close> and identifiers are 64-bit words. A connection type is
  an enumeration over \<open>char\<close>: a cast gives any byte, not only the three named values.
\<close>

section \<open>Identifiers\<close>

type_synonym net_id = "64 word"

type_synonym connection_type = "8 word"

abbreviation (input) kConnector :: connection_type where "kConnector \<equiv> 0"
abbreviation (input) kPeerConnector :: connection_type where "kPeerConnector \<equiv> 1"
abbreviation (input) kAcceptor :: connection_type where "kAcceptor \<equiv> 2"

definition kNetConnectionIDInvalid :: net_id where
  "kNetConnectionIDInvalid = - 1"

definition kNetWorkerMaxCount :: "64 word" where
  "kNetWorkerMaxCount = 0xFFF"

definition kNetConnectionMaxCount :: "64 word" where
  "kNetConnectionMaxCount = 0xFFFFFFFF"

definition ParseNetConnectionType :: "net_id \<Rightarrow> connection_type" where
  "ParseNetConnectionType i = ucast (drop_bit 56 i)"

definition ParseNetConnectionIndex :: "net_id \<Rightarrow> 64 word" where
  "ParseNetConnectionIndex i = i AND 0xFFFFFFFF"

definition ParseNetWorkerIndex :: "net_id \<Rightarrow> 64 word" where
  "ParseNetWorkerIndex i = drop_bit 48 i AND 0xFFF"

definition InitNetConnectionID :: "connection_type \<Rightarrow> 64 word \<Rightarrow> 64 word \<Rightarrow> net_id option" where
  "InitNetConnectionID ty worker_index index = do {
     check (worker_index \<le> kNetWorkerMaxCount \<and> index \<le> kNetConnectionMaxCount);
     Some (push_bit 56 (scast ty) + push_bit 48 worker_index + index)
   }"

definition NextNetConnectionID :: "net_id \<Rightarrow> net_id" where
  "NextNetConnectionID i =
     (let incr = push_bit 32 ((drop_bit 32 i + 1) AND 0xFFFFFFF) in (i AND 0xF0000000FFFFFFFF) + incr)"

section \<open>Buffers\<close>

record net_buffer =
  buffer_data :: "8 word list"
  buffer_size :: "64 word"
  read_pos :: "64 word"
  write_pos :: "64 word"

text \<open>The memory from \<open>malloc\<close> holds anything: it is the parameter \<open>raw\<close>, of the size asked for; without
  memory the constructor's second check fails.\<close>

definition NetBuffer_new :: "8 word list option \<Rightarrow> 64 word \<Rightarrow> net_buffer option" where
  "NetBuffer_new raw n = do {
     check (n > 0);
     d \<leftarrow> raw;
     Some \<lparr>buffer_data = d, buffer_size = n, read_pos = 0, write_pos = 0\<rparr>
   }"

definition NetBuffer_ReadAvailable :: "net_buffer \<Rightarrow> 64 word" where
  "NetBuffer_ReadAvailable b = write_pos b - read_pos b"

definition NetBuffer_WriteAvailable :: "net_buffer \<Rightarrow> 64 word" where
  "NetBuffer_WriteAvailable b = buffer_size b - write_pos b"

definition ReadBegin :: "net_buffer \<Rightarrow> 8 word list" where
  "ReadBegin b = drop (unat (read_pos b)) (buffer_data b)"

definition NetBuffer_Read :: "64 word \<Rightarrow> net_buffer \<Rightarrow> net_buffer option" where
  "NetBuffer_Read n b = do {
     check (read_pos b + n \<le> write_pos b);
     Some (b\<lparr>read_pos := read_pos b + n\<rparr>)
   }"

definition NetBuffer_Write :: "64 word \<Rightarrow> net_buffer \<Rightarrow> net_buffer option" where
  "NetBuffer_Write n b = do {
     check (write_pos b + n \<le> n);
     Some (b\<lparr>write_pos := write_pos b + n\<rparr>)
   }"

text \<open>What clients do before \<open>Write\<close>: \<open>memcpy\<close> to \<open>WriteBegin\<close>, which has no result when it leaves the
  memory of the buffer.\<close>

definition copy_to_buffer :: "8 word list \<Rightarrow> net_buffer \<Rightarrow> net_buffer option" where
  "copy_to_buffer xs b = do {
     check (unat (write_pos b) + length xs \<le> length (buffer_data b));
     Some (b\<lparr>buffer_data := overwrite (buffer_data b) (unat (write_pos b)) xs\<rparr>)
   }"

section \<open>Identifiers as numbers\<close>

lemma mask_32: "(x :: 64 word) AND 0xFFFFFFFF = take_bit 32 x"
  by (simp add: take_bit_eq_mask mask_eq_exp_minus_1)

lemma mask_12: "(x :: 64 word) AND 0xFFF = take_bit 12 x"
  by (simp add: take_bit_eq_mask mask_eq_exp_minus_1)

lemma mask_28: "(x :: 64 word) AND 0xFFFFFFF = take_bit 28 x"
  by (simp add: take_bit_eq_mask mask_eq_exp_minus_1)

lemma unat_take: "unat (take_bit k x) = unat x mod 2 ^ k"
  by (simp only: unsigned_take_bit_eq) (simp only: take_bit_eq_mod)

lemma unat_drop: "unat (drop_bit k x) = unat x div 2 ^ k"
  by (simp only: unat_drop_bit_eq) (simp only: drop_bit_eq_div)

lemma Parse_unat:
  "unat (ParseNetConnectionType i) = unat i div 2 ^ 56"
  "unat (ParseNetConnectionIndex i) = unat i mod 2 ^ 32"
  "unat (ParseNetWorkerIndex i) = unat i div 2 ^ 48 mod 2 ^ 12"
proof -
  have "unat i < 2 ^ 64" using unsigned_less[of i, where ?'a = nat] by simp
  then have "unat i div 2 ^ 56 < 2 ^ 8" by (simp add: div_less_iff_less_mult)
  then show "unat (ParseNetConnectionType i) = unat i div 2 ^ 56"
    by (simp add: ParseNetConnectionType_def unsigned_ucast_eq unat_drop take_bit_eq_mod)
qed (simp_all add: ParseNetConnectionIndex_def ParseNetWorkerIndex_def mask_32 mask_12 unat_take unat_drop)

text \<open>An identifier of a named type: the worker's twelve bits begin where the type's eight bits end.\<close>

lemma InitNetConnectionID_unat:
  assumes "ty \<in> {kConnector, kPeerConnector, kAcceptor}" "unat w \<le> 0xFFF" "unat j < 2 ^ 32"
  obtains i where "InitNetConnectionID ty w j = Some i"
    "unat i = unat ty * 2 ^ 56 + unat w * 2 ^ 48 + unat j"
proof -
  have t: "unat ty \<le> 2" "unat (scast ty :: 64 word) = unat ty" using assms(1) by auto
  have a: "unat (push_bit 56 (scast ty :: 64 word)) = unat ty * 2 ^ 56"
    using t by (simp add: push_bit_eq_mult unat_word_ariths)
  have b: "unat (push_bit 48 w) = unat w * 2 ^ 48"
    using assms(2) by (simp add: push_bit_eq_mult unat_word_ariths)
  have "unat ty * 2 ^ 56 + unat w * 2 ^ 48 + unat j < 2 ^ 64" using t(1) assms(2,3) by simp
  then have "unat (push_bit 56 (scast ty) + push_bit 48 w + j) = unat ty * 2 ^ 56 + unat w * 2 ^ 48 + unat j"
    unfolding unat_word_ariths(1) a b by (simp add: mod_add_left_eq)
  moreover have "w \<le> kNetWorkerMaxCount" "j \<le> kNetConnectionMaxCount"
    using assms(2,3) by (simp_all add: word_le_nat_alt kNetWorkerMaxCount_def kNetConnectionMaxCount_def)
  ultimately show ?thesis by (intro that) (simp_all add: InitNetConnectionID_def)
qed

text \<open>C34: an identifier made from one of the three types, a worker index of at most twelve bits and an index of 32 bits
  gives back its index; it gives back its type exactly if the worker index is below 256, for the worker index runs into
  the type from the ninth bit on; and the worker index that it gives is that of the twelve bits in which the type ends
  and the worker index begins, so that exactly a connector's identifier gives its worker back. The comment of net_define.h
  gives the type the four bits above the twelve of the worker index.\<close>
theorem net_id_roundtrip:
  assumes "ty \<in> {kConnector, kPeerConnector, kAcceptor}" "unat w \<le> 0xFFF" "unat j < 2 ^ 32"
  shows "\<exists>i. InitNetConnectionID ty w j = Some i \<and> ParseNetConnectionIndex i = j \<and>
    unat (ParseNetConnectionType i) = unat ty + unat w div 256 \<and>
    (if unat w < 256 then ParseNetConnectionType i = ty else ParseNetConnectionType i \<noteq> ty) \<and>
    unat (ParseNetWorkerIndex i) = (256 * unat ty + unat w) mod 4096 \<and>
    (ParseNetWorkerIndex i = w \<longleftrightarrow> ty = kConnector)"
proof -
  obtain i where i: "InitNetConnectionID ty w j = Some i" "unat i = unat ty * 2 ^ 56 + unat w * 2 ^ 48 + unat j"
    by (rule InitNetConnectionID_unat[OF assms])
  have "unat i = unat j + (unat ty * 2 ^ 24 + unat w * 2 ^ 16) * 2 ^ 32" by (simp add: i(2))
  then have index: "unat (ParseNetConnectionIndex i) = unat j"
    using assms(3) by (simp only: Parse_unat mod_mult_self1 mod_less)
  have worker: "unat (ParseNetWorkerIndex i) = (256 * unat ty + unat w) mod 4096"
  proof -
    have "unat i div 2 ^ 48 = 256 * unat ty + unat w" unfolding i(2) using assms(3) by simp
    then show ?thesis by (simp add: Parse_unat)
  qed
  have type: "unat (ParseNetConnectionType i) = unat ty + unat w div 256"
  proof -
    have "unat i div 2 ^ 56 = unat i div 2 ^ 48 div 256" by (simp add: div_mult2_eq[symmetric])
    also have "\<dots> = (256 * unat ty + unat w) div 256" unfolding i(2) using assms(3) by simp
    finally show ?thesis by (simp add: Parse_unat)
  qed
  have "ParseNetWorkerIndex i = w \<longleftrightarrow> (256 * unat ty + unat w) mod 4096 = unat w"
    using worker by (simp add: word_unat_eq_iff)
  also have "\<dots> \<longleftrightarrow> unat ty = 0"
  proof -
    have w: "unat w < 4096" and ty: "256 * unat ty < 4096" using assms(1,2) by auto
    show ?thesis
    proof
      assume "(256 * unat ty + unat w) mod 4096 = unat w"
      then have "(256 * unat ty + unat w) mod 4096 = unat w mod 4096" using w by simp
      then have "4096 dvd 256 * unat ty" using mod_eq_dvd_iff_nat[of "unat w" "256 * unat ty + unat w" 4096] by simp
      then have "256 * unat ty = 0" using ty dvd_imp_le[of 4096 "256 * unat ty"] by linarith
      then show "unat ty = 0" by simp
    qed (use w in simp)
  qed
  also have "\<dots> \<longleftrightarrow> ty = kConnector" by (simp add: word_unat_eq_iff)
  finally have "ParseNetWorkerIndex i = w \<longleftrightarrow> ty = kConnector" .
  moreover have "if unat w < 256 then ParseNetConnectionType i = ty else ParseNetConnectionType i \<noteq> ty"
    using type by (auto simp: word_unat_eq_iff)
  moreover have "ParseNetConnectionIndex i = j" using index by (rule word_unat_eq_iff[THEN iffD2])
  ultimately show ?thesis using i(1) worker type by (intro exI[of _ i] conjI) auto
qed

lemma net_id_roundtrip_witness:
  "\<exists>i. InitNetConnectionID kConnector 300 7 = Some i \<and> ParseNetConnectionIndex i = 7 \<and>
    ParseNetWorkerIndex i = 300 \<and> ParseNetConnectionType i \<noteq> kConnector"
  using net_id_roundtrip[of kConnector 300 7] by auto

text \<open>The next identifier counts in the 28 bits above the index, of which the upper 12 are the worker.\<close>

lemma next_mask: "(0xF0000000FFFFFFFF :: 64 word) = mask 32 OR push_bit 60 (mask 4)"
  by (simp add: mask_eq_exp_minus_1)

lemma unat_push_drop: "unat (push_bit 60 (drop_bit 60 i) :: 64 word) = unat i div 2 ^ 60 * 2 ^ 60"
proof -
  have "unat i div 2 ^ 60 * 2 ^ 60 \<le> unat i" by simp
  also have "unat i < 2 ^ 64" using unsigned_less[of i, where ?'a = nat] by simp
  finally have "unat i div 2 ^ 60 * 2 ^ 60 < 2 ^ 64" .
  then show ?thesis by (simp add: push_bit_eq_mult unat_word_ariths unat_drop)
qed

lemma unat_push_32: "unat x * 2 ^ 32 < 2 ^ 64 \<Longrightarrow> unat (push_bit 32 x :: 64 word) = unat x * 2 ^ 32"
  by (simp add: push_bit_eq_mult unat_word_ariths)

lemma NextNetConnectionID_unat:
  "unat (NextNetConnectionID i) =
     unat i div 2 ^ 60 * 2 ^ 60 + ((unat i div 2 ^ 32 + 1) mod 2 ^ 28 * 2 ^ 32 + unat i mod 2 ^ 32)"
proof -
  let ?top = "push_bit 60 (drop_bit 60 i)" and ?low = "take_bit 32 i"
    and ?incr = "push_bit 32 (take_bit 28 (drop_bit 32 i + 1))"
  have "i AND 0xF0000000FFFFFFFF = ?top OR ?low"
    unfolding next_mask by (rule bit_word_eqI) (auto simp: bit_simps)
  also have "\<dots> = ?top + ?low" by (rule disjunctive_add [symmetric]) (auto simp: bit_simps)
  finally have sum: "NextNetConnectionID i = ?top + ?low + ?incr" by (simp add: NextNetConnectionID_def Let_def mask_28)
  have d: "unat (drop_bit 32 i) < 2 ^ 32"
    using unsigned_less[of i, where ?'a = nat] by (simp add: unat_drop div_less_iff_less_mult)
  then have one: "unat (drop_bit 32 i + 1) = unat i div 2 ^ 32 + 1" by (simp add: unat_word_ariths unat_drop)
  have low: "unat ?low = unat i mod 2 ^ 32" by (rule unat_take)
  have "(unat i div 2 ^ 32 + 1) mod 2 ^ 28 * 2 ^ 32 < 2 ^ 64"
    using mod_less_divisor[of "2 ^ 28" "unat i div 2 ^ 32 + 1"] by simp
  then have incr: "unat ?incr = (unat i div 2 ^ 32 + 1) mod 2 ^ 28 * 2 ^ 32"
    using unat_push_32[of "take_bit 28 (drop_bit 32 i + 1)"] unfolding unat_take one by blast
  have "unat i div 2 ^ 60 < 2 ^ 4" using unsigned_less[of i, where ?'a = nat] by (simp add: div_less_iff_less_mult)
  then have "unat i div 2 ^ 60 * 2 ^ 60 + unat i mod 2 ^ 32 + (unat i div 2 ^ 32 + 1) mod 2 ^ 28 * 2 ^ 32 < 2 ^ 64"
    using mod_less_divisor[of "2 ^ 28" "unat i div 2 ^ 32 + 1"] mod_less_divisor[of "2 ^ 32" "unat i"] by simp
  then show ?thesis
    unfolding sum unat_word_ariths(1) unat_push_drop low incr by (simp add: mod_add_left_eq)
qed

lemma mod_28_div_16: "x mod 2 ^ 28 div 2 ^ 16 = x div 2 ^ 16 mod (4096 :: nat)"
proof -
  have x: "x mod 2 ^ 28 = x mod 2 ^ 16 + (x div 2 ^ 16 mod 4096) * 2 ^ 16"
    using mod_mult2_eq[of x "2 ^ 16" "2 ^ 12"] by simp
  show ?thesis unfolding x by (subst div_mult_self1) simp_all
qed

text \<open>the next identifier keeps the index; it keeps the worker and the type too unless the 16
  bits of the count are all ones, when the carry runs into the worker index.\<close>
theorem next_id_carry:
  "ParseNetConnectionIndex (NextNetConnectionID i) = ParseNetConnectionIndex i \<and>
   unat (ParseNetWorkerIndex (NextNetConnectionID i)) =
     (if unat i div 2 ^ 32 mod 2 ^ 16 = 2 ^ 16 - 1 then (unat (ParseNetWorkerIndex i) + 1) mod 4096
      else unat (ParseNetWorkerIndex i))"
proof
  define top u low where "top = unat i div 2 ^ 60" and "u = unat i div 2 ^ 32" and "low = unat i mod 2 ^ 32"
  have low: "low < 2 ^ 32" by (simp add: low_def)
  have n: "unat (NextNetConnectionID i) = top * 2 ^ 60 + ((u + 1) mod 2 ^ 28 * 2 ^ 32 + low)"
    by (simp add: NextNetConnectionID_unat top_def u_def low_def)
  have n: "unat (NextNetConnectionID i) = low + (top * 2 ^ 28 + (u + 1) mod 2 ^ 28) * 2 ^ 32" unfolding n by simp
  have "unat (NextNetConnectionID i) mod 2 ^ 32 = low" unfolding n mod_mult_self1 using low by (rule mod_less)
  moreover have "unat (NextNetConnectionID i) div 2 ^ 32 = top * 2 ^ 28 + (u + 1) mod 2 ^ 28"
    unfolding n using low by (subst div_mult_self1) simp_all
  ultimately have "unat (NextNetConnectionID i) mod 2 ^ 32 = low" "unat (NextNetConnectionID i) div 2 ^ 32 = top * 2 ^ 28 + (u + 1) mod 2 ^ 28"
    by blast+
  then show "ParseNetConnectionIndex (NextNetConnectionID i) = ParseNetConnectionIndex i"
    by (simp add: word_unat_eq_iff Parse_unat low_def)
  have split: "x div 2 ^ 48 mod 2 ^ 12 = x div 2 ^ 32 mod 2 ^ 28 div 2 ^ 16" for x :: nat
  proof -
    have "x div 2 ^ 48 = x div 2 ^ 32 div 2 ^ 16" by (simp add: div_mult2_eq[symmetric])
    then show ?thesis using mod_28_div_16[of "x div 2 ^ 32"] by simp
  qed
  have "unat (ParseNetWorkerIndex (NextNetConnectionID i)) = (u + 1) mod 2 ^ 28 div 2 ^ 16"
    unfolding Parse_unat split \<open>unat (NextNetConnectionID i) div 2 ^ 32 = _\<close> by (simp add: mod_add_left_eq)
  moreover have "unat (ParseNetWorkerIndex i) = u mod 2 ^ 28 div 2 ^ 16" unfolding Parse_unat split u_def ..
  moreover have "(u + 1) mod 2 ^ 28 div 2 ^ 16 = (if u mod 2 ^ 16 = 2 ^ 16 - 1 then (u mod 2 ^ 28 div 2 ^ 16 + 1) mod 4096
      else u mod 2 ^ 28 div 2 ^ 16)"
  proof -
    define a b where "a = u div 2 ^ 16" and "b = u mod 2 ^ 16"
    have u: "u = a * 2 ^ 16 + b" "b < 2 ^ 16" by (simp_all add: a_def b_def)
    show ?thesis
    proof (cases "b = 2 ^ 16 - 1")
      case True
      then have "(u + 1) div 2 ^ 16 = a + 1" using u by simp
      then show ?thesis using True unfolding mod_28_div_16 a_def[symmetric] b_def[symmetric] by (simp add: mod_simps)
    next
      case False
      then have "b + 1 < 2 ^ 16" using u(2) by simp
      then have "(u + 1) div 2 ^ 16 = a" using u by simp
      then show ?thesis using False unfolding mod_28_div_16 a_def[symmetric] b_def[symmetric] by simp
    qed
  qed
  ultimately show "unat (ParseNetWorkerIndex (NextNetConnectionID i)) =
     (if unat i div 2 ^ 32 mod 2 ^ 16 = 2 ^ 16 - 1 then (unat (ParseNetWorkerIndex i) + 1) mod 4096
      else unat (ParseNetWorkerIndex i))"
    by (simp add: u_def)
qed

section \<open>The write check\<close>

text \<open>\<open>Write\<close> compares with its argument in place of the size of the buffer: a second write
  of a few bytes is refused however much room is left, and a first write is allowed however little
  room there is.\<close>
theorem NetBuffer_Write_check:
  assumes "unat (write_pos b) + unat n < 2 ^ 64"
  shows "NetBuffer_Write n b = (if write_pos b = 0 then Some (b\<lparr>write_pos := n\<rparr>) else None)"
proof -
  have "unat (write_pos b + n) = unat (write_pos b) + unat n" using assms by (simp add: unat_word_ariths)
  then have "write_pos b + n \<le> n \<longleftrightarrow> write_pos b = 0" by (auto simp: word_le_nat_alt word_unat_eq_iff)
  then show ?thesis by (auto simp: NetBuffer_Write_def)
qed

lemma NetBuffer_Write_check_witness:
  "NetBuffer_Write 1 \<lparr>buffer_data = replicate 10 0, buffer_size = 10, read_pos = 0, write_pos = 4\<rparr> = None \<and>
   NetBuffer_Write 99 \<lparr>buffer_data = replicate 10 0, buffer_size = 10, read_pos = 0, write_pos = 0\<rparr> =
     Some \<lparr>buffer_data = replicate 10 0, buffer_size = 10, read_pos = 0, write_pos = 99\<rparr>"
  using NetBuffer_Write_check[of "\<lparr>buffer_data = replicate 10 0, buffer_size = 10, read_pos = 0, write_pos = 4\<rparr>" 1]
    NetBuffer_Write_check[of "\<lparr>buffer_data = replicate 10 0, buffer_size = 10, read_pos = 0, write_pos = 0\<rparr>" 99]
  by simp

end
