(* ===== verification/NetSocket.thy ===== *)
theory NetSocket
  imports NetIds "HOL-Library.State_Monad"
begin

text \<open>
  Addresses (include/mzx/net/net_address.h), errors (include/mzx/error.h) and sockets
  (include/mzx/net/net_socket.h, src/net/net_socket.cpp). The system calls are a parameter: a record of
  functions in the state monad of the library over a kernel state \<open>'k\<close>. A system call that fails
  returns -1 and leaves its reason in \<open>errno\<close>. \<open>pthread_create\<close> is one of them: it gives the identifier of a new
  thread or, on the left, what it leaves there when it fails.
\<close>

section \<open>Addresses and errors\<close>

text \<open>A \<open>sockaddr_storage\<close>: the family, the bytes of the address and the port in network order. The host is
  little endian.\<close>

record net_address =
  address_ipv6 :: bool
  address_ip :: "8 word list"
  address_port :: "16 word"

definition htons :: "16 word \<Rightarrow> 16 word" where
  "htons p = word_rotr 8 p"

text \<open>\<open>inet_pton\<close> is a parameter. Its result is not looked at: an address it does not read stays zero,
  as \<open>memset\<close> made it.\<close>

definition any_ip :: "bool \<Rightarrow> 8 word list" where
  "any_ip is_ipv6 = replicate (if is_ipv6 then 16 else 4) 0"

definition NetAddress :: "(bool \<Rightarrow> string \<Rightarrow> 8 word list option) \<Rightarrow> 16 word \<Rightarrow> string option \<Rightarrow> bool \<Rightarrow> net_address" where
  "NetAddress inet_pton port ip is_ipv6 =
     \<lparr>address_ipv6 = is_ipv6,
      address_ip = (case ip of
          None \<Rightarrow> any_ip is_ipv6
        | Some s \<Rightarrow> if s = [] then any_ip is_ipv6
            else case inet_pton is_ipv6 s of None \<Rightarrow> any_ip is_ipv6 | Some a \<Rightarrow> a),
      address_port = htons port\<rparr>"

definition IsIPv6 :: "net_address \<Rightarrow> bool" where
  "IsIPv6 a = address_ipv6 a"

definition Port :: "net_address \<Rightarrow> 16 word" where
  "Port a = htons (address_port a)"

datatype error_code = kSuccess | kUnknown

definition ToError :: "int \<Rightarrow> error_code" where
  "ToError e = (if e = 0 then kSuccess else kUnknown)"

section \<open>The kernel\<close>

type_synonym sock = int

definition kNetSocketIDInvalid :: sock where
  "kNetSocketIDInvalid = - 1"

definition kNetSocketFlagNonBlock :: int where "kNetSocketFlagNonBlock = 1"
definition kNetSocketFlagCloseOnExec :: int where "kNetSocketFlagCloseOnExec = 2"
definition kNetSocketFlagReuseAddr :: int where "kNetSocketFlagReuseAddr = 4"

datatype fcntl_cmd = F_GETFL | F_SETFL | F_GETFD | F_SETFD

datatype epoll_op = EPOLL_CTL_ADD | EPOLL_CTL_MOD | EPOLL_CTL_DEL

abbreviation (input) O_NONBLOCK :: int where "O_NONBLOCK \<equiv> 0x800"
abbreviation (input) FD_CLOEXEC :: int where "FD_CLOEXEC \<equiv> 1"

record 'k kernel =
  sys_errno :: "('k, int) state"
  sys_socket :: "bool \<Rightarrow> ('k, sock) state"
  sys_close :: "sock \<Rightarrow> ('k, unit) state"
  sys_bind :: "sock \<Rightarrow> net_address \<Rightarrow> ('k, int) state"
  sys_listen :: "sock \<Rightarrow> int \<Rightarrow> ('k, int) state"
  sys_accept :: "sock \<Rightarrow> ('k, sock \<times> net_address) state"
  sys_connect :: "sock \<Rightarrow> net_address \<Rightarrow> ('k, int) state"
  sys_read :: "sock \<Rightarrow> nat \<Rightarrow> ('k, int \<times> 8 word list) state"
  sys_write :: "sock \<Rightarrow> 8 word list \<Rightarrow> ('k, int) state"
  sys_fcntl :: "sock \<Rightarrow> fcntl_cmd \<Rightarrow> int \<Rightarrow> ('k, int) state"
  sys_reuse_addr :: "sock \<Rightarrow> ('k, int) state"
  sys_epoll_create :: "('k, sock) state"
  sys_eventfd :: "('k, sock) state"
  sys_epoll_ctl :: "sock \<Rightarrow> epoll_op \<Rightarrow> sock \<Rightarrow> 32 word \<Rightarrow> ('k, int) state"
  sys_thread_create :: "('k, nat + nat) state"

section \<open>Socket operations\<close>

definition last_error :: "'k kernel \<Rightarrow> ('k, error_code) state" where
  "last_error K = do { e \<leftarrow> sys_errno K; State_Monad.return (ToError e) }"

definition SetNonBlock :: "'k kernel \<Rightarrow> sock \<Rightarrow> ('k, error_code) state" where
  "SetNonBlock K s = do {
     flags \<leftarrow> sys_fcntl K s F_GETFL 0;
     if flags = - 1 then State_Monad.return kUnknown
     else do {
       flags \<leftarrow> sys_fcntl K s F_SETFL (flags OR O_NONBLOCK);
       State_Monad.return (if flags = - 1 then kUnknown else kSuccess) } }"

definition SetCloseOnExec :: "'k kernel \<Rightarrow> sock \<Rightarrow> ('k, error_code) state" where
  "SetCloseOnExec K s = do {
     flags \<leftarrow> sys_fcntl K s F_GETFD 0;
     if flags = - 1 then State_Monad.return kUnknown
     else do {
       flags \<leftarrow> sys_fcntl K s F_SETFD (flags OR FD_CLOEXEC);
       State_Monad.return (if flags = - 1 then kUnknown else kSuccess) } }"

definition SetReuseAddr :: "'k kernel \<Rightarrow> sock \<Rightarrow> ('k, error_code) state" where
  "SetReuseAddr K s = do {
     ret \<leftarrow> sys_reuse_addr K s;
     State_Monad.return (if ret < 0 then kUnknown else kSuccess) }"

text \<open>One of the three guarded assignments of \<open>SetFlags\<close>: the call is made when the flag asks for it.\<close>

definition set_flag :: "bool \<Rightarrow> ('k, error_code) state \<Rightarrow> ('k, error_code) state" where
  "set_flag asked act = (if asked then act else State_Monad.return kSuccess)"

definition SetFlags :: "'k kernel \<Rightarrow> sock \<Rightarrow> int \<Rightarrow> ('k, error_code) state" where
  "SetFlags K s flags =
     (if flags \<le> 0 then State_Monad.return kSuccess
      else do {
        err \<leftarrow> set_flag (flags AND kNetSocketFlagNonBlock \<noteq> 0) (SetNonBlock K s);
        if err \<noteq> kSuccess then State_Monad.return err
        else do {
          err \<leftarrow> set_flag (flags AND kNetSocketFlagCloseOnExec \<noteq> 0) (SetCloseOnExec K s);
          if err \<noteq> kSuccess then State_Monad.return err
          else set_flag (flags AND kNetSocketFlagReuseAddr \<noteq> 0) (SetReuseAddr K s) } })"

definition DestroySocket :: "'k kernel \<Rightarrow> sock \<Rightarrow> ('k, unit) state" where
  "DestroySocket K s = sys_close K s"

definition Bind :: "'k kernel \<Rightarrow> sock \<Rightarrow> net_address \<Rightarrow> ('k, error_code) state" where
  "Bind K s a = do {
     ret \<leftarrow> sys_bind K s a;
     if ret = - 1 then last_error K else State_Monad.return kSuccess }"

definition Listen :: "'k kernel \<Rightarrow> sock \<Rightarrow> int \<Rightarrow> ('k, error_code) state" where
  "Listen K s backlog = do {
     ret \<leftarrow> sys_listen K s backlog;
     if ret = - 1 then last_error K else State_Monad.return kSuccess }"

definition Connect :: "'k kernel \<Rightarrow> sock \<Rightarrow> net_address \<Rightarrow> ('k, error_code) state" where
  "Connect K s a = do {
     ret \<leftarrow> sys_connect K s a;
     if ret = - 1 then last_error K else State_Monad.return kSuccess }"

text \<open>A result \<open>(sock, error)\<close> has \<open>None\<close> where the source does not write to \<open>*error\<close>.\<close>

definition CreateTcpSocket :: "'k kernel \<Rightarrow> bool \<Rightarrow> int \<Rightarrow> ('k, sock \<times> error_code option) state" where
  "CreateTcpSocket K is_ipv6 flags = do {
     s \<leftarrow> sys_socket K is_ipv6;
     if s = kNetSocketIDInvalid then do {
       e \<leftarrow> last_error K;
       State_Monad.return (kNetSocketIDInvalid, Some e) }
     else do {
       err \<leftarrow> SetFlags K s flags;
       if err \<noteq> kSuccess then do {
         e \<leftarrow> last_error K;
         u \<leftarrow> DestroySocket K s;
         State_Monad.return (kNetSocketIDInvalid, Some e) }
       else State_Monad.return (s, None) } }"

definition CreateTcpSocket_addr :: "'k kernel \<Rightarrow> net_address \<Rightarrow> int \<Rightarrow> ('k, sock \<times> error_code option) state" where
  "CreateTcpSocket_addr K a flags = do {
     (s, error) \<leftarrow> CreateTcpSocket K (IsIPv6 a) flags;
     if s \<noteq> kNetSocketIDInvalid then do {
       err \<leftarrow> Bind K s a;
       if err \<noteq> kSuccess then do {
         u \<leftarrow> DestroySocket K s;
         State_Monad.return (kNetSocketIDInvalid, Some err) }
       else State_Monad.return (s, error) }
     else State_Monad.return (s, error) }"

text \<open>\<open>Accept\<close> sets the flags on the listening socket, not on the one it returns. A caller that passes no address
  ignores the second component.\<close>

definition Accept :: "'k kernel \<Rightarrow> sock \<Rightarrow> int \<Rightarrow> ('k, sock \<times> net_address option \<times> error_code option) state" where
  "Accept K s flags = do {
     (t, a) \<leftarrow> sys_accept K s;
     if t = kNetSocketIDInvalid then do {
       e \<leftarrow> last_error K;
       State_Monad.return (kNetSocketIDInvalid, None, Some e) }
     else do {
       err \<leftarrow> SetFlags K s flags;
       if err \<noteq> kSuccess then do {
         e \<leftarrow> last_error K;
         u \<leftarrow> DestroySocket K t;
         State_Monad.return (kNetSocketIDInvalid, Some a, Some e) }
       else State_Monad.return (t, Some a, None) } }"

text \<open>\<open>Read\<close> and \<open>Write\<close> abort on an empty range.\<close>

definition Socket_Read :: "'k kernel \<Rightarrow> sock \<Rightarrow> nat \<Rightarrow> ('k, int \<times> 8 word list \<times> error_code option) state option" where
  "Socket_Read K s n = do {
     check (n > 0);
     Some (do {
       (ret, bytes) \<leftarrow> sys_read K s n;
       if ret = - 1 then do { e \<leftarrow> last_error K; State_Monad.return (ret, bytes, Some e) }
       else State_Monad.return (ret, bytes, None) }) }"

definition Socket_Write :: "'k kernel \<Rightarrow> sock \<Rightarrow> 8 word list \<Rightarrow> ('k, int \<times> error_code option) state option" where
  "Socket_Write K s bytes = do {
     check (bytes \<noteq> []);
     Some (do {
       ret \<leftarrow> sys_write K s bytes;
       if ret = - 1 then do { e \<leftarrow> last_error K; State_Monad.return (ret, Some e) }
       else State_Monad.return (ret, None) }) }"

end
