(* ===== verification/ThreadStates.thy ===== *)
theory ThreadStates
  imports Prelude
begin

text \<open>
  The wrapper of a POSIX thread (include/mzx/thread.h, src/thread.cpp) as a state machine: the object, of which one
  caller uses the operations one after the other, and the threads that it started, which end by themselves.

  \<open>pthread_create\<close> gives a new identifier or fails, and then leaves any identifier; \<open>pthread_join\<close> blocks until the
  thread has ended or fails, so that \<open>Join\<close> is two steps of the caller. A thread ends in two steps: it runs the
  clean-up handler, a cancelled one too, and is gone some time after.
\<close>

section \<open>The object\<close>

type_synonym thread_id = nat

datatype os_thread = Running | Ending | Finished | Joined

datatype caller = Idle | Joining thread_id

record 'f thread =
  thread_id :: thread_id
  joinable :: bool
  run_cb :: "'f option"
  os_threads :: "thread_id \<rightharpoonup> os_thread"
  caller :: caller

definition THREAD_ID_INVALID :: thread_id where
  "THREAD_ID_INVALID = 0"

definition Thread_new :: "'f option \<Rightarrow> 'f thread option" where
  "Thread_new cb = do {
     check (cb \<noteq> None);
     Some \<lparr>thread_id = THREAD_ID_INVALID, joinable = False, run_cb = cb, os_threads = Map.empty, caller = Idle\<rparr> }"

text \<open>The constructor for a class derived from it, which has a body of its own.\<close>

definition Thread_derived :: "'f thread" where
  "Thread_derived = \<lparr>thread_id = THREAD_ID_INVALID, joinable = False, run_cb = None, os_threads = Map.empty, caller = Idle\<rparr>"

definition Joinable :: "'f thread \<Rightarrow> bool" where
  "Joinable t = joinable t"

definition IsCurrentThread :: "thread_id \<Rightarrow> 'f thread \<Rightarrow> bool" where
  "IsCurrentThread current t \<longleftrightarrow> thread_id t = current"

text \<open>\<open>created\<close> is the result of \<open>pthread_create\<close>: the new thread, or the identifier it leaves when it fails.\<close>

definition Start :: "thread_id + thread_id \<Rightarrow> 'f thread \<Rightarrow> bool \<times> 'f thread" where
  "Start created t =
     (if Joinable t then (False, t)
      else let t = t\<lparr>joinable := True\<rparr> in (case created of
          Inr i \<Rightarrow> (True, t\<lparr>thread_id := i, os_threads := (os_threads t)(i \<mapsto> Running)\<rparr>)
        | Inl i \<Rightarrow> (False, t\<lparr>thread_id := i, joinable := False\<rparr>)))"

text \<open>The result is that of \<open>Join\<close> when it returns at once.\<close>

definition Join_begin :: "'f thread \<Rightarrow> bool option \<times> 'f thread" where
  "Join_begin t = (if \<not> Joinable t then (Some True, t) else (None, t\<lparr>caller := Joining (thread_id t)\<rparr>))"

definition Join_end :: "thread_id \<Rightarrow> 'f thread \<Rightarrow> bool \<times> 'f thread" where
  "Join_end i t = (True, t\<lparr>caller := Idle, os_threads := (os_threads t)(i \<mapsto> Joined)\<rparr>)"

text \<open>When \<open>pthread_join\<close> returns an error \<open>Join\<close> returns false.\<close>

definition Join_fails :: "'f thread \<Rightarrow> bool \<times> 'f thread" where
  "Join_fails t = (False, t\<lparr>caller := Idle\<rparr>)"

definition CleanUp :: "'f thread \<Rightarrow> 'f thread" where
  "CleanUp t = t\<lparr>joinable := False\<rparr>"

text \<open>The thread goes through its body, which may use anything but this object; then the handler runs, and then the thread
  ends.\<close>

definition Run_cleanup :: "thread_id \<Rightarrow> 'f thread \<Rightarrow> 'f thread" where
  "Run_cleanup i t = (CleanUp t)\<lparr>os_threads := (os_threads t)(i \<mapsto> Ending)\<rparr>"

definition Run_end :: "thread_id \<Rightarrow> 'f thread \<Rightarrow> 'f thread" where
  "Run_end i t = t\<lparr>os_threads := (os_threads t)(i \<mapsto> Finished)\<rparr>"

definition Thread_delete :: "'f thread \<Rightarrow> unit option" where
  "Thread_delete t = check (\<not> joinable t)"

text \<open>\<open>pthread_cancel\<close> with an identifier that no thread has, or whose thread was joined, is not defined. A thread that is
  cancelled ends; \<open>err\<close> is the result of the call.\<close>

definition Cancel_id :: "int \<Rightarrow> thread_id \<Rightarrow> 'f thread \<Rightarrow> bool option" where
  "Cancel_id err i t = do {
     check (os_threads t i \<noteq> None \<and> os_threads t i \<noteq> Some Joined);
     Some (err = 0) }"

definition Cancel :: "int \<Rightarrow> 'f thread \<Rightarrow> bool option" where
  "Cancel err t = Cancel_id err (thread_id t) t"

text \<open>The microseconds that \<open>Sleep\<close> asks for.\<close>

definition Sleep :: "32 word \<Rightarrow> 32 word" where
  "Sleep ms = ms * 1000"

text \<open>\<open>CmdLine::Start\<close> and \<open>CmdLine::Stop\<close> of src/system/cmd_line.cpp on the thread that reads the commands, the latter as far as it
  goes without waiting.\<close>

definition CmdLine_Start :: "thread_id + thread_id \<Rightarrow> 'f thread \<Rightarrow> bool \<times> 'f thread" where
  "CmdLine_Start created t = Start created t"

definition CmdLine_Stop :: "int \<Rightarrow> 'f thread \<Rightarrow> (bool option \<times> 'f thread) option" where
  "CmdLine_Stop err t = do {
     _ \<leftarrow> Cancel err t;
     Some (Join_begin t) }"

section \<open>Steps\<close>

inductive object_step :: "'f thread \<Rightarrow> 'f thread \<Rightarrow> bool" where
  start: "caller t = Idle \<Longrightarrow> os_threads t i = None \<Longrightarrow> object_step t (snd (Start (Inr i) t))"
| start_fails: "caller t = Idle \<Longrightarrow> object_step t (snd (Start (Inl i) t))"
| join_begin: "caller t = Idle \<Longrightarrow> object_step t (snd (Join_begin t))"
| join_end: "caller t = Joining i \<Longrightarrow> os_threads t i = Some Finished \<Longrightarrow> object_step t (snd (Join_end i t))"
| join_fails: "caller t = Joining i \<Longrightarrow> object_step t (snd (Join_fails t))"
| cleans_up: "os_threads t i = Some Running \<Longrightarrow> object_step t (Run_cleanup i t)"
| ends: "os_threads t i = Some Ending \<Longrightarrow> object_step t (Run_end i t)"

inductive object_reach :: "'f thread \<Rightarrow> bool" where
  new: "Thread_new cb = Some t \<Longrightarrow> object_reach t"
| derived: "object_reach Thread_derived"
| step: "object_reach t \<Longrightarrow> object_step t t' \<Longrightarrow> object_reach t'"

inductive_cases object_stepE: "object_step t t'"

text \<open>One thread runs when the object is joinable and none when it is not, apart from threads that have run the clean-up
  handler; the caller waits for a thread that nobody has joined, and that runs when the object is joinable.\<close>

definition thread_ok :: "'f thread \<Rightarrow> bool" where
  "thread_ok t \<longleftrightarrow> (\<forall>i. os_threads t i = Some Running \<longleftrightarrow> joinable t \<and> i = thread_id t) \<and>
     (case caller t of Idle \<Rightarrow> True
      | Joining i \<Rightarrow> i = thread_id t \<and> (joinable t \<or> os_threads t i \<in> {Some Ending, Some Finished}))"

lemmas object_defs = Start_def Joinable_def Join_begin_def Join_end_def Join_fails_def Run_cleanup_def Run_end_def CleanUp_def Let_def

lemma object_ok_step: "object_step t t' \<Longrightarrow> thread_ok t \<Longrightarrow> thread_ok t'"
  by (elim object_stepE) (auto simp: thread_ok_def object_defs split: caller.splits if_splits,
      (metis option.inject os_thread.distinct)+)

lemma object_reach_ok: "object_reach t \<Longrightarrow> thread_ok t"
proof (induction rule: object_reach.induct)
  case (new cb t)
  then show ?case by (auto simp: Thread_new_def thread_ok_def check_def split: if_splits)
next
  case derived
  then show ?case by (simp add: Thread_derived_def thread_ok_def)
next
  case (step t t')
  then show ?case by (blast intro: object_ok_step)
qed

text \<open>C37: in every state of a thread object at most one thread runs that has not run its clean-up handler, exactly if the
  object is joinable, and it is the one that the object names; \<open>Join\<close> waits for a thread
  that was not joined before, and when its wait ends the object is not joinable: the destructor
  passes its check and \<open>Start\<close> can start another thread.\<close>
theorem thread_states:
  assumes "object_reach t"
  shows "(\<forall>i. os_threads t i = Some Running \<longleftrightarrow> joinable t \<and> i = thread_id t) \<and>
    (\<forall>i. caller t = Joining i \<longrightarrow> os_threads t i \<noteq> None \<and> os_threads t i \<noteq> Some Joined) \<and>
    (\<forall>i. caller t = Joining i \<longrightarrow> os_threads t i = Some Finished \<longrightarrow>
      Thread_delete (snd (Join_end i t)) = Some () \<and> (\<forall>j. fst (Start (Inr j) (snd (Join_end i t)))))"
proof -
  have ok: "thread_ok t" by (rule object_reach_ok[OF assms])
  have r: "\<forall>i. os_threads t i = Some Running \<longleftrightarrow> joinable t \<and> i = thread_id t" using ok by (simp add: thread_ok_def)
  have j: "os_threads t i \<in> {Some Running, Some Ending, Some Finished} \<and> (joinable t \<longrightarrow> os_threads t i = Some Running)"
    if "caller t = Joining i" for i
    using ok that by (auto simp: thread_ok_def)
  have n: "\<not> joinable t" if "caller t = Joining i" "os_threads t i = Some Finished" for i using j[OF that(1)] that(2) by auto
  have "Thread_delete (snd (Join_end i t)) = Some () \<and> (\<forall>j. fst (Start (Inr j) (snd (Join_end i t))))"
    if "caller t = Joining i" "os_threads t i = Some Finished" for i
    using n[OF that] by (simp add: Thread_delete_def Join_end_def Start_def Joinable_def Let_def)
  then show ?thesis using r j by fastforce
qed

text \<open>A thread that has ended and that the caller is not waiting for is never joined.\<close>

lemma unjoined_step:
  assumes "object_step t t'" "thread_ok t" "os_threads t i = Some Finished" "caller t \<noteq> Joining i"
  shows "os_threads t' i = Some Finished \<and> caller t' \<noteq> Joining i"
proof -
  have "joinable t \<Longrightarrow> os_threads t (thread_id t) = Some Running" using assms(2) by (simp add: thread_ok_def)
  then show ?thesis using assms(1,3,4) by (elim object_stepE) (auto simp: object_defs)
qed

text \<open>if the thread ends before \<open>Join\<close> is called, \<open>Join\<close> returns true at once and \<open>pthread_join\<close> is never called for
  it, whatever is done later: the system keeps what belongs to it.\<close>
theorem thread_never_joined:
  assumes "object_reach t" "caller t = Idle" "os_threads t i = Some Finished" "object_step\<^sup>*\<^sup>* t t'"
  shows "(i = thread_id t \<longrightarrow> Join_begin t = (Some True, t)) \<and> os_threads t' i = Some Finished"
proof -
  have ok: "thread_ok t" by (rule object_reach_ok[OF assms(1)])
  have "thread_ok t' \<and> os_threads t' i = Some Finished \<and> caller t' \<noteq> Joining i"
    using assms(4)
  proof (induction rule: rtranclp_induct)
    case base
    then show ?case using ok assms(2,3) by simp
  next
    case (step u v)
    then show ?case using object_ok_step[of u v] unjoined_step[of u v i] by blast
  qed
  moreover have "\<not> joinable t" if "i = thread_id t"
  proof -
    have "os_threads t i = Some Running \<longleftrightarrow> joinable t \<and> i = thread_id t" using ok by (simp add: thread_ok_def)
    then show ?thesis using assms(3) that by simp
  qed
  ultimately show ?thesis by (simp add: Join_begin_def Joinable_def)
qed

text \<open>A thread that can be stopped is running or has ended without being joined; before the first start and after a \<open>Join\<close> that
  waited, \<open>CmdLine::Stop\<close> asks for a thread that is not there.\<close>
theorem CmdLine_Stop_correct:
  assumes "object_reach t"
  shows "CmdLine_Stop err t = (case os_threads t (thread_id t) of
      Some Running \<Rightarrow> Some (None, t\<lparr>caller := Joining (thread_id t)\<rparr>)
    | Some Ending \<Rightarrow> Some (Some True, t)
    | Some Finished \<Rightarrow> Some (Some True, t)
    | _ \<Rightarrow> None) \<and>
    CmdLine_Stop err (Thread_derived :: 'f thread) = None \<and> CmdLine_Stop err (snd (Join_end (thread_id t) t)) = None"
proof -
  have "os_threads t (thread_id t) = Some Running \<longleftrightarrow> joinable t" using object_reach_ok[OF assms] by (simp add: thread_ok_def)
  then show ?thesis
    by (auto simp: CmdLine_Stop_def Cancel_def Cancel_id_def Join_begin_def Joinable_def Thread_derived_def Join_end_def
      split: option.split os_thread.split)
qed

text \<open>\<open>Sleep\<close> waits for the time it is given up to 4294967 milliseconds, and from there on for less.\<close>
lemma Sleep_correct: "unat (Sleep ms) = 1000 * unat ms mod 2 ^ 32"
  by (simp add: Sleep_def unat_word_ariths mult.commute)

text \<open>A thread that is started and ends.\<close>

definition ended_thread :: "unit thread" where
  "ended_thread = \<lparr>thread_id = 5, joinable = False, run_cb = Some (), os_threads = [5 \<mapsto> Finished], caller = Idle\<rparr>"

lemma ended_reachable: "object_reach ended_thread"
proof -
  let ?t = "\<lparr>thread_id = THREAD_ID_INVALID, joinable = False, run_cb = Some (), os_threads = Map.empty, caller = Idle\<rparr>"
  have "object_reach ?t" by (rule object_reach.new[of "Some ()"]) (simp add: Thread_new_def)
  then have "object_reach (snd (Start (Inr 5) ?t))" by (rule object_reach.step) (rule object_step.start; simp)
  then have "object_reach (Run_cleanup 5 (snd (Start (Inr 5) ?t)))"
    by (rule object_reach.step) (rule object_step.cleans_up; simp add: Start_def Joinable_def Let_def)
  then have "object_reach (Run_end 5 (Run_cleanup 5 (snd (Start (Inr 5) ?t))))"
    by (rule object_reach.step) (rule object_step.ends; simp add: Run_cleanup_def)
  then show ?thesis by (simp add: Run_end_def Run_cleanup_def CleanUp_def Start_def Joinable_def Let_def ended_thread_def)
qed

theorem thread_states_witness: "\<not> joinable ended_thread \<and> os_threads ended_thread 5 \<noteq> Some Running"
  using thread_states[OF ended_reachable] by (simp add: ended_thread_def)

theorem thread_never_joined_witness:
  "Join_begin ended_thread = (Some True, ended_thread) \<and> os_threads (snd (Start (Inr 6) ended_thread)) 5 = Some Finished"
proof -
  have "object_step\<^sup>*\<^sup>* ended_thread (snd (Start (Inr 6) ended_thread))"
    by (rule r_into_rtranclp) (rule object_step.start; simp add: ended_thread_def)
  from thread_never_joined[OF ended_reachable _ _ this, of 5] show ?thesis by (simp add: ended_thread_def)
qed

end
