(* ===== verification/NetWorker.thy ===== *)
theory NetWorker
  imports NetSocket SPSCQueue ThreadStates
begin

text \<open>
  The network worker of include/mzx/net/net_worker.h and src/net/net_worker.cpp, its events
  (include/mzx/net/net_event.h) and the calls that the two threads make on it. The worker is seen
  between the calls of its queues, which theory SPSCThreads interleaves.

  Objects on the heap are named by their position in the vector that owns them: connectors in
  \<open>connector_list_\<close>, buffers in their buffer list. A tagged union of an event is a datatype; of a
  peer's event only the address is ever set or read. The kernel is the parameter of theory NetSocket.
  \<open>FreeInputBuffer\<close> and \<open>Disconnect\<close> are declared in the class and defined nowhere; they are parameters.
\<close>

section \<open>Events and objects\<close>

datatype input_data = ISend nat | IAccept sock | IPeerConnect net_address | IDisconnect

record net_input_event =
  in_id :: net_id
  in_data :: "input_data"

datatype output_data = ORecv "nat option" | OConnected net_address | ODisConnected error_code

record net_output_event =
  out_id :: net_id
  out_handler_id :: net_id
  out_data :: "output_data"

record net_acceptor =
  acceptor_id :: net_id
  acceptor_sock :: sock
  acceptor_events :: "32 word"

record net_peer_connector =
  peer_id :: net_id
  peer_sock :: sock
  peer_events :: "32 word"

record net_connector =
  connector_id :: net_id
  connector_sock :: sock
  write_buffer_list :: "nat list"

record net_conf =
  worker_count :: "64 word"
  handle_count :: "64 word"
  connector_count :: "64 word"
  input_event_count :: "64 word"
  output_event_count :: "64 word"
  input_buffer_count :: "64 word"
  input_buffer_size :: "64 word"
  output_buffer_count :: "64 word"
  output_buffer_size :: "64 word"

definition NetConf_default :: net_conf where
  "NetConf_default = \<lparr>worker_count = 1, handle_count = 128, connector_count = 1024, input_event_count = 2048,
     output_event_count = 2048, input_buffer_count = 2048, input_buffer_size = 20480,
     output_buffer_count = 2048, output_buffer_size = 2048\<rparr>"

record net_worker =
  epoll_fd :: sock
  wakeup_fd :: sock
  connector_list :: "net_connector list"
  connector_free_list :: "nat list"
  acceptor_list :: "net_acceptor list"
  peer_connector_list :: "net_peer_connector list"
  input_event_list :: "net_input_event spsc"
  output_event_list :: "net_output_event spsc"
  input_buffer_list :: "net_buffer list"
  input_buffer_free_list :: "nat spsc"
  output_buffer_list :: "net_buffer list"
  output_buffer_free_list :: "nat spsc"
  stop_flag :: bool
  worker_thread :: "unit thread"

section \<open>Setting up\<close>

abbreviation (input) EPOLLIN :: "32 word" where "EPOLLIN \<equiv> 1"
abbreviation (input) EPOLLOUT :: "32 word" where "EPOLLOUT \<equiv> 4"
abbreviation (input) EPOLLET :: "32 word" where "EPOLLET \<equiv> 0x80000000"

text \<open>The result and the two descriptors; on an error they keep their numbers although they are closed.\<close>

definition InitIOServer :: "'k kernel \<Rightarrow> ('k, bool \<times> sock \<times> sock) state" where
  "InitIOServer K = do {
     efd \<leftarrow> sys_epoll_create K;
     if efd < 0 then State_Monad.return (False, efd, - 1)
     else do {
       wfd \<leftarrow> sys_eventfd K;
       if wfd < 0 then do {
         u \<leftarrow> sys_close K efd;
         State_Monad.return (False, efd, wfd) }
       else do {
         ret \<leftarrow> sys_epoll_ctl K efd EPOLL_CTL_ADD wfd (EPOLLIN OR EPOLLET);
         if ret < 0 then do {
           u \<leftarrow> sys_close K efd;
           u \<leftarrow> sys_close K wfd;
           State_Monad.return (False, efd, wfd) }
         else State_Monad.return (True, efd, wfd) } } }"

text \<open>The buffers of one direction, each pushed to the free list as it is made; the result of \<open>Push\<close> is
  not looked at. The memory of a buffer is the parameter \<open>raw\<close>.\<close>

fun make_buffers :: "(nat \<Rightarrow> 8 word list option) \<Rightarrow> 64 word \<Rightarrow> nat \<Rightarrow> net_buffer list \<Rightarrow> nat spsc
    \<Rightarrow> (net_buffer list \<times> nat spsc) option" where
  "make_buffers raw n 0 bs q = Some (bs, q)"
| "make_buffers raw n (Suc k) bs q = do {
     b \<leftarrow> NetBuffer_new (raw (length bs)) n;
     make_buffers raw n k (bs @ [b]) (snd (Push (length bs) q)) }"

text \<open>The connectors. The source passes two arguments to \<open>InitNetConnectionID\<close>, which has three; the
  missing one is the worker's index, which \<open>NetMaster::Init\<close> passes to the constructor.\<close>

fun make_connectors :: "64 word \<Rightarrow> nat \<Rightarrow> net_connector list \<Rightarrow> net_connector list option" where
  "make_connectors w 0 cs = Some cs"
| "make_connectors w (Suc k) cs = do {
     i \<leftarrow> InitNetConnectionID kConnector w (of_nat (length cs));
     make_connectors w k (cs @ [\<lparr>connector_id = i, connector_sock = kNetSocketIDInvalid, write_buffer_list = []\<rparr>]) }"

definition worker_setup :: "(nat \<Rightarrow> 8 word list option) \<Rightarrow> (nat \<Rightarrow> 8 word list option) \<Rightarrow> 64 word \<Rightarrow> net_conf
    \<Rightarrow> sock \<Rightarrow> sock \<Rightarrow> net_worker option" where
  "worker_setup raw_in raw_out w conf efd wfd = do {
     cs \<leftarrow> make_connectors w (unat (connector_count conf)) [];
     ie \<leftarrow> SPSCQueue_new (unat (input_event_count conf));
     oe \<leftarrow> SPSCQueue_new (unat (output_event_count conf));
     ifree \<leftarrow> SPSCQueue_new (unat (input_buffer_count conf));
     (ib, ifree) \<leftarrow> make_buffers raw_in (input_buffer_size conf) (unat (input_buffer_count conf)) [] ifree;
     ofree \<leftarrow> SPSCQueue_new (unat (output_buffer_count conf));
     (ob, ofree) \<leftarrow> make_buffers raw_out (output_buffer_size conf) (unat (output_buffer_count conf)) [] ofree;
     t \<leftarrow> Thread_new (Some ());
     Some \<lparr>epoll_fd = efd, wakeup_fd = wfd, connector_list = cs, connector_free_list = [0..<length cs],
       acceptor_list = [], peer_connector_list = [], input_event_list = ie, output_event_list = oe,
       input_buffer_list = ib, input_buffer_free_list = ifree,
       output_buffer_list = ob, output_buffer_free_list = ofree, stop_flag = False, worker_thread = t\<rparr> }"

text \<open>What \<open>Uninit\<close> changes: the flag, the two descriptors and the four queues, whose pointers have no initial value.\<close>

datatype queue_pointers = Unset | Set | Deleted

record worker_handles =
  handles_stop :: bool
  handles_epoll :: sock
  handles_wakeup :: sock
  handles_queues :: queue_pointers

definition worker_handles_of :: "net_worker \<Rightarrow> worker_handles" where
  "worker_handles_of w = \<lparr>handles_stop = stop_flag w, handles_epoll = epoll_fd w, handles_wakeup = wakeup_fd w, handles_queues = Set\<rparr>"

text \<open>When the input and output server is not there the result holds what the worker then has in place of the worker: the
  queues are not set. The result of \<open>Start\<close> is not looked at: \<open>Init\<close> succeeds although no thread was made.\<close>

definition NetWorker_Init :: "'k kernel \<Rightarrow> (nat \<Rightarrow> 8 word list option) \<Rightarrow> (nat \<Rightarrow> 8 word list option) \<Rightarrow> 64 word
    \<Rightarrow> net_conf \<Rightarrow> 'k \<Rightarrow> ((worker_handles + net_worker) \<times> 'k) option" where
  "NetWorker_Init K raw_in raw_out w conf k = do {
     check (connector_count conf > 0);
     check (input_event_count conf > 0);
     check (output_event_count conf > 0);
     check (input_buffer_count conf > 0 \<and> input_buffer_size conf > 0);
     check (output_buffer_count conf > 0 \<and> output_buffer_size conf > 0);
     let ((ok, efd, wfd), k) = run_state (InitIOServer K) k;
     if \<not> ok then Some (Inl \<lparr>handles_stop = False, handles_epoll = efd, handles_wakeup = wfd, handles_queues = Unset\<rparr>, k)
     else do {
       worker \<leftarrow> worker_setup raw_in raw_out w conf efd wfd;
       let worker = worker\<lparr>stop_flag := False\<rparr>;
       let (created, k) = run_state (sys_thread_create K) k;
       Some (Inr (worker\<lparr>worker_thread := snd (Start created (worker_thread worker))\<rparr>), k) } }"

section \<open>Shutting down\<close>

definition Wakeup :: "'k kernel \<Rightarrow> sock \<Rightarrow> ('k, unit) state" where
  "Wakeup K wfd = do { ret \<leftarrow> sys_write K wfd [1, 0, 0, 0, 0, 0, 0, 0]; State_Monad.return () }"

lemma Wakeup_eq: "run_state (Wakeup K wfd) k = ((), snd (run_state (sys_write K wfd [1, 0, 0, 0, 0, 0, 0, 0]) k))"
  by (simp add: Wakeup_def split: prod.split)

definition OnWakeup :: "'k kernel \<Rightarrow> sock \<Rightarrow> ('k, unit) state" where
  "OnWakeup K wfd = do { ret \<leftarrow> sys_read K wfd 8; State_Monad.return () }"

definition close_open :: "'k kernel \<Rightarrow> sock \<Rightarrow> ('k, sock) state" where
  "close_open K fd = (if fd > 0 then do { u \<leftarrow> sys_close K fd; State_Monad.return (- 1) } else State_Monad.return fd)"

text \<open>\<open>Uninit\<close> sets the flag, wakes the thread and waits for its end, which theory NetRun looks at step by step; here the wait is
  over. To delete a queue whose pointer is not set, or a second time, has no result. The destructor is a call of
  \<open>Uninit\<close>.\<close>

definition NetWorker_Uninit :: "'k kernel \<Rightarrow> worker_handles \<Rightarrow> 'k \<Rightarrow> (worker_handles \<times> 'k) option" where
  "NetWorker_Uninit K h k = do {
     let h = h\<lparr>handles_stop := True\<rparr>;
     let (u, k) = run_state (Wakeup K (handles_wakeup h)) k;
     let (efd, k) = run_state (close_open K (handles_epoll h)) k;
     let (wfd, k) = run_state (close_open K (handles_wakeup h)) k;
     check (handles_queues h = Set);
     Some (h\<lparr>handles_epoll := efd, handles_wakeup := wfd, handles_queues := Deleted\<rparr>, k) }"

definition NetWorker_delete :: "'k kernel \<Rightarrow> worker_handles \<Rightarrow> 'k \<Rightarrow> 'k option" where
  "NetWorker_delete K h k = map_option snd (NetWorker_Uninit K h k)"

section \<open>Calls of the master thread\<close>

definition InputEventWriteAvailable :: "net_worker \<Rightarrow> nat" where
  "InputEventWriteAvailable w = WriteAvailable (input_event_list w)"

definition GetFreeInputBuffer :: "net_worker \<Rightarrow> (nat option \<times> net_worker) option" where
  "GetFreeInputBuffer w = do {
     (b, q) \<leftarrow> Pop (input_buffer_free_list w);
     Some (b, w\<lparr>input_buffer_free_list := q\<rparr>) }"

definition FreeOutputBuffer :: "nat \<Rightarrow> net_worker \<Rightarrow> net_worker" where
  "FreeOutputBuffer b w = w\<lparr>output_buffer_free_list := snd (Push b (output_buffer_free_list w))\<rparr>"

definition HandleOutputEvent :: "('s \<Rightarrow> net_output_event \<Rightarrow> 's) \<Rightarrow> nat \<Rightarrow> 's \<times> net_worker
    \<Rightarrow> (nat \<times> 's \<times> net_worker) option" where
  "HandleOutputEvent cb num = (\<lambda>(s, w). do {
     (k, s, q) \<leftarrow> Consume cb num (s, output_event_list w);
     Some (k, s, w\<lparr>output_event_list := q\<rparr>) })"

definition AddInputEvent :: "net_input_event \<Rightarrow> net_worker \<Rightarrow> bool \<times> net_worker" where
  "AddInputEvent e w = (let (ok, q) = Push e (input_event_list w) in (ok, w\<lparr>input_event_list := q\<rparr>))"

section \<open>Calls of the worker thread\<close>

text \<open>The buffer that is popped is not returned: the source returns the null pointer.\<close>

definition GetFreeOutputBuffer :: "net_worker \<Rightarrow> (nat option \<times> net_worker) option" where
  "GetFreeOutputBuffer w = do {
     (b, q) \<leftarrow> Pop (output_buffer_free_list w);
     Some (None, w\<lparr>output_buffer_free_list := q\<rparr>) }"

definition GetFreeNetConnector :: "net_worker \<Rightarrow> nat option \<times> net_worker" where
  "GetFreeNetConnector w = (case connector_free_list w of
     [] \<Rightarrow> (None, w) | n # rest \<Rightarrow> (Some n, w\<lparr>connector_free_list := rest\<rparr>))"

definition FreeNetConnector :: "nat \<Rightarrow> net_worker \<Rightarrow> net_worker option" where
  "FreeNetConnector n w = do {
     check (n < length (connector_list w));
     let c = connector_list w ! n;
     Some (w\<lparr>connector_list := (connector_list w)[n := c\<lparr>connector_id := NextNetConnectionID (connector_id c)\<rparr>],
       connector_free_list := connector_free_list w @ [n]\<rparr>) }"

definition GetConnector :: "net_id \<Rightarrow> net_worker \<Rightarrow> nat option option" where
  "GetConnector i w = do {
     check (ParseNetConnectionType i = kConnector);
     let index = unat (ParseNetConnectionIndex i);
     check (index < length (connector_list w));
     Some (if connector_id (connector_list w ! index) \<noteq> i then None else Some index) }"

definition GetPeerConnector :: "net_id \<Rightarrow> net_worker \<Rightarrow> nat option" where
  "GetPeerConnector i w = None"

text \<open>Which \<open>epoll_ctl\<close> a change of the interest asks for, if any.\<close>

definition epoll_choice :: "32 word \<Rightarrow> 32 word \<Rightarrow> epoll_op option" where
  "epoll_choice pevents events =
     (if pevents AND (EPOLLIN OR EPOLLOUT) \<noteq> 0 then
        (if events AND (EPOLLIN OR EPOLLOUT) = 0 then Some EPOLL_CTL_DEL else Some EPOLL_CTL_MOD)
      else if events AND (EPOLLIN OR EPOLLOUT) = 0 then None else Some EPOLL_CTL_ADD)"

definition EpollCtl :: "'k kernel \<Rightarrow> sock \<Rightarrow> sock \<Rightarrow> 32 word \<Rightarrow> 32 word \<Rightarrow> ('k, bool) state" where
  "EpollCtl K efd fd pevents events = (case epoll_choice pevents events of
     None \<Rightarrow> State_Monad.return False
   | Some op \<Rightarrow> do { ret \<leftarrow> sys_epoll_ctl K efd op fd events; State_Monad.return (ret \<ge> 0) })"

definition SendTo :: "(nat \<Rightarrow> net_worker \<Rightarrow> net_worker) \<Rightarrow> net_id \<Rightarrow> nat \<Rightarrow> net_worker \<Rightarrow> net_worker option" where
  "SendTo free_input i b w =
     (if ParseNetConnectionType i = kConnector then do {
        c \<leftarrow> GetConnector i w;
        (case c of
           None \<Rightarrow> Some (free_input b w)
         | Some n \<Rightarrow> let x = connector_list w ! n in
             Some (w\<lparr>connector_list := (connector_list w)[n := x\<lparr>write_buffer_list := write_buffer_list x @ [b]\<rparr>]\<rparr>)) }
      else Some w)"

definition pad_acceptors :: "nat \<Rightarrow> net_acceptor list \<Rightarrow> net_acceptor list" where
  "pad_acceptors index xs = xs @ replicate (Suc index - length xs)
     \<lparr>acceptor_id = kNetConnectionIDInvalid, acceptor_sock = kNetSocketIDInvalid, acceptor_events = 0\<rparr>"

definition pad_peers :: "nat \<Rightarrow> net_peer_connector list \<Rightarrow> net_peer_connector list" where
  "pad_peers index xs = xs @ replicate (Suc index - length xs)
     \<lparr>peer_id = kNetConnectionIDInvalid, peer_sock = kNetSocketIDInvalid, peer_events = 0\<rparr>"

definition handle_accept :: "'k kernel \<Rightarrow> net_id \<Rightarrow> sock \<Rightarrow> net_worker \<Rightarrow> ('k, net_worker) state" where
  "handle_accept K i sock w =
     (let index = unat (ParseNetConnectionIndex i); xs = pad_acceptors index (acceptor_list w) in
      if acceptor_id (xs ! index) \<noteq> kNetConnectionIDInvalid then State_Monad.return (w\<lparr>acceptor_list := xs\<rparr>)
      else let events = EPOLLIN OR EPOLLET;
          w = w\<lparr>acceptor_list := xs[index := \<lparr>acceptor_id = i, acceptor_sock = sock, acceptor_events = events\<rparr>]\<rparr> in
        do { ok \<leftarrow> EpollCtl K (epoll_fd w) sock 0 events; State_Monad.return w })"

text \<open>The socket of a peer is read from the union member of the other event: its four bytes are the family
  and the port of the address, in place of the socket that was made. The source gives
  \<open>CreateTcpSocket\<close> its last two arguments in the wrong order; they are taken in the right one.\<close>

definition union_sock :: "net_address \<Rightarrow> sock" where
  "union_sock a = sint (push_bit 16 (ucast (address_port a)) OR (if IsIPv6 a then 10 else 2) :: 32 word)"

definition handle_peer_connect :: "'k kernel \<Rightarrow> net_id \<Rightarrow> net_address \<Rightarrow> net_worker \<Rightarrow> ('k, net_worker) state" where
  "handle_peer_connect K i a w =
     (let index = unat (ParseNetConnectionIndex i); xs = pad_peers index (peer_connector_list w) in
      if peer_id (xs ! index) \<noteq> kNetConnectionIDInvalid then State_Monad.return (w\<lparr>peer_connector_list := xs\<rparr>)
      else do {
        (sock, e) \<leftarrow> CreateTcpSocket_addr K a
          (kNetSocketFlagNonBlock OR kNetSocketFlagReuseAddr OR kNetSocketFlagCloseOnExec);
        if sock = kNetSocketIDInvalid then State_Monad.return (w\<lparr>peer_connector_list := xs\<rparr>)
        else do {
          err \<leftarrow> Connect K sock a;
          let events = EPOLLOUT OR EPOLLET;
          let sock = union_sock a;
          ok \<leftarrow> EpollCtl K (epoll_fd w) sock 0 events;
          State_Monad.return (w\<lparr>peer_connector_list :=
            xs[index := \<lparr>peer_id = i, peer_sock = sock, peer_events = events\<rparr>]\<rparr>) } })"

definition handle_event :: "'k kernel \<Rightarrow> (nat \<Rightarrow> net_worker \<Rightarrow> net_worker) \<Rightarrow>
    (net_id \<Rightarrow> net_worker \<Rightarrow> net_worker) \<Rightarrow> net_input_event \<Rightarrow> net_worker \<times> 'k \<Rightarrow> (net_worker \<times> 'k) option" where
  "handle_event K free_input disconnect e = (\<lambda>(w, k). case in_data e of
       ISend b \<Rightarrow> do { w \<leftarrow> SendTo free_input (in_id e) b w; Some (w, k) }
     | IAccept sock \<Rightarrow> Some (run_state (handle_accept K (in_id e) sock w) k)
     | IPeerConnect a \<Rightarrow> Some (run_state (handle_peer_connect K (in_id e) a w) k)
     | IDisconnect \<Rightarrow> Some (disconnect (in_id e) w, k))"

fun handle_events :: "'k kernel \<Rightarrow> (nat \<Rightarrow> net_worker \<Rightarrow> net_worker) \<Rightarrow>
    (net_id \<Rightarrow> net_worker \<Rightarrow> net_worker) \<Rightarrow> nat \<Rightarrow> net_worker \<times> 'k \<Rightarrow> (net_worker \<times> 'k) option" where
  "handle_events K free_input disconnect 0 s = Some s"
| "handle_events K free_input disconnect (Suc n) (w, k) = do {
     (e, q) \<leftarrow> Pop (input_event_list w);
     let w = w\<lparr>input_event_list := q\<rparr>;
     (case e of
        None \<Rightarrow> Some (w, k)
      | Some e \<Rightarrow> do {
          s \<leftarrow> handle_event K free_input disconnect e (w, k);
          handle_events K free_input disconnect n s }) }"

definition HandleInputEvent :: "'k kernel \<Rightarrow> (nat \<Rightarrow> net_worker \<Rightarrow> net_worker) \<Rightarrow>
    (net_id \<Rightarrow> net_worker \<Rightarrow> net_worker) \<Rightarrow> net_worker \<times> 'k \<Rightarrow> (net_worker \<times> 'k) option" where
  "HandleInputEvent K free_input disconnect s =
     handle_events K free_input disconnect (ReadAvailable (input_event_list (fst s))) s"

end
