(* ===== verification/NetMaster.thy ===== *)
theory NetMaster
  imports NetWorker
begin

text \<open>
  The network master of include/mzx/net/net_master.h and src/net/net_master.cpp: it sets up the workers, hands out
  identifiers, sends, and runs the callbacks of the client for the events of the workers.

  Workers, acceptors and peers are named by their position in the vectors that own them. A callback is
  a name \<open>'cb\<close> (an empty function is \<open>None\<close>), and what a call of it does is the parameter \<open>run\<close>, which may change the
  master through its operations and the client's own state \<open>'s\<close>. \<open>NetWorker::GetOutputEvent\<close> is declared and
  defined nowhere; it is the parameter \<open>get_output\<close>. \<open>inet_pton\<close> and the system calls are those of theory NetSocket.
\<close>

section \<open>State\<close>

record 'cb net_acceptor_conf =
  bind_ipv6 :: bool
  bind_ip :: string
  bind_port :: "16 word"
  acceptor_recv_cb :: "'cb option"
  acceptor_connect_cb :: "'cb option"
  acceptor_disconnect_cb :: "'cb option"

record 'cb net_acceptor_info =
  acceptor_info_id :: net_id
  acceptor_info_sock :: sock
  acceptor_info_conf :: "'cb net_acceptor_conf"

record 'cb net_peer_connector_conf =
  remote_ipv6 :: bool
  remote_ip :: string
  remote_port :: "16 word"
  peer_recv_cb :: "'cb option"
  peer_connect_cb :: "'cb option"
  peer_disconnect_cb :: "'cb option"

record 'cb net_peer_connector_info =
  peer_info_id :: net_id
  peer_worker_index :: nat
  peer_info_conf :: "'cb net_peer_connector_conf"

text \<open>\<open>conf_\<close> keeps its initial value: \<open>Init\<close> does not store its argument.\<close>

record 'cb net_master =
  worker_list :: "net_worker list"
  acceptor_infos :: "'cb net_acceptor_info list"
  peer_infos :: "'cb net_peer_connector_info list"
  master_conf :: net_conf

definition NetMaster_new :: "'cb net_master" where
  "NetMaster_new = \<lparr>worker_list = [], acceptor_infos = [], peer_infos = [], master_conf = NetConf_default\<rparr>"

text \<open>What a callback is told: the bytes of a message, the address of the other side, or an error.\<close>

datatype message = Received "8 word list" | Connected net_address | Disconnected error_code

type_synonym ('cb, 's) callbacks =
  "'cb \<Rightarrow> net_id \<Rightarrow> message \<Rightarrow> 's \<times> 'cb net_master \<Rightarrow> ('s \<times> 'cb net_master) option"

section \<open>Setting up\<close>

text \<open>The first worker that does not start is deleted and ends \<open>Init\<close>; those before it stay. The source gives the index of the
  worker to its constructor.\<close>

fun init_workers :: "'k kernel \<Rightarrow> (nat \<Rightarrow> 8 word list option) \<Rightarrow> (nat \<Rightarrow> 8 word list option) \<Rightarrow> net_conf \<Rightarrow> nat
    \<Rightarrow> nat \<Rightarrow> net_worker list \<Rightarrow> 'k \<Rightarrow> ((bool \<times> net_worker list) \<times> 'k) option" where
  "init_workers K raw_in raw_out conf i 0 ws k = Some ((True, ws), k)"
| "init_workers K raw_in raw_out conf i (Suc n) ws k = do {
     (w, k) \<leftarrow> NetWorker_Init K raw_in raw_out (of_nat i) conf k;
     (case w of
        Inl h \<Rightarrow> do { k \<leftarrow> NetWorker_delete K h k; Some ((False, ws), k) }
      | Inr w \<Rightarrow> init_workers K raw_in raw_out conf (Suc i) n (ws @ [w]) k) }"

definition NetMaster_Init :: "'k kernel \<Rightarrow> (nat \<Rightarrow> 8 word list option) \<Rightarrow> (nat \<Rightarrow> 8 word list option) \<Rightarrow> net_conf
    \<Rightarrow> 'cb net_master \<Rightarrow> 'k \<Rightarrow> ((bool \<times> 'cb net_master) \<times> 'k) option" where
  "NetMaster_Init K raw_in raw_out conf m k = do {
     check (worker_count conf < kNetWorkerMaxCount);
     ((ok, ws), k) \<leftarrow> init_workers K raw_in raw_out conf 0 (unat (worker_count conf)) (worker_list m) k;
     Some ((ok, m\<lparr>worker_list := ws\<rparr>), k) }"

fun uninit_workers :: "'k kernel \<Rightarrow> worker_handles list \<Rightarrow> 'k \<Rightarrow> 'k option" where
  "uninit_workers K [] k = Some k"
| "uninit_workers K (h # hs) k = do {
     (h, k) \<leftarrow> NetWorker_Uninit K h k;
     k \<leftarrow> NetWorker_delete K h k;
     uninit_workers K hs k }"

fun destroy_sockets :: "'k kernel \<Rightarrow> sock list \<Rightarrow> ('k, unit) state" where
  "destroy_sockets K [] = State_Monad.return ()"
| "destroy_sockets K (s # ss) = do { u \<leftarrow> DestroySocket K s; destroy_sockets K ss }"

definition NetMaster_Uninit :: "'k kernel \<Rightarrow> 'cb net_master \<Rightarrow> 'k \<Rightarrow> ('cb net_master \<times> 'k) option" where
  "NetMaster_Uninit K m k = do {
     k \<leftarrow> uninit_workers K (map worker_handles_of (worker_list m)) k;
     let (u, k) = run_state (destroy_sockets K (map acceptor_info_sock (acceptor_infos m))) k;
     Some (m\<lparr>worker_list := [], acceptor_infos := [], peer_infos := []\<rparr>, k) }"

section \<open>Events of the workers\<close>

definition worker_update :: "nat \<Rightarrow> (net_worker \<Rightarrow> net_worker) \<Rightarrow> 'cb net_master \<Rightarrow> 'cb net_master" where
  "worker_update i f m = m\<lparr>worker_list := (worker_list m)[i := f (worker_list m ! i)]\<rparr>"

text \<open>The callback that an event goes to: that of the acceptor or of the peer that the handler's identifier
  names, when it names one and the callback is set.\<close>

definition find_acceptor_cb :: "('cb net_acceptor_conf \<Rightarrow> 'cb option) \<Rightarrow> net_id \<Rightarrow> 'cb net_master \<Rightarrow> 'cb option" where
  "find_acceptor_cb sel handler_id m =
     (let index = unat (ParseNetConnectionIndex handler_id) in
      if index < length (acceptor_infos m) then
        let acceptor = acceptor_infos m ! index in
        if acceptor_info_id acceptor = handler_id then sel (acceptor_info_conf acceptor) else None
      else None)"

definition find_peer_cb :: "('cb net_peer_connector_conf \<Rightarrow> 'cb option) \<Rightarrow> net_id \<Rightarrow> 'cb net_master \<Rightarrow> 'cb option" where
  "find_peer_cb sel handler_id m =
     (let index = unat (ParseNetConnectionIndex handler_id) in
      if index < length (peer_infos m) then
        let peer = peer_infos m ! index in
        if peer_info_id peer = handler_id then sel (peer_info_conf peer) else None
      else None)"

definition find_cb :: "('cb net_acceptor_conf \<Rightarrow> 'cb option) \<Rightarrow> ('cb net_peer_connector_conf \<Rightarrow> 'cb option)
    \<Rightarrow> net_id \<Rightarrow> 'cb net_master \<Rightarrow> 'cb option" where
  "find_cb acceptor_sel peer_sel handler_id m =
     (if ParseNetConnectionType handler_id = kAcceptor then find_acceptor_cb acceptor_sel handler_id m
      else if ParseNetConnectionType handler_id = kPeerConnector then find_peer_cb peer_sel handler_id m
      else None)"

definition call_back :: "('cb, 's) callbacks \<Rightarrow> 'cb option \<Rightarrow> net_id \<Rightarrow> message \<Rightarrow> 's \<times> 'cb net_master
    \<Rightarrow> ('s \<times> 'cb net_master) option" where
  "call_back run cb i msg s = (case cb of None \<Rightarrow> Some s | Some f \<Rightarrow> run f i msg s)"

definition message_bytes :: "net_buffer \<Rightarrow> 8 word list" where
  "message_bytes b = take (unat (NetBuffer_ReadAvailable b)) (ReadBegin b)"

definition HandleRecvEvent :: "('cb, 's) callbacks \<Rightarrow> nat \<Rightarrow> net_id \<Rightarrow> net_id \<Rightarrow> nat option \<Rightarrow> 's \<times> 'cb net_master
    \<Rightarrow> ('s \<times> 'cb net_master) option" where
  "HandleRecvEvent run wi i handler_id buffer = (\<lambda>(s, m). do {
     b \<leftarrow> buffer;
     let bytes = message_bytes (output_buffer_list (worker_list m ! wi) ! b);
     (s, m) \<leftarrow> call_back run (find_cb acceptor_recv_cb peer_recv_cb handler_id m) i (Received bytes) (s, m);
     Some (s, worker_update wi (FreeOutputBuffer b) m) })"

definition HandleConnectedEvent :: "('cb, 's) callbacks \<Rightarrow> net_id \<Rightarrow> net_id \<Rightarrow> net_address \<Rightarrow> 's \<times> 'cb net_master
    \<Rightarrow> ('s \<times> 'cb net_master) option" where
  "HandleConnectedEvent run i handler_id a = (\<lambda>(s, m).
     call_back run (find_cb acceptor_connect_cb peer_connect_cb handler_id m) i (Connected a) (s, m))"

definition HandleDisconnectedEvent :: "('cb, 's) callbacks \<Rightarrow> net_id \<Rightarrow> net_id \<Rightarrow> error_code \<Rightarrow> 's \<times> 'cb net_master
    \<Rightarrow> ('s \<times> 'cb net_master) option" where
  "HandleDisconnectedEvent run i handler_id e = (\<lambda>(s, m).
     call_back run (find_cb acceptor_disconnect_cb peer_disconnect_cb handler_id m) i (Disconnected e) (s, m))"

definition handle_output :: "('cb, 's) callbacks \<Rightarrow> nat \<Rightarrow> net_output_event \<Rightarrow> 's \<times> 'cb net_master
    \<Rightarrow> ('s \<times> 'cb net_master) option" where
  "handle_output run wi e s = (case out_data e of
       ORecv b \<Rightarrow> HandleRecvEvent run wi (out_id e) (out_handler_id e) b s
     | OConnected a \<Rightarrow> HandleConnectedEvent run (out_id e) (out_handler_id e) a s
     | ODisConnected err \<Rightarrow> HandleDisconnectedEvent run (out_id e) (out_handler_id e) err s)"

fun update_worker :: "(net_worker \<Rightarrow> (net_output_event option \<times> net_worker) option) \<Rightarrow> ('cb, 's) callbacks \<Rightarrow> nat \<Rightarrow> nat
    \<Rightarrow> 's \<times> 'cb net_master \<Rightarrow> ('s \<times> 'cb net_master) option" where
  "update_worker get_output run wi 0 s = Some s"
| "update_worker get_output run wi (Suc n) (s, m) = do {
     (e, w) \<leftarrow> get_output (worker_list m ! wi);
     let m = worker_update wi (\<lambda>_. w) m;
     (case e of
        None \<Rightarrow> Some (s, m)
      | Some e \<Rightarrow> do {
          s \<leftarrow> handle_output run wi e (s, m);
          update_worker get_output run wi n s }) }"

fun update_workers :: "(net_worker \<Rightarrow> (net_output_event option \<times> net_worker) option) \<Rightarrow> ('cb, 's) callbacks \<Rightarrow> nat list
    \<Rightarrow> 's \<times> 'cb net_master \<Rightarrow> ('s \<times> 'cb net_master) option" where
  "update_workers get_output run [] s = Some s"
| "update_workers get_output run (wi # ws) (s, m) = do {
     s \<leftarrow> update_worker get_output run wi (unat (handle_count (master_conf m))) (s, m);
     update_workers get_output run ws s }"

definition NetMaster_Update :: "(net_worker \<Rightarrow> (net_output_event option \<times> net_worker) option) \<Rightarrow> ('cb, 's) callbacks
    \<Rightarrow> 's \<times> 'cb net_master \<Rightarrow> ('s \<times> 'cb net_master) option" where
  "NetMaster_Update get_output run s = update_workers get_output run [0..<length (worker_list (snd s))] s"

section \<open>Calls of the client\<close>

definition default_backlog :: int where
  "default_backlog = 128"

definition acceptor_flags :: int where
  "acceptor_flags = kNetSocketFlagNonBlock OR kNetSocketFlagCloseOnExec OR kNetSocketFlagReuseAddr"

text \<open>The acceptor's socket, or none: made, bound and listening, or closed again.\<close>

definition acceptor_socket :: "'k kernel \<Rightarrow> net_address \<Rightarrow> ('k, sock option) state" where
  "acceptor_socket K a = do {
     (sock, error) \<leftarrow> CreateTcpSocket_addr K a acceptor_flags;
     if sock = kNetSocketIDInvalid then State_Monad.return None
     else do {
       error \<leftarrow> Listen K sock default_backlog;
       if error \<noteq> kSuccess then do {
         u \<leftarrow> DestroySocket K sock;
         State_Monad.return None }
       else State_Monad.return (Some sock) } }"

definition AddAcceptor :: "'k kernel \<Rightarrow> (bool \<Rightarrow> string \<Rightarrow> 8 word list option) \<Rightarrow> 'cb net_acceptor_conf
    \<Rightarrow> 'cb net_master \<Rightarrow> 'k \<Rightarrow> ((net_id \<times> 'cb net_master) \<times> 'k) option" where
  "AddAcceptor K inet_pton conf m k = do {
     check (length (acceptor_infos m) < unat kNetConnectionMaxCount \<and> length (worker_list m) > 0);
     let (sock, k) = run_state (acceptor_socket K
       (NetAddress inet_pton (bind_port conf) (Some (bind_ip conf)) (bind_ipv6 conf))) k;
     (case sock of
        None \<Rightarrow> Some ((kNetConnectionIDInvalid, m), k)
      | Some sock \<Rightarrow> do {
          i \<leftarrow> InitNetConnectionID kAcceptor 0 (of_nat (length (acceptor_infos m)));
          let acceptor = \<lparr>acceptor_info_id = i, acceptor_info_sock = sock, acceptor_info_conf = conf\<rparr>;
          let event = \<lparr>in_id = i, in_data = IAccept sock\<rparr>;
          Some ((i, m\<lparr>acceptor_infos := acceptor_infos m @ [acceptor],
            worker_list := map (\<lambda>w. snd (AddInputEvent event w)) (worker_list m)\<rparr>), k) }) }"

definition AddPeerConnector :: "(bool \<Rightarrow> string \<Rightarrow> 8 word list option) \<Rightarrow> 'cb net_peer_connector_conf
    \<Rightarrow> 'cb net_master \<Rightarrow> (net_id \<times> 'cb net_master) option" where
  "AddPeerConnector inet_pton conf m = do {
     check (length (peer_infos m) < unat kNetConnectionMaxCount \<and> length (worker_list m) > 0);
     let wi = length (peer_infos m) mod length (worker_list m);
     if InputEventWriteAvailable (worker_list m ! wi) = 0 then Some (kNetConnectionIDInvalid, m)
     else do {
       i \<leftarrow> InitNetConnectionID kPeerConnector 0 (of_nat (length (peer_infos m)));
       let peer = \<lparr>peer_info_id = i, peer_worker_index = wi, peer_info_conf = conf\<rparr>;
       let event = \<lparr>in_id = i, in_data = IPeerConnect (NetAddress inet_pton (remote_port conf) (Some (remote_ip conf))
         (remote_ipv6 conf))\<rparr>;
       let (ok, w) = AddInputEvent event (worker_list m ! wi);
       let m = m\<lparr>peer_infos := peer_infos m @ [peer], worker_list := (worker_list m)[wi := w]\<rparr>;
       Some (if ok then i else kNetConnectionIDInvalid, m) } }"

text \<open>The worker that \<open>Send\<close> gives a message to: no result for an identifier of no known type, which is fatal, and
  \<open>None\<close> for a peer that does not exist.\<close>

definition send_worker :: "net_id \<Rightarrow> 'cb net_master \<Rightarrow> nat option option" where
  "send_worker i m =
     (if ParseNetConnectionType i = kConnector then Some (Some (unat (ParseNetWorkerIndex i)))
      else if ParseNetConnectionType i = kPeerConnector then
        let index = unat (ParseNetConnectionIndex i) in
        if index \<ge> length (peer_infos m) then Some None else Some (Some (peer_worker_index (peer_infos m ! index)))
      else None)"

text \<open>Giving the message to the worker: an input buffer is taken and filled, and an event pushed.\<close>

definition fill_buffer :: "8 word list \<Rightarrow> net_buffer \<Rightarrow> net_buffer option" where
  "fill_buffer bytes b = do {
     check (unat (NetBuffer_WriteAvailable b) \<ge> length bytes);
     b \<leftarrow> copy_to_buffer bytes b;
     NetBuffer_Write (of_nat (length bytes)) b }"

definition send_to_worker :: "net_id \<Rightarrow> 8 word list \<Rightarrow> net_worker \<Rightarrow> (bool \<times> net_worker) option" where
  "send_to_worker i bytes w =
     (if InputEventWriteAvailable w = 0 then Some (False, w)
      else do {
        (buffer, w) \<leftarrow> GetFreeInputBuffer w;
        (case buffer of
           None \<Rightarrow> Some (False, w)
         | Some b \<Rightarrow> do {
             x \<leftarrow> fill_buffer bytes (input_buffer_list w ! b);
             let w = w\<lparr>input_buffer_list := (input_buffer_list w)[b := x]\<rparr>;
             Some (AddInputEvent \<lparr>in_id = i, in_data = ISend b\<rparr> w) }) })"

definition NetMaster_Send :: "net_id \<Rightarrow> 8 word list \<Rightarrow> 'cb net_master \<Rightarrow> (bool \<times> 'cb net_master) option" where
  "NetMaster_Send i bytes m = do {
     check (bytes \<noteq> [] \<and> length bytes \<le> unat (input_buffer_size (master_conf m)));
     wi \<leftarrow> send_worker i m;
     (case wi of
        None \<Rightarrow> Some (False, m)
      | Some wi \<Rightarrow> do {
          check (wi < length (worker_list m));
          (ok, w) \<leftarrow> send_to_worker i bytes (worker_list m ! wi);
          Some (ok, m\<lparr>worker_list := (worker_list m)[wi := w]\<rparr>) }) }"

definition NetMaster_Disconnect :: "net_id \<Rightarrow> 'cb net_master \<Rightarrow> (bool \<times> 'cb net_master) option" where
  "NetMaster_Disconnect i m = do {
     check (ParseNetConnectionType i = kConnector);
     let wi = unat (ParseNetWorkerIndex i);
     check (wi < length (worker_list m));
     let w = worker_list m ! wi;
     if InputEventWriteAvailable w = 0 then Some (False, m)
     else let (ok, w) = AddInputEvent \<lparr>in_id = i, in_data = IDisconnect\<rparr> w in
       Some (ok, m\<lparr>worker_list := (worker_list m)[wi := w]\<rparr>) }"

end
