(* ===== verification/Sockets.thy ===== *)
theory Sockets
  imports NetSocket
begin

text \<open>
  What the socket functions of theory NetSocket do when the system calls behave as documented
  (\<open>kernel_laws\<close>): a socket is created as asked or nothing stays open, and the flags of \<open>Accept\<close> go to the
  listening socket. The postcondition of a call is pushed backwards through the state monad.
\<close>

section \<open>What the system calls promise\<close>

text \<open>The open sockets with what is known of each: its status flags, its descriptor flags, whether the address may
  be reused, and the address it is bound to.\<close>

record socket_state =
  status_flags :: int
  descriptor_flags :: int
  reuse :: bool
  bound_to :: "net_address option"

definition new_socket :: socket_state where
  "new_socket = \<lparr>status_flags = 2, descriptor_flags = 0, reuse = False, bound_to = None\<rparr>"

definition failed :: "'k kernel \<Rightarrow> 'k \<Rightarrow> bool" where
  "failed K k = (fst (run_state (sys_errno K) k) \<noteq> 0)"

definition ensures :: "('k, 'a) state \<Rightarrow> 'k \<Rightarrow> ('a \<Rightarrow> 'k \<Rightarrow> bool) \<Rightarrow> bool" where
  "ensures m k Q = (case run_state m k of (x, k') \<Rightarrow> Q x k')"

text \<open>The documented behaviour of the calls that the sources make, over a view \<open>v\<close> of the kernel state. \<open>accept\<close> gives a
  socket with its two flags clear, whatever the listening socket has; what else it has, such as an address, is left
  open. The flags that are set are those that were read with one more.\<close>

definition flags_clear :: "socket_state \<Rightarrow> bool" where
  "flags_clear x \<longleftrightarrow> status_flags x AND O_NONBLOCK = 0 \<and> descriptor_flags x AND FD_CLOEXEC = 0"

definition kernel_laws :: "'k kernel \<Rightarrow> ('k \<Rightarrow> sock \<Rightarrow> socket_state option) \<Rightarrow> bool" where
  "kernel_laws K v \<longleftrightarrow>
     (\<forall>k. ensures (sys_errno K) k (\<lambda>_ k'. k' = k)) \<and>
     (\<forall>k b. ensures (sys_socket K b) k (\<lambda>s k'.
        if s = - 1 then v k' = v k \<and> failed K k' else v k s = None \<and> v k' = (v k)(s \<mapsto> new_socket))) \<and>
     (\<forall>k s. ensures (sys_close K s) k (\<lambda>_ k'. v k' = (v k)(s := None))) \<and>
     (\<forall>k s a. ensures (sys_bind K s a) k (\<lambda>ret k'.
        if ret = - 1 then v k' = v k \<and> failed K k'
        else \<exists>x. v k s = Some x \<and> v k' = (v k)(s \<mapsto> x\<lparr>bound_to := Some a\<rparr>))) \<and>
     (\<forall>k s. ensures (sys_accept K s) k (\<lambda>(t, a) k'.
        if t = - 1 then v k' = v k \<and> failed K k' else v k t = None \<and> (\<exists>y. flags_clear y \<and> v k' = (v k)(t \<mapsto> y)))) \<and>
     (\<forall>k s. ensures (sys_fcntl K s F_GETFL 0) k (\<lambda>ret k'. v k' = v k \<and>
        (if ret = - 1 then failed K k' else \<exists>x. v k s = Some x \<and> ret = status_flags x))) \<and>
     (\<forall>k s x. v k s = Some x \<longrightarrow> ensures (sys_fcntl K s F_SETFL (status_flags x OR O_NONBLOCK)) k (\<lambda>ret k'.
        if ret = - 1 then v k' = v k \<and> failed K k'
        else v k' = (v k)(s \<mapsto> x\<lparr>status_flags := status_flags x OR O_NONBLOCK\<rparr>))) \<and>
     (\<forall>k s. ensures (sys_fcntl K s F_GETFD 0) k (\<lambda>ret k'. v k' = v k \<and>
        (if ret = - 1 then failed K k' else \<exists>x. v k s = Some x \<and> ret = descriptor_flags x))) \<and>
     (\<forall>k s x. v k s = Some x \<longrightarrow> ensures (sys_fcntl K s F_SETFD (descriptor_flags x OR FD_CLOEXEC)) k (\<lambda>ret k'.
        if ret = - 1 then v k' = v k \<and> failed K k'
        else v k' = (v k)(s \<mapsto> x\<lparr>descriptor_flags := descriptor_flags x OR FD_CLOEXEC\<rparr>))) \<and>
     (\<forall>k s. ensures (sys_reuse_addr K s) k (\<lambda>ret k'.
        if ret < 0 then v k' = v k \<and> failed K k'
        else \<exists>x. v k s = Some x \<and> v k' = (v k)(s \<mapsto> x\<lparr>reuse := True\<rparr>)))"

named_theorems ensures_simps \<open>pushing a postcondition backwards through kernel calls\<close>

lemma ensures_return [ensures_simps]: "ensures (State_Monad.return x) k Q = Q x k"
  by (simp add: ensures_def)

lemma ensures_bind [ensures_simps]: "ensures (State_Monad.bind m f) k Q = ensures m k (\<lambda>x k. ensures (f x) k Q)"
  by (simp add: ensures_def split: prod.split)

lemma ensures_if [ensures_simps]:
  "ensures (if b then m else n) k Q = (if b then ensures m k Q else ensures n k Q)"
  by simp

lemma ensures_mono: "ensures m k P \<Longrightarrow> (\<And>x k'. P x k' \<Longrightarrow> Q x k') \<Longrightarrow> ensures m k Q"
  by (auto simp: ensures_def)

lemma ensures_self: "ensures m k P \<Longrightarrow> ensures m k (\<lambda>x k'. P x k' \<and> k' = snd (run_state m k))"
  by (auto simp: ensures_def split: prod.splits)

lemma ensures_run: "ensures m k Q \<Longrightarrow> run_state m k = (x, k') \<Longrightarrow> Q x k'"
  by (simp add: ensures_def)

lemma kernel_lawsD:
  assumes "kernel_laws K v"
  shows "ensures (sys_errno K) k (\<lambda>_ k'. k' = k)"
    and "ensures (sys_socket K b) k (\<lambda>s k'.
        if s = - 1 then v k' = v k \<and> failed K k' else v k s = None \<and> v k' = (v k)(s \<mapsto> new_socket))"
    and "ensures (sys_close K s) k (\<lambda>_ k'. v k' = (v k)(s := None))"
    and "ensures (sys_bind K s a) k (\<lambda>ret k'.
        if ret = - 1 then v k' = v k \<and> failed K k'
        else \<exists>x. v k s = Some x \<and> v k' = (v k)(s \<mapsto> x\<lparr>bound_to := Some a\<rparr>))"
    and "ensures (sys_accept K s) k (\<lambda>(t, a) k'.
        if t = - 1 then v k' = v k \<and> failed K k' else v k t = None \<and> (\<exists>y. flags_clear y \<and> v k' = (v k)(t \<mapsto> y)))"
    and "ensures (sys_fcntl K s F_GETFL 0) k (\<lambda>ret k'. v k' = v k \<and>
        (if ret = - 1 then failed K k' else \<exists>x. v k s = Some x \<and> ret = status_flags x))"
    and "v k s = Some x \<Longrightarrow> ensures (sys_fcntl K s F_SETFL (status_flags x OR O_NONBLOCK)) k (\<lambda>ret k'.
        if ret = - 1 then v k' = v k \<and> failed K k'
        else v k' = (v k)(s \<mapsto> x\<lparr>status_flags := status_flags x OR O_NONBLOCK\<rparr>))"
    and "ensures (sys_fcntl K s F_GETFD 0) k (\<lambda>ret k'. v k' = v k \<and>
        (if ret = - 1 then failed K k' else \<exists>x. v k s = Some x \<and> ret = descriptor_flags x))"
    and "v k s = Some x \<Longrightarrow> ensures (sys_fcntl K s F_SETFD (descriptor_flags x OR FD_CLOEXEC)) k (\<lambda>ret k'.
        if ret = - 1 then v k' = v k \<and> failed K k'
        else v k' = (v k)(s \<mapsto> x\<lparr>descriptor_flags := descriptor_flags x OR FD_CLOEXEC\<rparr>))"
    and "ensures (sys_reuse_addr K s) k (\<lambda>ret k'.
        if ret < 0 then v k' = v k \<and> failed K k'
        else \<exists>x. v k s = Some x \<and> v k' = (v k)(s \<mapsto> x\<lparr>reuse := True\<rparr>))"
  using assms unfolding kernel_laws_def by (simp_all only: simp_thms)

lemma last_error_ok:
  assumes "kernel_laws K v"
  shows "ensures (last_error K) k (\<lambda>e k'. k' = k \<and> (failed K k \<longrightarrow> e = kUnknown))"
  using kernel_lawsD(1)[OF assms, of k]
  by (auto simp: last_error_def ensures_simps ToError_def failed_def ensures_def split: prod.splits)

text \<open>What one of the three settings does to an open socket: it changes it as asked, or fails, and
  then it may have changed part.\<close>

definition setting :: "'k kernel \<Rightarrow> ('k \<Rightarrow> sock \<Rightarrow> socket_state option) \<Rightarrow> sock \<Rightarrow> (socket_state \<Rightarrow> socket_state) \<Rightarrow>
    ('k, error_code) state \<Rightarrow> bool" where
  "setting K v s g m \<longleftrightarrow> (\<forall>k x. v k s = Some x \<longrightarrow> ensures m k (\<lambda>e k'.
     if e = kSuccess then v k' = (v k)(s \<mapsto> g x) else failed K k' \<and> (\<exists>y. v k' = (v k)(s \<mapsto> y))))"

lemma unchanged: "w s = Some x \<Longrightarrow> \<exists>y. w = w(s \<mapsto> y)"
  by (rule exI[of _ x]) (simp add: fun_upd_idem)

lemma SetNonBlock_ok:
  assumes "kernel_laws K v"
  shows "setting K v s (\<lambda>x. x\<lparr>status_flags := status_flags x OR O_NONBLOCK\<rparr>) (SetNonBlock K s)"
  unfolding setting_def SetNonBlock_def ensures_simps
  by (auto intro: unchanged intro!: ensures_mono[OF kernel_lawsD(6)[OF assms]] ensures_mono[OF kernel_lawsD(7)[OF assms]]
      simp: ensures_simps fun_upd_idem split: if_splits)
    (metis unchanged)

lemma SetCloseOnExec_ok:
  assumes "kernel_laws K v"
  shows "setting K v s (\<lambda>x. x\<lparr>descriptor_flags := descriptor_flags x OR FD_CLOEXEC\<rparr>) (SetCloseOnExec K s)"
  unfolding setting_def SetCloseOnExec_def ensures_simps
  by (auto intro: unchanged intro!: ensures_mono[OF kernel_lawsD(8)[OF assms]] ensures_mono[OF kernel_lawsD(9)[OF assms]]
      simp: ensures_simps fun_upd_idem split: if_splits)
    (metis unchanged)

lemma SetReuseAddr_ok:
  assumes "kernel_laws K v"
  shows "setting K v s (\<lambda>x. x\<lparr>reuse := True\<rparr>) (SetReuseAddr K s)"
  unfolding setting_def SetReuseAddr_def ensures_simps
  by (auto intro: unchanged intro!: ensures_mono[OF kernel_lawsD(10)[OF assms]] simp: fun_upd_idem split: if_splits)

lemma set_flag_ok:
  assumes "setting K v s g m"
  shows "setting K v s (\<lambda>x. if b then g x else x) (set_flag b m)"
  using assms by (auto simp: setting_def set_flag_def ensures_simps fun_upd_idem)

text \<open>The flags that \<open>SetFlags\<close> asks for.\<close>

definition with_flags :: "int \<Rightarrow> socket_state \<Rightarrow> socket_state" where
  "with_flags flags x = x
     \<lparr>status_flags := if flags AND kNetSocketFlagNonBlock \<noteq> 0 then status_flags x OR O_NONBLOCK else status_flags x,
      descriptor_flags := if flags AND kNetSocketFlagCloseOnExec \<noteq> 0 then descriptor_flags x OR FD_CLOEXEC
        else descriptor_flags x,
      reuse := (flags AND kNetSocketFlagReuseAddr \<noteq> 0 \<or> reuse x)\<rparr>"

lemma setting_seq:
  assumes "setting K v s g m" "setting K v s h n"
  shows "setting K v s (\<lambda>x. h (g x)) (do { err \<leftarrow> m; if err \<noteq> kSuccess then State_Monad.return err else n })"
  unfolding setting_def
proof (intro allI impI)
  fix k x
  assume x: "v k s = Some x"
  have n: "ensures n k' (\<lambda>e k''. if e = kSuccess then v k'' = (v k)(s \<mapsto> h (g x))
      else failed K k'' \<and> (\<exists>y. v k'' = (v k)(s \<mapsto> y)))" if "v k' = (v k)(s \<mapsto> g x)" for k'
  proof -
    have "v k' s = Some (g x)" using that by simp
    from assms(2)[unfolded setting_def, rule_format, OF this] show ?thesis
      by (rule ensures_mono) (auto simp: that split: if_splits)
  qed
  show "ensures (do { err \<leftarrow> m; if err \<noteq> kSuccess then State_Monad.return err else n }) k
     (\<lambda>e k'. if e = kSuccess then v k' = (v k)(s \<mapsto> h (g x)) else failed K k' \<and> (\<exists>y. v k' = (v k)(s \<mapsto> y)))"
    unfolding ensures_simps(2)
  proof (rule ensures_mono[OF assms(1)[unfolded setting_def, rule_format, OF x]])
    fix e k'
    assume "if e = kSuccess then v k' = (v k)(s \<mapsto> g x) else failed K k' \<and> (\<exists>y. v k' = (v k)(s \<mapsto> y))"
    then show "ensures (if e \<noteq> kSuccess then State_Monad.return e else n) k' (\<lambda>e k'. if e = kSuccess then v k' = (v k)(s \<mapsto> h (g x))
      else failed K k' \<and> (\<exists>y. v k' = (v k)(s \<mapsto> y)))"
      using n[of k'] by (cases "e = kSuccess") (simp_all add: ensures_return)
  qed
qed

lemma SetFlags_ok:
  assumes K: "kernel_laws K v"
  shows "setting K v s (\<lambda>x. if flags \<le> 0 then x else with_flags flags x) (SetFlags K s flags)"
proof (cases "flags \<le> 0")
  case True
  then show ?thesis by (simp add: SetFlags_def setting_def ensures_simps fun_upd_idem)
next
  case False
  note S = setting_seq[OF SetNonBlock_ok[OF K, of s, THEN set_flag_ok]
      setting_seq[OF SetCloseOnExec_ok[OF K, of s, THEN set_flag_ok] SetReuseAddr_ok[OF K, of s, THEN set_flag_ok]]]
  have g: "(\<lambda>x. let y = (let z = (if flags AND kNetSocketFlagNonBlock \<noteq> 0 then x\<lparr>status_flags := status_flags x OR O_NONBLOCK\<rparr> else x)
        in if flags AND kNetSocketFlagCloseOnExec \<noteq> 0 then z\<lparr>descriptor_flags := descriptor_flags z OR FD_CLOEXEC\<rparr> else z)
      in if flags AND kNetSocketFlagReuseAddr \<noteq> 0 then y\<lparr>reuse := True\<rparr> else y) = with_flags flags"
    by (rule ext) (simp add: with_flags_def)
  show ?thesis
    using False S unfolding g[symmetric] SetFlags_def Let_def by (simp only: if_False)
qed

definition socket_created :: "'k kernel \<Rightarrow> ('k \<Rightarrow> sock \<Rightarrow> socket_state option) \<Rightarrow> 'k \<Rightarrow> int \<Rightarrow> net_address option \<Rightarrow>
    sock \<times> error_code option \<Rightarrow> 'k \<Rightarrow> bool" where
  "socket_created K v k flags a = (\<lambda>(s, e) k'.
     if s = - 1 then v k' = v k \<and> e = Some kUnknown
     else v k s = None \<and> e = None \<and>
       v k' = (v k)(s \<mapsto> (if flags \<le> 0 then new_socket else with_flags flags new_socket)\<lparr>bound_to := a\<rparr>))"

text \<open>The error path: the reason is read and the socket closed again.\<close>

lemma give_up:
  assumes K: "kernel_laws K v" and "failed K k'" "v k' = (v k)(s \<mapsto> y)" "v k s = None"
  shows "ensures (do { e \<leftarrow> last_error K; u \<leftarrow> DestroySocket K s; State_Monad.return (r e) }) k'
    (\<lambda>x k''. x = r kUnknown \<and> v k'' = v k)"
proof -
  have "v k'' = v k" if "v k'' = (v k')(s := None)" for k'' using that assms(3,4) by auto
  then show ?thesis
    unfolding ensures_simps DestroySocket_def
    by (intro ensures_mono[OF last_error_ok[OF K]]) (auto simp: assms(2) intro!: ensures_mono[OF kernel_lawsD(3)[OF K]])
qed

lemma CreateTcpSocket_created:
  assumes K: "kernel_laws K v"
  shows "ensures (CreateTcpSocket K is_ipv6 flags) k (socket_created K v k flags None)"
  unfolding CreateTcpSocket_def ensures_simps(2)
proof (rule ensures_mono[OF kernel_lawsD(2)[OF K]])
  fix s k'
  assume s: "if s = - 1 then v k' = v k \<and> failed K k' else v k s = None \<and> v k' = (v k)(s \<mapsto> new_socket)"
  let ?ok = "socket_created K v k flags None"
  show "ensures (if s = kNetSocketIDInvalid then do { e \<leftarrow> last_error K; State_Monad.return (kNetSocketIDInvalid, Some e) }
     else do {
       err \<leftarrow> SetFlags K s flags;
       if err \<noteq> kSuccess then do {
         e \<leftarrow> last_error K;
         u \<leftarrow> DestroySocket K s;
         State_Monad.return (kNetSocketIDInvalid, Some e) }
       else State_Monad.return (s, None) }) k' ?ok"
  proof (cases "s = - 1")
    case True
    then show ?thesis
      using s by (auto simp: ensures_simps kNetSocketIDInvalid_def socket_created_def intro: ensures_mono[OF last_error_ok[OF K]])
  next
    case False
    then have s: "v k s = None" "v k' = (v k)(s \<mapsto> new_socket)" using s by auto
    then have "v k' s = Some new_socket" by simp
    note flags = SetFlags_ok[OF K, unfolded setting_def, rule_format, OF this, of flags]
    have "ensures (do { err \<leftarrow> SetFlags K s flags;
       if err \<noteq> kSuccess then do {
         e \<leftarrow> last_error K;
         u \<leftarrow> DestroySocket K s;
         State_Monad.return (kNetSocketIDInvalid, Some e) }
       else State_Monad.return (s, None) }) k' ?ok"
    proof (subst ensures_bind, rule ensures_mono[OF flags])
      fix e k''
      assume e: "if e = kSuccess then v k'' = (v k')(s \<mapsto> if flags \<le> 0 then new_socket else with_flags flags new_socket)
        else failed K k'' \<and> (\<exists>y. v k'' = (v k')(s \<mapsto> y))"
      have "ensures (do { e \<leftarrow> last_error K; u \<leftarrow> DestroySocket K s; State_Monad.return (kNetSocketIDInvalid, Some e) }) k'' ?ok"
        if "e \<noteq> kSuccess"
        using that e s by (auto simp: socket_created_def kNetSocketIDInvalid_def intro!: ensures_mono[OF give_up[OF K _ _ s(1)]])
      then show "ensures (if e \<noteq> kSuccess then do { e \<leftarrow> last_error K; u \<leftarrow> DestroySocket K s;
          State_Monad.return (kNetSocketIDInvalid, Some e) } else State_Monad.return (s, None)) k'' ?ok"
        using False s e by (auto simp: ensures_return socket_created_def new_socket_def with_flags_def)
    qed
    then show ?thesis using False by (simp add: kNetSocketIDInvalid_def)
  qed
qed
lemma CreateTcpSocket_addr_created:
  assumes K: "kernel_laws K v"
  shows "ensures (CreateTcpSocket_addr K a flags) k (socket_created K v k flags (Some a))"
  unfolding CreateTcpSocket_addr_def ensures_simps(2)
proof (rule ensures_mono[OF CreateTcpSocket_created[OF K]])
  fix r k'
  assume r: "socket_created K v k flags None r k'"
  obtain s e where se: "r = (s, e)" by fastforce
  have bind: "ensures (do { err \<leftarrow> Bind K s a;
       if err \<noteq> kSuccess then do { u \<leftarrow> DestroySocket K s; State_Monad.return (kNetSocketIDInvalid, Some err) }
       else State_Monad.return (s, e) }) k' (socket_created K v k flags (Some a))" if "s \<noteq> - 1"
    using r that unfolding Bind_def DestroySocket_def ensures_simps se
    by (auto simp: socket_created_def kNetSocketIDInvalid_def fun_upd_idem ensures_return split: if_splits
        intro!: ensures_mono[OF kernel_lawsD(4)[OF K]] ensures_mono[OF last_error_ok[OF K]] ensures_mono[OF kernel_lawsD(3)[OF K]])
  show "ensures (case r of (s, error) \<Rightarrow> if s \<noteq> kNetSocketIDInvalid then do {
       err \<leftarrow> Bind K s a;
       if err \<noteq> kSuccess then do { u \<leftarrow> DestroySocket K s; State_Monad.return (kNetSocketIDInvalid, Some err) }
       else State_Monad.return (s, error) }
     else State_Monad.return (s, error)) k' (socket_created K v k flags (Some a))"
  proof (cases "s = - 1")
    case True
    then show ?thesis using r by (simp add: se kNetSocketIDInvalid_def ensures_return socket_created_def)
  next
    case False
    then show ?thesis using bind by (simp add: se kNetSocketIDInvalid_def)
  qed
qed

lemma Accept_ensures:
  assumes K: "kernel_laws K v" and x: "v k s = Some x"
  shows "ensures (Accept K s flags) k (\<lambda>(t, a, e) k'.
    if t = - 1 then e = Some kUnknown \<and> (\<exists>y. v k' = (v k)(s \<mapsto> y))
    else v k t = None \<and> e = None \<and> (\<exists>y. flags_clear y \<and> v (snd (run_state (sys_accept K s) k)) t = Some y \<and>
      v k' = (v k)(t \<mapsto> y, s \<mapsto> if flags \<le> 0 then x else with_flags flags x)))"
  (is "ensures _ _ ?Q")
  unfolding Accept_def ensures_simps(2)
proof (rule ensures_mono[OF ensures_self[OF kernel_lawsD(5)[OF K]]])
  fix r :: "sock \<times> net_address" and k'
  assume r: "(\<lambda>(t, a) k'. if t = - 1 then v k' = v k \<and> failed K k'
      else v k t = None \<and> (\<exists>y. flags_clear y \<and> v k' = (v k)(t \<mapsto> y))) r k' \<and> k' = snd (run_state (sys_accept K s) k)"
  obtain t a where ta: "r = (t, a)" by fastforce
  show "ensures (case r of (t, a) \<Rightarrow> if t = kNetSocketIDInvalid then do {
       e \<leftarrow> last_error K; State_Monad.return (kNetSocketIDInvalid, None, Some e) }
     else do {
       err \<leftarrow> SetFlags K s flags;
       if err \<noteq> kSuccess then do {
         e \<leftarrow> last_error K; u \<leftarrow> DestroySocket K t; State_Monad.return (kNetSocketIDInvalid, Some a, Some e) }
       else State_Monad.return (t, Some a, None) }) k' ?Q"
  proof (cases "t = - 1")
    case True
    then show ?thesis
      using r x by (auto simp: ta ensures_simps kNetSocketIDInvalid_def intro: unchanged intro!: ensures_mono[OF last_error_ok[OF K]])
  next
    case False
    then obtain z where t: "v k t = None" "v k' = (v k)(t \<mapsto> z)" "flags_clear z" "k' = snd (run_state (sys_accept K s) k)"
      using r ta by auto
    then have s: "v k' s = Some x" "s \<noteq> t" using x by auto
    have "ensures (do { err \<leftarrow> SetFlags K s flags;
       if err \<noteq> kSuccess then do {
         e \<leftarrow> last_error K; u \<leftarrow> DestroySocket K t; State_Monad.return (kNetSocketIDInvalid, Some a, Some e) }
       else State_Monad.return (t, Some a, None) }) k' ?Q"
    proof (subst ensures_bind, rule ensures_mono[OF SetFlags_ok[OF K, unfolded setting_def, rule_format, OF s(1), of flags]])
      fix e k''
      assume e: "if e = kSuccess then v k'' = (v k')(s \<mapsto> if flags \<le> 0 then x else with_flags flags x)
        else failed K k'' \<and> (\<exists>y. v k'' = (v k')(s \<mapsto> y))"
      have "ensures (do { e \<leftarrow> last_error K; u \<leftarrow> DestroySocket K t; State_Monad.return (kNetSocketIDInvalid, Some a, Some e) }) k'' ?Q"
        if ne: "e \<noteq> kSuccess"
      proof -
        obtain y where y: "v k'' = (v k)(t \<mapsto> z, s \<mapsto> y)" "failed K k''" using ne e t by auto
        then have "(v k'')(t := None) = (v k)(s \<mapsto> y)" using t(1) s(2) by (auto simp: fun_eq_iff)
        then show ?thesis
          unfolding ensures_simps DestroySocket_def
          by (intro ensures_mono[OF last_error_ok[OF K]])
            (auto simp: y(2) kNetSocketIDInvalid_def intro!: ensures_mono[OF kernel_lawsD(3)[OF K]])
      qed
      then show "ensures (if e \<noteq> kSuccess then do { e \<leftarrow> last_error K; u \<leftarrow> DestroySocket K t;
          State_Monad.return (kNetSocketIDInvalid, Some a, Some e) } else State_Monad.return (t, Some a, None)) k'' ?Q"
        using False t e by (auto simp: ensures_return)
    qed
    then show ?thesis using False by (simp add: ta kNetSocketIDInvalid_def)
  qed
qed

section \<open>A kernel in memory\<close>

text \<open>A small kernel for which the laws hold: the open sockets, the last error and the next number.\<close>

type_synonym memory = "(sock \<Rightarrow> socket_state option) \<times> int \<times> sock"

definition open_next :: "(memory, sock) state" where
  "open_next = State (\<lambda>(w, e, n). if n = - 1 \<or> w n \<noteq> None then (- 1, w, 24, n) else (n, w(n \<mapsto> new_socket), e, n + 1))"

definition change_socket :: "sock \<Rightarrow> (socket_state \<Rightarrow> socket_state) \<Rightarrow> (memory, int) state" where
  "change_socket s f = State (\<lambda>(w, e, n). case w s of None \<Rightarrow> (- 1, w, 9, n) | Some x \<Rightarrow> (0, w(s \<mapsto> f x), e, n))"

definition read_socket :: "sock \<Rightarrow> (socket_state \<Rightarrow> int) \<Rightarrow> (memory, int) state" where
  "read_socket s f = State (\<lambda>(w, e, n). case w s of None \<Rightarrow> (- 1, w, 9, n)
     | Some x \<Rightarrow> if f x = - 1 then (- 1, w, 9, n) else (f x, w, e, n))"

definition memory_kernel :: "memory kernel" where
  "memory_kernel = \<lparr>
     sys_errno = State (\<lambda>k. (fst (snd k), k)),
     sys_socket = (\<lambda>_. open_next),
     sys_close = (\<lambda>s. State (\<lambda>(w, e, n). ((), w(s := None), e, n))),
     sys_bind = (\<lambda>s a. change_socket s (\<lambda>x. x\<lparr>bound_to := Some a\<rparr>)),
     sys_listen = (\<lambda>s _. change_socket s id),
     sys_accept = (\<lambda>s. do { t \<leftarrow> open_next; State_Monad.return (t, \<lparr>address_ipv6 = False, address_ip = [], address_port = 0\<rparr>) }),
     sys_connect = (\<lambda>s _. change_socket s id),
     sys_read = (\<lambda>s n. State_Monad.return (0, [])),
     sys_write = (\<lambda>s bytes. State_Monad.return (int (length bytes))),
     sys_fcntl = (\<lambda>s c f. case c of
         F_GETFL \<Rightarrow> read_socket s status_flags
       | F_SETFL \<Rightarrow> change_socket s (\<lambda>x. x\<lparr>status_flags := f\<rparr>)
       | F_GETFD \<Rightarrow> read_socket s descriptor_flags
       | F_SETFD \<Rightarrow> change_socket s (\<lambda>x. x\<lparr>descriptor_flags := f\<rparr>)),
     sys_reuse_addr = (\<lambda>s. change_socket s (\<lambda>x. x\<lparr>reuse := True\<rparr>)),
     sys_epoll_create = open_next,
     sys_eventfd = open_next,
     sys_epoll_ctl = (\<lambda>_ _ s _. change_socket s id),
     sys_thread_create = State_Monad.return (Inr 1)\<rparr>"

lemma memory_kernel_laws: "kernel_laws memory_kernel fst"
proof -
  have "\<exists>y. flags_clear y \<and> w(t \<mapsto> new_socket) = w(t \<mapsto> y)" for w :: "sock \<Rightarrow> socket_state option" and t
    by (rule exI[of _ new_socket]) (simp add: flags_clear_def new_socket_def)
  then show ?thesis by (auto simp: kernel_laws_def memory_kernel_def ensures_def failed_def open_next_def change_socket_def read_socket_def
      split: option.splits)
qed

section \<open>Properties\<close>

text \<open>C32: creating a socket for an address gives a socket that was not open, with exactly the
  flags asked for and bound to the address; or it gives an error, and no socket that was opened on
  the way stays open.\<close>
theorem CreateTcpSocket_correct:
  assumes "kernel_laws K v" "run_state (CreateTcpSocket_addr K a flags) k = ((s, e), k')"
  shows "if s = kNetSocketIDInvalid then e = Some kUnknown \<and> v k' = v k
    else e = None \<and> v k s = None \<and>
      v k' = (v k)(s \<mapsto> (if flags \<le> 0 then new_socket else with_flags flags new_socket)\<lparr>bound_to := Some a\<rparr>)"
  using ensures_run[OF CreateTcpSocket_addr_created[OF assms(1)] assms(2)]
  by (simp add: socket_created_def kNetSocketIDInvalid_def conj_commute)

lemma CreateTcpSocket_correct_witness:
  "run_state (CreateTcpSocket_addr memory_kernel (NetAddress (\<lambda>_ _. None) 80 None False) 3) (Map.empty, 0, 5) =
     ((5, None), [5 \<mapsto> \<lparr>status_flags = 0x802, descriptor_flags = 1, reuse = False,
        bound_to = Some (NetAddress (\<lambda>_ _. None) 80 None False)\<rparr>], 0, 6)"
proof -
  obtain s e w err n where r: "run_state (CreateTcpSocket_addr memory_kernel (NetAddress (\<lambda>_ _. None) 80 None False) 3) (Map.empty, 0, 5)
      = ((s, e), (w, err, n))" by (metis prod.collapse)
  have "s = 5 \<and> err = 0 \<and> n = 6"
    using r by (simp add: CreateTcpSocket_addr_def CreateTcpSocket_def SetFlags_def set_flag_def SetNonBlock_def
        SetCloseOnExec_def memory_kernel_def Bind_def open_next_def change_socket_def read_socket_def new_socket_def
        kNetSocketIDInvalid_def kNetSocketFlagNonBlock_def kNetSocketFlagCloseOnExec_def kNetSocketFlagReuseAddr_def)
  then show ?thesis
    using CreateTcpSocket_correct[OF memory_kernel_laws r] r
    by (simp add: with_flags_def new_socket_def kNetSocketIDInvalid_def kNetSocketFlagNonBlock_def
        kNetSocketFlagCloseOnExec_def kNetSocketFlagReuseAddr_def)
qed

text \<open>C33: \<open>Accept\<close> gives a socket that was not open and leaves it as the system call made it, so that whatever flags are asked
  for it blocks and stays open on \<open>exec\<close>: the flags are set on the listening socket. When it fails, the new
  socket is closed again.\<close>
theorem Accept_flags:
  assumes "kernel_laws K v" "v k s = Some x" "run_state (Accept K s flags) k = ((t, a, e), k')"
  shows "if t = kNetSocketIDInvalid then e = Some kUnknown \<and> dom (v k') = dom (v k)
    else e = None \<and> v k t = None \<and> (\<exists>y. v k' t = Some y \<and> v (snd (run_state (sys_accept K s) k)) t = Some y \<and>
        status_flags y AND O_NONBLOCK = 0 \<and> descriptor_flags y AND FD_CLOEXEC = 0) \<and>
      v k' s = Some (if flags \<le> 0 then x else with_flags flags x)"
  using ensures_run[OF Accept_ensures[OF assms(1,2)] assms(3)] assms(2)
  by (auto simp: kNetSocketIDInvalid_def flags_clear_def split: if_splits)

lemma Accept_flags_witness:
  "\<exists>k'. run_state (Accept memory_kernel 4 kNetSocketFlagNonBlock) ([4 \<mapsto> new_socket], 0, 5) =
      ((5, Some \<lparr>address_ipv6 = False, address_ip = [], address_port = 0\<rparr>, None), k') \<and>
    (\<exists>y. fst k' 5 = Some y \<and> status_flags y AND O_NONBLOCK = 0) \<and> fst k' 4 = Some (new_socket\<lparr>status_flags := 0x802\<rparr>)"
proof -
  obtain t a e k' where r: "run_state (Accept memory_kernel 4 kNetSocketFlagNonBlock) ([4 \<mapsto> new_socket], 0, 5) = ((t, a, e), k')"
    by (metis prod.collapse)
  have "t = 5 \<and> a = Some \<lparr>address_ipv6 = False, address_ip = [], address_port = 0\<rparr> \<and> e = None"
    using r by (simp add: Accept_def SetFlags_def set_flag_def SetNonBlock_def memory_kernel_def open_next_def
        change_socket_def read_socket_def new_socket_def
        kNetSocketIDInvalid_def kNetSocketFlagNonBlock_def kNetSocketFlagCloseOnExec_def kNetSocketFlagReuseAddr_def)
  moreover have "kNetSocketFlagNonBlock AND kNetSocketFlagNonBlock \<noteq> 0" "\<not> kNetSocketFlagNonBlock \<le> 0"
    "kNetSocketFlagNonBlock AND kNetSocketFlagCloseOnExec = 0" "kNetSocketFlagNonBlock AND kNetSocketFlagReuseAddr = 0"
    by (simp_all add: kNetSocketFlagNonBlock_def kNetSocketFlagCloseOnExec_def kNetSocketFlagReuseAddr_def)
  ultimately show ?thesis
    using Accept_flags[OF memory_kernel_laws _ r, of new_socket] r
    by (auto simp: with_flags_def new_socket_def kNetSocketIDInvalid_def)
qed

text \<open>the port comes back; and an address in text that \<open>inet_pton\<close> does not read gives the address
  of every interface, like no text at all.\<close>
theorem NetAddress_correct:
  "Port (NetAddress inet_pton port ip is_ipv6) = port \<and> IsIPv6 (NetAddress inet_pton port ip is_ipv6) = is_ipv6 \<and>
   (case ip of None \<Rightarrow> NetAddress inet_pton port ip is_ipv6 = NetAddress inet_pton port (Some []) is_ipv6
    | Some s \<Rightarrow> inet_pton is_ipv6 s \<noteq> None \<or>
        NetAddress inet_pton port ip is_ipv6 = NetAddress inet_pton port None is_ipv6)"
proof -
  have "htons (htons port) = port"
  proof (rule bit_word_eqI)
    fix n assume "n < LENGTH(16)"
    then have "((n + 8) mod 16 + 8) mod 16 = n" by (simp add: mod_simps)
    then show "bit (htons (htons port)) n = bit port n" using \<open>n < LENGTH(16)\<close> by (simp add: htons_def bit_word_rotr_iff)
  qed
  then show ?thesis by (auto simp: Port_def IsIPv6_def NetAddress_def split: option.splits)
qed

end
