(* ===== verification/NetSetup.thy ===== *)
theory NetSetup
  imports NetMaster Sockets
begin

text \<open>
  Identifiers that the master and the workers hand out, buffers that were not written yet, and what
  \<open>NetMaster::Init\<close> leaves behind.
\<close>

section \<open>Identifiers that are handed out\<close>

lemma ident:
  assumes "ty \<in> {kConnector, kPeerConnector, kAcceptor}" "unat w \<le> 0xFF" "j < 2 ^ 32"
  obtains i where "InitNetConnectionID ty w (of_nat j) = Some i" "ParseNetConnectionType i = ty"
    "unat (ParseNetConnectionIndex i) = j" "unat (ParseNetConnectionType i) < 3"
    "ty = kConnector \<Longrightarrow> ParseNetWorkerIndex i = w" "i \<noteq> kNetConnectionIDInvalid"
proof -
  have j: "unat (of_nat j :: 64 word) = j" using assms(3) by (simp add: unsigned_of_nat take_bit_eq_mod)
  have w: "unat w \<le> 0xFFF" using assms(2) by simp
  from InitNetConnectionID_unat[OF assms(1) w, of "of_nat j", unfolded j, OF assms(3)]
  obtain i where i: "InitNetConnectionID ty w (of_nat j) = Some i"
    "unat i = unat ty * 2 ^ 56 + unat w * 2 ^ 48 + j" by blast
  have ty: "unat ty \<le> 2" using assms(1) by auto
  have d: "unat i div 2 ^ 48 = 256 * unat ty + unat w" unfolding i(2) using assms(3) by simp
  have "unat i div 2 ^ 56 = unat i div 2 ^ 48 div 256" by (simp add: div_mult2_eq[symmetric])
  also have "\<dots> = unat ty" unfolding d using assms(2) by simp
  finally have type: "unat (ParseNetConnectionType i) = unat ty" by (simp add: Parse_unat)
  have "unat i = j + (unat ty * 2 ^ 24 + unat w * 2 ^ 16) * 2 ^ 32" by (simp add: i(2))
  then have index: "unat (ParseNetConnectionIndex i) = j"
    using assms(3) by (simp only: Parse_unat mod_mult_self1 mod_less)
  have worker: "ParseNetWorkerIndex i = w" if "ty = kConnector"
    using d that assms(2) by (intro word_unat_eq_iff[THEN iffD2]) (simp add: Parse_unat)
  have "unat (ParseNetConnectionType kNetConnectionIDInvalid) = 255"
    by (simp add: Parse_unat(1) kNetConnectionIDInvalid_def unsigned_minus_1_eq_mask mask_eq_exp_minus_1)
  then have "i \<noteq> kNetConnectionIDInvalid" using type ty by auto
  with i(1) type index worker ty show ?thesis by (intro that) (auto intro: word_unat_eq_iff[THEN iffD2])
qed

section \<open>Buffers\<close>

definition fresh_buffer :: "net_buffer \<Rightarrow> nat \<Rightarrow> bool" where
  "fresh_buffer x n \<longleftrightarrow> read_pos x = 0 \<and> write_pos x = 0 \<and> length (buffer_data x) = unat (buffer_size x) \<and>
     n \<le> unat (buffer_size x)"

lemma fill_buffer_fresh:
  assumes "fresh_buffer x (length bytes)"
  obtains y where "fill_buffer bytes x = Some y" "message_bytes y = bytes" "buffer_size y = buffer_size x"
proof -
  have "unat (buffer_size x) < 2 ^ 64" using unsigned_less[of "buffer_size x", where ?'a = nat] by simp
  then have n: "unat (of_nat (length bytes) :: 64 word) = length bytes"
    using assms by (simp add: fresh_buffer_def unsigned_of_nat take_bit_eq_mod)
  show ?thesis
    using assms by (intro that[of "x\<lparr>buffer_data := overwrite (buffer_data x) 0 bytes, write_pos := of_nat (length bytes)\<rparr>"])
      (simp_all add: fresh_buffer_def fill_buffer_def NetBuffer_WriteAvailable_def copy_to_buffer_def NetBuffer_Write_def
        message_bytes_def NetBuffer_ReadAvailable_def ReadBegin_def n overwrite_def)
qed

section \<open>Setting up\<close>

lemma make_buffers_ready:
  assumes "\<And>j. \<exists>d. raw j = Some d \<and> length d = unat n" "n > 0"
  shows "spsc_holds q [0..<length bs] \<Longrightarrow> length bs + k \<le> spsc_capacity q \<Longrightarrow>
    \<exists>xs q'. make_buffers raw n k bs q = Some (bs @ xs, q') \<and> length xs = k \<and> spsc_holds q' [0..<length bs + k] \<and>
      spsc_capacity q' = spsc_capacity q \<and> (\<forall>x \<in> set xs. fresh_buffer x (unat n))"
proof (induction k arbitrary: bs q)
  case 0
  then show ?case by simp
next
  case (Suc k)
  obtain d where d: "raw (length bs) = Some d" "length d = unat n" using assms(1) by blast
  let ?x = "\<lparr>buffer_data = d, buffer_size = n, read_pos = 0, write_pos = 0\<rparr>"
  obtain q1 where q1: "Push (length bs) q = (True, q1)" "spsc_holds q1 ([0..<length bs] @ [length bs])"
    "spsc_capacity q1 = spsc_capacity q"
    using spsc.push_room[OF Suc.prems(1), of "length bs"] Suc.prems(2) by auto
  then have "spsc_holds q1 [0..<length (bs @ [?x])]" by simp
  from Suc.IH[OF this] q1(3) Suc.prems(2) obtain xs q' where
    IH: "make_buffers raw n k (bs @ [?x]) q1 = Some ((bs @ [?x]) @ xs, q')" "length xs = k"
      "spsc_holds q' [0..<length (bs @ [?x]) + k]" "spsc_capacity q' = spsc_capacity q1"
      "\<forall>x \<in> set xs. fresh_buffer x (unat n)" by auto
  have "make_buffers raw n (Suc k) bs q = Some (bs @ ?x # xs, q')"
    using IH(1) d(1) q1(1) assms(2) by (simp add: NetBuffer_new_def)
  moreover have "fresh_buffer ?x (unat n)" using d(2) by (simp add: fresh_buffer_def)
  ultimately show ?case using IH(2-5) q1(3) by (intro exI[of _ "?x # xs"] exI[of _ q']) auto
qed

lemma make_connectors_ready:
  assumes "unat w \<le> 0xFF"
  shows "length cs + k \<le> 2 ^ 32 \<Longrightarrow>
    \<exists>xs. make_connectors w k cs = Some (cs @ xs) \<and> length xs = k \<and>
      (\<forall>j < k. InitNetConnectionID kConnector w (of_nat (length cs + j)) = Some (connector_id (xs ! j)) \<and>
        write_buffer_list (xs ! j) = [])"
proof (induction k arbitrary: cs)
  case 0
  then show ?case by simp
next
  case (Suc k)
  obtain i where i: "InitNetConnectionID kConnector w (of_nat (length cs)) = Some i"
    by (rule ident[of kConnector w "length cs"]) (use assms Suc.prems in auto)
  let ?c = "\<lparr>connector_id = i, connector_sock = kNetSocketIDInvalid, write_buffer_list = []\<rparr>"
  from Suc.IH[of "cs @ [?c]"] Suc.prems obtain xs where
    IH: "make_connectors w k (cs @ [?c]) = Some ((cs @ [?c]) @ xs)" "length xs = k"
      "\<forall>j < k. InitNetConnectionID kConnector w (of_nat (Suc (length cs) + j)) = Some (connector_id (xs ! j)) \<and>
        write_buffer_list (xs ! j) = []" by auto
  have "InitNetConnectionID kConnector w (of_nat (length cs + j)) = Some (connector_id ((?c # xs) ! j)) \<and>
      write_buffer_list ((?c # xs) ! j) = []" if "j < Suc k" for j
    using that i IH(3) by (cases j) auto
  then show ?case using i IH(1,2) by (intro exI[of _ "?c # xs"]) simp
qed

text \<open>The object of the thread before it is started.\<close>

definition idle_thread :: "unit thread" where
  "idle_thread = \<lparr>thread_id = THREAD_ID_INVALID, joinable = False, run_cb = Some (), os_threads = Map.empty, caller = Idle\<rparr>"

lemma new_idle: "Thread_new (Some ()) = Some idle_thread"
  by (simp add: Thread_new_def idle_thread_def)

text \<open>A worker that was set up: its thread was started and is not told to stop, all connections free, each with the identifier of its position, no events, and
  all buffers free and not written.\<close>

definition worker_ready :: "64 word \<Rightarrow> net_conf \<Rightarrow> net_worker \<Rightarrow> bool" where
  "worker_ready wi conf w \<longleftrightarrow> \<not> stop_flag w \<and> (\<exists>created. worker_thread w = snd (Start created idle_thread)) \<and>
     length (connector_list w) = unat (connector_count conf) \<and>
     (\<forall>j < length (connector_list w). InitNetConnectionID kConnector wi (of_nat j) = Some (connector_id (connector_list w ! j)) \<and>
        write_buffer_list (connector_list w ! j) = []) \<and>
     connector_free_list w = [0..<length (connector_list w)] \<and>
     spsc_holds (input_event_list w) [] \<and> spsc_capacity (input_event_list w) = unat (input_event_count conf) \<and>
     spsc_holds (output_event_list w) [] \<and> spsc_capacity (output_event_list w) = unat (output_event_count conf) \<and>
     spsc_holds (input_buffer_free_list w) [0..<length (input_buffer_list w)] \<and>
     length (input_buffer_list w) = unat (input_buffer_count conf) \<and>
     (\<forall>x \<in> set (input_buffer_list w). fresh_buffer x (unat (input_buffer_size conf))) \<and>
     spsc_holds (output_buffer_free_list w) [0..<length (output_buffer_list w)] \<and>
     length (output_buffer_list w) = unat (output_buffer_count conf) \<and>
     (\<forall>x \<in> set (output_buffer_list w). fresh_buffer x (unat (output_buffer_size conf)))"

definition proper_conf :: "net_conf \<Rightarrow> bool" where
  "proper_conf conf \<longleftrightarrow>
     (\<forall>n \<in> {connector_count conf, input_event_count conf, output_event_count conf, input_buffer_count conf,
        input_buffer_size conf, output_buffer_count conf, output_buffer_size conf}. 0 < n \<and> unat n < 2 ^ 64 - 1) \<and>
     unat (connector_count conf) \<le> 2 ^ 32"

text \<open>\<open>malloc\<close> gives memory of the size asked for.\<close>

definition has_memory :: "(nat \<Rightarrow> 8 word list option) \<Rightarrow> 64 word \<Rightarrow> bool" where
  "has_memory raw n \<longleftrightarrow> (\<forall>j. \<exists>d. raw j = Some d \<and> length d = unat n)"

lemma worker_setup_ready:
  assumes "proper_conf conf" "has_memory raw_in (input_buffer_size conf)" "has_memory raw_out (output_buffer_size conf)"
    and "unat wi \<le> 0xFF"
  obtains w where "worker_setup raw_in raw_out wi conf efd wfd = Some w" "worker_thread w = idle_thread"
    "\<And>created. worker_ready wi conf (w\<lparr>stop_flag := False, worker_thread := snd (Start created idle_thread)\<rparr>)"
proof -
  have pos: "0 < unat n" if "0 < n" for n :: "64 word" using that by (simp add: word_less_nat_alt)
  have c: "0 < unat (input_event_count conf)" "unat (input_event_count conf) < 2 ^ 64 - 1"
    "0 < unat (output_event_count conf)" "unat (output_event_count conf) < 2 ^ 64 - 1"
    "0 < unat (input_buffer_count conf)" "unat (input_buffer_count conf) < 2 ^ 64 - 1"
    "0 < unat (output_buffer_count conf)" "unat (output_buffer_count conf) < 2 ^ 64 - 1"
    "0 < input_buffer_size conf" "0 < output_buffer_size conf" "unat (connector_count conf) \<le> 2 ^ 32"
    using assms(1) pos unfolding proper_conf_def by blast+
  obtain cs where cs: "make_connectors wi (unat (connector_count conf)) [] = Some cs" "length cs = unat (connector_count conf)"
    "\<forall>j < length cs. InitNetConnectionID kConnector wi (of_nat j) = Some (connector_id (cs ! j)) \<and> write_buffer_list (cs ! j) = []"
    using make_connectors_ready[OF assms(4), of "[]" "unat (connector_count conf)"] c(11) by auto
  obtain ie where ie: "SPSCQueue_new (unat (input_event_count conf)) = Some (ie :: net_input_event spsc)" "spsc_holds ie []"
    "spsc_capacity ie = unat (input_event_count conf)" using SPSCQueue_new_holds[OF c(1,2)] by blast
  obtain oe where oe: "SPSCQueue_new (unat (output_event_count conf)) = Some (oe :: net_output_event spsc)" "spsc_holds oe []"
    "spsc_capacity oe = unat (output_event_count conf)" using SPSCQueue_new_holds[OF c(3,4)] by blast
  obtain f1 where f1: "SPSCQueue_new (unat (input_buffer_count conf)) = Some (f1 :: nat spsc)" "spsc_holds f1 []"
    "spsc_capacity f1 = unat (input_buffer_count conf)" using SPSCQueue_new_holds[OF c(5,6)] by blast
  obtain f2 where f2: "SPSCQueue_new (unat (output_buffer_count conf)) = Some (f2 :: nat spsc)" "spsc_holds f2 []"
    "spsc_capacity f2 = unat (output_buffer_count conf)" using SPSCQueue_new_holds[OF c(7,8)] by blast
  obtain ib g1 where ib: "make_buffers raw_in (input_buffer_size conf) (unat (input_buffer_count conf)) [] f1 = Some (ib, g1)"
    "length ib = unat (input_buffer_count conf)" "spsc_holds g1 [0..<length ib]"
    "\<forall>x \<in> set ib. fresh_buffer x (unat (input_buffer_size conf))"
    using make_buffers_ready[of raw_in "input_buffer_size conf" f1 "[]" "unat (input_buffer_count conf)"] assms(2) c(9) f1(2,3)
    by (auto simp: has_memory_def)
  obtain ob g2 where ob: "make_buffers raw_out (output_buffer_size conf) (unat (output_buffer_count conf)) [] f2 = Some (ob, g2)"
    "length ob = unat (output_buffer_count conf)" "spsc_holds g2 [0..<length ob]"
    "\<forall>x \<in> set ob. fresh_buffer x (unat (output_buffer_size conf))"
    using make_buffers_ready[of raw_out "output_buffer_size conf" f2 "[]" "unat (output_buffer_count conf)"] assms(3) c(10) f2(2,3)
    by (auto simp: has_memory_def)
  show ?thesis
    by (rule that) (auto simp: worker_setup_def new_idle cs(1) ie(1) oe(1) f1(1) f2(1) ib(1) ob(1) worker_ready_def cs(2,3) ie(2,3) oe(2,3)
      ib(2,4) ob(2,4) ib(3)[unfolded ib(2)] ob(3)[unfolded ob(2)])
qed

text \<open>A worker without its server cannot be deleted, and no worker can be deleted after \<open>Uninit\<close>.\<close>

lemma delete_unset: "handles_queues h \<noteq> Set \<Longrightarrow> NetWorker_delete K h k = None"
  by (simp add: NetWorker_delete_def NetWorker_Uninit_def Let_def split: prod.split)

lemma delete_again: "NetWorker_Uninit K h k = Some (h', k') \<Longrightarrow> NetWorker_delete K h' k' = None"
  by (rule delete_unset) (auto simp: NetWorker_Uninit_def Let_def check_def split: prod.splits if_splits)

text \<open>Whether a worker gets its server, and the kernel before worker \<open>n\<close> asks for it, after the others have started their
  threads.\<close>

definition server_ok :: "'k kernel \<Rightarrow> 'k \<Rightarrow> bool" where
  "server_ok K k = fst (fst (run_state (InitIOServer K) k))"

fun servers :: "'k kernel \<Rightarrow> nat \<Rightarrow> 'k \<Rightarrow> 'k" where
  "servers K 0 k = k"
| "servers K (Suc n) k = servers K n (snd (run_state (sys_thread_create K) (snd (run_state (InitIOServer K) k))))"

lemma init_workers_ready:
  assumes "proper_conf conf" "has_memory raw_in (input_buffer_size conf)" "has_memory raw_out (output_buffer_size conf)"
  shows "i + n \<le> 256 \<Longrightarrow>
    if \<forall>j < n. server_ok K (servers K j k)
    then \<exists>vs. init_workers K raw_in raw_out conf i n ws k = Some ((True, ws @ vs), servers K n k) \<and> length vs = n \<and>
      (\<forall>j < n. worker_ready (of_nat (i + j)) conf (vs ! j))
    else init_workers K raw_in raw_out conf i n ws k = None"
proof (induction n arbitrary: i ws k)
  case 0
  then show ?case by simp
next
  case (Suc n)
  have pos: "0 < m" if "m \<in> {connector_count conf, input_event_count conf, output_event_count conf, input_buffer_count conf,
      input_buffer_size conf, output_buffer_count conf, output_buffer_size conf}" for m
    using assms(1) that by (auto simp: proper_conf_def)
  obtain ok efd wfd k0 where io: "run_state (InitIOServer K) k = ((ok, efd, wfd), k0)" by (metis prod.collapse)
  obtain created k1 where th: "run_state (sys_thread_create K) k0 = (created, k1)" by (rule prod.exhaust)
  let ?start = "\<lambda>w :: net_worker. w\<lparr>stop_flag := False, worker_thread := snd (Start created (worker_thread w))\<rparr>"
  have init: "NetWorker_Init K raw_in raw_out (of_nat i) conf k =
     (if ok then map_option (\<lambda>w. (Inr (?start w), k1)) (worker_setup raw_in raw_out (of_nat i) conf efd wfd)
      else Some (Inl \<lparr>handles_stop = False, handles_epoll = efd, handles_wakeup = wfd, handles_queues = Unset\<rparr>, k0))"
    using io th pos by (simp add: NetWorker_Init_def map_conv_bind_option comp_def)
  have ok: "server_ok K k = ok" "servers K (Suc j) k = servers K j k1" for j by (simp_all add: server_ok_def io th)
  have all: "(\<forall>j < Suc n. server_ok K (servers K j k)) \<longleftrightarrow> ok \<and> (\<forall>j < n. server_ok K (servers K j k1))"
    unfolding All_less_Suc2 ok(2) by (simp add: ok(1))
  show ?case
  proof (cases ok)
    case False
    then show ?thesis using init unfolding all by (simp add: delete_unset)
  next
    case True
    have "unat (of_nat i :: 64 word) \<le> 0xFF" using Suc.prems by (simp add: unsigned_of_nat take_bit_eq_mod)
    then obtain w0 where w0: "worker_setup raw_in raw_out (of_nat i) conf efd wfd = Some w0" "worker_thread w0 = idle_thread"
      "\<And>created. worker_ready (of_nat i) conf (w0\<lparr>stop_flag := False, worker_thread := snd (Start created idle_thread)\<rparr>)"
      by (rule worker_setup_ready[OF assms, where efd = efd and wfd = wfd]) (rule that)
    define w where "w = ?start w0"
    have w: "worker_ready (of_nat i) conf w" unfolding w_def w0(2) by (rule w0(3))
    have step: "init_workers K raw_in raw_out conf i (Suc n) ws k = init_workers K raw_in raw_out conf (Suc i) n (ws @ [w]) k1"
      using init w0(1) True by (simp add: w_def)
    have "Suc i + n \<le> 256" using Suc.prems by simp
    note IH = Suc.IH[OF this, where k = k1 and ws = "ws @ [w]"]
    show ?thesis
    proof (cases "\<forall>j < n. server_ok K (servers K j k1)")
      case False
      then show ?thesis using IH step unfolding all by simp
    next
      case ok': True
      with IH obtain vs where vs: "init_workers K raw_in raw_out conf (Suc i) n (ws @ [w]) k1 = Some ((True, (ws @ [w]) @ vs), servers K n k1)"
        "length vs = n" "\<forall>j < n. worker_ready (of_nat (Suc i + j)) conf (vs ! j)" by auto
      have "worker_ready (of_nat (i + j)) conf ((w # vs) ! j)" if "j < Suc n" for j
        using vs(3) w that by (cases j) auto
      then show ?thesis using vs(1,2) True ok' step unfolding all ok(2) by (simp add: exI[of _ "w # vs"])
    qed
  qed
qed

lemma Init_ready:
  assumes "proper_conf conf" "has_memory raw_in (input_buffer_size conf)" "has_memory raw_out (output_buffer_size conf)"
    and "unat (worker_count conf) \<le> 256"
  shows "if \<forall>j < unat (worker_count conf). server_ok K (servers K j k)
    then \<exists>ws. NetMaster_Init K raw_in raw_out conf NetMaster_new k =
        Some ((True, NetMaster_new\<lparr>worker_list := ws\<rparr>), servers K (unat (worker_count conf)) k) \<and>
      length ws = unat (worker_count conf) \<and> (\<forall>j < length ws. worker_ready (of_nat j) conf (ws ! j))
    else NetMaster_Init K raw_in raw_out conf (NetMaster_new :: 'cb net_master) k = None"
proof -
  have "worker_count conf < kNetWorkerMaxCount" using assms(4) by (simp add: word_less_nat_alt kNetWorkerMaxCount_def)
  moreover note init_workers_ready[OF assms(1-3), of 0 "unat (worker_count conf)" K k "[]"]
  ultimately show ?thesis
    using assms(4) by (auto simp: NetMaster_Init_def NetMaster_new_def split: if_splits)
qed

text \<open>C29: with a proper configuration and memory \<open>Init\<close> of at most 256 workers succeeds if the system gives every worker
  its descriptors, and then every worker is ready: its connections free under their identifiers, its
  queues empty, its buffers free and not written. Otherwise it does not return as it should: it
  deletes the worker, whose destructor deletes queues that were never made.\<close>
theorem NetMaster_Init_ready:
  assumes "proper_conf conf" "has_memory raw_in (input_buffer_size conf)" "has_memory raw_out (output_buffer_size conf)"
    and "unat (worker_count conf) \<le> 256"
  shows "if \<forall>j < unat (worker_count conf). server_ok K (servers K j k)
    then \<exists>ws. NetMaster_Init K raw_in raw_out conf NetMaster_new k =
        Some ((True, NetMaster_new\<lparr>worker_list := ws\<rparr>), servers K (unat (worker_count conf)) k) \<and>
      length ws = unat (worker_count conf) \<and> (\<forall>j < length ws. worker_ready (of_nat j) conf (ws ! j))
    else NetMaster_Init K raw_in raw_out conf (NetMaster_new :: 'cb net_master) k = None"
  by (rule Init_ready[OF assms])

section \<open>A small network\<close>

definition tiny_conf :: net_conf where
  "tiny_conf = \<lparr>worker_count = 1, handle_count = 4, connector_count = 1, input_event_count = 3, output_event_count = 3,
     input_buffer_count = 2, input_buffer_size = 4, output_buffer_count = 2, output_buffer_size = 4\<rparr>"

definition tiny_memory :: "nat \<Rightarrow> 8 word list option" where
  "tiny_memory j = Some [0, 0, 0, 0]"

lemma tiny_proper: "proper_conf tiny_conf" "has_memory tiny_memory 4"
  by (simp_all add: proper_conf_def tiny_conf_def has_memory_def tiny_memory_def)

lemma tiny_conf_simps:
  "input_buffer_size tiny_conf = 4" "output_buffer_size tiny_conf = 4" "unat (worker_count tiny_conf) = 1"
  by (simp_all add: tiny_conf_def)

lemma tiny_setup: "has_memory tiny_memory (input_buffer_size tiny_conf)" "has_memory tiny_memory (output_buffer_size tiny_conf)"
  "unat (worker_count tiny_conf) \<le> 256"
  by (simp_all only: tiny_conf_simps tiny_proper(2) one_le_numeral)

lemma tiny_succeeds: "\<forall>j < unat (worker_count tiny_conf). server_ok memory_kernel (servers memory_kernel j (Map.empty, 0, 3))"
  unfolding tiny_conf_simps by (simp add: server_ok_def InitIOServer_def memory_kernel_def open_next_def change_socket_def new_socket_def)

lemma NetMaster_Init_ready_witness:
  "\<exists>w k'. NetMaster_Init memory_kernel tiny_memory tiny_memory tiny_conf (NetMaster_new :: 'cb net_master) (Map.empty, 0, 3)
     = Some ((True, NetMaster_new\<lparr>worker_list := [w]\<rparr>), k') \<and> worker_ready 0 tiny_conf w"
proof -
  note R = NetMaster_Init_ready[OF tiny_proper(1) tiny_setup, of memory_kernel "(Map.empty, 0, 3)", where 'cb = 'cb, unfolded if_P[OF tiny_succeeds]]
  then obtain ws :: "net_worker list" and k' where ws: "NetMaster_Init memory_kernel tiny_memory tiny_memory tiny_conf
      (NetMaster_new :: 'cb net_master) (Map.empty, 0, 3) = Some ((True, NetMaster_new\<lparr>worker_list := ws\<rparr>), k')"
    "length ws = 1" "\<forall>j < length ws. worker_ready (of_nat j) tiny_conf (ws ! j)" unfolding tiny_conf_simps(3) by (elim exE conjE)
  from ws(2) obtain w where "ws = [w]" by (cases ws) auto
  with ws(1,3) have "NetMaster_Init memory_kernel tiny_memory tiny_memory tiny_conf (NetMaster_new :: 'cb net_master) (Map.empty, 0, 3)
     = Some ((True, NetMaster_new\<lparr>worker_list := [w]\<rparr>), k') \<and> worker_ready 0 tiny_conf w" by simp
  then show ?thesis by (intro exI)
qed

lemma tiny_master:
  obtains m :: "'cb net_master" where "acceptor_infos m = []" "peer_infos m = []" "master_conf m = NetConf_default"
    "length (worker_list m) = 1" "worker_ready 0 tiny_conf (worker_list m ! 0)"
proof -
  note R = Init_ready[OF tiny_proper(1) tiny_setup, of memory_kernel "(Map.empty, 0, 3)", where 'cb = 'cb, unfolded if_P[OF tiny_succeeds]]
  then obtain ws :: "net_worker list" where ws: "length ws = 1" "\<forall>j < length ws. worker_ready (of_nat j) tiny_conf (ws ! j)"
    unfolding tiny_conf_simps(3) by (elim exE conjE)
  then have "worker_ready 0 tiny_conf (ws ! 0)" by simp
  with ws(1) show ?thesis by (intro that[of "NetMaster_new\<lparr>worker_list := ws\<rparr>"]) (simp_all add: NetMaster_new_def)
qed

section \<open>Shutting down\<close>

text \<open>What is left when a descriptor was closed: nothing was done for one that is not above zero.\<close>

definition after_close :: "'k kernel \<Rightarrow> sock \<Rightarrow> 'k \<Rightarrow> 'k" where
  "after_close K fd k = (if fd > 0 then snd (run_state (sys_close K fd) k) else k)"

lemma close_open_eq: "run_state (close_open K fd) k = ((if fd > 0 then - 1 else fd), after_close K fd k)"
  by (simp add: close_open_def after_close_def split: prod.split)

text \<open>C30: \<open>Uninit\<close> of a worker that was set up sets the stop flag, writes a one to the wakeup descriptor, closes the epoll
  descriptor and then the wakeup descriptor, each once and if it is above zero, and deletes its queues, but then the
  worker cannot be deleted. So \<open>Uninit\<close> of a master does not return as it should if it has a worker, and does, having
  closed the socket of every acceptor, if it has none.\<close>
theorem NetMaster_Uninit_correct:
  "(case NetWorker_Uninit K (worker_handles_of w) k of None \<Rightarrow> False | Some (h, k') \<Rightarrow>
      handles_stop h \<and> handles_epoll h \<le> 0 \<and> handles_wakeup h \<le> 0 \<and> handles_queues h = Deleted \<and>
      k' = after_close K (wakeup_fd w) (after_close K (epoll_fd w)
        (snd (run_state (sys_write K (wakeup_fd w) [1, 0, 0, 0, 0, 0, 0, 0]) k))) \<and>
      NetWorker_delete K h k' = None) \<and>
   NetMaster_Uninit K m k = (if worker_list m \<noteq> [] then None
     else Some (m\<lparr>acceptor_infos := [], peer_infos := []\<rparr>,
       fold (\<lambda>a k. snd (run_state (sys_close K (acceptor_info_sock a)) k)) (acceptor_infos m) k))"
proof
  let ?k = "after_close K (wakeup_fd w) (after_close K (epoll_fd w)
    (snd (run_state (sys_write K (wakeup_fd w) [1, 0, 0, 0, 0, 0, 0, 0]) k)))"
  obtain h where h: "NetWorker_Uninit K (worker_handles_of w) k = Some (h, ?k)"
    "handles_stop h \<and> handles_epoll h \<le> 0 \<and> handles_wakeup h \<le> 0 \<and> handles_queues h = Deleted"
    by (simp add: NetWorker_Uninit_def worker_handles_of_def Wakeup_eq close_open_eq Let_def)
  then show "case NetWorker_Uninit K (worker_handles_of w) k of None \<Rightarrow> False | Some (h, k') \<Rightarrow>
      handles_stop h \<and> handles_epoll h \<le> 0 \<and> handles_wakeup h \<le> 0 \<and> handles_queues h = Deleted \<and>
      k' = ?k \<and> NetWorker_delete K h k' = None"
    using delete_again[OF h(1)] by simp
next
  have sockets: "snd (run_state (destroy_sockets K (map acceptor_info_sock xs)) k) =
      fold (\<lambda>a k. snd (run_state (sys_close K (acceptor_info_sock a)) k)) xs k" for xs :: "'z net_acceptor_info list" and k
    by (induction xs arbitrary: k) (simp_all add: DestroySocket_def split: prod.split)
  show "NetMaster_Uninit K m k = (if worker_list m \<noteq> [] then None
     else Some (m\<lparr>acceptor_infos := [], peer_infos := []\<rparr>,
       fold (\<lambda>a k. snd (run_state (sys_close K (acceptor_info_sock a)) k)) (acceptor_infos m) k))"
  proof (cases "worker_list m")
    case Nil
    then show ?thesis using sockets[of "acceptor_infos m" k] by (auto simp: NetMaster_Uninit_def Let_def split: prod.split)
  next
    case (Cons v vs)
    have "uninit_workers K (h # hs) k = None" for h hs
      using delete_again[of K h k] by (cases "NetWorker_Uninit K h k") auto
    then show ?thesis using Cons by (simp add: NetMaster_Uninit_def)
  qed
qed

end
