(* ===== verification/NetEvents.thy ===== *)
theory NetEvents
  imports NetSetup
begin

text \<open>
  The way of an event from a worker to the callbacks of the client: what \<open>NetMaster::Update\<close> calls, in which
  order, and that every buffer goes back to its worker. \<open>NetWorker::GetOutputEvent\<close> is declared and defined nowhere:
  it stays the parameter \<open>get_output\<close>, of which \<open>takes_oldest\<close> is what \<open>Update\<close> relies on.
\<close>

section \<open>Events of the workers\<close>

text \<open>Callbacks that write down how they are called and leave the master alone.\<close>

definition log_calls :: "('cb, ('cb \<times> net_id \<times> message) list) callbacks" where
  "log_calls f i msg = (\<lambda>(s, m). Some (s @ [(f, i, msg)], m))"

text \<open>What is asked of \<open>GetOutputEvent\<close>: it gives the oldest event of the worker's queue and takes it out, reports when
  there is none, and changes nothing but the queue.\<close>

definition takes_oldest :: "(net_worker \<Rightarrow> (net_output_event option \<times> net_worker) option) \<Rightarrow> bool" where
  "takes_oldest get_output \<longleftrightarrow> (\<forall>w evs. spsc_holds (output_event_list w) evs \<longrightarrow>
     (\<exists>q. get_output w = Some ((case evs of [] \<Rightarrow> None | e # es \<Rightarrow> Some e), w\<lparr>output_event_list := q\<rparr>) \<and>
       spsc_holds q (tl evs)))"

lemma takes_oldestD:
  assumes "takes_oldest get_output" "spsc_holds (output_event_list w) evs"
  obtains q where "get_output w = Some ((case evs of [] \<Rightarrow> None | e # es \<Rightarrow> Some e), w\<lparr>output_event_list := q\<rparr>)"
    "spsc_holds q (tl evs)"
  using assms unfolding takes_oldest_def by blast

text \<open>A function that does so, by \<open>Pop\<close> of the queue.\<close>

definition pop_output :: "net_worker \<Rightarrow> (net_output_event option \<times> net_worker) option" where
  "pop_output w = do { (e, q) \<leftarrow> Pop (output_event_list w); Some (e, w\<lparr>output_event_list := q\<rparr>) }"

lemma pop_takes_oldest: "takes_oldest pop_output"
  unfolding takes_oldest_def
proof (intro allI impI)
  fix w :: net_worker and evs
  assume h: "spsc_holds (output_event_list w) evs"
  show "\<exists>q. pop_output w = Some ((case evs of [] \<Rightarrow> None | e # es \<Rightarrow> Some e), w\<lparr>output_event_list := q\<rparr>) \<and> spsc_holds q (tl evs)"
  proof (cases evs)
    case Nil
    then have "Pop (output_event_list w) = Some (None, output_event_list w)" using spsc.pop_empty[of "output_event_list w"] h by simp
    then show ?thesis using h Nil by (intro exI[of _ "output_event_list w"]) (simp add: pop_output_def)
  next
    case (Cons e es)
    then show ?thesis using spsc.pop_Cons[of "output_event_list w" e es] h by (auto simp: pop_output_def)
  qed
qed

text \<open>The call that an event leads to, if any, and the buffer that it carries.\<close>

definition event_call :: "'cb net_master \<Rightarrow> net_worker \<Rightarrow> net_output_event \<Rightarrow> ('cb \<times> net_id \<times> message) option" where
  "event_call m w e = (case out_data e of
       ORecv b \<Rightarrow> map_option (\<lambda>f. (f, out_id e, Received (message_bytes (output_buffer_list w ! the b))))
         (find_cb acceptor_recv_cb peer_recv_cb (out_handler_id e) m)
     | OConnected a \<Rightarrow> map_option (\<lambda>f. (f, out_id e, Connected a))
         (find_cb acceptor_connect_cb peer_connect_cb (out_handler_id e) m)
     | ODisConnected err \<Rightarrow> map_option (\<lambda>f. (f, out_id e, Disconnected err))
         (find_cb acceptor_disconnect_cb peer_disconnect_cb (out_handler_id e) m))"

definition event_buffer :: "net_output_event \<Rightarrow> nat option" where
  "event_buffer e = (case out_data e of ORecv b \<Rightarrow> b | _ \<Rightarrow> None)"

definition event_proper :: "net_output_event \<Rightarrow> bool" where
  "event_proper e \<longleftrightarrow> out_data e \<noteq> ORecv None"

text \<open>What dispatching an event leaves alone.\<close>

lemma find_cb_worker_list [simp]: "find_cb asel psel h (m\<lparr>worker_list := ws\<rparr>) = find_cb asel psel h m"
  by (simp add: find_cb_def find_acceptor_cb_def find_peer_cb_def Let_def)

lemma event_call_worker_list [simp]: "event_call (m\<lparr>worker_list := ws\<rparr>) = event_call m"
  by (intro ext) (simp add: event_call_def split: output_data.split)

lemma event_call_buffers: "output_buffer_list w' = output_buffer_list w \<Longrightarrow> event_call m w' = event_call m w"
  by (rule ext) (simp add: event_call_def split: output_data.split)

lemma handle_output_log:
  assumes "event_proper e" "wi < length (worker_list m)"
  shows "handle_output log_calls wi e (s, m) = Some (s @ (case event_call m (worker_list m ! wi) e of None \<Rightarrow> [] | Some c \<Rightarrow> [c]),
    (case event_buffer e of None \<Rightarrow> m | Some b \<Rightarrow> worker_update wi (FreeOutputBuffer b) m))"
  using assms
  by (auto simp: handle_output_def HandleRecvEvent_def HandleConnectedEvent_def HandleDisconnectedEvent_def call_back_def
      log_calls_def event_call_def event_buffer_def event_proper_def split: output_data.split option.split)

definition worker_events :: "net_worker \<Rightarrow> net_output_event list \<Rightarrow> nat list \<Rightarrow> bool" where
  "worker_events w evs free \<longleftrightarrow> spsc_holds (output_event_list w) evs \<and> spsc_holds (output_buffer_free_list w) free \<and>
     length free + length (List.map_filter event_buffer evs) \<le> spsc_capacity (output_buffer_free_list w) \<and>
     list_all event_proper evs"

lemma update_worker_delivers:
  "takes_oldest get_output \<Longrightarrow> wi < length (worker_list m) \<Longrightarrow> worker_events (worker_list m ! wi) evs free \<Longrightarrow>
   \<exists>w'. update_worker get_output log_calls wi n (s, m) =
      Some (s @ List.map_filter (event_call m (worker_list m ! wi)) (take n evs), m\<lparr>worker_list := (worker_list m)[wi := w']\<rparr>) \<and>
     worker_events w' (drop n evs) (free @ List.map_filter event_buffer (take n evs))"
proof (induction n arbitrary: s m evs free)
  case 0
  then show ?case by (intro exI[of _ "worker_list m ! wi"]) (simp add: map_filter_simps)
next
  case (Suc n)
  let ?w = "worker_list m ! wi"
  note h = Suc.prems(3)[unfolded worker_events_def]
  from h obtain q0 where q0: "get_output ?w = Some ((case evs of [] \<Rightarrow> None | e # es \<Rightarrow> Some e), ?w\<lparr>output_event_list := q0\<rparr>)"
    "spsc_holds q0 (tl evs)" using takes_oldestD[OF Suc.prems(1)] by blast
  show ?case
  proof (cases evs)
    case Nil
    then have "worker_events (?w\<lparr>output_event_list := q0\<rparr>) [] free" using h q0(2) by (simp add: worker_events_def)
    then show ?thesis
      using Suc.prems(2) Nil q0(1)
      by (intro exI[of _ "?w\<lparr>output_event_list := q0\<rparr>"]) (simp add: worker_update_def map_filter_simps)
  next
    case (Cons e es)
    have q: "get_output ?w = Some (Some e, ?w\<lparr>output_event_list := q0\<rparr>)" "spsc_holds q0 es" using q0 Cons by simp_all
    define w1 where "w1 = (case event_buffer e of None \<Rightarrow> ?w\<lparr>output_event_list := q0\<rparr>
      | Some b \<Rightarrow> FreeOutputBuffer b (?w\<lparr>output_event_list := q0\<rparr>))"
    have keep: "output_buffer_list w1 = output_buffer_list ?w"
      by (simp add: w1_def FreeOutputBuffer_def split: option.split)
    have ev1: "worker_events w1 es (free @ (case event_buffer e of None \<Rightarrow> [] | Some b \<Rightarrow> [b]))"
    proof (cases "event_buffer e")
      case None
      then show ?thesis using h q(2) Cons by (simp add: worker_events_def w1_def map_filter_simps)
    next
      case (Some b)
      then have "length free < spsc_capacity (output_buffer_free_list ?w)" using h Cons by (simp add: map_filter_simps)
      with h obtain r where "Push b (output_buffer_free_list ?w) = (True, r)" "spsc_holds r (free @ [b])"
        "spsc_capacity r = spsc_capacity (output_buffer_free_list ?w)" using spsc.push_room[of "output_buffer_free_list ?w" free b] by auto
      then show ?thesis using h q(2) Cons Some by (simp add: worker_events_def w1_def FreeOutputBuffer_def map_filter_simps)
    qed
    let ?c = "case event_call m ?w e of None \<Rightarrow> [] | Some c \<Rightarrow> [c]"
    let ?m = "m\<lparr>worker_list := (worker_list m)[wi := w1]\<rparr>"
    have "handle_output log_calls wi e (s, m\<lparr>worker_list := (worker_list m)[wi := ?w\<lparr>output_event_list := q0\<rparr>]\<rparr>) = Some (s @ ?c, ?m)"
      using h Cons Suc.prems(2)
      by (subst handle_output_log)
        (auto simp: w1_def worker_update_def event_call_buffers[of "?w\<lparr>output_event_list := q0\<rparr>" ?w] split: option.split)
    then have step: "update_worker get_output log_calls wi (Suc n) (s, m) = update_worker get_output log_calls wi n (s @ ?c, ?m)"
      using q(1) by (simp add: worker_update_def)
    have "wi < length (worker_list ?m)" "worker_events (worker_list ?m ! wi) es (free @ (case event_buffer e of None \<Rightarrow> [] | Some b \<Rightarrow> [b]))"
      using Suc.prems(2) ev1 by simp_all
    from Suc.IH[OF Suc.prems(1) this, of "s @ ?c"] obtain w' where
      "update_worker get_output log_calls wi n (s @ ?c, ?m) =
        Some ((s @ ?c) @ List.map_filter (event_call m w1) (take n es), m\<lparr>worker_list := (worker_list m)[wi := w']\<rparr>)"
      "worker_events w' (drop n es) ((free @ (case event_buffer e of None \<Rightarrow> [] | Some b \<Rightarrow> [b])) @ List.map_filter event_buffer (take n es))"
      using Suc.prems(2) by auto
    then show ?thesis
      using step Cons event_call_buffers[OF keep, of m]
      by (intro exI[of _ w']) (simp add: map_filter_simps split: option.split_asm option.split)
  qed
qed

lemma update_workers_delivers:
  "takes_oldest get_output \<Longrightarrow> distinct wis \<Longrightarrow> \<forall>wi \<in> set wis. wi < length (worker_list m) \<and> worker_events (worker_list m ! wi) (evs wi) (free wi) \<Longrightarrow>
   n = unat (handle_count (master_conf m)) \<Longrightarrow>
   \<exists>ws. update_workers get_output log_calls wis (s, m) = Some (s @ concat (map (\<lambda>wi.
        List.map_filter (event_call m (worker_list m ! wi)) (take n (evs wi))) wis), m\<lparr>worker_list := ws\<rparr>) \<and>
     length ws = length (worker_list m) \<and> (\<forall>wi. wi \<notin> set wis \<longrightarrow> ws ! wi = worker_list m ! wi) \<and>
     (\<forall>wi \<in> set wis. worker_events (ws ! wi) (drop n (evs wi)) (free wi @ List.map_filter event_buffer (take n (evs wi))))"
proof (induction wis arbitrary: s m)
  case Nil
  then show ?case by (intro exI[of _ "worker_list m"]) simp
next
  case (Cons wi wis)
  have wi: "wi < length (worker_list m)" "worker_events (worker_list m ! wi) (evs wi) (free wi)" using Cons.prems(3) by auto
  let ?s = "s @ List.map_filter (event_call m (worker_list m ! wi)) (take n (evs wi))"
  obtain w' where w': "update_worker get_output log_calls wi n (s, m) = Some (?s, m\<lparr>worker_list := (worker_list m)[wi := w']\<rparr>)"
    "worker_events w' (drop n (evs wi)) (free wi @ List.map_filter event_buffer (take n (evs wi)))"
    using update_worker_delivers[OF Cons.prems(1) wi, of n s] by blast
  let ?m = "m\<lparr>worker_list := (worker_list m)[wi := w']\<rparr>"
  have d: "distinct wis" "wi \<notin> set wis" using Cons.prems(2) by auto
  then have other: "worker_list ?m ! v = worker_list m ! v" if "v \<in> set wis" for v using that by (cases "v = wi") auto
  have "\<forall>v \<in> set wis. v < length (worker_list ?m) \<and> worker_events (worker_list ?m ! v) (evs v) (free v)"
    using Cons.prems(3) other by simp
  from Cons.IH[OF Cons.prems(1) d(1) this, of ?s] Cons.prems(4) obtain ws where ws:
    "update_workers get_output log_calls wis (?s, ?m) = Some (?s @ concat (map (\<lambda>v.
        List.map_filter (event_call ?m (worker_list ?m ! v)) (take n (evs v))) wis), ?m\<lparr>worker_list := ws\<rparr>)"
    "length ws = length (worker_list ?m)" "\<forall>v. v \<notin> set wis \<longrightarrow> ws ! v = worker_list ?m ! v"
    "\<forall>v \<in> set wis. worker_events (ws ! v) (drop n (evs v)) (free v @ List.map_filter event_buffer (take n (evs v)))"
    by auto
  have "map (\<lambda>v. List.map_filter (event_call ?m (worker_list ?m ! v)) (take n (evs v))) wis =
      map (\<lambda>v. List.map_filter (event_call m (worker_list m ! v)) (take n (evs v))) wis"
    using other by (intro map_cong refl) (simp only: event_call_worker_list other)
  from arg_cong[where f = concat, OF this] show ?case
    using w' ws Cons.prems(4) d(2) wi(1) by (intro exI[of _ ws]) simp
qed


text \<open>C11: \<open>Update\<close> goes through the workers in order and takes from each up to \<open>handle_count\<close> events, the oldest
  first: it calls for each event the callback of the acceptor or peer that it names, with the bytes,
  the address or the error, ignores events that name none, and gives every buffer back to its worker. This is for
  every \<open>GetOutputEvent\<close> that takes the oldest event of the queue, and callbacks that leave the master alone.\<close>
theorem Update_delivers:
  assumes "takes_oldest get_output" and "\<forall>wi < length (worker_list m). worker_events (worker_list m ! wi) (evs wi) (free wi)"
    and "n = unat (handle_count (master_conf m))"
  shows "\<exists>ws. NetMaster_Update get_output log_calls ([], m) =
      Some (concat (map (\<lambda>wi. List.map_filter (event_call m (worker_list m ! wi)) (take n (evs wi)))
        [0..<length (worker_list m)]), m\<lparr>worker_list := ws\<rparr>) \<and>
    length ws = length (worker_list m) \<and>
    (\<forall>wi < length ws. worker_events (ws ! wi) (drop n (evs wi)) (free wi @ List.map_filter event_buffer (take n (evs wi))))"
proof -
  have "\<forall>wi \<in> set [0..<length (worker_list m)]. wi < length (worker_list m) \<and> worker_events (worker_list m ! wi) (evs wi) (free wi)"
    using assms(2) by simp
  from update_workers_delivers[OF assms(1) _ this assms(3), of "[]"] obtain ws where
    "update_workers get_output log_calls [0..<length (worker_list m)] ([], m) = Some ([] @ concat (map (\<lambda>wi.
        List.map_filter (event_call m (worker_list m ! wi)) (take n (evs wi))) [0..<length (worker_list m)]), m\<lparr>worker_list := ws\<rparr>)"
    "length ws = length (worker_list m)"
    "\<forall>wi \<in> set [0..<length (worker_list m)]. worker_events (ws ! wi) (drop n (evs wi)) (free wi @ List.map_filter event_buffer (take n (evs wi)))"
    by (auto simp del: set_upt)
  then show ?thesis by (intro exI[of _ ws]) (simp add: NetMaster_Update_def)
qed

text \<open>A message of a connection and a disconnection, for an acceptor with a callback for messages only.\<close>

lemma Update_delivers_witness:
  "\<exists>(m :: nat net_master) ws. length (worker_list m) = 1 \<and>
     NetMaster_Update pop_output log_calls ([], m) = Some ([(5, 0, Received [7, 8])], m\<lparr>worker_list := ws\<rparr>)"
proof -
  obtain m :: "nat net_master" where m: "worker_ready 0 tiny_conf (worker_list m ! 0)" by (rule tiny_master)
  let ?w = "worker_list m ! 0"
  let ?a = "0x200000000000000 :: net_id"
  let ?e1 = "\<lparr>out_id = 0, out_handler_id = ?a, out_data = ORecv (Some 0)\<rparr>"
    and ?e2 = "\<lparr>out_id = 0, out_handler_id = ?a, out_data = ODisConnected kUnknown\<rparr>"
  let ?b = "\<lparr>buffer_data = [7, 8, 9], buffer_size = 3, read_pos = 0, write_pos = 2\<rparr> :: net_buffer"
  have out: "spsc_holds (output_event_list ?w) []" "spsc_capacity (output_event_list ?w) = 3"
    using m by (simp_all add: worker_ready_def tiny_conf_def)
  obtain q1 where q1: "spsc_holds q1 [?e1]" "spsc_capacity q1 = 3"
    using spsc.push_room[OF out(1), of ?e1] out(2) by auto
  obtain q2 where q2: "spsc_holds q2 [?e1, ?e2]" using spsc.push_room[OF q1(1), of ?e2] q1(2) by auto
  obtain f :: "nat spsc" where f: "spsc_holds f []" "spsc_capacity f = 1" using SPSCQueue_new_holds[of 1] by auto
  define w where "w = ?w\<lparr>output_event_list := q2, output_buffer_list := [?b], output_buffer_free_list := f\<rparr>"
  define m1 :: "nat net_master" where "m1 = \<lparr>worker_list = [w], acceptor_infos = [\<lparr>acceptor_info_id = ?a, acceptor_info_sock = 9,
    acceptor_info_conf = \<lparr>bind_ipv6 = False, bind_ip = [], bind_port = 0, acceptor_recv_cb = Some 5, acceptor_connect_cb = None,
      acceptor_disconnect_cb = None\<rparr>\<rparr>], peer_infos = [], master_conf = NetConf_default\<rparr>"
  have p: "ParseNetConnectionType ?a = kAcceptor" "unat (ParseNetConnectionIndex ?a) = 0" by code_simp+
  have "worker_events w [?e1, ?e2] []"
    using q2 f by (simp add: worker_events_def w_def event_buffer_def event_proper_def map_filter_simps)
  moreover have "event_call m1 w ?e1 = Some (5, 0, Received [7, 8])" "event_call m1 w ?e2 = None"
    using p by (simp_all add: event_call_def find_cb_def find_acceptor_cb_def m1_def w_def message_bytes_def
        NetBuffer_ReadAvailable_def ReadBegin_def)
  ultimately show ?thesis
    using Update_delivers[OF pop_takes_oldest, of m1 "\<lambda>_. [?e1, ?e2]" "\<lambda>_. []", OF _ refl]
    by (intro exI[of _ m1]) (auto simp: m1_def NetConf_default_def map_filter_simps)
qed

end
