(* ===== verification/Nets.thy ===== *)
theory Nets
  imports NetSetup
begin

text \<open>
  What the master and the workers do together: identifiers find the callbacks they were registered with, a
  message that is sent arrives in the list of its connection, identifiers of closed connections are refused.
\<close>

section \<open>Callbacks that are registered\<close>

lemma connection_max: "unat kNetConnectionMaxCount = 2 ^ 32 - 1"
  by (simp add: kNetConnectionMaxCount_def)

text \<open>Acceptors and peers have the identifier of their position, and a peer has a worker.\<close>

definition master_ok :: "'cb net_master \<Rightarrow> bool" where
  "master_ok m \<longleftrightarrow>
     length (acceptor_infos m) < 2 ^ 32 \<and> length (peer_infos m) < 2 ^ 32 \<and>
     (\<forall>j < length (acceptor_infos m).
        InitNetConnectionID kAcceptor 0 (of_nat j) = Some (acceptor_info_id (acceptor_infos m ! j))) \<and>
     (\<forall>j < length (peer_infos m).
        InitNetConnectionID kPeerConnector 0 (of_nat j) = Some (peer_info_id (peer_infos m ! j)) \<and>
        peer_worker_index (peer_infos m ! j) < length (worker_list m))"

lemma find_cb_other:
  assumes "h \<noteq> i" "acceptor_infos m' = acceptor_infos m @ xs" "peer_infos m' = peer_infos m @ ys"
    "\<forall>x \<in> set xs. acceptor_info_id x = i" "\<forall>y \<in> set ys. peer_info_id y = i"
  shows "find_cb asel psel h m' = find_cb asel psel h m"
proof -
  have "find_acceptor_cb asel h m' = find_acceptor_cb asel h m"
    using assms(1,4) by (auto simp: find_acceptor_cb_def assms(2) nth_append Let_def)
  moreover have "find_peer_cb psel h m' = find_peer_cb psel h m"
    using assms(1,5) by (auto simp: find_peer_cb_def assms(3) nth_append Let_def)
  ultimately show ?thesis by (simp add: find_cb_def)
qed

text \<open>an acceptor that is added gets an identifier that no other acceptor or peer has;
  its events find its callbacks, and the events of the others find theirs.\<close>
theorem AddAcceptor_registers:
  assumes ok: "master_ok m" and add: "AddAcceptor K inet_pton conf m k = Some ((i, m'), k')"
    and valid: "i \<noteq> kNetConnectionIDInvalid"
  shows "master_ok m' \<and> i \<notin> acceptor_info_id ` set (acceptor_infos m) \<union> peer_info_id ` set (peer_infos m) \<and>
    find_cb asel psel i m' = asel conf \<and> (\<forall>h. h \<noteq> i \<longrightarrow> find_cb asel psel h m' = find_cb asel psel h m)"
proof -
  let ?n = "length (acceptor_infos m)"
  have n: "?n < 2 ^ 32 - 1" using add by (auto simp: AddAcceptor_def connection_max Option.bind_eq_Some_conv)
  then have n32: "?n < 2 ^ 32" by simp
  obtain j where j: "InitNetConnectionID kAcceptor 0 (of_nat ?n) = Some j" "ParseNetConnectionType j = kAcceptor"
    "unat (ParseNetConnectionIndex j) = ?n"
    by (rule ident[of kAcceptor 0 ?n]) (use n32 in auto)
  obtain s where m': "i = j" "worker_list m' = map (\<lambda>w. snd (AddInputEvent \<lparr>in_id = j, in_data = IAccept s\<rparr> w)) (worker_list m)"
    "acceptor_infos m' = acceptor_infos m @ [\<lparr>acceptor_info_id = j, acceptor_info_sock = s, acceptor_info_conf = conf\<rparr>]"
    "peer_infos m' = peer_infos m"
    using add valid j(1) by (auto simp: AddAcceptor_def Option.bind_eq_Some_conv split: option.splits prod.splits)
  have old_a: "h \<noteq> j" if "h \<in> acceptor_info_id ` set (acceptor_infos m)" for h
  proof -
    from that obtain x where "x \<in> set (acceptor_infos m)" "h = acceptor_info_id x" by auto
    then obtain l where l: "l < ?n" "h = acceptor_info_id (acceptor_infos m ! l)" by (metis in_set_conv_nth)
    then have "InitNetConnectionID kAcceptor 0 (of_nat l) = Some h" using ok by (auto simp: master_ok_def)
    moreover obtain h' where "InitNetConnectionID kAcceptor 0 (of_nat l) = Some h'" "unat (ParseNetConnectionIndex h') = l"
      by (rule ident[of kAcceptor 0 l]) (use l n32 in auto)
    ultimately show ?thesis using j(3) l(1) by auto
  qed
  have old_p: "h \<noteq> j" if "h \<in> peer_info_id ` set (peer_infos m)" for h
  proof -
    from that obtain x where "x \<in> set (peer_infos m)" "h = peer_info_id x" by auto
    then obtain l where l: "l < length (peer_infos m)" "h = peer_info_id (peer_infos m ! l)" by (metis in_set_conv_nth)
    then have "InitNetConnectionID kPeerConnector 0 (of_nat l) = Some h" "l < 2 ^ 32" using ok by (auto simp: master_ok_def)
    moreover obtain h' where "InitNetConnectionID kPeerConnector 0 (of_nat l) = Some h'" "ParseNetConnectionType h' = kPeerConnector"
      by (rule ident[of kPeerConnector 0 l]) (use \<open>l < 2 ^ 32\<close> in auto)
    ultimately show ?thesis using j(2) by auto
  qed
  have "find_cb asel psel i m' = asel conf" using j m' by (simp add: find_cb_def find_acceptor_cb_def nth_append)
  moreover have "master_ok m'"
    using ok n j(1) by (auto simp: master_ok_def m' nth_append less_Suc_eq)
  moreover have "find_cb asel psel h m' = find_cb asel psel h m" if "h \<noteq> i" for h
    by (rule find_cb_other[OF that m'(3), where ys = "[]"]) (simp_all add: m')
  ultimately show ?thesis using old_a old_p m'(1) by blast
qed

section \<open>Messages\<close>

lemma send_to_worker_fresh:
  assumes "spsc_holds (input_event_list w) evs" "length evs < spsc_capacity (input_event_list w)"
    and "spsc_holds (input_buffer_free_list w) (b # free)" "fresh_buffer (input_buffer_list w ! b) (length bytes)"
  obtains w' y where "send_to_worker i bytes w = Some (True, w')"
    "spsc_holds (input_event_list w') (evs @ [\<lparr>in_id = i, in_data = ISend b\<rparr>])"
    "spsc_capacity (input_event_list w') = spsc_capacity (input_event_list w)"
    "spsc_holds (input_buffer_free_list w') free"
    "input_buffer_list w' = (input_buffer_list w)[b := y]" "message_bytes y = bytes"
    "connector_list w' = connector_list w"
proof -
  obtain q where q: "Pop (input_buffer_free_list w) = Some (Some b, q)" "spsc_holds q free"
    using spsc.pop_Cons[OF assms(3)] by blast
  obtain y where y: "fill_buffer bytes (input_buffer_list w ! b) = Some y" "message_bytes y = bytes"
    by (rule fill_buffer_fresh[OF assms(4)])
  obtain r where r: "Push \<lparr>in_id = i, in_data = ISend b\<rparr> (input_event_list w) = (True, r)"
    "spsc_holds r (evs @ [\<lparr>in_id = i, in_data = ISend b\<rparr>])" "spsc_capacity r = spsc_capacity (input_event_list w)"
    using spsc.push_room[OF assms(1,2)] by blast
  have "InputEventWriteAvailable w \<noteq> 0"
    using available(2)[OF assms(1)] assms(2) by (simp add: InputEventWriteAvailable_def spsc_capacity_def)
  then show ?thesis
    using q y r by (intro that[of "w\<lparr>input_buffer_free_list := q, input_buffer_list := (input_buffer_list w)[b := y],
        input_event_list := r\<rparr>" y])
      (simp_all add: send_to_worker_def GetFreeInputBuffer_def AddInputEvent_def)
qed

text \<open>Sending messages one after the other, each of them accepted.\<close>

fun send_all :: "net_id \<Rightarrow> 8 word list list \<Rightarrow> 'cb net_master \<Rightarrow> 'cb net_master option" where
  "send_all i [] m = Some m"
| "send_all i (x # xs) m = do { (ok, m) \<leftarrow> NetMaster_Send i x m; check ok; send_all i xs m }"

abbreviation send_event :: "net_id \<Rightarrow> nat \<Rightarrow> net_input_event" where
  "send_event i b \<equiv> \<lparr>in_id = i, in_data = ISend b\<rparr>"

lemma send_all_fresh:
  assumes "ParseNetConnectionType i = kConnector" "wi = unat (ParseNetWorkerIndex i)"
  shows "wi < length (worker_list m) \<Longrightarrow> w = worker_list m ! wi \<Longrightarrow> length bs = length msgs \<Longrightarrow>
    list_all (\<lambda>x. x \<noteq> [] \<and> length x \<le> unat (input_buffer_size (master_conf m))) msgs \<Longrightarrow>
    spsc_holds (input_event_list w) evs \<Longrightarrow> length evs + length msgs \<le> spsc_capacity (input_event_list w) \<Longrightarrow>
    spsc_holds (input_buffer_free_list w) (bs @ free) \<Longrightarrow> distinct bs \<Longrightarrow>
    list_all2 (\<lambda>b x. b < length (input_buffer_list w) \<and> fresh_buffer (input_buffer_list w ! b) (length x)) bs msgs \<Longrightarrow>
    \<exists>m' w'. send_all i msgs m = Some m' \<and> worker_list m' = (worker_list m)[wi := w'] \<and>
      spsc_holds (input_event_list w') (evs @ map (send_event i) bs) \<and>
      connector_list w' = connector_list w \<and> length (input_buffer_list w') = length (input_buffer_list w) \<and>
      map (\<lambda>b. message_bytes (input_buffer_list w' ! b)) bs = msgs \<and>
      (\<forall>c. c \<notin> set bs \<longrightarrow> input_buffer_list w' ! c = input_buffer_list w ! c)"
proof (induction msgs arbitrary: m w evs bs)
  case Nil
  then show ?case by (intro exI[of _ m] exI[of _ w]) simp
next
  case (Cons x msgs)
  then obtain b cs where bs: "bs = b # cs" by (cases bs) auto
  have ev: "length evs < spsc_capacity (input_event_list w)" and fresh: "fresh_buffer (input_buffer_list w ! b) (length x)"
    and free: "spsc_holds (input_buffer_free_list w) (b # cs @ free)" and b: "b < length (input_buffer_list w)"
    using Cons.prems by (auto simp: bs)
  obtain w1 y where w1: "send_to_worker i x w = Some (True, w1)"
    "spsc_holds (input_event_list w1) (evs @ [send_event i b])"
    "spsc_capacity (input_event_list w1) = spsc_capacity (input_event_list w)"
    "spsc_holds (input_buffer_free_list w1) (cs @ free)"
    "input_buffer_list w1 = (input_buffer_list w)[b := y]" "message_bytes y = x" "connector_list w1 = connector_list w"
    by (rule send_to_worker_fresh[OF Cons.prems(5) ev free fresh])
  define m1 where "m1 = m\<lparr>worker_list := (worker_list m)[wi := w1]\<rparr>"
  have send: "NetMaster_Send i x m = Some (True, m1)"
    using Cons.prems(1,2,4) assms w1(1) by (simp add: NetMaster_Send_def send_worker_def m1_def)
  have b_cs: "b \<notin> set cs" "distinct cs" using Cons.prems(8) by (auto simp: bs)
  have all2: "list_all2 (\<lambda>b x. b < length (input_buffer_list w1) \<and> fresh_buffer (input_buffer_list w1 ! b) (length x)) cs msgs"
  proof (rule list.rel_mono_strong)
    show "list_all2 (\<lambda>b x. b < length (input_buffer_list w) \<and> fresh_buffer (input_buffer_list w ! b) (length x)) cs msgs"
      using Cons.prems(9) by (simp add: bs)
    fix c z
    assume "c \<in> set cs" "c < length (input_buffer_list w) \<and> fresh_buffer (input_buffer_list w ! c) (length z)"
    then show "c < length (input_buffer_list w1) \<and> fresh_buffer (input_buffer_list w1 ! c) (length z)"
      using b_cs(1) by (cases "c = b") (simp_all add: w1(5))
  qed
  have "\<exists>m' w'. send_all i msgs m1 = Some m' \<and> worker_list m' = (worker_list m1)[wi := w'] \<and>
      spsc_holds (input_event_list w') ((evs @ [send_event i b]) @ map (send_event i) cs) \<and>
      connector_list w' = connector_list w1 \<and> length (input_buffer_list w') = length (input_buffer_list w1) \<and>
      map (\<lambda>b. message_bytes (input_buffer_list w' ! b)) cs = msgs \<and>
      (\<forall>c. c \<notin> set cs \<longrightarrow> input_buffer_list w' ! c = input_buffer_list w1 ! c)"
    by (rule Cons.IH[OF _ _ _ _ w1(2) _ w1(4) b_cs(2) all2])
      (use Cons.prems in \<open>auto simp: m1_def bs w1(3)\<close>)
  then obtain m' w' where IH: "send_all i msgs m1 = Some m'" "worker_list m' = (worker_list m1)[wi := w']"
      "spsc_holds (input_event_list w') ((evs @ [send_event i b]) @ map (send_event i) cs)"
      "connector_list w' = connector_list w1" "length (input_buffer_list w') = length (input_buffer_list w1)"
      "map (\<lambda>b. message_bytes (input_buffer_list w' ! b)) cs = msgs"
      "\<forall>c. c \<notin> set cs \<longrightarrow> input_buffer_list w' ! c = input_buffer_list w1 ! c"
    by blast
  have "message_bytes (input_buffer_list w' ! b) = x" using IH(7) b_cs(1) b w1(5,6) by simp
  moreover have "input_buffer_list w' ! c = input_buffer_list w ! c" if "c \<notin> set bs" for c
    using IH(7) that w1(5) by (auto simp: bs)
  ultimately show ?case
    using IH send by (intro exI[of _ m'] exI[of _ w']) (auto simp: bs w1(5,7) m1_def)
qed

lemma handle_sends:
  assumes i: "ParseNetConnectionType i = kConnector" and n: "n = unat (ParseNetConnectionIndex i)"
  shows "spsc_holds (input_event_list w) (map (send_event i) bs) \<Longrightarrow> n < length (connector_list w) \<Longrightarrow>
    connector_id (connector_list w ! n) = i \<Longrightarrow>
    \<exists>w'. handle_events K free_input disconnect (length bs) (w, k) = Some (w', k) \<and>
      spsc_holds (input_event_list w') [] \<and> input_buffer_list w' = input_buffer_list w \<and>
      connector_list w' = (connector_list w)[n := (connector_list w ! n)
        \<lparr>write_buffer_list := write_buffer_list (connector_list w ! n) @ bs\<rparr>]"
proof (induction bs arbitrary: w)
  case Nil
  then show ?case by (intro exI[of _ w]) simp
next
  case (Cons b bs)
  obtain q where q: "Pop (input_event_list w) = Some (Some (send_event i b), q)" "spsc_holds q (map (send_event i) bs)"
    using spsc.pop_Cons[of "input_event_list w" "send_event i b" "map (send_event i) bs"] Cons.prems(1) by auto
  let ?c = "(connector_list w ! n)\<lparr>write_buffer_list := write_buffer_list (connector_list w ! n) @ [b]\<rparr>"
  define w1 where "w1 = w\<lparr>input_event_list := q, connector_list := (connector_list w)[n := ?c]\<rparr>"
  have "SendTo free_input i b (w\<lparr>input_event_list := q\<rparr>) = Some w1"
    using i n Cons.prems(2,3) by (simp add: SendTo_def GetConnector_def w1_def Let_def)
  then have step: "handle_events K free_input disconnect (length (b # bs)) (w, k) =
      handle_events K free_input disconnect (length bs) (w1, k)"
    using q(1) by (simp add: handle_event_def)
  have w1: "spsc_holds (input_event_list w1) (map (send_event i) bs)" "n < length (connector_list w1)"
    "connector_id (connector_list w1 ! n) = i"
    using q(2) Cons.prems(2,3) by (simp_all add: w1_def)
  from Cons.IH[OF this] obtain w' where
    "handle_events K free_input disconnect (length bs) (w1, k) = Some (w', k)"
    "spsc_holds (input_event_list w') []" "input_buffer_list w' = input_buffer_list w1"
    "connector_list w' = (connector_list w1)[n := (connector_list w1 ! n)
        \<lparr>write_buffer_list := write_buffer_list (connector_list w1 ! n) @ bs\<rparr>]" by blast
  then show ?case using step Cons.prems(2) by (intro exI[of _ w']) (simp add: w1_def)
qed

text \<open>C10: messages that are sent to a connection, each within a fresh buffer, are all accepted, and when
  the worker handles its events the buffers are at the end of the list of the connection, in the
  order of sending, and hold exactly the bytes sent.\<close>
theorem Send_delivers:
  assumes "ParseNetConnectionType i = kConnector" "unat (ParseNetWorkerIndex i) < length (worker_list m)"
    and w: "w = worker_list m ! unat (ParseNetWorkerIndex i)"
    and "list_all (\<lambda>x. x \<noteq> [] \<and> length x \<le> unat (input_buffer_size (master_conf m))) msgs"
    and "spsc_holds (input_event_list w) []" "length msgs \<le> spsc_capacity (input_event_list w)"
    and "spsc_holds (input_buffer_free_list w) (bs @ free)" "distinct bs"
    and "list_all2 (\<lambda>b x. b < length (input_buffer_list w) \<and> fresh_buffer (input_buffer_list w ! b) (length x)) bs msgs"
    and n: "n = unat (ParseNetConnectionIndex i)" "n < length (connector_list w)" "connector_id (connector_list w ! n) = i"
  shows "\<exists>m' w'. send_all i msgs m = Some m' \<and>
    HandleInputEvent K free_input disconnect (worker_list m' ! unat (ParseNetWorkerIndex i), k) = Some (w', k) \<and>
    write_buffer_list (connector_list w' ! n) = write_buffer_list (connector_list w ! n) @ bs \<and>
    map (\<lambda>b. message_bytes (input_buffer_list w' ! b)) bs = msgs"
proof -
  have "length bs = length msgs" using assms(9) by (rule list_all2_lengthD)
  from send_all_fresh[OF assms(1) refl assms(2) w this assms(4,5) _ assms(7,8,9)] assms(6)
  obtain m1 w1 where s: "send_all i msgs m = Some m1" "worker_list m1 = (worker_list m)[unat (ParseNetWorkerIndex i) := w1]"
    "spsc_holds (input_event_list w1) (map (send_event i) bs)" "connector_list w1 = connector_list w"
    "map (\<lambda>b. message_bytes (input_buffer_list w1 ! b)) bs = msgs"
    by auto
  have "n < length (connector_list w1)" "connector_id (connector_list w1 ! n) = i" using n(2,3) s(4) by simp_all
  from handle_sends[OF assms(1) n(1) s(3) this, of K free_input disconnect k]
  obtain w2 where h: "handle_events K free_input disconnect (length bs) (w1, k) = Some (w2, k)"
    "input_buffer_list w2 = input_buffer_list w1"
    "connector_list w2 = (connector_list w1)[n := (connector_list w1 ! n)
        \<lparr>write_buffer_list := write_buffer_list (connector_list w1 ! n) @ bs\<rparr>]" by blast
  have "HandleInputEvent K free_input disconnect (worker_list m1 ! unat (ParseNetWorkerIndex i), k) = Some (w2, k)"
    using h(1) s(2) assms(2) available(1)[OF s(3)] by (simp add: HandleInputEvent_def)
  then show ?thesis using s h n(2) by (intro exI[of _ m1] exI[of _ w2]) simp
qed

section \<open>Buffers that come back\<close>

text \<open>nothing sets the positions of a buffer back, and sending with a buffer that was
  written before does not return: \<open>Write\<close> compares with its argument in place of the size.\<close>
theorem Send_reused_aborts:
  assumes "ParseNetConnectionType i = kConnector" "unat (ParseNetWorkerIndex i) < length (worker_list m)"
    and w: "w = worker_list m ! unat (ParseNetWorkerIndex i)"
    and "spsc_holds (input_event_list w) evs" "length evs < spsc_capacity (input_event_list w)"
    and "spsc_holds (input_buffer_free_list w) (b # free)"
    and "write_pos (input_buffer_list w ! b) \<noteq> 0" "write_pos (input_buffer_list w ! b) \<le> buffer_size (input_buffer_list w ! b)"
  shows "NetMaster_Send i bytes m = None"
proof -
  let ?x = "input_buffer_list w ! b"
  obtain q where q: "Pop (input_buffer_free_list w) = Some (Some b, q)" using spsc.pop_Cons[OF assms(6)] by blast
  have room: "InputEventWriteAvailable w \<noteq> 0"
    using available(2)[OF assms(4)] assms(5) by (simp add: InputEventWriteAvailable_def spsc_capacity_def)
  have "fill_buffer bytes ?x = None"
  proof (cases "length bytes \<le> unat (NetBuffer_WriteAvailable ?x)")
    case True
    have le: "unat (write_pos ?x) \<le> unat (buffer_size ?x)" using assms(8) by (simp add: word_le_nat_alt)
    then have "unat (write_pos ?x) + length bytes \<le> unat (buffer_size ?x)"
      using True assms(8) by (simp add: NetBuffer_WriteAvailable_def unat_sub)
    moreover have "unat (buffer_size ?x) < 2 ^ 64" using unsigned_less[of "buffer_size ?x", where ?'a = nat] by simp
    ultimately have small: "unat (write_pos ?x) + length bytes < 2 ^ 64" by simp
    then have n: "unat (of_nat (length bytes) :: 64 word) = length bytes" by (simp add: unsigned_of_nat take_bit_eq_mod)
    have "\<not> write_pos ?x + of_nat (length bytes) \<le> of_nat (length bytes)"
      using small assms(7) by (simp add: word_le_nat_alt unat_word_ariths n word_unat_eq_iff)
    then show ?thesis using True by (simp add: fill_buffer_def copy_to_buffer_def NetBuffer_Write_def check_def)
  qed (simp add: fill_buffer_def)
  then have "send_to_worker i bytes w = None" using q room by (simp add: send_to_worker_def GetFreeInputBuffer_def)
  then show ?thesis using assms(1,2) w by (simp add: NetMaster_Send_def send_worker_def check_def)
qed

section \<open>A small network at work\<close>

lemma tiny_ready:
  assumes "worker_ready 0 tiny_conf w"
  shows "length (connector_list w) = 1" "connector_id (connector_list w ! 0) = 0"
    "write_buffer_list (connector_list w ! 0) = []"
    "spsc_holds (input_event_list w) []" "spsc_capacity (input_event_list w) = 3"
    "spsc_holds (input_buffer_free_list w) [0, 1]" "length (input_buffer_list w) = 2"
    "\<And>b. b < 2 \<Longrightarrow> fresh_buffer (input_buffer_list w ! b) 4"
proof -
  have id: "InitNetConnectionID kConnector 0 0 = Some 0" by code_simp
  show l: "length (connector_list w) = 1" "length (input_buffer_list w) = 2"
    using assms by (simp_all add: worker_ready_def tiny_conf_def)
  show "connector_id (connector_list w ! 0) = 0" "write_buffer_list (connector_list w ! 0) = []"
    using assms l id by (simp_all add: worker_ready_def)
  show "spsc_holds (input_event_list w) []" "spsc_capacity (input_event_list w) = 3"
    using assms by (simp_all add: worker_ready_def tiny_conf_def)
  have "[0..<2] = [0, 1 :: nat]" by (simp add: upt_rec)
  moreover have "spsc_holds (input_buffer_free_list w) [0..<length (input_buffer_list w)]"
    using assms unfolding worker_ready_def by blast
  ultimately show "spsc_holds (input_buffer_free_list w) [0, 1]" by (simp only: l(2))
  have "\<forall>x \<in> set (input_buffer_list w). fresh_buffer x 4"
    using assms by (simp add: worker_ready_def tiny_conf_def)
  then show "fresh_buffer (input_buffer_list w ! b) 4" if "b < 2" for b using that l(2) by simp
qed

lemma fresh_buffer_le: "fresh_buffer x n \<Longrightarrow> k \<le> n \<Longrightarrow> fresh_buffer x k"
  by (simp add: fresh_buffer_def)

definition tiny_acceptor :: "nat net_acceptor_conf" where
  "tiny_acceptor = \<lparr>bind_ipv6 = False, bind_ip = ''1.2.3.4'', bind_port = 80, acceptor_recv_cb = Some 1,
    acceptor_connect_cb = None, acceptor_disconnect_cb = Some 3\<rparr>"

lemma AddAcceptor_registers_witness:
  "\<exists>m m' k'. AddAcceptor memory_kernel (\<lambda>_ _. Some [1, 2, 3, 4]) tiny_acceptor m (Map.empty, 0, 7) = Some ((0x200000000000000, m'), k') \<and>
    length (worker_list m') = 1 \<and> find_cb acceptor_recv_cb peer_recv_cb 0x200000000000000 m' = Some 1"
proof -
  obtain m :: "nat net_master" where m: "acceptor_infos m = []" "peer_infos m = []" "length (worker_list m) = 1" by (rule tiny_master)
  have id: "InitNetConnectionID kAcceptor 0 0 = Some 0x200000000000000" by code_simp
  have sock: "fst (run_state (acceptor_socket memory_kernel a) (Map.empty, 0, 7)) = Some 7" for a
    by (simp add: acceptor_socket_def CreateTcpSocket_addr_def CreateTcpSocket_def SetFlags_def set_flag_def SetNonBlock_def
        SetCloseOnExec_def SetReuseAddr_def memory_kernel_def Bind_def Listen_def open_next_def change_socket_def read_socket_def
        new_socket_def acceptor_flags_def kNetSocketIDInvalid_def kNetSocketFlagNonBlock_def kNetSocketFlagCloseOnExec_def
        kNetSocketFlagReuseAddr_def)
  obtain m' k' where add: "AddAcceptor memory_kernel (\<lambda>_ _. Some [1, 2, 3, 4]) tiny_acceptor m (Map.empty, 0, 7) = Some ((0x200000000000000, m'), k')"
    and l: "length (worker_list m') = 1"
    using sock[of "NetAddress (\<lambda>_ _. Some [1, 2, 3, 4]) (bind_port tiny_acceptor) (Some (bind_ip tiny_acceptor)) (bind_ipv6 tiny_acceptor)"] m id
    by (simp add: AddAcceptor_def connection_max split_beta)
  have "master_ok m" using m by (simp add: master_ok_def)
  moreover have "(0x200000000000000 :: net_id) \<noteq> kNetConnectionIDInvalid" by code_simp
  ultimately have "find_cb acceptor_recv_cb peer_recv_cb 0x200000000000000 m' = acceptor_recv_cb tiny_acceptor"
    using AddAcceptor_registers[OF _ add] by blast
  then show ?thesis using add l by (intro exI[of _ m] exI[of _ m'] exI[of _ k']) (simp add: tiny_acceptor_def)
qed

lemma Send_delivers_witness:
  "\<exists>(m :: nat net_master) m' w' k. send_all 0 [[1, 2], [3]] m = Some m' \<and>
    HandleInputEvent memory_kernel (\<lambda>_ w. w) (\<lambda>_ w. w) (worker_list m' ! 0, (Map.empty, 0, 3)) = Some (w', k) \<and>
    write_buffer_list (connector_list w' ! 0) = [0, 1] \<and>
    map (\<lambda>b. message_bytes (input_buffer_list w' ! b)) [0, 1] = [[1, 2], [3]]"
proof -
  obtain m :: "nat net_master" where m: "master_conf m = NetConf_default" "length (worker_list m) = 1"
    "worker_ready 0 tiny_conf (worker_list m ! 0)" by (rule tiny_master)
  note r = tiny_ready[OF m(3)]
  have p: "ParseNetConnectionType 0 = kConnector" "unat (ParseNetWorkerIndex 0) = 0" "unat (ParseNetConnectionIndex 0) = 0"
    by code_simp+
  have f: "fresh_buffer (input_buffer_list (worker_list m ! 0) ! 0) (length [1, 2 :: 8 word])"
    "fresh_buffer (input_buffer_list (worker_list m ! 0) ! 1) (length [3 :: 8 word])"
    using r(8)[of 0] r(8)[of 1] by (auto intro: fresh_buffer_le)
  have "\<exists>m' w'. send_all 0 [[1, 2], [3]] m = Some m' \<and>
    HandleInputEvent memory_kernel (\<lambda>_ w. w) (\<lambda>_ w. w) (worker_list m' ! unat (ParseNetWorkerIndex 0), (Map.empty, 0, 3)) = Some (w', (Map.empty, 0, 3)) \<and>
    write_buffer_list (connector_list w' ! 0) = write_buffer_list (connector_list (worker_list m ! 0) ! 0) @ [0, 1] \<and>
    map (\<lambda>b. message_bytes (input_buffer_list w' ! b)) [0, 1] = [[1, 2], [3]]"
    by (rule Send_delivers[where free = "[]"]) (use m r p f in \<open>simp_all add: NetConf_default_def\<close>)
  then obtain m' w' where "send_all 0 [[1, 2], [3]] m = Some m'"
    "HandleInputEvent memory_kernel (\<lambda>_ w. w) (\<lambda>_ w. w) (worker_list m' ! 0, (Map.empty, 0, 3)) = Some (w', (Map.empty, 0, 3))"
    "write_buffer_list (connector_list w' ! 0) = [0, 1]"
    "map (\<lambda>b. message_bytes (input_buffer_list w' ! b)) [0, 1] = [[1, 2], [3]]"
    unfolding p(2) r(3) append_Nil by (elim exE conjE) (rule that)
  then show ?thesis by (intro exI[of _ m] exI[of _ m'] exI[of _ w'] exI[of _ "(Map.empty, 0, 3)"] conjI)
qed

lemma Send_reused_aborts_witness: "\<exists>m :: nat net_master. length (worker_list m) = 1 \<and> NetMaster_Send 0 [1] m = None"
proof -
  obtain m :: "nat net_master" where m: "length (worker_list m) = 1" "worker_ready 0 tiny_conf (worker_list m ! 0)"
    by (rule tiny_master)
  note r = tiny_ready[OF m(2)]
  define w where "w = (worker_list m ! 0)\<lparr>input_buffer_list := map (\<lambda>x. x\<lparr>buffer_size := 4, write_pos := 2\<rparr>) (input_buffer_list (worker_list m ! 0))\<rparr>"
  have p: "ParseNetConnectionType 0 = kConnector" "unat (ParseNetWorkerIndex 0) = 0" by code_simp+
  have "NetMaster_Send 0 [1] (m\<lparr>worker_list := [w]\<rparr>) = None"
    by (rule Send_reused_aborts[where w = w and evs = "[]" and b = 0 and free = "[1]"])
      (use r p in \<open>simp_all add: w_def\<close>)
  then show ?thesis by (intro exI[of _ "m\<lparr>worker_list := [w]\<rparr>"]) simp
qed


section \<open>Identifiers of closed connections\<close>

text \<open>after a connection of a worker is closed its identifier finds nothing, the identifiers of the
  other connections find what they found, and the new identifier finds the connection, unless the
  count has run over: then it is no longer the identifier of a connection and looking it up aborts.\<close>
theorem FreeNetConnector_id:
  assumes "FreeNetConnector n w = Some w'" "connector_id (connector_list w ! n) = i"
    and "ParseNetConnectionType i = kConnector" "unat (ParseNetConnectionIndex i) = n"
  shows "GetConnector i w' = Some None \<and>
    (\<forall>j. unat (ParseNetConnectionIndex j) \<noteq> n \<longrightarrow> GetConnector j w' = GetConnector j w) \<and>
    GetConnector (NextNetConnectionID i) w' = (if unat i div 2 ^ 32 = 2 ^ 24 - 1 then None else Some (Some n)) \<and>
    connector_free_list w' = connector_free_list w @ [n]"
proof -
  define u low where "u = unat i div 2 ^ 32" and "low = unat i mod 2 ^ 32"
  have i: "unat i = u * 2 ^ 32 + low" "low < 2 ^ 32" by (simp_all add: u_def low_def)
  have "unat i div 2 ^ 56 = 0" using assms(3) Parse_unat(1)[of i] by (metis unsigned_0)
  then have u: "u < 2 ^ 24" unfolding u_def by (simp add: div_eq_0_iff less_mult_imp_div_less)
  then have small: "(u + 1) mod 2 ^ 28 = u + 1" by simp
  have top: "unat i div 2 ^ 60 = 0" using u i by simp
  have "unat (NextNetConnectionID i) = unat i div 2 ^ 60 * 2 ^ 60 + ((u + 1) mod 2 ^ 28 * 2 ^ 32 + low)"
    unfolding u_def low_def by (rule NextNetConnectionID_unat)
  then have nxt: "unat (NextNetConnectionID i) = low + (u + 1) * 2 ^ 32" unfolding small top by simp
  have ne: "NextNetConnectionID i \<noteq> i" using nxt i by (auto simp: word_unat_eq_iff)
  have "unat (ParseNetConnectionIndex (NextNetConnectionID i)) = low"
    using i(2) by (simp only: Parse_unat(2) nxt mod_mult_self1 mod_less)
  moreover have low: "low = n" using assms(4) by (simp add: Parse_unat low_def)
  ultimately have idx: "unat (ParseNetConnectionIndex (NextNetConnectionID i)) = n" by simp
  have "unat (NextNetConnectionID i) div 2 ^ 56 = unat (NextNetConnectionID i) div 2 ^ 32 div 2 ^ 24"
    by (simp add: div_mult2_eq[symmetric])
  also have "unat (NextNetConnectionID i) div 2 ^ 32 = u + 1" unfolding nxt using i(2) by (subst div_mult_self1) simp_all
  finally have "unat (ParseNetConnectionType (NextNetConnectionID i)) = (u + 1) div 2 ^ 24" by (simp only: Parse_unat)
  moreover have "(u + 1) div 2 ^ 24 = 0 \<longleftrightarrow> u \<noteq> 2 ^ 24 - 1" using u by auto
  ultimately have type: "ParseNetConnectionType (NextNetConnectionID i) = kConnector \<longleftrightarrow> u \<noteq> 2 ^ 24 - 1"
    by (simp add: word_unat_eq_iff)
  have w': "n < length (connector_list w)" "connector_list w' = (connector_list w)[n := (connector_list w ! n)\<lparr>connector_id := NextNetConnectionID i\<rparr>]"
    "connector_free_list w' = connector_free_list w @ [n]"
    using assms(1,2) by (auto simp: FreeNetConnector_def Option.bind_eq_Some_conv)
  have "GetConnector i w' = Some None" using assms(3,4) w' ne by (simp add: GetConnector_def)
  moreover have "GetConnector j w' = GetConnector j w" if "unat (ParseNetConnectionIndex j) \<noteq> n" for j
    using that w'(2) by (simp add: GetConnector_def)
  moreover have "GetConnector (NextNetConnectionID i) w' = (if u = 2 ^ 24 - 1 then None else Some (Some n))"
    using type idx w' by (simp add: GetConnector_def check_def)
  ultimately show ?thesis using w'(3) unfolding u_def by blast
qed

lemma FreeNetConnector_id_witness:
  "\<exists>w w'. FreeNetConnector 0 w = Some w' \<and> GetConnector 0 w = Some (Some 0) \<and> GetConnector 0 w' = Some None"
proof -
  obtain m :: "nat net_master" where m: "worker_ready 0 tiny_conf (worker_list m ! 0)" by (rule tiny_master)
  let ?w = "worker_list m ! 0"
  note r = tiny_ready[OF m]
  have p: "ParseNetConnectionType 0 = kConnector" "unat (ParseNetConnectionIndex 0) = 0" by code_simp+
  obtain w' where w': "FreeNetConnector 0 ?w = Some w'" using r(1) by (simp add: FreeNetConnector_def Let_def)
  moreover have "GetConnector 0 ?w = Some (Some 0)" using p r(1,2) by (simp add: GetConnector_def)
  ultimately show ?thesis using FreeNetConnector_id[OF w' r(2) p] by blast
qed

end
