(* ===== verification/NetRun.thy ===== *)
theory NetRun
  imports NetWorker
begin

text \<open>
  The loop of the worker's thread, \<open>NetWorker::Run\<close> of src/net/net_worker.cpp, beside the thread that stops it with
  \<open>NetWorker::Uninit\<close>: the two take turns in any order, and the system changes in between.

  \<open>epoll_wait\<close> is a parameter: for a timeout it gives the events that are there, or an error and its \<open>errno\<close>, or it has
  no result yet and the thread waits. An event names the worker, for its own descriptor, or a handler. The flag is written
  and read at once by both threads; that a relaxed store is seen after the \<open>write\<close> that follows it is taken for granted.
\<close>

section \<open>Handlers\<close>

datatype event_cb = OnConnectorEvents | OnAcceptorEvents | OnPeerConnectorEvents

definition call_event_cb :: "event_cb \<Rightarrow> bool" where
  "call_event_cb cb = True"

datatype epoll_ptr = Worker | Handler nat

record handlers =
  event_cb :: "nat \<Rightarrow> event_cb option"
  active_events :: "nat \<Rightarrow> 32 word"
  active_handler_list :: "nat list"

text \<open>The only error that the loop goes on after is \<open>EINTR\<close>.\<close>

abbreviation (input) EINTR :: int where "EINTR \<equiv> 4"

type_synonym wait_result = "int + (epoll_ptr \<times> 32 word) list"

type_synonym 'k waits = "int \<Rightarrow> 'k \<Rightarrow> (wait_result \<times> 'k) option"

fun run_event :: "'k kernel \<Rightarrow> sock \<Rightarrow> epoll_ptr \<times> 32 word \<Rightarrow> handlers \<times> 'k \<Rightarrow> handlers \<times> 'k" where
  "run_event K wfd (Worker, events) (h, k) = (h, snd (run_state (OnWakeup K wfd) k))"
| "run_event K wfd (Handler n, events) (h, k) =
     (let h = h\<lparr>active_events := (active_events h)(n := active_events h n OR events)\<rparr> in
      (if n \<notin> set (active_handler_list h) then h\<lparr>active_handler_list := active_handler_list h @ [n]\<rparr> else h, k))"

text \<open>The callbacks of the list; what stays in it is collected.\<close>

fun run_handlers :: "handlers \<Rightarrow> nat list \<Rightarrow> nat list \<Rightarrow> nat list option" where
  "run_handlers h kept [] = Some kept"
| "run_handlers h kept (n # rest) = do {
     cb \<leftarrow> event_cb h n;
     if call_event_cb cb then run_handlers h kept rest else run_handlers h (kept @ [n]) rest }"

definition run_timeout :: "handlers \<Rightarrow> int" where
  "run_timeout h = (if active_handler_list h \<noteq> [] then 0 else - 1)"

text \<open>What follows the return of \<open>epoll_wait\<close>, up to the next test of the flag.\<close>

definition run_body :: "'k kernel \<Rightarrow> sock \<Rightarrow> wait_result \<Rightarrow> handlers \<times> 'k \<Rightarrow> (handlers \<times> 'k) option" where
  "run_body K wfd ret s = do {
     (h, k) \<leftarrow> (case ret of
         Inl e \<Rightarrow> do { check (e = EINTR); Some s }
       | Inr events \<Rightarrow> Some (fold (run_event K wfd) events s));
     kept \<leftarrow> run_handlers h [] (active_handler_list h);
     Some (h\<lparr>active_handler_list := kept\<rparr>, k) }"

section \<open>The two threads\<close>

text \<open>Where the thread is: before the test of the flag, in \<open>epoll_wait\<close>, or past the loop; a loop that aborts takes the program
  with it. And where the caller of \<open>Uninit\<close> is: before it, past the store, past \<open>Wakeup\<close> and so in \<open>Join\<close>, or past that.\<close>

datatype worker_at = TestFlag | InWait | LoopEnded | LoopAborted

datatype master_at = BeforeUninit | FlagStored | InJoin | WorkerJoined

record 'k two_threads =
  loop_flag :: bool
  loop_handlers :: handlers
  loop_kernel :: 'k
  worker_at :: worker_at
  master_at :: master_at

datatype who = TheWorker | TheMaster | TheSystem

inductive Run :: "'k waits \<Rightarrow> 'k kernel \<Rightarrow> sock \<Rightarrow> ('k \<Rightarrow> 'k \<Rightarrow> bool) \<Rightarrow> who \<Rightarrow> 'k two_threads \<Rightarrow> 'k two_threads \<Rightarrow> bool"
  for wait K wfd sys where
  test: "worker_at s = TestFlag \<Longrightarrow>
    Run wait K wfd sys TheWorker s (s\<lparr>worker_at := if loop_flag s then LoopEnded else InWait\<rparr>)"
| round: "worker_at s = InWait \<Longrightarrow> wait (run_timeout (loop_handlers s)) (loop_kernel s) = Some (ret, k) \<Longrightarrow>
    run_body K wfd ret (loop_handlers s, k) = Some (h, k') \<Longrightarrow>
    Run wait K wfd sys TheWorker s (s\<lparr>loop_handlers := h, loop_kernel := k', worker_at := TestFlag\<rparr>)"
| abort: "worker_at s = InWait \<Longrightarrow> wait (run_timeout (loop_handlers s)) (loop_kernel s) = Some (ret, k) \<Longrightarrow>
    run_body K wfd ret (loop_handlers s, k) = None \<Longrightarrow> Run wait K wfd sys TheWorker s (s\<lparr>worker_at := LoopAborted\<rparr>)"
| store: "master_at s = BeforeUninit \<Longrightarrow> Run wait K wfd sys TheMaster s (s\<lparr>loop_flag := True, master_at := FlagStored\<rparr>)"
| wakeup: "master_at s = FlagStored \<Longrightarrow> Run wait K wfd sys TheMaster s
    (s\<lparr>loop_kernel := snd (run_state (Wakeup K wfd) (loop_kernel s)), master_at := InJoin\<rparr>)"
| join: "master_at s = InJoin \<Longrightarrow> worker_at s = LoopEnded \<Longrightarrow> Run wait K wfd sys TheMaster s (s\<lparr>master_at := WorkerJoined\<rparr>)"
| system: "sys (loop_kernel s) k \<Longrightarrow> Run wait K wfd sys TheSystem s (s\<lparr>loop_kernel := k\<rparr>)"

inductive_cases RunE: "Run wait K wfd sys who s s'"

text \<open>Steps taken one after the other, and how many of them are the worker's.\<close>

inductive Runs :: "'k waits \<Rightarrow> 'k kernel \<Rightarrow> sock \<Rightarrow> ('k \<Rightarrow> 'k \<Rightarrow> bool) \<Rightarrow> nat \<Rightarrow> 'k two_threads \<Rightarrow> 'k two_threads \<Rightarrow> bool"
  for wait K wfd sys where
  none: "Runs wait K wfd sys 0 s s"
| more: "Runs wait K wfd sys n s t \<Longrightarrow> Run wait K wfd sys who t u \<Longrightarrow>
    Runs wait K wfd sys (if who = TheWorker then Suc n else n) s u"

text \<open>How \<open>Init\<close> leaves the worker when the thread is started.\<close>

definition run_start :: "handlers \<Rightarrow> 'k \<Rightarrow> 'k two_threads" where
  "run_start h k = \<lparr>loop_flag = False, loop_handlers = h, loop_kernel = k, worker_at = TestFlag, master_at = BeforeUninit\<rparr>"

section \<open>A round\<close>

lemma run_handlers_all: "(\<forall>n \<in> set ns. event_cb h n \<noteq> None) \<Longrightarrow> run_handlers h kept ns = Some kept"
  by (induction ns) (auto simp: call_event_cb_def)

text \<open>The flags that a list of events has for a handler.\<close>

definition flags_for :: "nat \<Rightarrow> (epoll_ptr \<times> 32 word) list \<Rightarrow> 32 word \<Rightarrow> 32 word" where
  "flags_for n events = fold (\<lambda>(p, e) f. if p = Handler n then f OR e else f) events"

lemma run_events:
  assumes "fold (run_event K wfd) events (h, k) = (h', k')"
  shows "event_cb h' = event_cb h \<and> active_events h' = (\<lambda>n. flags_for n events (active_events h n)) \<and>
    set (active_handler_list h') = set (active_handler_list h) \<union> {n. Handler n \<in> fst ` set events}"
  using assms
proof (induction events arbitrary: h k)
  case Nil
  then show ?case by (auto simp: flags_for_def)
next
  case (Cons pe events)
  obtain p e where pe: "pe = (p, e)" by (rule prod.exhaust)
  obtain h1 k1 where s: "run_event K wfd (p, e) (h, k) = (h1, k1)" by (rule prod.exhaust)
  have IH: "event_cb h' = event_cb h1 \<and> active_events h' = (\<lambda>n. flags_for n events (active_events h1 n)) \<and>
    set (active_handler_list h') = set (active_handler_list h1) \<union> {n. Handler n \<in> fst ` set events}"
    by (rule Cons.IH[of h1 k1]) (use Cons.prems pe s in simp)
  show ?case
  proof (cases p)
    case Worker
    then have "h1 = h" using s by simp
    then show ?thesis using IH pe Worker by (auto simp: flags_for_def)
  next
    case (Handler n)
    then show ?thesis using IH s pe by (auto simp: flags_for_def Let_def split: if_splits)
  qed
qed

lemma flags_grow: "flags_for n events f AND f = f"
proof (induction events arbitrary: f)
  case Nil
  then show ?case by (simp add: flags_for_def)
next
  case (Cons pe events)
  obtain p e where pe: "pe = (p, e)" by (rule prod.exhaust)
  have more: "x AND y = y \<Longrightarrow> y AND f = f \<Longrightarrow> x AND f = f" for x y by (metis and.assoc)
  have "(f OR e) AND f = f" by (simp add: and.commute)
  then show ?case using Cons[of f] more[OF Cons[of "f OR e"]] by (auto simp: flags_for_def pe)
qed

text \<open>A round that starts with an empty list ends with one.\<close>

lemma run_body_round:
  assumes "active_handler_list h = []"
    and "\<And>events n. ret = Inr events \<Longrightarrow> Handler n \<in> fst ` set events \<Longrightarrow> event_cb h n \<noteq> None"
    and "\<And>e. ret = Inl e \<Longrightarrow> e = EINTR"
  obtains h1 k1 where "run_body K wfd ret (h, k) = Some (h1, k1)" "active_handler_list h1 = []" "event_cb h1 = event_cb h"
    "\<forall>n. active_events h1 n AND active_events h n = active_events h n"
proof (cases ret)
  case (Inl e)
  then show ?thesis using assms(1,3) that[of h k] by (simp add: run_body_def)
next
  case (Inr events)
  obtain h1 k1 where f: "fold (run_event K wfd) events (h, k) = (h1, k1)" by (rule prod.exhaust)
  note ev = run_events[OF f]
  have "\<forall>n \<in> set (active_handler_list h1). event_cb h1 n \<noteq> None" using ev assms(1) assms(2)[OF Inr] by simp
  then show ?thesis using that[of "h1\<lparr>active_handler_list := []\<rparr>" k1] Inr f run_handlers_all ev flags_grow by (simp add: run_body_def)
qed

section \<open>The end of the loop\<close>

text \<open>What is asked of the system as long as \<open>wfd\<close> is open and its counter is not at its maximum, where \<open>ready\<close> says that the wakeup descriptor has an event that \<open>epoll_wait\<close> did not report
  yet: a write to it makes it ready, \<open>epoll_wait\<close> returns when it is, other events do not take that away, a wait is only
  ever broken off by a signal, and the handlers that are reported have their callbacks.\<close>

definition epoll_laws :: "'k waits \<Rightarrow> 'k kernel \<Rightarrow> sock \<Rightarrow> ('k \<Rightarrow> 'k \<Rightarrow> bool) \<Rightarrow> ('k \<Rightarrow> bool) \<Rightarrow> handlers \<Rightarrow> bool" where
  "epoll_laws wait K wfd sys ready h \<longleftrightarrow>
     (\<forall>k. ready (snd (run_state (sys_write K wfd [1, 0, 0, 0, 0, 0, 0, 0]) k))) \<and>
     (\<forall>k t. ready k \<longrightarrow> wait t k \<noteq> None) \<and>
     (\<forall>k k'. sys k k' \<longrightarrow> ready k \<longrightarrow> ready k') \<and>
     (\<forall>k t e k'. wait t k = Some (Inl e, k') \<longrightarrow> e = EINTR) \<and>
     (\<forall>k t events k' n. wait t k = Some (Inr events, k') \<longrightarrow> Handler n \<in> fst ` set events \<longrightarrow> event_cb h n \<noteq> None)"

definition loop_ok :: "('k \<Rightarrow> bool) \<Rightarrow> handlers \<Rightarrow> 'k two_threads \<Rightarrow> bool" where
  "loop_ok ready h s \<longleftrightarrow> active_handler_list (loop_handlers s) = [] \<and> event_cb (loop_handlers s) = event_cb h \<and>
     (\<forall>n. active_events (loop_handlers s) n AND active_events h n = active_events h n) \<and>
     worker_at s \<noteq> LoopAborted \<and> (loop_flag s \<longleftrightarrow> master_at s \<noteq> BeforeUninit) \<and>
     (worker_at s = LoopEnded \<longrightarrow> loop_flag s) \<and> (master_at s = WorkerJoined \<longrightarrow> worker_at s = LoopEnded) \<and>
     (master_at s = InJoin \<longrightarrow> worker_at s = InWait \<longrightarrow> ready (loop_kernel s))"

text \<open>How many steps the worker has left when the flag is set.\<close>

definition steps_left :: "worker_at \<Rightarrow> nat" where
  "steps_left w = (case w of InWait \<Rightarrow> 2 | TestFlag \<Rightarrow> 1 | _ \<Rightarrow> 0)"

lemma round_goes_on:
  assumes laws: "epoll_laws wait K wfd sys ready h" and ok: "loop_ok ready h s"
    and w: "wait t (loop_kernel s) = Some (ret, k)"
  obtains h1 k1 where "run_body K wfd ret (loop_handlers s, k) = Some (h1, k1)" "active_handler_list h1 = []"
    "event_cb h1 = event_cb h" "\<forall>n. active_events h1 n AND active_events h n = active_events h n"
proof -
  have l: "active_handler_list (loop_handlers s) = []" "event_cb (loop_handlers s) = event_cb h" using ok by (simp_all add: loop_ok_def)
  obtain h1 k1 where b: "run_body K wfd ret (loop_handlers s, k) = Some (h1, k1)" "active_handler_list h1 = []"
    "event_cb h1 = event_cb (loop_handlers s)"
    "\<forall>n. active_events h1 n AND active_events (loop_handlers s) n = active_events (loop_handlers s) n"
  proof (rule run_body_round[OF l(1), of ret K wfd k])
    show "event_cb (loop_handlers s) n \<noteq> None" if "ret = Inr events" "Handler n \<in> fst ` set events" for events n
      using laws w that unfolding epoll_laws_def l(2) by blast
    show "e = EINTR" if "ret = Inl e" for e using laws w that unfolding epoll_laws_def by blast
  qed (rule that)
  have "x AND y = y \<Longrightarrow> y AND z = z \<Longrightarrow> x AND z = z" for x y z :: "32 word" by (metis and.assoc)
  then have "\<forall>n. active_events h1 n AND active_events h n = active_events h n" using b(4) ok unfolding loop_ok_def by blast
  with b(1-3) l(2) show ?thesis by (intro that) simp_all
qed

lemma Run_step_ok:
  assumes laws: "epoll_laws wait K wfd sys ready h" and ok: "loop_ok ready h s" and step: "Run wait K wfd sys who s s'"
  shows "loop_ok ready h s' \<and> (loop_flag s \<longrightarrow> loop_flag s') \<and>
    (loop_flag s \<longrightarrow> (if who = TheWorker then Suc (steps_left (worker_at s')) else steps_left (worker_at s')) \<le> steps_left (worker_at s))"
  using step
proof (cases rule: Run.cases)
  case test
  then show ?thesis using ok by (simp add: loop_ok_def steps_left_def)
next
  case (round ret k h1 k1)
  obtain h2 k2 where "run_body K wfd ret (loop_handlers s, k) = Some (h2, k2)" "active_handler_list h2 = []"
    "event_cb h2 = event_cb h" "\<forall>n. active_events h2 n AND active_events h n = active_events h n"
    by (rule round_goes_on[OF laws ok round(4)])
  then show ?thesis using ok round by (auto simp: loop_ok_def steps_left_def)
next
  case (abort ret k)
  obtain h2 k2 where "run_body K wfd ret (loop_handlers s, k) = Some (h2, k2)"
    by (rule round_goes_on[OF laws ok abort(4)])
  then show ?thesis using abort by simp
next
  case store
  then show ?thesis using ok by (auto simp: loop_ok_def)
next
  case wakeup
  have "ready (snd (run_state (Wakeup K wfd) (loop_kernel s)))"
    using laws by (simp add: Wakeup_eq epoll_laws_def)
  then show ?thesis using ok wakeup by (simp add: loop_ok_def)
next
  case join
  then show ?thesis using ok by (simp add: loop_ok_def)
next
  case (system k)
  then show ?thesis using ok laws by (auto simp: loop_ok_def epoll_laws_def)
qed

lemma Runs_ok:
  assumes "epoll_laws wait K wfd sys ready h" "Runs wait K wfd sys n s t" "loop_ok ready h s"
  shows "loop_ok ready h t \<and> (loop_flag s \<longrightarrow> loop_flag t \<and> n + steps_left (worker_at t) \<le> steps_left (worker_at s))"
  using assms(2,3)
proof induction
  case (more n s t who u)
  then show ?case using Run_step_ok[OF assms(1), of t who u] by auto
qed simp

text \<open>C31: the loop runs beside the caller of \<open>Uninit\<close>, in any interleaving with it and with the system. It never aborts, it waits
  without a timeout, since each round leaves the list of active handlers empty, and the flags of the active events of a
  handler are only ever added to. It does not end before the flag is stored; and once the caller waits in \<open>Join\<close>, the
  thread has ended or can go on, and it makes at most two more steps: so \<open>Join\<close> returns.\<close>
theorem Run_correct:
  assumes "epoll_laws wait K wfd sys ready h" "active_handler_list h = []" "Runs wait K wfd sys n (run_start h k) s"
  shows "worker_at s \<noteq> LoopAborted \<and> run_timeout (loop_handlers s) = - 1 \<and>
    (\<forall>m. active_events (loop_handlers s) m AND active_events h m = active_events h m) \<and>
    (worker_at s = LoopEnded \<longrightarrow> master_at s \<noteq> BeforeUninit) \<and>
    (master_at s = InJoin \<longrightarrow>
      (worker_at s = LoopEnded \<or> (\<exists>s'. Run wait K wfd sys TheWorker s s')) \<and>
      (\<forall>j t. Runs wait K wfd sys j s t \<longrightarrow> j \<le> 2))"
proof -
  have "loop_ok ready h (run_start h k)" using assms(2) by (simp add: loop_ok_def run_start_def)
  then have ok: "loop_ok ready h s" using Runs_ok[OF assms(1,3)] by blast
  have few: "j \<le> 2" if "loop_flag s" "Runs wait K wfd sys j s t" for j t
    using Runs_ok[OF assms(1) that(2) ok] that(1) by (simp add: steps_left_def split: worker_at.splits)
  have go: "worker_at s = LoopEnded \<or> (\<exists>s'. Run wait K wfd sys TheWorker s s')" if m: "master_at s = InJoin"
  proof (cases "worker_at s")
    case TestFlag
    then show ?thesis by (blast intro: Run.test)
  next
    case InWait
    then obtain ret k1 where w: "wait (run_timeout (loop_handlers s)) (loop_kernel s) = Some (ret, k1)"
      using assms(1) ok m by (fastforce simp: loop_ok_def epoll_laws_def)
    obtain h1 k2 where "run_body K wfd ret (loop_handlers s, k1) = Some (h1, k2)" by (rule round_goes_on[OF assms(1) ok w])
    from Run.round[where wait = wait, OF InWait w this] show ?thesis by blast
  qed (use ok in \<open>simp_all add: loop_ok_def\<close>)
  show ?thesis using ok go few by (auto simp: loop_ok_def run_timeout_def)
qed

text \<open>A system with one acceptor, whose socket becomes readable from time to time: its state is what \<open>epoll_wait\<close> would report
  for the wakeup descriptor and for the acceptor.\<close>

definition one_acceptor :: "(bool \<times> bool) waits" where
  "one_acceptor t k = (if k = (False, False) then None
     else Some (Inr ((if fst k then [(Worker, 1)] else []) @ (if snd k then [(Handler 3, 1)] else [])), (False, False)))"

definition wakeup_kernel :: "(bool \<times> bool) kernel" where
  "wakeup_kernel = \<lparr>sys_errno = State_Monad.return 0, sys_socket = (\<lambda>_. State_Monad.return 5), sys_close = (\<lambda>_. State_Monad.return ()),
     sys_bind = (\<lambda>_ _. State_Monad.return 0), sys_listen = (\<lambda>_ _. State_Monad.return 0),
     sys_accept = (\<lambda>_. State_Monad.return (- 1, \<lparr>address_ipv6 = False, address_ip = [], address_port = 0\<rparr>)),
     sys_connect = (\<lambda>_ _. State_Monad.return 0), sys_read = (\<lambda>_ _. State_Monad.return (8, [])),
     sys_write = (\<lambda>s bytes. State (\<lambda>(w, a). (8, (True, a)))),
     sys_fcntl = (\<lambda>_ _ _. State_Monad.return 0), sys_reuse_addr = (\<lambda>_. State_Monad.return 0),
     sys_epoll_create = State_Monad.return 3, sys_eventfd = State_Monad.return 4, sys_epoll_ctl = (\<lambda>_ _ _ _. State_Monad.return 0),
     sys_thread_create = State_Monad.return (Inr 1)\<rparr>"

definition becomes_readable :: "bool \<times> bool \<Rightarrow> bool \<times> bool \<Rightarrow> bool" where
  "becomes_readable k k' \<longleftrightarrow> k' = (fst k, True)"

theorem Run_correct_witness:
  "\<exists>s. Runs one_acceptor wakeup_kernel 4 becomes_readable 1
      (run_start \<lparr>event_cb = [3 \<mapsto> OnAcceptorEvents], active_events = \<lambda>_. 2, active_handler_list = []\<rparr> (False, False)) s \<and>
    worker_at s = InWait \<and> (\<exists>s'. Run one_acceptor wakeup_kernel 4 becomes_readable TheWorker s s') \<and>
    (\<forall>j t. Runs one_acceptor wakeup_kernel 4 becomes_readable j s t \<longrightarrow> j \<le> 2)"
proof -
  let ?h = "\<lparr>event_cb = [3 \<mapsto> OnAcceptorEvents], active_events = \<lambda>_. 2, active_handler_list = []\<rparr>"
  let ?Run = "Run one_acceptor wakeup_kernel 4 becomes_readable" and ?Runs = "Runs one_acceptor wakeup_kernel 4 becomes_readable"
  let ?s0 = "run_start ?h (False, False)"
  let ?s1 = "?s0\<lparr>worker_at := InWait\<rparr>"
  let ?s2 = "?s1\<lparr>loop_flag := True, master_at := FlagStored\<rparr>"
  let ?s3 = "?s2\<lparr>loop_kernel := (True, False), master_at := InJoin\<rparr>"
  have laws: "epoll_laws one_acceptor wakeup_kernel 4 becomes_readable fst ?h"
    by (auto simp: epoll_laws_def one_acceptor_def wakeup_kernel_def becomes_readable_def split: if_splits)
  have "?Run TheWorker ?s0 ?s1" using Run.test[of ?s0] by (simp add: run_start_def)
  from Runs.more[OF Runs.none this] have r: "?Runs 1 ?s0 ?s1" by simp
  have "?Run TheMaster ?s1 ?s2" by (rule Run.store) (simp add: run_start_def)
  from Runs.more[OF r this] have r: "?Runs 1 ?s0 ?s2" by simp
  have "?Run TheMaster ?s2 ?s3" using Run.wakeup[of ?s2 one_acceptor wakeup_kernel 4 becomes_readable]
    by (simp add: run_start_def Wakeup_def wakeup_kernel_def)
  from Runs.more[OF r this] have r: "?Runs 1 ?s0 ?s3" by simp
  have "master_at ?s3 = InJoin" "worker_at ?s3 = InWait" by simp_all
  with Run_correct[OF laws _ r] r show ?thesis by (intro exI[of _ ?s3]) simp
qed

end
