(* ===== verification/SafeList.thy ===== *)
theory SafeList
  imports Prelude
begin

text \<open>
  Lists whose nodes count references (include/mzx/data_structure/list_safe_node.h), and the loop over such a list
  that the events and the entity manager repeat: hold the node, use its data, go on, release the node.

  A node is named by its address, a natural number. The list of the nodes' links (theory DList) is the
  order of their addresses; the destructor of a node takes its link out of the list. The count is an
  \<open>int\<close> that does not reach its bounds: each reference belongs to a loop that is running.
\<close>

section \<open>Nodes\<close>

type_synonym handle = nat

record 'd safe_node =
  raw_data :: "'d option"
  ref_count :: int

record 'd safe_list =
  cells :: "handle \<rightharpoonup> 'd safe_node"
  order :: "handle list"

definition empty_list :: "'d safe_list" where
  "empty_list = \<lparr>cells = Map.empty, order = []\<rparr>"

definition set_cell :: "handle \<Rightarrow> 'd safe_node \<Rightarrow> 'd safe_list \<Rightarrow> 'd safe_list" where
  "set_cell n x l = l\<lparr>cells := (cells l)(n \<mapsto> x)\<rparr>"

text \<open>A new node for \<open>d\<close> at the address \<open>n\<close>, pushed to the end of the list.\<close>

definition push_new :: "handle \<Rightarrow> 'd \<Rightarrow> 'd safe_list \<Rightarrow> 'd safe_list" where
  "push_new n d l = (set_cell n \<lparr>raw_data = Some d, ref_count = 1\<rparr> l)\<lparr>order := order l @ [n]\<rparr>"

definition Get :: "handle \<Rightarrow> 'd safe_list \<Rightarrow> 'd option option" where
  "Get n l = do { x \<leftarrow> cells l n; Some (raw_data x) }"

definition IncrRef :: "handle \<Rightarrow> 'd safe_list \<Rightarrow> 'd safe_list option" where
  "IncrRef n l = do {
     x \<leftarrow> cells l n;
     Some (set_cell n (x\<lparr>ref_count := ref_count x + 1\<rparr>) l) }"

definition delete_node :: "handle \<Rightarrow> 'd safe_list \<Rightarrow> 'd safe_list option" where
  "delete_node n l = do {
     x \<leftarrow> cells l n;
     check (raw_data x = None \<and> ref_count x = 0);
     Some (l\<lparr>cells := (cells l)(n := None), order := remove1 n (order l)\<rparr>) }"

definition DecrRef :: "handle \<Rightarrow> 'd safe_list \<Rightarrow> 'd safe_list option" where
  "DecrRef n l = do {
     x \<leftarrow> cells l n;
     check (ref_count x > 0);
     let x = x\<lparr>ref_count := ref_count x - 1\<rparr>;
     let l = set_cell n x l;
     if ref_count x = 0 then delete_node n l else Some l }"

definition Detach :: "handle \<Rightarrow> 'd safe_list \<Rightarrow> ('d option \<times> 'd safe_list) option" where
  "Detach n l = do {
     x \<leftarrow> cells l n;
     (case raw_data x of
        None \<Rightarrow> Some (None, l)
      | Some d \<Rightarrow> do {
          l \<leftarrow> DecrRef n (set_cell n (x\<lparr>raw_data := None\<rparr>) l);
          Some (Some d, l) }) }"

text \<open>\<open>Begin\<close> and \<open>Next\<close>; the end of the list is \<open>None\<close>. A node that is not in the list has no next one.\<close>

definition first_node :: "'d safe_list \<Rightarrow> handle option" where
  "first_node l = (case order l of [] \<Rightarrow> None | n # _ \<Rightarrow> Some n)"

fun next_in :: "handle \<Rightarrow> handle list \<Rightarrow> handle option option" where
  "next_in n [] = None"
| "next_in n (m # ms) = (if m = n then Some (case ms of [] \<Rightarrow> None | k # _ \<Rightarrow> Some k) else next_in n ms)"

definition next_node :: "handle \<Rightarrow> 'd safe_list \<Rightarrow> handle option option" where
  "next_node n l = next_in n (order l)"

section \<open>The loop\<close>

text \<open>The list lives in a larger state \<open>'s\<close>, which the body of the loop may change through all of its operations:
  \<open>get\<close> and \<open>put\<close> reach it. \<open>fetch\<close> reads the data of a node or takes it away. The body tells whether to go on.\<close>

definition fetch_get :: "handle \<Rightarrow> 'd safe_list \<Rightarrow> ('d option \<times> 'd safe_list) option" where
  "fetch_get n l = do { d \<leftarrow> Get n l; Some (d, l) }"

partial_function (option) safe_iterate ::
  "('s \<Rightarrow> 'd safe_list) \<Rightarrow> ('d safe_list \<Rightarrow> 's \<Rightarrow> 's) \<Rightarrow> (handle \<Rightarrow> 'd safe_list \<Rightarrow> ('d option \<times> 'd safe_list) option)
    \<Rightarrow> ('d \<Rightarrow> 's \<Rightarrow> (bool \<times> 's) option) \<Rightarrow> handle option \<Rightarrow> 's \<Rightarrow> 's option" where
  "safe_iterate get put fetch body node s = (case node of
     None \<Rightarrow> Some s
   | Some n \<Rightarrow> do {
       l \<leftarrow> IncrRef n (get s);
       (d, l) \<leftarrow> fetch n l;
       let s = put l s;
       (go, s) \<leftarrow> (case d of None \<Rightarrow> Some (True, s) | Some d \<Rightarrow> body d s);
       nxt \<leftarrow> (if go then next_node n (get s) else Some None);
       l \<leftarrow> DecrRef n (get s);
       safe_iterate get put fetch body nxt (put l s) })"

declare safe_iterate.simps [code]

definition safe_foreach ::
  "('s \<Rightarrow> 'd safe_list) \<Rightarrow> ('d safe_list \<Rightarrow> 's \<Rightarrow> 's) \<Rightarrow> (handle \<Rightarrow> 'd safe_list \<Rightarrow> ('d option \<times> 'd safe_list) option)
    \<Rightarrow> ('d \<Rightarrow> 's \<Rightarrow> (bool \<times> 's) option) \<Rightarrow> 's \<Rightarrow> 's option" where
  "safe_foreach get put fetch body s = safe_iterate get put fetch body (first_node (get s)) s"

section \<open>The invariant\<close>

text \<open>\<open>h n\<close> loops hold the node \<open>n\<close>. The count of a node is their number and one for the data when it is there; a
  node exists as long as its count is positive, and it is in the list.\<close>

definition cell_ok :: "nat \<Rightarrow> 'd safe_node \<Rightarrow> bool" where
  "cell_ok k x \<longleftrightarrow> ref_count x = int k + (if raw_data x = None then 0 else 1) \<and> (k = 0 \<longrightarrow> raw_data x \<noteq> None)"

definition safe_ok :: "(handle \<Rightarrow> nat) \<Rightarrow> 'd safe_list \<Rightarrow> bool" where
  "safe_ok h l \<longleftrightarrow> distinct (order l) \<and> set (order l) = dom (cells l) \<and> (\<forall>n. h n > 0 \<longrightarrow> n \<in> dom (cells l)) \<and>
     (\<forall>n x. cells l n = Some x \<longrightarrow> cell_ok (h n) x)"

abbreviation hold :: "handle \<Rightarrow> (handle \<Rightarrow> nat) \<Rightarrow> handle \<Rightarrow> nat" where
  "hold n h \<equiv> h(n := Suc (h n))"

lemma safe_okD:
  assumes "safe_ok h l"
  shows "distinct (order l)" "set (order l) = dom (cells l)" "n \<in> set (order l) \<longleftrightarrow> (\<exists>x. cells l n = Some x)"
    "h n > 0 \<Longrightarrow> n \<in> set (order l)" "cells l n = Some x \<Longrightarrow> cell_ok (h n) x"
  using assms unfolding safe_ok_def by blast+

text \<open>The data of the nodes, in order.\<close>

definition datum :: "'d safe_list \<Rightarrow> handle \<Rightarrow> 'd option" where
  "datum l n = (case cells l n of None \<Rightarrow> None | Some x \<Rightarrow> raw_data x)"

definition contents :: "'d safe_list \<Rightarrow> 'd list" where
  "contents l = List.map_filter (datum l) (order l)"

lemma safe_ok_empty: "safe_ok (\<lambda>_. 0) empty_list"
  by (simp add: safe_ok_def empty_list_def)

lemma safe_ok_set_cell:
  assumes "safe_ok h l" "n \<in> set (order l)" "cell_ok (h' n) x" "\<And>m. m \<noteq> n \<Longrightarrow> h' m = h m"
  shows "safe_ok h' (set_cell n x l)"
  unfolding safe_ok_def
proof (intro conjI allI impI)
  show "distinct (order (set_cell n x l))" using safe_okD(1)[OF assms(1)] by (simp add: set_cell_def)
  show "set (order (set_cell n x l)) = dom (cells (set_cell n x l))"
    using safe_okD(2)[OF assms(1)] assms(2) by (auto simp: set_cell_def)
  show "m \<in> dom (cells (set_cell n x l))" if "h' m > 0" for m
    using safe_okD(2,4)[OF assms(1)] assms(4)[of m] that by (cases "m = n") (auto simp: set_cell_def)
  show "cell_ok (h' m) y" if "cells (set_cell n x l) m = Some y" for m y
    using safe_okD(5)[OF assms(1)] assms(3,4) that by (cases "m = n") (auto simp: set_cell_def)
qed

lemma safe_ok_remove:
  assumes "safe_ok h l" "h' n = 0" "\<And>m. m \<noteq> n \<Longrightarrow> h' m = h m"
  shows "safe_ok h' (l\<lparr>cells := (cells l)(n := None), order := remove1 n (order l)\<rparr>)"
  unfolding safe_ok_def
proof (intro conjI allI impI)
  show "m \<in> dom (cells (l\<lparr>cells := (cells l)(n := None), order := remove1 n (order l)\<rparr>))" if "h' m > 0" for m
    using safe_okD(2,4)[OF assms(1)] assms(2,3) that by (cases "m = n") auto
  show "cell_ok (h' m) y" if "cells (l\<lparr>cells := (cells l)(n := None), order := remove1 n (order l)\<rparr>) m = Some y" for m y
    using safe_okD(5)[OF assms(1)] assms(3) that by (cases "m = n") auto
qed (use safe_okD(1,2)[OF assms(1)] in auto)

lemma datum_set_cell [simp]: "datum (set_cell n x l) = (datum l)(n := raw_data x)"
  by (auto simp: datum_def set_cell_def)

lemma order_set_cell [simp]: "order (set_cell n x l) = order l"
  by (simp add: set_cell_def)

lemma cells_set_cell [simp]: "cells (set_cell n x l) = (cells l)(n \<mapsto> x)"
  by (simp add: set_cell_def)

lemma set_cell_set_cell [simp]: "set_cell n y (set_cell n x l) = set_cell n y l"
  by (simp add: set_cell_def)

lemma push_new_ok:
  assumes "safe_ok h l" "n \<notin> set (order l)"
  shows "safe_ok h (push_new n d l)" "contents (push_new n d l) = contents l @ [d]" "order (push_new n d l) = order l @ [n]"
    "datum (push_new n d l) = (datum l)(n \<mapsto> d)"
proof -
  have "h n = 0" using safe_okD(4)[OF assms(1), of n] assms(2) by auto
  then show "safe_ok h (push_new n d l)"
    using assms by (auto simp: safe_ok_def push_new_def set_cell_def cell_ok_def)
  show d: "datum (push_new n d l) = (datum l)(n \<mapsto> d)" by (auto simp: datum_def push_new_def set_cell_def)
  show o: "order (push_new n d l) = order l @ [n]" by (simp add: push_new_def)
  have "List.map_filter ((datum l)(n \<mapsto> d)) (order l) = List.map_filter (datum l) (order l)"
    using assms(2) by (auto simp: List.map_filter_def intro!: map_cong filter_cong)
  then show "contents (push_new n d l) = contents l @ [d]"
    unfolding contents_def d o by (simp add: List.map_filter_def)
qed

lemma IncrRef_ok:
  assumes "safe_ok h l" "n \<in> set (order l)"
  obtains l' where "IncrRef n l = Some l'" "safe_ok (hold n h) l'" "order l' = order l" "datum l' = datum l"
proof -
  obtain x where x: "cells l n = Some x" using assms safe_okD(3) by blast
  let ?x = "x\<lparr>ref_count := ref_count x + 1\<rparr>"
  have "safe_ok (hold n h) (set_cell n ?x l)"
    using safe_okD(5)[OF assms(1) x] by (intro safe_ok_set_cell[OF assms]) (auto simp: cell_ok_def)
  moreover have "datum (set_cell n ?x l) = datum l" using x by (auto simp: datum_def)
  ultimately show ?thesis using x by (intro that[of "set_cell n ?x l"]) (simp_all add: IncrRef_def)
qed

text \<open>Releasing a node: it goes when no other loop holds it and its data are gone.\<close>

lemma DecrRef_ok:
  assumes "safe_ok (hold n h) l"
  obtains l' where "DecrRef n l = Some l'" "safe_ok h l'" "datum l' = datum l"
    "order l' = (if h n = 0 \<and> datum l n = None then remove1 n (order l) else order l)"
proof -
  have n: "n \<in> set (order l)" using safe_okD(4)[OF assms, of n] by simp
  then obtain x where x: "cells l n = Some x" using assms safe_okD(3) by blast
  have ok: "cell_ok (Suc (h n)) x" using safe_okD(5)[OF assms x] by simp
  let ?x = "x\<lparr>ref_count := ref_count x - 1\<rparr>"
  have pos: "ref_count x > 0" using ok by (auto simp: cell_ok_def)
  have d: "datum l n = raw_data x" using x by (simp add: datum_def)
  show ?thesis
  proof (cases "h n = 0 \<and> raw_data x = None")
    case True
    then have "ref_count ?x = 0" using ok by (simp add: cell_ok_def)
    moreover have "safe_ok h (l\<lparr>cells := (cells l)(n := None), order := remove1 n (order l)\<rparr>)"
      by (rule safe_ok_remove[OF assms]) (use True in auto)
    moreover have "datum (l\<lparr>cells := (cells l)(n := None), order := remove1 n (order l)\<rparr>) = datum l"
      using True d by (auto simp: datum_def)
    ultimately show ?thesis
      using True x pos d
      by (intro that[of "l\<lparr>cells := (cells l)(n := None), order := remove1 n (order l)\<rparr>"])
        (simp_all add: DecrRef_def delete_node_def set_cell_def Let_def)
  next
    case False
    then have "ref_count ?x \<noteq> 0" "cell_ok (h n) ?x" using ok by (auto simp: cell_ok_def)
    moreover have "safe_ok h (set_cell n ?x l)"
      by (rule safe_ok_set_cell[OF assms n]) (use calculation in auto)
    moreover have "datum (set_cell n ?x l) = datum l" using d by auto
    ultimately show ?thesis using False x pos d by (intro that[of "set_cell n ?x l"]) (auto simp: DecrRef_def)
  qed
qed

text \<open>Taking the data away: the node goes unless a loop holds it.\<close>

lemma Detach_ok:
  assumes "safe_ok h l" "n \<in> set (order l)"
  obtains l' where "Detach n l = Some (datum l n, l')" "safe_ok h l'" "datum l' = (datum l)(n := None)"
    "order l' = (if h n = 0 then remove1 n (order l) else order l)"
proof -
  obtain x where x: "cells l n = Some x" using assms safe_okD(3) by blast
  have ok: "cell_ok (h n) x" using safe_okD(5)[OF assms(1) x] .
  have d: "datum l n = raw_data x" using x by (simp add: datum_def)
  show ?thesis
  proof (cases "raw_data x")
    case None
    then have "h n \<noteq> 0" using ok by (simp add: cell_ok_def)
    then show ?thesis using None x d assms(1) by (intro that[of l]) (auto simp: Detach_def)
  next
    case (Some y)
    let ?l = "set_cell n (x\<lparr>raw_data := None, ref_count := ref_count x\<rparr>) l"
    have "h n = 0 \<or> (\<exists>k. h n = Suc k)" by (cases "h n") auto
    have "safe_ok (hold n h) ?l" by (rule safe_ok_set_cell[OF assms]) (use ok Some in \<open>auto simp: cell_ok_def\<close>)
    then obtain l' where "DecrRef n ?l = Some l'" "safe_ok h l'" "datum l' = datum ?l"
      "order l' = (if h n = 0 \<and> datum ?l n = None then remove1 n (order ?l) else order ?l)" by (rule DecrRef_ok)
    then show ?thesis using x Some d by (intro that[of l']) (auto simp: Detach_def)
  qed
qed

section \<open>Removing\<close>

text \<open>Removing takes the data of the nodes in \<open>ns\<close> away; nodes that no loop holds leave the list.\<close>

definition removed :: "(handle \<Rightarrow> nat) \<Rightarrow> handle set \<Rightarrow> 'd safe_list \<Rightarrow> 'd safe_list \<Rightarrow> bool" where
  "removed h N l l' \<longleftrightarrow> datum l' = (\<lambda>n. if n \<in> N then None else datum l n) \<and>
     order l' = filter (\<lambda>n. n \<notin> N \<or> h n > 0) (order l)"

lemma removed_refl: "removed h {} l l"
  by (simp add: removed_def)

lemma removed_trans: "removed h N l l' \<Longrightarrow> removed h M l' l'' \<Longrightarrow> removed h (N \<union> M) l l''"
  by (auto simp: removed_def fun_eq_iff intro!: filter_cong)

lemma Detach_removed:
  assumes "safe_ok h l" "n \<in> set (order l)"
  obtains l' where "Detach n l = Some (datum l n, l')" "safe_ok h l'" "removed h {n} l l'"
proof -
  obtain l' where l': "Detach n l = Some (datum l n, l')" "safe_ok h l'" "datum l' = (datum l)(n := None)"
    "order l' = (if h n = 0 then remove1 n (order l) else order l)" by (rule Detach_ok[OF assms])
  have "order l' = filter (\<lambda>m. m \<notin> {n} \<or> h m > 0) (order l)"
  proof (cases "h n = 0")
    case True
    then show ?thesis
      using l'(4) safe_okD(1)[OF assms(1)] by (auto simp: distinct_remove1_removeAll removeAll_filter_not_eq intro!: filter_cong)
  next
    case False
    then show ?thesis using l'(4) by (auto intro!: filter_True[symmetric])
  qed
  then show ?thesis using l' by (intro that[of l']) (auto simp: removed_def fun_eq_iff)
qed

lemma map_filter_filter:
  "(\<And>x. x \<in> set xs \<Longrightarrow> \<not> P x \<Longrightarrow> g x = None) \<Longrightarrow> List.map_filter g (filter P xs) = List.map_filter g xs"
  by (induction xs) (auto simp: map_filter_simps split: option.split)

lemma contents_removed:
  assumes "removed h N l l'"
  shows "contents l' = List.map_filter (\<lambda>n. if n \<in> N then None else datum l n) (order l)"
  using assms by (auto simp: contents_def removed_def intro!: map_filter_filter)

lemma map_filter_if:
  "List.map_filter (\<lambda>n. case g n of None \<Rightarrow> None | Some d \<Rightarrow> if Q d then None else Some d) xs =
   filter (\<lambda>d. \<not> Q d) (List.map_filter g xs)"
  by (induction xs) (auto simp: map_filter_simps split: option.split)

end
