(* ===== verification/EventModel.thy ===== *)
theory EventModel
  imports SafeList
begin

text \<open>
  Events (include/mzx/event.h): listeners in a list of counted nodes with an index by identifier, and managers that
  keep an event for each type; simple events (include/mzx/simple_event.h, src/simple_event.cpp) name the types by the
  index of a class.

  A listener is a name \<open>'f\<close> (an empty function is \<open>None\<close>); what a call of it does is the parameter \<open>run\<close> of \<open>Invoke\<close>,
  which works on a state that holds the event, so a listener may do anything to the event while it is
  being invoked. The addresses of new objects are arguments. An \<open>std::multimap\<close> is the list of its pairs in the order
  of insertion, of which \<open>equal_range\<close> sees those of one key; an \<open>std::unordered_map\<close> is an association list.
\<close>

section \<open>Events\<close>

type_synonym event_id = nat

record 'f listener_info =
  info_id :: event_id
  listener :: 'f

record 'f event =
  listener_list :: "'f listener_info safe_list"
  listener_index :: "(event_id \<times> handle) list"

definition Event_new :: "'f event" where
  "Event_new = \<lparr>listener_list = empty_list, listener_index = []\<rparr>"

text \<open>\<open>info\<close> and \<open>node\<close> are the addresses of the two new objects; without an identifier the first one is the listener's.\<close>

definition AddListener :: "handle \<Rightarrow> handle \<Rightarrow> 'f option \<Rightarrow> nat \<Rightarrow> 'f event \<Rightarrow> (event_id \<times> 'f event) option" where
  "AddListener info node fn identifier ev = do {
     check (fn \<noteq> None);
     f \<leftarrow> fn;
     let i = (if identifier \<noteq> 0 then identifier else info);
     Some (i, ev\<lparr>listener_list := push_new node \<lparr>info_id = i, listener = f\<rparr> (listener_list ev),
       listener_index := listener_index ev @ [(i, node)]\<rparr>) }"

fun remove_range :: "(event_id \<times> handle) list \<Rightarrow> 'f event \<Rightarrow> 'f event option" where
  "remove_range [] ev = Some ev"
| "remove_range ((i, n) # rest) ev = do {
     (d, l) \<leftarrow> Detach n (listener_list ev);
     remove_range rest (ev\<lparr>listener_list := l, listener_index := remove1 (i, n) (listener_index ev)\<rparr>) }"

definition RemoveListener :: "event_id \<Rightarrow> 'f event \<Rightarrow> 'f event option" where
  "RemoveListener i ev = remove_range (filter (\<lambda>(j, _). j = i) (listener_index ev)) ev"

partial_function (option) remove_all_loop :: "handle option \<Rightarrow> 'd safe_list \<Rightarrow> 'd safe_list option" where
  "remove_all_loop node l = (case node of
     None \<Rightarrow> Some l
   | Some n \<Rightarrow> do {
       nxt \<leftarrow> next_node n l;
       (d, l) \<leftarrow> Detach n l;
       remove_all_loop nxt l })"

declare remove_all_loop.simps [code]

definition RemoveAllListener :: "'f event \<Rightarrow> 'f event option" where
  "RemoveAllListener ev = do {
     l \<leftarrow> remove_all_loop (first_node (listener_list ev)) (listener_list ev);
     Some (ev\<lparr>listener_list := l, listener_index := []\<rparr>) }"

text \<open>What the destructor does before the members go.\<close>

definition Event_delete :: "'f event \<Rightarrow> 'f event option" where
  "Event_delete ev = RemoveAllListener ev"

type_synonym ('f, 'a, 's) listeners = "'f \<Rightarrow> 'a \<Rightarrow> 's \<Rightarrow> 's option"

definition listener_body :: "('f, 'a, 's) listeners \<Rightarrow> 'a \<Rightarrow> 'f listener_info \<Rightarrow> 's \<Rightarrow> (bool \<times> 's) option" where
  "listener_body run arg d s = do { s \<leftarrow> run (listener d) arg s; Some (True, s) }"

definition put_listeners :: "('s \<Rightarrow> 'f event) \<Rightarrow> ('f event \<Rightarrow> 's \<Rightarrow> 's) \<Rightarrow> 'f listener_info safe_list \<Rightarrow> 's \<Rightarrow> 's" where
  "put_listeners get put l s = put ((get s)\<lparr>listener_list := l\<rparr>) s"

definition Invoke :: "('s \<Rightarrow> 'f event) \<Rightarrow> ('f event \<Rightarrow> 's \<Rightarrow> 's) \<Rightarrow> ('f, 'a, 's) listeners \<Rightarrow> 'a \<Rightarrow> 's \<Rightarrow> 's option" where
  "Invoke get put run arg s =
     safe_foreach (\<lambda>s. listener_list (get s)) (put_listeners get put) fetch_get (listener_body run arg) s"

section \<open>Managers\<close>

text \<open>The events are objects that shared pointers keep: an event that is invoked stays when its type is
  removed. Objects are never taken from \<open>event_objects\<close>: one that is not referenced any more has no listeners.\<close>

record ('t, 'f) event_manager =
  event_objects :: "handle \<Rightarrow> 'f event"
  event_list :: "('t \<times> handle) list"

definition EventManager_new :: "('t, 'f) event_manager" where
  "EventManager_new = \<lparr>event_objects = (\<lambda>_. Event_new), event_list = []\<rparr>"

definition put_object :: "handle \<Rightarrow> 'f event \<Rightarrow> ('t, 'f) event_manager \<Rightarrow> ('t, 'f) event_manager" where
  "put_object p ev m = m\<lparr>event_objects := (event_objects m)(p := ev)\<rparr>"

text \<open>\<open>object\<close> is the address of the event when a new one is made.\<close>

definition Manager_AddListener :: "handle \<Rightarrow> handle \<Rightarrow> handle \<Rightarrow> 't \<Rightarrow> 'f option \<Rightarrow> nat \<Rightarrow> ('t, 'f) event_manager
    \<Rightarrow> (event_id \<times> ('t, 'f) event_manager) option" where
  "Manager_AddListener object info node t fn identifier m = (case map_of (event_list m) t of
     None \<Rightarrow> do {
       (i, ev) \<leftarrow> AddListener info node fn identifier Event_new;
       Some (i, put_object object ev (m\<lparr>event_list := event_list m @ [(t, object)]\<rparr>)) }
   | Some p \<Rightarrow> do {
       (i, ev) \<leftarrow> AddListener info node fn identifier (event_objects m p);
       Some (i, put_object p ev m) })"

definition Manager_RemoveListener :: "'t \<Rightarrow> event_id \<Rightarrow> ('t, 'f) event_manager \<Rightarrow> ('t, 'f) event_manager option" where
  "Manager_RemoveListener t i m = (case map_of (event_list m) t of
     None \<Rightarrow> Some m
   | Some p \<Rightarrow> do { ev \<leftarrow> RemoveListener i (event_objects m p); Some (put_object p ev m) })"

definition RemoveEvent :: "'t \<Rightarrow> ('t, 'f) event_manager \<Rightarrow> ('t, 'f) event_manager option" where
  "RemoveEvent t m = (case map_of (event_list m) t of
     None \<Rightarrow> Some m
   | Some p \<Rightarrow> do {
       ev \<leftarrow> RemoveAllListener (event_objects m p);
       Some (put_object p ev (m\<lparr>event_list := filter (\<lambda>(u, _). u \<noteq> t) (event_list m)\<rparr>)) })"

fun remove_events :: "('t \<times> handle) list \<Rightarrow> ('t, 'f) event_manager \<Rightarrow> ('t, 'f) event_manager option" where
  "remove_events [] m = Some m"
| "remove_events ((t, p) # rest) m = do {
     ev \<leftarrow> RemoveAllListener (event_objects m p);
     remove_events rest (put_object p ev (m\<lparr>event_list := rest\<rparr>)) }"

definition RemoveAllEvent :: "('t, 'f) event_manager \<Rightarrow> ('t, 'f) event_manager option" where
  "RemoveAllEvent m = remove_events (event_list m) m"

definition EventManager_delete :: "('t, 'f) event_manager \<Rightarrow> ('t, 'f) event_manager option" where
  "EventManager_delete m = RemoveAllEvent m"

definition Manager_Invoke :: "('f, 'a, 'w \<times> ('t, 'f) event_manager) listeners \<Rightarrow> 't \<Rightarrow> 'a \<Rightarrow> 'w \<times> ('t, 'f) event_manager
    \<Rightarrow> ('w \<times> ('t, 'f) event_manager) option" where
  "Manager_Invoke run t arg s = (case map_of (event_list (snd s)) t of
     None \<Rightarrow> Some s
   | Some p \<Rightarrow> Invoke (\<lambda>(_, m). event_objects m p) (\<lambda>ev (w, m). (w, put_object p ev m)) run arg s)"

section \<open>Simple events\<close>

text \<open>The classes of events get their indices one after the other from a counter.\<close>

definition next_class_index :: "nat \<Rightarrow> nat \<times> nat" where
  "next_class_index counter = (counter, counter + 1)"

fun class_indices :: "nat \<Rightarrow> 'c list \<Rightarrow> ('c \<times> nat) list \<times> nat" where
  "class_indices counter [] = ([], counter)"
| "class_indices counter (c # cs) =
     (let (i, counter) = next_class_index counter; (is, counter) = class_indices counter cs in ((c, i) # is, counter))"

type_synonym 'f simple_manager = "(nat, 'f) event_manager"

definition Simple_AddListener :: "('c \<Rightarrow> nat) \<Rightarrow> handle \<Rightarrow> handle \<Rightarrow> handle \<Rightarrow> 'c \<Rightarrow> 'f option \<Rightarrow> nat \<Rightarrow> 'f simple_manager
    \<Rightarrow> (event_id \<times> 'f simple_manager) option" where
  "Simple_AddListener index object info node c fn identifier = Manager_AddListener object info node (index c) fn identifier"

definition Simple_RemoveListener :: "('c \<Rightarrow> nat) \<Rightarrow> 'c \<Rightarrow> event_id \<Rightarrow> 'f simple_manager \<Rightarrow> 'f simple_manager option" where
  "Simple_RemoveListener index c = Manager_RemoveListener (index c)"

definition Simple_RemoveEvent :: "('c \<Rightarrow> nat) \<Rightarrow> 'c \<Rightarrow> 'f simple_manager \<Rightarrow> 'f simple_manager option" where
  "Simple_RemoveEvent index c = RemoveEvent (index c)"

definition Simple_RemoveAllEvent :: "'f simple_manager \<Rightarrow> 'f simple_manager option" where
  "Simple_RemoveAllEvent m = RemoveAllEvent m"

text \<open>\<open>Invoke\<close> passes the event itself, of which the class is the index; \<open>InvokeEmplace\<close> makes it first.\<close>

definition Simple_Invoke :: "('c \<Rightarrow> nat) \<Rightarrow> ('f, 'c \<times> 'a, 'w \<times> 'f simple_manager) listeners \<Rightarrow> 'c \<Rightarrow> 'a
    \<Rightarrow> 'w \<times> 'f simple_manager \<Rightarrow> ('w \<times> 'f simple_manager) option" where
  "Simple_Invoke index run c arg = Manager_Invoke run (index c) (c, arg)"

end
