(* ===== verification/SafeLoop.thy ===== *)
theory SafeLoop
  imports SafeList "HOL-Library.Sublist"
begin

text \<open>
  The loop of theory SafeList, for a client whose bodies may change the list while it runs: the contract of the
  body and what the loop then keeps, and that it returns when the bodies return and add no nodes.
\<close>

section \<open>The next node\<close>

lemma next_in_split: "n \<notin> set as \<Longrightarrow> next_in n (as @ n # bs) = Some (case bs of [] \<Rightarrow> None | m # _ \<Rightarrow> Some m)"
  by (induction as) auto

lemma next_in_Some: "n \<in> set xs \<Longrightarrow> \<exists>r. next_in n xs = Some r \<and> (\<forall>m. r = Some m \<longrightarrow> m \<in> set xs)"
proof (induction xs)
  case (Cons x xs)
  then show ?case by (cases "x = n") (auto split: list.split)
qed simp

lemma next_in_ne: "distinct xs \<Longrightarrow> next_in n xs = Some (Some m) \<Longrightarrow> m \<noteq> n"
proof (induction xs)
  case (Cons x xs)
  then show ?case by (cases "x = n") (auto split: list.split_asm)
qed simp

lemma next_in_outside: "n \<notin> set xs \<Longrightarrow> next_in n xs = None"
  by (induction xs) auto

text \<open>The nodes behind a node.\<close>

fun behind :: "handle \<Rightarrow> handle list \<Rightarrow> handle list" where
  "behind n [] = []"
| "behind n (m # ms) = (if m = n then ms else behind n ms)"

lemma subseq_set: "subseq ys xs \<Longrightarrow> set ys \<subseteq> set xs"
  by (induction rule: list_emb.induct) auto

lemma subseq_remove1: "subseq (remove1 n xs) xs"
  by (induction xs) auto

lemma behind_subseq: "subseq ys xs \<Longrightarrow> distinct xs \<Longrightarrow> n \<in> set ys \<Longrightarrow> subseq (behind n ys) (behind n xs)"
proof (induction rule: list_emb.induct)
  case (list_emb_Cons xs ys y)
  then have "n \<noteq> y" using subseq_set[OF list_emb_Cons(1)] by auto
  then show ?case using list_emb_Cons by simp
qed auto

lemma behind_next: "distinct xs \<Longrightarrow> next_in n xs = Some (Some m) \<Longrightarrow> behind n xs = m # behind m xs"
proof (induction xs)
  case (Cons x xs)
  show ?case
  proof (cases "x = n")
    case True
    then obtain ys where "xs = m # ys" using Cons.prems by (auto split: list.split_asm)
    then show ?thesis using True Cons.prems by auto
  next
    case False
    then have e: "next_in n xs = Some (Some m)" using Cons.prems by simp
    then have "m \<in> set xs" using next_in_Some[of n xs] by (cases "n \<in> set xs") (auto dest: next_in_outside)
    then have "m \<noteq> x" using Cons.prems by auto
    then show ?thesis using False Cons.IH e Cons.prems by simp
  qed
qed simp

lemma behind_remove1: "m \<noteq> n \<Longrightarrow> distinct xs \<Longrightarrow> length (behind m (remove1 n xs)) \<le> length (behind m xs)"
proof (induction xs)
  case (Cons x xs)
  then show ?case by (cases "x = n") (auto simp: length_remove1)
qed simp

lemma behind_None: "next_in n xs = Some None \<Longrightarrow> behind n xs = []"
proof (induction xs)
  case (Cons x xs)
  then show ?case by (cases "x = n") (auto split: list.split_asm)
qed simp

lemma behind_remove1_next: "distinct xs \<Longrightarrow> next_in n xs = Some (Some m) \<Longrightarrow> behind m (remove1 n xs) = behind m xs"
proof (induction xs)
  case (Cons x xs)
  show ?case
  proof (cases "x = n")
    case True
    then obtain ys where "xs = m # ys" using Cons.prems by (auto split: list.split_asm)
    then show ?thesis using True Cons.prems by auto
  next
    case False
    then have e: "next_in n xs = Some (Some m)" using Cons.prems by simp
    then have "m \<in> set xs" using next_in_Some[of n xs] by (cases "n \<in> set xs") (auto dest: next_in_outside)
    then have "m \<noteq> x" using Cons.prems by auto
    then show ?thesis using False Cons.IH e Cons.prems by simp
  qed
qed simp

text \<open>The nodes from a place in the list on.\<close>

definition ahead :: "handle option \<Rightarrow> handle list \<Rightarrow> handle list" where
  "ahead node xs = (case node of None \<Rightarrow> [] | Some n \<Rightarrow> n # behind n xs)"

lemma ahead_next:
  assumes "distinct xs" "next_in n xs = Some r" "ys = xs \<or> ys = remove1 n xs"
  shows "ahead r ys = behind n xs"
proof (cases r)
  case None
  then show ?thesis using behind_None assms(2) by (simp add: ahead_def)
next
  case (Some m)
  then show ?thesis
    using behind_next[OF assms(1)] behind_remove1_next[OF assms(1)] assms(2,3) by (auto simp: ahead_def)
qed

lemma ahead_first: "ahead (first_node l) (order l) = order l"
  by (auto simp: ahead_def first_node_def split: list.split)

text \<open>A turn of the loop that takes the data of the first node, seen from outside of all loops: holding the node, taking its
  data and releasing it is taking the data.\<close>

lemma take_first:
  assumes "safe_ok (\<lambda>_. 0) l" "order l = n # ns"
  obtains d l1 l2 l0 where "IncrRef n l = Some l1" "Detach n l1 = Some (Some d, l2)" "DecrRef n l2 = Some l0"
    "Detach n l = Some (Some d, l0)" "datum l n = Some d" "next_node n l2 = Some (first_node l0)"
    "safe_ok (\<lambda>_. 0) l0" "datum l0 = (datum l)(n := None)" "order l0 = ns"
proof -
  obtain x where x: "cells l n = Some x" using safe_okD(3)[OF assms(1), of n] assms(2) by auto
  then obtain d where d: "raw_data x = Some d" "ref_count x = 1" using safe_okD(5)[OF assms(1) x] by (auto simp: cell_ok_def)
  have n: "n \<in> set (order l)" using assms(2) by simp
  obtain l0 where l0: "Detach n l = Some (datum l n, l0)" "safe_ok (\<lambda>_. 0) l0" "datum l0 = (datum l)(n := None)"
    "order l0 = remove1 n (order l)"
    using Detach_ok[OF assms(1) n] by (metis (full_types))
  have dn: "datum l n = Some d" using x d(1) by (simp add: datum_def)
  let ?l1 = "set_cell n (x\<lparr>ref_count := 2\<rparr>) l" and ?l2 = "set_cell n (x\<lparr>raw_data := None, ref_count := 1\<rparr>) l"
  have "IncrRef n l = Some ?l1" using x d(2) by (simp add: IncrRef_def)
  moreover have "Detach n ?l1 = Some (Some d, ?l2)" using d by (simp add: Detach_def DecrRef_def)
  moreover have "DecrRef n ?l2 = Some l0" using l0(1) x d dn by (auto simp: Detach_def DecrRef_def Option.bind_eq_Some_conv)
  moreover have "next_node n ?l2 = Some (first_node l0)" using assms(2) l0(4) by (simp add: next_node_def first_node_def)
  ultimately show ?thesis using l0 dn assms(2) by (intro that) simp_all
qed

section \<open>The contract of the body\<close>

locale list_in_state =
  fixes get :: "'s \<Rightarrow> 'd safe_list" and put :: "'d safe_list \<Rightarrow> 's \<Rightarrow> 's"
  assumes get_put [simp]: "get (put l s) = l"

text \<open>\<open>I h s\<close> is the invariant of the state while \<open>h\<close> holds are out.\<close>

locale safe_loop = list_in_state get put for get :: "'s \<Rightarrow> 'd safe_list" and put +
  fixes I :: "(handle \<Rightarrow> nat) \<Rightarrow> 's \<Rightarrow> bool"
    and fetch :: "handle \<Rightarrow> 'd safe_list \<Rightarrow> ('d option \<times> 'd safe_list) option"
    and body :: "'d \<Rightarrow> 's \<Rightarrow> (bool \<times> 's) option"
  assumes I_safe: "I h s \<Longrightarrow> safe_ok h (get s)"
    and I_hold: "I h s \<Longrightarrow> IncrRef n (get s) = Some l \<Longrightarrow> I (hold n h) (put l s)"
    and I_release: "I (hold n h) s \<Longrightarrow> DecrRef n (get s) = Some l \<Longrightarrow> I h (put l s)"
    and I_fetch: "I (hold n h) (put l s) \<Longrightarrow> \<exists>d l'. fetch n l = Some (d, l') \<and> order l' = order l \<and>
      (d = None \<longrightarrow> I (hold n h) (put l' s))"
    and I_body: "I (hold n h) (put l s) \<Longrightarrow> fetch n l = Some (Some d, l') \<Longrightarrow> body d (put l' s) = Some (go, s') \<Longrightarrow>
      I (hold n h) s'"
begin

text \<open>One turn of the loop: it does not touch memory that is gone, and the body runs in a good state.\<close>

lemma turn:
  assumes I: "I h s" and n: "n \<in> set (order (get s))"
  obtains l d l' where "IncrRef n (get s) = Some l" "fetch n l = Some (d, l')" "I (hold n h) (put l s)"
    "order l' = order (get s)" "d = None \<Longrightarrow> I (hold n h) (put l' s)"
    "\<And>dd go s'. d = Some dd \<Longrightarrow> body dd (put l' s) = Some (go, s') \<Longrightarrow> I (hold n h) s'"
proof -
  obtain l where l: "IncrRef n (get s) = Some l" "order l = order (get s)" by (rule IncrRef_ok[OF I_safe[OF I] n])
  have Il: "I (hold n h) (put l s)" by (rule I_hold[OF I l(1)])
  obtain d l' where d: "fetch n l = Some (d, l')" "order l' = order l" "d = None \<longrightarrow> I (hold n h) (put l' s)"
    using I_fetch[OF Il] by blast
  show ?thesis by (rule that[OF l(1) d(1) Il]) (use d(2,3) l(2) I_body[OF Il] d(1) in auto)
qed

lemma end_turn:
  assumes "I (hold n h) s"
  obtains r l where "next_node n (get s) = Some r" "DecrRef n (get s) = Some l" "I h (put l s)"
    "\<And>m. r = Some m \<Longrightarrow> m \<in> set (order l)" "set (order l) \<subseteq> set (order (get s))"
    "order l = order (get s) \<or> order l = remove1 n (order (get s))"
proof -
  note S = I_safe[OF assms]
  have n: "n \<in> set (order (get s))" using safe_okD(4)[OF S, of n] by simp
  obtain r where r: "next_in n (order (get s)) = Some r" "\<forall>m. r = Some m \<longrightarrow> m \<in> set (order (get s))"
    using next_in_Some[OF n] by blast
  obtain l where l: "DecrRef n (get s) = Some l"
    "order l = (if h n = 0 \<and> datum (get s) n = None then remove1 n (order (get s)) else order (get s))" by (rule DecrRef_ok[OF S])
  have "m \<in> set (order l)" if "r = Some m" for m
    using r that next_in_ne[OF safe_okD(1)[OF S]] l(2) by (auto simp: set_remove1_eq safe_okD(1)[OF S])
  moreover have "set (order l) \<subseteq> set (order (get s))" using l(2) by (auto simp: set_remove1_subset split: if_splits dest: set_remove1_subset[THEN subsetD])
  ultimately show ?thesis
    using r l I_release[OF assms l(1)] by (intro that[of r l]) (auto simp: next_node_def)
qed

lemma iterate_keeps:
  assumes "safe_iterate get put fetch body node s = Some s'" "I h s" "\<And>n. node = Some n \<Longrightarrow> n \<in> set (order (get s))"
  shows "I h s'"
proof -
  have "get = get \<longrightarrow> put = put \<longrightarrow> fetch = fetch \<longrightarrow> body = body \<longrightarrow>
    (\<forall>h. I h s \<longrightarrow> (\<forall>n. node = Some n \<longrightarrow> n \<in> set (order (get s))) \<longrightarrow> I h s')"
  proof (rule safe_iterate.raw_induct[where P = "\<lambda>g p f b node s s'. g = get \<longrightarrow> p = put \<longrightarrow> f = fetch \<longrightarrow> b = body \<longrightarrow>
      (\<forall>h. I h s \<longrightarrow> (\<forall>n. node = Some n \<longrightarrow> n \<in> set (order (get s))) \<longrightarrow> I h s')", OF _ assms(1)], intro impI allI)
    fix iter g p f b node s s' h
    assume IH: "\<And>g p f b node s s'. iter g p f b node s = Some s' \<Longrightarrow> g = get \<longrightarrow> p = put \<longrightarrow> f = fetch \<longrightarrow> b = body \<longrightarrow>
        (\<forall>h. I h s \<longrightarrow> (\<forall>n. node = Some n \<longrightarrow> n \<in> set (order (get s))) \<longrightarrow> I h s')"
      and run: "(case node of None \<Rightarrow> Some s
        | Some n \<Rightarrow> IncrRef n (g s) \<bind> (\<lambda>l. f n l \<bind> (\<lambda>(d, l). let s = p l s in
            (case d of None \<Rightarrow> Some (True, s) | Some d \<Rightarrow> b d s) \<bind> (\<lambda>(go, s).
            (if go then next_node n (g s) else Some None) \<bind> (\<lambda>nxt. DecrRef n (g s) \<bind> (\<lambda>l.
            iter g p f b nxt (p l s))))))) = Some s'"
      and eq: "g = get" "p = put" "f = fetch" "b = body" and I: "I h s"
      and node: "\<forall>n. node = Some n \<longrightarrow> n \<in> set (order (get s))"
    note run = run [unfolded eq]
    show "I h s'"
    proof (cases node)
      case None
      then show ?thesis using run I by simp
    next
      case (Some n)
      then have n: "n \<in> set (order (get s))" using node by simp
      obtain l d l' where l: "IncrRef n (get s) = Some l" "fetch n l = Some (d, l')"
        "d = None \<Longrightarrow> I (hold n h) (put l' s)"
        "\<And>dd go s'. d = Some dd \<Longrightarrow> body dd (put l' s) = Some (go, s') \<Longrightarrow> I (hold n h) s'"
        by (rule turn[OF I n]) blast
      obtain go s1 where s1: "(case d of None \<Rightarrow> Some (True, put l' s) | Some d \<Rightarrow> body d (put l' s)) = Some (go, s1)"
        using run Some l(1,2) by (auto simp: Option.bind_eq_Some_conv Let_def)
      then have I1: "I (hold n h) s1" using l(3,4) by (cases d) auto
      obtain r l2 where e: "next_node n (get s1) = Some r" "DecrRef n (get s1) = Some l2" "I h (put l2 s1)"
        "\<And>m. r = Some m \<Longrightarrow> m \<in> set (order l2)" "set (order l2) \<subseteq> set (order (get s1))"
        "order l2 = order (get s1) \<or> order l2 = remove1 n (order (get s1))" by (rule end_turn[OF I1]) (rule that)
      have "iter get put fetch body (if go then r else None) (put l2 s1) = Some s'"
        using run Some l(1,2) s1 e(1,2) by (cases go) simp_all
      from IH[OF this] e(3,4) show ?thesis by (auto split: if_splits)
    qed
  qed
  with assms show ?thesis by blast
qed

lemma foreach_keeps:
  assumes "safe_foreach get put fetch body s = Some s'" "I h s"
  shows "I h s'"
  using iterate_keeps[of "first_node (get s)" s s' h] assms
  by (auto simp: safe_foreach_def first_node_def split: list.splits)

end

section \<open>When the loop returns\<close>

locale shrinking_loop = safe_loop get put I fetch body for get :: "'s \<Rightarrow> 'd safe_list" and put I fetch body +
  assumes body_shrinks: "I (hold n h) (put l s) \<Longrightarrow> fetch n l = Some (Some d, l') \<Longrightarrow>
      \<exists>go s'. body d (put l' s) = Some (go, s') \<and> subseq (order (get s')) (order l')"
begin

lemma iterate_returns:
  "I h s \<Longrightarrow> (\<And>n. node = Some n \<Longrightarrow> n \<in> set (order (get s))) \<Longrightarrow>
   \<exists>s'. safe_iterate get put fetch body node s = Some s' \<and> subseq (order (get s')) (order (get s))"
proof (induction "case node of None \<Rightarrow> 0 | Some n \<Rightarrow> Suc (length (behind n (order (get s))))" arbitrary: node s rule: less_induct)
  case less
  show ?case
  proof (cases node)
    case None
    then show ?thesis by (simp add: safe_iterate.simps)
  next
    case (Some n)
    then have n: "n \<in> set (order (get s))" using less by simp
    obtain l d l' where l: "IncrRef n (get s) = Some l" "fetch n l = Some (d, l')" "I (hold n h) (put l s)"
      "order l' = order (get s)" "d = None \<Longrightarrow> I (hold n h) (put l' s)"
      "\<And>dd go s'. d = Some dd \<Longrightarrow> body dd (put l' s) = Some (go, s') \<Longrightarrow> I (hold n h) s'"
      by (rule turn[OF less.prems(1) n]) (rule that)
    obtain go s1 where s1: "(case d of None \<Rightarrow> Some (True, put l' s) | Some d \<Rightarrow> body d (put l' s)) = Some (go, s1)"
      "subseq (order (get s1)) (order (get s))"
      using body_shrinks[OF l(3)] l(2,4) by (cases d) force+
    then have I1: "I (hold n h) s1" using l(5,6) by (cases d) auto
    obtain r l2 where e: "next_node n (get s1) = Some r" "DecrRef n (get s1) = Some l2" "I h (put l2 s1)"
      "\<And>m. r = Some m \<Longrightarrow> m \<in> set (order l2)" "set (order l2) \<subseteq> set (order (get s1))"
      "order l2 = order (get s1) \<or> order l2 = remove1 n (order (get s1))" by (rule end_turn[OF I1]) (rule that)
    let ?r = "if go then r else None"
    have step: "safe_iterate get put fetch body node s = safe_iterate get put fetch body ?r (put l2 s1)"
      using Some l(1,2) s1(1) e(1,2) by (subst safe_iterate.simps) (cases go; simp)
    have d: "distinct (order (get s))" "distinct (order (get s1))"
      using safe_okD(1) I_safe less.prems(1) I1 by blast+
    have n1: "n \<in> set (order (get s1))" using safe_okD(4)[OF I_safe[OF I1], of n] by simp
    have "(case ?r of None \<Rightarrow> 0 | Some n \<Rightarrow> Suc (length (behind n (order (get (put l2 s1))))))
        < (case node of None \<Rightarrow> 0 | Some n \<Rightarrow> Suc (length (behind n (order (get s)))))"
    proof (cases ?r)
      case None
      then show ?thesis using Some by (simp del: split_paired_All)
    next
      case (Some m)
      then have r: "next_in n (order (get s1)) = Some (Some m)" using e(1) by (auto simp: next_node_def split: if_splits)
      have "m \<noteq> n" by (rule next_in_ne[OF d(2) r])
      then have "length (behind m (order l2)) \<le> length (behind m (order (get s1)))" using e(6) behind_remove1[OF _ d(2)] by auto
      moreover have "Suc (length (behind m (order (get s1)))) = length (behind n (order (get s1)))"
        using behind_next[OF d(2) r] by simp
      moreover have "length (behind n (order (get s1))) \<le> length (behind n (order (get s)))"
        using behind_subseq[OF s1(2) d(1) n1] by (rule list_emb_length)
      ultimately show ?thesis using Some \<open>node = Some n\<close> by simp
    qed
    moreover have "\<And>m. ?r = Some m \<Longrightarrow> m \<in> set (order (get (put l2 s1)))" using e(4) by (cases go) auto
    ultimately obtain s' where
      "safe_iterate get put fetch body ?r (put l2 s1) = Some s'" "subseq (order (get s')) (order l2)"
      using less.hyps[OF _ e(3), of ?r] by auto
    moreover have "subseq (order l2) (order (get s1))" using e(6) by (auto intro: subseq_remove1)
    ultimately show ?thesis using step s1(2) by (auto intro: subseq_order.order_trans)
  qed
qed

lemma foreach_returns:
  assumes "I h s"
  obtains s' where "safe_foreach get put fetch body s = Some s'" "subseq (order (get s')) (order (get s))" "I h s'"
proof -
  have "n \<in> set (order (get s))" if "first_node (get s) = Some n" for n
    using that by (auto simp: first_node_def split: list.splits)
  from iterate_returns[OF assms this] obtain s' where "safe_foreach get put fetch body s = Some s'"
    "subseq (order (get s')) (order (get s))" by (auto simp: safe_foreach_def)
  then show ?thesis using foreach_keeps assms that by blast
qed

end

end
