(* ===== verification/Events.thy ===== *)
theory Events
  imports EventModel SafeLoop
begin

text \<open>
  The operations of an event keep its list and its index together, also when listeners call them while the event is
  being invoked; seen from outside an event is the list of its listeners.
\<close>

section \<open>The invariant\<close>

abbreviation info :: "'f event \<Rightarrow> handle \<Rightarrow> 'f listener_info option" where
  "info ev \<equiv> datum (listener_list ev)"

definition index_ok :: "'f event \<Rightarrow> bool" where
  "index_ok ev \<longleftrightarrow> distinct (listener_index ev) \<and>
     set (listener_index ev) = {(i, n). \<exists>d. info ev n = Some d \<and> info_id d = i}"

definition event_ok :: "(handle \<Rightarrow> nat) \<Rightarrow> 'f event \<Rightarrow> bool" where
  "event_ok h ev \<longleftrightarrow> safe_ok h (listener_list ev) \<and> index_ok ev"

lemma event_okI: "safe_ok h (listener_list ev) \<Longrightarrow> index_ok ev \<Longrightarrow> event_ok h ev"
  by (simp add: event_ok_def)

lemma event_okD:
  assumes "event_ok h ev"
  shows "safe_ok h (listener_list ev)" "index_ok ev" "distinct (order (listener_list ev))"
  using assms by (auto simp: event_ok_def safe_ok_def)

lemma info_in_order: "event_ok h ev \<Longrightarrow> info ev n = Some d \<Longrightarrow> n \<in> set (order (listener_list ev))"
  by (auto simp: event_ok_def safe_ok_def datum_def split: option.splits)

lemma event_ok_new: "event_ok (\<lambda>_. 0) Event_new"
  using safe_ok_empty by (auto simp: event_ok_def Event_new_def index_ok_def datum_def safe_ok_def empty_list_def)

lemma index_ok_datum: "index_ok ev \<Longrightarrow> datum l = info ev \<Longrightarrow> index_ok (ev\<lparr>listener_list := l\<rparr>)"
  by (simp add: index_ok_def)

section \<open>Adding\<close>

lemma AddListener_ok:
  assumes "event_ok h ev" "node \<notin> set (order (listener_list ev))"
    and i: "i = (if identifier \<noteq> 0 then identifier else p)"
  obtains ev' where "AddListener p node (Some f) identifier ev = Some (i, ev')" "event_ok h ev'"
    "contents (listener_list ev') = contents (listener_list ev) @ [\<lparr>info_id = i, listener = f\<rparr>]"
    "order (listener_list ev') = order (listener_list ev) @ [node]"
proof -
  let ?d = "\<lparr>info_id = i, listener = f\<rparr>"
  let ?ev = "ev\<lparr>listener_list := push_new node ?d (listener_list ev), listener_index := listener_index ev @ [(i, node)]\<rparr>"
  note p = push_new_ok[OF event_okD(1)[OF assms(1)] assms(2), of ?d]
  have none: "info ev node = None" using info_in_order[OF assms(1)] assms(2) by (cases "info ev node") auto
  have "index_ok ?ev" using event_okD(2)[OF assms(1)] none by (auto simp: index_ok_def p(4))
  then have "event_ok h ?ev" using p(1) by (simp add: event_ok_def)
  then show ?thesis using p i by (intro that[of ?ev]) (auto simp: AddListener_def Let_def)
qed

section \<open>Removing\<close>

lemma remove_range_ok:
  "safe_ok h (listener_list ev) \<Longrightarrow> distinct (listener_index ev) \<Longrightarrow> distinct ns \<Longrightarrow> set ns \<subseteq> set (listener_index ev) \<Longrightarrow>
   distinct (map snd ns) \<Longrightarrow> (\<forall>(i, n) \<in> set ns. info ev n \<noteq> None) \<Longrightarrow> snd ` set ns \<subseteq> set (order (listener_list ev)) \<Longrightarrow>
   \<exists>ev'. remove_range ns ev = Some ev' \<and> safe_ok h (listener_list ev') \<and>
     removed h (snd ` set ns) (listener_list ev) (listener_list ev') \<and>
     distinct (listener_index ev') \<and> set (listener_index ev') = set (listener_index ev) - set ns"
proof (induction ns arbitrary: ev)
  case Nil
  then show ?case by (simp add: removed_refl)
next
  case (Cons x ns)
  obtain i n where x: "x = (i, n)" by force
  have n: "n \<in> set (order (listener_list ev))" using Cons.prems(7) x by auto
  obtain l where l: "Detach n (listener_list ev) = Some (info ev n, l)" "safe_ok h l" "removed h {n} (listener_list ev) l"
    by (rule Detach_removed[OF Cons.prems(1) n])
  let ?ev = "ev\<lparr>listener_list := l, listener_index := remove1 (i, n) (listener_index ev)\<rparr>"
  have n_ns: "n \<notin> snd ` set ns" using Cons.prems(5) x by auto
  have "\<exists>ev'. remove_range ns ?ev = Some ev' \<and> safe_ok h (listener_list ev') \<and>
     removed h (snd ` set ns) (listener_list ?ev) (listener_list ev') \<and>
     distinct (listener_index ev') \<and> set (listener_index ev') = set (listener_index ?ev) - set ns"
  proof (rule Cons.IH)
    show "safe_ok h (listener_list ?ev)" using l(2) by simp
    show "distinct (listener_index ?ev)" using Cons.prems(2) by simp
    show "distinct ns" "distinct (map snd ns)" using Cons.prems(3,5) by simp_all
    show "set ns \<subseteq> set (listener_index ?ev)" using Cons.prems(2,3,4) x by (auto simp: set_remove1_eq)
    show "\<forall>(i, m) \<in> set ns. info ?ev m \<noteq> None"
      using Cons.prems(6) l(3) n_ns by (force simp: removed_def)
    show "snd ` set ns \<subseteq> set (order (listener_list ?ev))"
      using Cons.prems(7) l(3) n_ns by (auto simp: removed_def)
  qed
  then obtain ev' where ev': "remove_range ns ?ev = Some ev'" "safe_ok h (listener_list ev')"
    "removed h (snd ` set ns) l (listener_list ev')"
    "distinct (listener_index ev')" "set (listener_index ev') = set (remove1 (i, n) (listener_index ev)) - set ns" by auto
  have "removed h (snd ` set (x # ns)) (listener_list ev) (listener_list ev')"
    using removed_trans[OF l(3) ev'(3)] x by simp
  moreover have "set (listener_index ev') = set (listener_index ev) - set (x # ns)"
    using ev'(5) Cons.prems(2) x by (auto simp: set_remove1_eq)
  ultimately show ?case using ev'(1,2,4) l(1) x by (intro exI[of _ ev']) simp
qed

lemma RemoveListener_ok:
  assumes ok: "event_ok h ev"
  obtains ev' where "RemoveListener i ev = Some ev'" "event_ok h ev'"
    "removed h {n. \<exists>d. info ev n = Some d \<and> info_id d = i} (listener_list ev) (listener_list ev')"
proof -
  let ?N = "{n. \<exists>d. info ev n = Some d \<and> info_id d = i}"
  let ?ns = "filter (\<lambda>(j, _). j = i) (listener_index ev)"
  note S = event_okD[OF ok]
  have ns: "set ?ns = Pair i ` ?N" using S(2) by (auto simp: index_ok_def)
  have "distinct ?ns" using S(2) by (simp add: index_ok_def)
  moreover have "distinct (map snd ?ns)"
    using \<open>distinct ?ns\<close> ns by (auto simp: distinct_map inj_on_def)
  moreover have "\<forall>(j, n) \<in> set ?ns. info ev n \<noteq> None" unfolding ns by auto
  moreover have "snd ` set ?ns \<subseteq> set (order (listener_list ev))" unfolding ns using info_in_order[OF ok] by auto
  ultimately obtain ev' where ev': "remove_range ?ns ev = Some ev'" "safe_ok h (listener_list ev')"
    "removed h (snd ` set ?ns) (listener_list ev) (listener_list ev')"
    "distinct (listener_index ev')" "set (listener_index ev') = set (listener_index ev) - set ?ns"
    using remove_range_ok[OF S(1), of ?ns] S(2) unfolding index_ok_def by auto
  have N: "snd ` set ?ns = ?N" unfolding ns by force
  have "index_ok ev'"
    using S(2) ev'(3)[unfolded N] ev'(4) ev'(5)[unfolded ns] by (auto simp: index_ok_def removed_def)
  then show ?thesis using ev' N by (intro that[of ev']) (simp_all add: RemoveListener_def event_ok_def)
qed

lemma remove_all_loop_ok:
  "safe_ok h l \<Longrightarrow> (\<And>n. node = Some n \<Longrightarrow> n \<in> set (order l)) \<Longrightarrow> ns = ahead node (order l) \<Longrightarrow>
   \<exists>l'. remove_all_loop node l = Some l' \<and> safe_ok h l' \<and> removed h (set ns) l l'"
proof (induction ns arbitrary: node l)
  case Nil
  then have "node = None" by (cases node) (auto simp: ahead_def)
  then show ?case using Nil by (simp add: remove_all_loop.simps removed_refl)
next
  case (Cons n ns)
  then have node: "node = Some n" "ns = behind n (order l)" by (auto simp: ahead_def split: option.splits)
  then have n: "n \<in> set (order l)" using Cons.prems(2) by simp
  note d = safe_okD(1)[OF Cons.prems(1)]
  obtain r where r: "next_in n (order l) = Some r" "\<forall>m. r = Some m \<longrightarrow> m \<in> set (order l)"
    using next_in_Some[OF n] by blast
  obtain l1 where l1: "Detach n l = Some (datum l n, l1)" "safe_ok h l1" "removed h {n} l l1"
    by (rule Detach_removed[OF Cons.prems(1) n])
  have o: "order l1 = order l \<or> order l1 = remove1 n (order l)"
    using Detach_ok[OF Cons.prems(1) n] l1(1) by (metis option.inject prod.inject)
  have "m \<in> set (order l1)" if "r = Some m" for m
    using that r next_in_ne[OF d] o by (auto simp: set_remove1_eq[OF d])
  moreover have "ns = ahead r (order l1)" using ahead_next[OF d r(1)] o node(2) by simp
  ultimately obtain l' where "remove_all_loop r l1 = Some l'" "safe_ok h l'" "removed h (set ns) l1 l'"
    using Cons.IH[OF l1(2)] by blast
  then show ?case
    using node(1) r(1) l1(1) removed_trans[OF l1(3)]
    by (intro exI[of _ l']) (subst remove_all_loop.simps, auto simp: next_node_def)
qed

lemma RemoveAllListener_ok:
  assumes ok: "event_ok h ev"
  obtains ev' where "RemoveAllListener ev = Some ev'" "event_ok h ev'" "contents (listener_list ev') = []"
    "removed h UNIV (listener_list ev) (listener_list ev')"
proof -
  let ?l = "listener_list ev"
  note S = event_okD[OF ok]
  have "n \<in> set (order ?l)" if "first_node ?l = Some n" for n using that by (auto simp: first_node_def split: list.splits)
  then obtain l where l: "remove_all_loop (first_node ?l) ?l = Some l" "safe_ok h l" "removed h (set (order ?l)) ?l l"
    using remove_all_loop_ok[OF S(1) _ refl, of "first_node ?l"] by (auto simp: ahead_first)
  have "datum ?l n = None" if "n \<notin> set (order ?l)" for n using info_in_order[OF ok, of n] that by (cases "datum ?l n") auto
  then have none: "datum l n = None" for n using l(3) by (auto simp: removed_def)
  have "removed h UNIV ?l l" using l(3) none by (auto simp: removed_def fun_eq_iff intro!: filter_cong)
  moreover have "contents l = []" using none by (simp add: contents_def List.map_filter_def)
  ultimately show ?thesis
    using l(1,2) none by (intro that[of "ev\<lparr>listener_list := l, listener_index := []\<rparr>"])
      (simp_all add: RemoveAllListener_def event_ok_def index_ok_def)
qed

section \<open>Invoking\<close>

locale event_in_state =
  fixes get :: "'s \<Rightarrow> 'f event" and put :: "'f event \<Rightarrow> 's \<Rightarrow> 's"
  assumes get_put [simp]: "get (put ev s) = ev"
begin

lemma get_put_listeners [simp]: "get (put_listeners get put l s) = (get s)\<lparr>listener_list := l\<rparr>"
  by (simp add: put_listeners_def)

end

text \<open>A listener is called in any state that keeps the invariant, whatever loops hold its nodes, and keeps it.\<close>

locale event_client = event_in_state get put for get :: "'s \<Rightarrow> 'f event" and put +
  fixes run :: "('f, 'a, 's) listeners" and arg :: 'a
  assumes run_keeps: "event_ok h (get s) \<Longrightarrow> run f arg s = Some s' \<Longrightarrow> event_ok h (get s')"

sublocale event_client \<subseteq> loop: safe_loop "\<lambda>s. listener_list (get s)" "put_listeners get put" "\<lambda>h s. event_ok h (get s)"
    fetch_get "listener_body run arg"
proof
  fix h s n l
  assume ok: "event_ok h (get s)"
  then show "safe_ok h (listener_list (get s))" by (rule event_okD)
  assume l: "IncrRef n (listener_list (get s)) = Some l"
  then have "n \<in> set (order (listener_list (get s)))"
    using safe_okD(3)[OF event_okD(1)[OF ok]] by (auto simp: IncrRef_def Option.bind_eq_Some_conv)
  from IncrRef_ok[OF event_okD(1)[OF ok] this] l show "event_ok (hold n h) (get (put_listeners get put l s))"
    using event_okD(2)[OF ok] by (auto simp: event_ok_def intro: index_ok_datum)
next
  fix h s n l
  assume ok: "event_ok (hold n h) (get s)" and l: "DecrRef n (listener_list (get s)) = Some l"
  from DecrRef_ok[OF event_okD(1)[OF ok]] l show "event_ok h (get (put_listeners get put l s))"
    using event_okD(2)[OF ok] by (auto simp: event_ok_def intro: index_ok_datum)
next
  fix h n l s
  assume ok: "event_ok (hold n h) (get (put_listeners get put l s))"
  then have "n \<in> set (order l)" using safe_okD(4)[OF event_okD(1)[OF ok], of n] by simp
  then obtain x where "cells l n = Some x" using safe_okD(3)[OF event_okD(1)[OF ok]] by auto
  then show "\<exists>d l'. fetch_get n l = Some (d, l') \<and> order l' = order l \<and>
      (d = None \<longrightarrow> event_ok (hold n h) (get (put_listeners get put l' s)))"
    using ok by (simp add: fetch_get_def Get_def)
next
  fix h n l s d l' go s'
  assume "event_ok (hold n h) (get (put_listeners get put l s))" "fetch_get n l = Some (Some d, l')"
    "listener_body run arg d (put_listeners get put l' s) = Some (go, s')"
  then have "event_ok (hold n h) (get (put_listeners get put l' s))" "run (listener d) arg (put_listeners get put l' s) = Some s'"
    by (auto simp: fetch_get_def Get_def listener_body_def Option.bind_eq_Some_conv)
  then show "event_ok (hold n h) (get s')" by (rule run_keeps)
qed simp

context event_client
begin

lemma Invoke_keeps:
  assumes "Invoke get put run arg s = Some s'" "event_ok h (get s)"
  shows "event_ok h (get s')"
  using loop.foreach_keeps[OF assms(1)[unfolded Invoke_def] assms(2)] .

end

end
