(* ===== verification/EventProps.thy ===== *)
theory EventProps
  imports Events
begin

text \<open>
  What the clients of an event see: the calls that \<open>Invoke\<close> makes when listeners remove each other, that they are in
  order whatever listeners do, and that \<open>Invoke\<close> need not return when they add listeners.
\<close>

section \<open>Listeners that remove listeners\<close>

fun remove_each :: "event_id list \<Rightarrow> 'f event \<Rightarrow> 'f event option" where
  "remove_each [] ev = Some ev"
| "remove_each (i # is) ev = do { ev \<leftarrow> RemoveListener i ev; remove_each is ev }"

text \<open>The state of these clients: the calls so far and the event.\<close>

type_synonym ('f, 'a) logged = "('f \<times> 'a) list \<times> 'f event"

definition put_event :: "'f event \<Rightarrow> ('f, 'a) logged \<Rightarrow> ('f, 'a) logged" where
  "put_event ev s = (fst s, ev)"

lemma put_event_simps [simp]: "snd (put_event ev s) = ev" "fst (put_event ev s) = fst s"
  by (simp_all add: put_event_def)

definition removing :: "('f \<Rightarrow> event_id list) \<Rightarrow> ('f, 'a, ('f, 'a) logged) listeners" where
  "removing eff f a s = do { ev \<leftarrow> remove_each (eff f) (snd s); Some (fst s @ [(f, a)], ev) }"

text \<open>The specification: the first listener is called, those that it removes are not, and so on.\<close>

function notify :: "('f \<Rightarrow> event_id list) \<Rightarrow> 'f listener_info list \<Rightarrow> 'f listener_info list" where
  "notify eff [] = []"
| "notify eff (d # ds) = d # notify eff (filter (\<lambda>e. info_id e \<notin> set (eff (listener d))) ds)"
  by pat_completeness auto
termination
  by (relation "measure (\<lambda>(eff, ds). length ds)") (auto simp: le_imp_less_Suc)

definition named_by :: "event_id set \<Rightarrow> 'f event \<Rightarrow> handle set" where
  "named_by A ev = {n. \<exists>d. info ev n = Some d \<and> info_id d \<in> A}"

lemma remove_each_ok:
  "event_ok h ev \<Longrightarrow> \<exists>ev'. remove_each is ev = Some ev' \<and> event_ok h ev' \<and>
     removed h (named_by (set is) ev) (listener_list ev) (listener_list ev')"
proof (induction "is" arbitrary: ev)
  case Nil
  then show ?case by (simp add: named_by_def removed_refl)
next
  case (Cons i "is")
  obtain ev1 where ev1: "RemoveListener i ev = Some ev1" "event_ok h ev1"
    "removed h {n. \<exists>d. info ev n = Some d \<and> info_id d = i} (listener_list ev) (listener_list ev1)"
    by (rule RemoveListener_ok[OF Cons.prems])
  from Cons.IH[OF ev1(2)] obtain ev2 where ev2: "remove_each is ev1 = Some ev2" "event_ok h ev2"
    "removed h (named_by (set is) ev1) (listener_list ev1) (listener_list ev2)" by blast
  have "{n. \<exists>d. info ev n = Some d \<and> info_id d = i} \<union> named_by (set is) ev1 = named_by (set (i # is)) ev"
    using ev1(3) by (auto simp: named_by_def removed_def split: if_splits)
  with removed_trans[OF ev1(3) ev2(3)] ev1(1) ev2(1,2) show ?case by simp
qed

lemma behind_filter: "P n \<Longrightarrow> behind n (filter P xs) = filter P (behind n xs)"
  by (induction xs) auto

lemma removed_release:
  assumes "removed (hold n h) N l l1" "safe_ok h l" "DecrRef n l1 = Some l2" "safe_ok (hold n h) l1"
  shows "removed h N l l2" "order l2 = order l1 \<or> order l2 = remove1 n (order l1)"
proof -
  obtain l' where l': "DecrRef n l1 = Some l'" "datum l' = datum l1"
    "order l' = (if h n = 0 \<and> datum l1 n = None then remove1 n (order l1) else order l1)" by (rule DecrRef_ok[OF assms(4)])
  have l2: "l' = l2" using l'(1) assms(3) by simp
  show "order l2 = order l1 \<or> order l2 = remove1 n (order l1)" using l'(3) l2 by auto
  have "order l2 = filter (\<lambda>m. m \<notin> N \<or> h m > 0) (order l)"
  proof (cases "h n = 0 \<and> n \<in> N")
    case True
    then have "order l2 = remove1 n (order l1)" using l'(3) l2 assms(1) by (simp add: removed_def)
    then show ?thesis
      using True assms(1) safe_okD(1)[OF assms(4)] by (auto simp: removed_def distinct_remove1_removeAll removeAll_filter_not_eq intro!: filter_cong)
  next
    case False
    have "datum l n \<noteq> None" if "h n = 0" "n \<in> set (order l)"
      using that safe_okD(3,5)[OF assms(2)] by (auto simp: datum_def cell_ok_def)
    moreover have "n \<in> set (order l)" using safe_okD(4)[OF assms(4), of n] assms(1) by (auto simp: removed_def)
    ultimately have "order l2 = order l1" using False l'(3) l2 assms(1) by (auto simp: removed_def)
    then show ?thesis using False assms(1) by (auto simp: removed_def intro!: filter_cong)
  qed
  then show "removed h N l l2" using assms(1) l'(2) l2 by (simp add: removed_def)
qed

lemma removing_keeps: "event_ok h (snd s) \<Longrightarrow> removing eff f a s = Some s' \<Longrightarrow> event_ok h (snd s')"
  using remove_each_ok[of h "snd s" "eff f"] by (auto simp: removing_def)

interpretation removing_events: event_client snd put_event "removing eff" a for eff a
  by unfold_locales (simp, rule removing_keeps)

lemma removing_shrinks:
  assumes "event_ok h (snd s)"
  shows "\<exists>s'. removing eff f a s = Some s' \<and> subseq (order (listener_list (snd s'))) (order (listener_list (snd s)))"
proof -
  obtain ev' where "remove_each (eff f) (snd s) = Some ev'"
    "removed h (named_by (set (eff f)) (snd s)) (listener_list (snd s)) (listener_list ev')"
    using remove_each_ok[OF assms] by blast
  then show ?thesis by (simp add: removing_def removed_def)
qed

interpretation removing_loop: shrinking_loop "\<lambda>s. listener_list (snd s)" "put_listeners snd put_event" "\<lambda>h s. event_ok h (snd s)"
  fetch_get "listener_body (removing eff) a" for eff a
proof unfold_locales
  fix h n l l' d and s :: "('a, 'b) logged"
  assume ok: "event_ok (hold n h) (snd (put_listeners snd put_event l s))" and d: "fetch_get n l = Some (Some d, l')"
  have "l' = l" using d by (auto simp: fetch_get_def Get_def Option.bind_eq_Some_conv)
  then obtain s' where "removing eff (listener d) a (put_listeners snd put_event l' s) = Some s'"
    "subseq (order (listener_list (snd s'))) (order l')"
    using removing_shrinks[OF ok, of eff "listener d" a] by (auto simp: put_listeners_def)
  then show "\<exists>go s'. listener_body (removing eff) a d (put_listeners snd put_event l' s) = Some (go, s') \<and>
      subseq (order (listener_list (snd s'))) (order l')" by (auto simp: listener_body_def)
qed

abbreviation iterate_removing :: "('f \<Rightarrow> event_id list) \<Rightarrow> 'a \<Rightarrow> handle option \<Rightarrow> ('f, 'a) logged \<Rightarrow> ('f, 'a) logged option" where
  "iterate_removing eff a \<equiv> safe_iterate (\<lambda>s. listener_list (snd s)) (put_listeners snd put_event) fetch_get
     (listener_body (removing eff) a)"

definition calls_of :: "'a \<Rightarrow> 'f listener_info list \<Rightarrow> ('f \<times> 'a) list" where
  "calls_of a = map (\<lambda>d. (listener d, a))"

definition killed :: "('f \<Rightarrow> event_id list) \<Rightarrow> 'f listener_info list \<Rightarrow> event_id set" where
  "killed eff ds = (\<Union>d \<in> set ds. set (eff (listener d)))"

lemma removing_turn:
  assumes ok: "event_ok h ev" and n: "n \<in> set (order (listener_list ev))"
    and A: "A = (case info ev n of None \<Rightarrow> {} | Some d \<Rightarrow> set (eff (listener d)))"
  obtains r ev' where "iterate_removing eff a (Some n) (log, ev) = iterate_removing eff a r
      (log @ (case info ev n of None \<Rightarrow> [] | Some d \<Rightarrow> [(listener d, a)]), ev')"
    "event_ok h ev'" "removed h (named_by A ev) (listener_list ev) (listener_list ev')"
    "\<And>m. r = Some m \<Longrightarrow> m \<in> set (order (listener_list ev'))"
    "List.map_filter (info ev') (ahead r (order (listener_list ev'))) =
      filter (\<lambda>d. info_id d \<notin> A) (List.map_filter (info ev) (behind n (order (listener_list ev))))"
    "length (ahead r (order (listener_list ev'))) < length (ahead (Some n) (order (listener_list ev)))"
proof -
  let ?l = "listener_list ev"
  note S = event_okD[OF ok]
  obtain l where l: "IncrRef n ?l = Some l" "safe_ok (hold n h) l" "order l = order ?l" "datum l = datum ?l"
    by (rule IncrRef_ok[OF S(1) n])
  let ?ev = "ev\<lparr>listener_list := l\<rparr>"
  have ok1: "event_ok (hold n h) ?ev" using l S(2) by (auto simp: event_ok_def intro: index_ok_datum)
  obtain x where x: "cells l n = Some x" using n l(2,3) safe_okD(3) by metis
  have dx: "raw_data x = info ev n" using x l(4) by (metis datum_def option.simps(5))
  have same: "named_by A ?ev = named_by A ev" for A using l(4) by (simp add: named_by_def)
  obtain ev1 where ev1: "(case info ev n of None \<Rightarrow> Some (True, (log, ?ev)) | Some d \<Rightarrow> listener_body (removing eff) a d (log, ?ev)) =
      Some (True, (log @ (case info ev n of None \<Rightarrow> [] | Some d \<Rightarrow> [(listener d, a)]), ev1))"
    "event_ok (hold n h) ev1" "removed (hold n h) (named_by A ev) ?l (listener_list ev1)"
  proof (cases "info ev n")
    case None
    then show ?thesis using that[of ?ev] ok1 A l(3,4) by (simp add: named_by_def removed_def)
  next
    case (Some d)
    obtain ev1 where ev1: "remove_each (eff (listener d)) ?ev = Some ev1" "event_ok (hold n h) ev1"
      "removed (hold n h) (named_by (set (eff (listener d))) ?ev) (listener_list ?ev) (listener_list ev1)"
      using remove_each_ok[OF ok1] by blast
    have "removed (hold n h) (named_by A ev) ?l (listener_list ev1)"
      using ev1(3) Some A unfolding same removed_def by (simp add: l(3,4) cong: if_cong)
    then show ?thesis using that[of ev1] Some ev1(1,2) by (simp add: listener_body_def removing_def)
  qed
  have n1: "n \<in> set (order (listener_list ev1))" using safe_okD(4)[OF event_okD(1)[OF ev1(2)], of n] by simp
  obtain r where r: "next_in n (order (listener_list ev1)) = Some r" "\<forall>m. r = Some m \<longrightarrow> m \<in> set (order (listener_list ev1))"
    using next_in_Some[OF n1] by blast
  obtain l2 where l2: "DecrRef n (listener_list ev1) = Some l2" "safe_ok h l2" "datum l2 = datum (listener_list ev1)"
    by (rule DecrRef_ok[OF event_okD(1)[OF ev1(2)]])
  let ?ev2 = "ev1\<lparr>listener_list := l2\<rparr>"
  note rel = removed_release[OF ev1(3) S(1) l2(1) event_okD(1)[OF ev1(2)]]
  note d1 = event_okD(3)[OF ev1(2)]
  have step: "iterate_removing eff a (Some n) (log, ev) = iterate_removing eff a r
      (log @ (case info ev n of None \<Rightarrow> [] | Some d \<Rightarrow> [(listener d, a)]), ?ev2)"
    using l(1) x dx ev1(1) r(1) l2(1)
    by (subst safe_iterate.simps) (simp add: fetch_get_def Get_def put_listeners_def put_event_def next_node_def)
  have o: "ahead r (order l2) = behind n (order (listener_list ev1))" by (rule ahead_next[OF d1 r(1) rel(2)])
  also have "\<dots> = filter (\<lambda>m. m \<notin> named_by A ev \<or> hold n h m > 0) (behind n (order ?l))"
    using ev1(3) by (simp add: removed_def behind_filter)
  finally have o': "ahead r (order l2) = filter (\<lambda>m. m \<notin> named_by A ev \<or> hold n h m > 0) (behind n (order ?l))" .
  have i: "datum l2 = (\<lambda>m. case info ev m of None \<Rightarrow> None | Some d \<Rightarrow> if info_id d \<in> A then None else Some d)"
    using l2(3) ev1(3) by (auto simp: removed_def named_by_def fun_eq_iff split: option.split)
  have infos: "List.map_filter (datum l2) (ahead r (order l2)) =
      filter (\<lambda>d. info_id d \<notin> A) (List.map_filter (info ev) (behind n (order ?l)))"
    unfolding map_filter_if[symmetric] o' i
    by (rule map_filter_filter) (auto simp: named_by_def split: option.split)
  have "m \<in> set (order l2)" if "r = Some m" for m
    using that r next_in_ne[OF d1] rel(2) by (auto simp: set_remove1_eq[OF d1])
  moreover have "event_ok h ?ev2" using l2 event_okD(2)[OF ev1(2)] by (auto simp: event_ok_def intro: index_ok_datum)
  moreover have "length (ahead r (order l2)) < length (ahead (Some n) (order ?l))"
    unfolding o' by (simp add: ahead_def le_imp_less_Suc)
  ultimately show ?thesis using step rel(1) infos by (intro that[of r ?ev2]) simp_all
qed


lemma named_by_then:
  assumes "removed h (named_by A ev) (listener_list ev) (listener_list ev')"
  shows "named_by A ev \<union> named_by B ev' = named_by (A \<union> B) ev"
  using assms by (auto simp: named_by_def removed_def split: if_splits)

lemma iterate_removing_notifies:
  "event_ok h ev \<Longrightarrow> (\<And>n. node = Some n \<Longrightarrow> n \<in> set (order (listener_list ev))) \<Longrightarrow>
   ds = notify eff (List.map_filter (info ev) (ahead node (order (listener_list ev)))) \<Longrightarrow>
   \<exists>ev'. iterate_removing eff a node (log, ev) = Some (log @ calls_of a ds, ev') \<and> event_ok h ev' \<and>
     removed h (named_by (killed eff ds) ev) (listener_list ev) (listener_list ev')"
proof (induction "length (ahead node (order (listener_list ev)))" arbitrary: node ev log ds rule: less_induct)
  case less
  show ?case
  proof (cases node)
    case None
    then show ?thesis
      using less.prems by (simp add: safe_iterate.simps ahead_def map_filter_simps calls_of_def killed_def named_by_def removed_refl)
  next
    case (Some n)
    let ?A = "case info ev n of None \<Rightarrow> {} | Some d \<Rightarrow> set (eff (listener d))"
    have n: "n \<in> set (order (listener_list ev))" using less.prems(2) Some by simp
    obtain r ev1 where s: "iterate_removing eff a (Some n) (log, ev) = iterate_removing eff a r
        (log @ (case info ev n of None \<Rightarrow> [] | Some d \<Rightarrow> [(listener d, a)]), ev1)"
      "event_ok h ev1" "removed h (named_by ?A ev) (listener_list ev) (listener_list ev1)"
      "\<And>m. r = Some m \<Longrightarrow> m \<in> set (order (listener_list ev1))"
      "List.map_filter (info ev1) (ahead r (order (listener_list ev1))) =
        filter (\<lambda>d. info_id d \<notin> ?A) (List.map_filter (info ev) (behind n (order (listener_list ev))))"
      "length (ahead r (order (listener_list ev1))) < length (ahead (Some n) (order (listener_list ev)))"
      by (rule removing_turn[OF less.prems(1) n refl]) (rule that)
    let ?es = "notify eff (List.map_filter (info ev1) (ahead r (order (listener_list ev1))))"
    obtain ev2 where ev2: "iterate_removing eff a r (log @ (case info ev n of None \<Rightarrow> [] | Some d \<Rightarrow> [(listener d, a)]), ev1) =
        Some ((log @ (case info ev n of None \<Rightarrow> [] | Some d \<Rightarrow> [(listener d, a)])) @ calls_of a ?es, ev2)" "event_ok h ev2"
      "removed h (named_by (killed eff ?es) ev1) (listener_list ev1) (listener_list ev2)"
      using less.hyps[OF _ s(2,4) refl] s(6) Some by blast
    have ds: "ds = (case info ev n of None \<Rightarrow> ?es | Some d \<Rightarrow> d # ?es)"
      using less.prems(3) Some s(5) by (auto simp: ahead_def map_filter_simps split: option.split)
    have "killed eff ds = ?A \<union> killed eff ?es" by (auto simp: ds killed_def split: option.split)
    then have "removed h (named_by (killed eff ds) ev) (listener_list ev) (listener_list ev2)"
      using removed_trans[OF s(3) ev2(3)] named_by_then[OF s(3)] by simp
    moreover have "(case info ev n of None \<Rightarrow> [] | Some d \<Rightarrow> [(listener d, a)]) @ calls_of a ?es = calls_of a ds"
      by (simp add: ds calls_of_def split: option.split)
    ultimately show ?thesis using s(1) ev2(1,2) Some by (intro exI[of _ ev2]) simp
  qed
qed

text \<open>C12: seen from outside an event is the list of its listeners, and \<open>Invoke\<close> with listeners that may
  remove listeners, themselves too, while they run calls them in the order they were added, each once,
  but for those that were removed before their turn; afterwards exactly the removed ones are gone.\<close>
theorem Invoke_notifies:
  assumes "event_ok h ev" and "ds = notify eff (contents (listener_list ev))"
  shows "\<exists>ev'. Invoke snd put_event (removing eff) a (log, ev) = Some (log @ calls_of a ds, ev') \<and> event_ok h ev' \<and>
    contents (listener_list ev') = filter (\<lambda>d. info_id d \<notin> killed eff ds) (contents (listener_list ev))"
proof -
  let ?l = "listener_list ev"
  have "n \<in> set (order ?l)" if "first_node ?l = Some n" for n using that by (auto simp: first_node_def split: list.splits)
  from iterate_removing_notifies[where node = "first_node ?l" and eff = eff and a = a and log = log, OF assms(1) this refl] assms(2)
  obtain ev' where ev': "iterate_removing eff a (first_node ?l) (log, ev) = Some (log @ calls_of a ds, ev')" "event_ok h ev'"
    "removed h (named_by (killed eff ds) ev) ?l (listener_list ev')" by (auto simp: ahead_first contents_def)
  have "(\<lambda>n. if n \<in> named_by (killed eff ds) ev then None else info ev n) =
      (\<lambda>n. case info ev n of None \<Rightarrow> None | Some d \<Rightarrow> if info_id d \<in> killed eff ds then None else Some d)"
    by (auto simp: named_by_def fun_eq_iff split: option.split)
  then have "contents (listener_list ev') = filter (\<lambda>d. info_id d \<notin> killed eff ds) (contents ?l)"
    unfolding contents_removed[OF ev'(3)] by (simp add: map_filter_if contents_def)
  then show ?thesis using ev' by (intro exI[of _ ev']) (simp add: Invoke_def safe_foreach_def)
qed

section \<open>Listeners that do anything\<close>

datatype ('f, 'a) event_op = Add nat 'f | Remove event_id | RemoveAll | Fire 'a

text \<open>The addresses of the two objects of a new listener; the node's is not in use.\<close>

definition fresh_alloc :: "('f event \<Rightarrow> handle \<times> handle) \<Rightarrow> bool" where
  "fresh_alloc alloc \<longleftrightarrow> (\<forall>ev. snd (alloc ev) \<notin> set (order (listener_list ev)))"

definition event_op :: "('a \<Rightarrow> ('f, 'a) logged \<Rightarrow> ('f, 'a) logged option) \<Rightarrow> ('f event \<Rightarrow> handle \<times> handle) \<Rightarrow> ('f, 'a) event_op
    \<Rightarrow> ('f, 'a) logged \<Rightarrow> ('f, 'a) logged option" where
  "event_op fire alloc op s = (case op of
     Add i f \<Rightarrow> do {
       (_, ev) \<leftarrow> AddListener (fst (alloc (snd s))) (snd (alloc (snd s))) (Some f) i (snd s);
       Some (fst s, ev) }
   | Remove i \<Rightarrow> do { ev \<leftarrow> RemoveListener i (snd s); Some (fst s, ev) }
   | RemoveAll \<Rightarrow> do { ev \<leftarrow> RemoveAllListener (snd s); Some (fst s, ev) }
   | Fire a \<Rightarrow> fire a s)"

fun event_ops :: "('a \<Rightarrow> ('f, 'a) logged \<Rightarrow> ('f, 'a) logged option) \<Rightarrow> ('f event \<Rightarrow> handle \<times> handle) \<Rightarrow> ('f, 'a) event_op list
    \<Rightarrow> ('f, 'a) logged \<Rightarrow> ('f, 'a) logged option" where
  "event_ops fire alloc [] s = Some s"
| "event_ops fire alloc (op # ops) s = do { s \<leftarrow> event_op fire alloc op s; event_ops fire alloc ops s }"

text \<open>A listener writes its call down and goes through its script, which may fire the event again. \<open>k\<close> bounds the
  depth of the stack.\<close>

primrec scripted :: "nat \<Rightarrow> ('f event \<Rightarrow> handle \<times> handle) \<Rightarrow> ('f \<Rightarrow> 'a \<Rightarrow> ('f, 'a) event_op list)
    \<Rightarrow> ('f, 'a, ('f, 'a) logged) listeners" where
  "scripted 0 alloc prog f a s = None"
| "scripted (Suc k) alloc prog f a s =
     event_ops (Invoke snd put_event (scripted k alloc prog)) alloc (prog f a) (fst s @ [(f, a)], snd s)"

lemma event_ops_keep:
  assumes "fresh_alloc alloc" "\<And>h a s s'. event_ok h (snd s) \<Longrightarrow> fire a s = Some s' \<Longrightarrow> event_ok h (snd s')"
  shows "event_ok h (snd s) \<Longrightarrow> event_ops fire alloc ops s = Some s' \<Longrightarrow> event_ok h (snd s')"
proof (induction ops arbitrary: s)
  case (Cons op ops)
  then obtain s1 where s1: "event_op fire alloc op s = Some s1" "event_ops fire alloc ops s1 = Some s'"
    by (auto simp: Option.bind_eq_Some_conv)
  have "event_ok h (snd s1)"
  proof (cases op)
    case (Add i f)
    have "snd (alloc (snd s)) \<notin> set (order (listener_list (snd s)))" using assms(1) by (simp add: fresh_alloc_def)
    then obtain ev' where "AddListener (fst (alloc (snd s))) (snd (alloc (snd s))) (Some f) i (snd s) =
        Some (if i \<noteq> 0 then i else fst (alloc (snd s)), ev')" "event_ok h ev'"
      using AddListener_ok[OF Cons.prems(1) _ refl] by metis
    then show ?thesis using s1(1) Add by (auto simp: event_op_def)
  next
    case (Remove i)
    obtain ev' where "RemoveListener i (snd s) = Some ev'" "event_ok h ev'"
      by (rule RemoveListener_ok[OF Cons.prems(1)])
    then show ?thesis using Remove s1(1) by (auto simp: event_op_def)
  next
    case RemoveAll
    obtain ev' where "RemoveAllListener (snd s) = Some ev'" "event_ok h ev'"
      by (rule RemoveAllListener_ok[OF Cons.prems(1)])
    then show ?thesis using RemoveAll s1(1) by (auto simp: event_op_def)
  next
    case (Fire a)
    then show ?thesis using assms(2)[OF Cons.prems(1)] s1(1) by (simp add: event_op_def)
  qed
  from Cons.IH[OF this s1(2)] show ?case .
qed simp

lemma in_state: "event_in_state snd put_event"
  by unfold_locales simp

lemma Invoke_keeps_if:
  assumes "\<And>h f s s'. event_ok h (snd s) \<Longrightarrow> run f a s = Some s' \<Longrightarrow> event_ok h (snd s')"
  shows "event_ok h (snd s) \<Longrightarrow> Invoke snd put_event run a s = Some s' \<Longrightarrow> event_ok h (snd s')"
proof -
  assume ok: "event_ok h (snd s)" and s': "Invoke snd put_event run a s = Some s'"
  have "event_client snd put_event run a"
    by (intro event_client.intro in_state event_client_axioms.intro) (rule assms)
  from event_client.Invoke_keeps[OF this s' ok] show ?thesis .
qed

lemma scripted_keeps:
  assumes "fresh_alloc alloc"
  shows "event_ok h (snd s) \<Longrightarrow> scripted k alloc prog f a s = Some s' \<Longrightarrow> event_ok h (snd s')"
proof (induction k arbitrary: h f a s s')
  case (Suc k)
  have run: "event_ops (Invoke snd put_event (scripted k alloc prog)) alloc (prog f a) (fst s @ [(f, a)], snd s) = Some s'"
    using Suc.prems(2) by (simp only: scripted.simps)
  have ok: "event_ok h (snd (fst s @ [(f, a)], snd s))" using Suc.prems(1) by simp
  show ?case
    by (rule event_ops_keep[OF assms Invoke_keeps_if[OF Suc.IH] ok run])
qed simp

definition max_alloc :: "'f event \<Rightarrow> handle \<times> handle" where
  "max_alloc ev = (let n = Suc (foldr max (order (listener_list ev)) 0) in (Suc n, n))"

lemma max_alloc_fresh: "fresh_alloc max_alloc"
proof -
  have "n \<le> foldr max xs 0" if "n \<in> set xs" for n :: nat and xs using that by (induction xs) auto
  then show ?thesis by (force simp: fresh_alloc_def max_alloc_def Let_def)
qed

interpretation scripted_events: event_client snd put_event "scripted k max_alloc prog" a for k prog a
  by unfold_locales (simp, rule scripted_keeps[OF max_alloc_fresh])

lemma index_nodes:
  assumes "index_ok ev"
  shows "snd ` set (listener_index ev) = {n. info ev n \<noteq> None}"
proof (intro equalityI subsetI)
  fix n assume "n \<in> snd ` set (listener_index ev)"
  then show "n \<in> {n. info ev n \<noteq> None}" using assms by (auto simp: index_ok_def)
next
  fix n assume "n \<in> {n. info ev n \<noteq> None}"
  then obtain d where "info ev n = Some d" by auto
  then have "(info_id d, n) \<in> set (listener_index ev)" using assms by (auto simp: index_ok_def)
  then show "n \<in> snd ` set (listener_index ev)" by (metis imageI snd_conv)
qed

text \<open>C13: after any calls from outside, with listeners that add, remove and invoke in turn to any depth,
  each node of the list has its listener and no reference left over, and the index names exactly the
  nodes of the list.\<close>
theorem events_reachable_ok:
  assumes "fresh_alloc alloc"
    and "event_ops (Invoke snd put_event (scripted k alloc prog)) alloc ops ([], Event_new) = Some (log, ev)"
  shows "event_ok (\<lambda>_. 0) ev \<and> (\<forall>n x. cells (listener_list ev) n = Some x \<longrightarrow> raw_data x \<noteq> None \<and> ref_count x = 1) \<and>
    snd ` set (listener_index ev) = set (order (listener_list ev))"
proof -
  have "event_ok h (snd s)" if "event_ok h (snd s1)" "Invoke snd put_event (scripted k alloc prog) a s1 = Some s" for h a s1 s
    using Invoke_keeps_if[OF scripted_keeps[OF assms(1)] that] .
  from event_ops_keep[where fire = "Invoke snd put_event (scripted k alloc prog)" and h = "\<lambda>_. 0" and s = "([], Event_new)",
    OF assms(1) this _ assms(2)]
  have ok: "event_ok (\<lambda>_. 0) ev" using event_ok_new by simp
  note S = event_okD[OF ok]
  have cell: "raw_data x \<noteq> None \<and> ref_count x = 1" if "cells (listener_list ev) n = Some x" for n x
    using safe_okD(5)[OF S(1) that] by (auto simp: cell_ok_def)
  have i: "n \<in> set (order (listener_list ev)) \<longleftrightarrow> info ev n \<noteq> None" for n
  proof (cases "cells (listener_list ev) n")
    case None
    then show ?thesis using safe_okD(3)[OF S(1), of n] by (simp add: datum_def)
  next
    case (Some x)
    then show ?thesis using safe_okD(3)[OF S(1), of n] cell[OF Some] by (simp add: datum_def)
  qed
  have "snd ` set (listener_index ev) = set (order (listener_list ev))"
    unfolding index_nodes[OF S(2)] using i by auto
  then show ?thesis using ok cell by blast
qed

text \<open>Three listeners of which the first removes the second.\<close>

definition three_listeners :: "(nat, unit) event_op list" where
  "three_listeners = [Add 1 1, Add 2 2, Add 3 3]"

definition three_event :: "nat event" where
  "three_event = (case event_ops (\<lambda>_ _. None) max_alloc three_listeners ([], Event_new) of Some s \<Rightarrow> snd s | None \<Rightarrow> Event_new)"

definition first_removes_second :: "nat \<Rightarrow> event_id list" where
  "first_removes_second f = (if f = 1 then [2] else [])"

lemma three_event_ops:
  "event_ops (\<lambda>_ _. None) max_alloc three_listeners ([], Event_new) = Some ([], three_event)"
  by (simp add: three_listeners_def three_event_def event_op_def AddListener_def max_alloc_def Let_def check_def split: option.split)

lemma three_event_ok: "event_ok (\<lambda>_. 0) three_event"
proof -
  have "event_ok (\<lambda>_. 0) (snd ([] :: (nat \<times> unit) list, three_event))"
    by (rule event_ops_keep[where fire = "\<lambda>_ _. None", OF max_alloc_fresh _ _ three_event_ops]) (simp_all add: event_ok_new)
  then show ?thesis by simp
qed

lemma three_contents:
  "contents (listener_list three_event) = [\<lparr>info_id = 1, listener = 1\<rparr>, \<lparr>info_id = 2, listener = 2\<rparr>, \<lparr>info_id = 3, listener = 3\<rparr>]"
  by code_simp

theorem Invoke_notifies_witness:
  "\<exists>ev. Invoke snd put_event (removing first_removes_second) () ([], three_event) = Some ([(1, ()), (3, ())], ev) \<and>
    contents (listener_list ev) = [\<lparr>info_id = 1, listener = 1\<rparr>, \<lparr>info_id = 3, listener = 3\<rparr>]"
proof -
  have n: "notify first_removes_second (contents (listener_list three_event)) = [\<lparr>info_id = 1, listener = 1\<rparr>, \<lparr>info_id = 3, listener = 3\<rparr>]"
    by (simp add: three_contents first_removes_second_def)
  show ?thesis
    using Invoke_notifies[where a = "()" and log = "[]", OF three_event_ok refl, of first_removes_second, unfolded n]
    by (auto simp: calls_of_def killed_def first_removes_second_def three_contents)
qed

text \<open>A listener that adds another one to the same event, which removes itself.\<close>

definition adds_once :: "nat \<Rightarrow> nat \<Rightarrow> (nat, nat) event_op list" where
  "adds_once f a = (if f = 1 then [Add 2 2] else [Remove 2])"

theorem events_reachable_ok_witness:
  "\<exists>log ev. event_ops (Invoke snd put_event (scripted 1 max_alloc adds_once)) max_alloc [Add 1 1, Fire 5] ([], Event_new) = Some (log, ev) \<and>
    log = [(1, 5), (2, 5)] \<and> event_ok (\<lambda>_. 0) ev \<and> snd ` set (listener_index ev) = set (order (listener_list ev))"
proof -
  let ?r = "event_ops (Invoke snd put_event (scripted 1 max_alloc adds_once)) max_alloc [Add 1 1, Fire 5] ([], Event_new)"
  have "map_option fst ?r = Some [(1, 5), (2, 5)]" by code_simp
  then obtain ev where ev: "?r = Some ([(1, 5), (2, 5)], ev)" by (cases ?r) auto
  from events_reachable_ok[OF max_alloc_fresh ev] ev show ?thesis by blast
qed

section \<open>Listeners that add listeners\<close>

definition adding :: "('f event \<Rightarrow> handle \<times> handle) \<Rightarrow> ('f, 'a, ('f, 'a) logged) listeners" where
  "adding alloc f a s = do {
     (i, ev) \<leftarrow> AddListener (fst (alloc (snd s))) (snd (alloc (snd s))) (Some f) 0 (snd s);
     Some (fst s @ [(f, a)], ev) }"

lemma adding_ok:
  assumes "fresh_alloc alloc" "event_ok h (snd s)"
  obtains ev' where "adding alloc f a s = Some (fst s @ [(f, a)], ev')" "event_ok h ev'"
    "order (listener_list ev') = order (listener_list (snd s)) @ [snd (alloc (snd s))]"
    "\<And>n. info (snd s) n \<noteq> None \<Longrightarrow> info ev' n = info (snd s) n" "info ev' (snd (alloc (snd s))) \<noteq> None"
proof -
  let ?n = "snd (alloc (snd s))" and ?p = "fst (alloc (snd s))"
  let ?l = "push_new ?n \<lparr>info_id = ?p, listener = f\<rparr> (listener_list (snd s))"
  have n: "?n \<notin> set (order (listener_list (snd s)))" using assms(1) by (simp add: fresh_alloc_def)
  note p = push_new_ok[OF event_okD(1)[OF assms(2)] n, of "\<lparr>info_id = ?p, listener = f\<rparr>"]
  obtain ev' where ev': "AddListener ?p ?n (Some f) 0 (snd s) = Some (?p, ev')" "event_ok h ev'"
    by (rule AddListener_ok[OF assms(2) n, of ?p 0 ?p f]) simp_all
  have l: "listener_list ev' = ?l" using ev'(1) by (auto simp: AddListener_def Let_def check_def)
  have none: "info (snd s) ?n = None" using info_in_order[OF assms(2)] n by (cases "info (snd s) ?n") auto
  show ?thesis
    by (rule that[of ev']) (use ev' none in \<open>auto simp: adding_def l p\<close>)
qed

lemma next_in_append: "n \<in> set xs \<Longrightarrow> distinct (xs @ [m]) \<Longrightarrow> \<exists>k. next_in n (xs @ [m]) = Some (Some k) \<and> k \<in> set (xs @ [m])"
proof (induction xs)
  case (Cons x xs)
  then show ?case by (cases "x = n"; cases xs) auto
qed simp

text \<open>Every node has its listener, so that every turn adds one.\<close>

lemma iterate_adding_never:
  fixes s :: "('f, 'a) logged" and a :: 'a
  assumes "fresh_alloc alloc"
    "safe_iterate (\<lambda>s. listener_list (snd s)) (put_listeners snd put_event) fetch_get (listener_body (adding alloc) a) (Some n) s = Some s'"
    "event_ok (\<lambda>_. 0) (snd s)" "n \<in> set (order (listener_list (snd s)))"
  shows False
proof -
  let ?get = "\<lambda>s :: ('f, 'a) logged. listener_list (snd s)" and ?put = "put_listeners snd put_event :: _ \<Rightarrow> ('f, 'a) logged \<Rightarrow> _"
  let ?fetch = "fetch_get :: handle \<Rightarrow> 'f listener_info safe_list \<Rightarrow> _"
  let ?body = "listener_body (adding alloc) a :: _ \<Rightarrow> ('f, 'a) logged \<Rightarrow> _"
  have "?get = ?get \<longrightarrow> ?put = ?put \<longrightarrow> ?fetch = ?fetch \<longrightarrow> ?body = ?body \<longrightarrow>
      event_ok (\<lambda>_. 0) (snd s) \<longrightarrow> (\<forall>m. Some n = Some m \<longrightarrow> m \<notin> set (order (?get s)))"
  proof (rule safe_iterate.raw_induct[where P = "\<lambda>g p f b node s s'. g = ?get \<longrightarrow> p = ?put \<longrightarrow> f = ?fetch \<longrightarrow> b = ?body \<longrightarrow>
      event_ok (\<lambda>_. 0) (snd s) \<longrightarrow> (\<forall>m. node = Some m \<longrightarrow> m \<notin> set (order (?get s)))", OF _ assms(2)], intro impI allI notI)
    fix iter g p f b node s s' n
    assume IH: "\<And>g p f b node s s'. iter g p f b node s = Some s' \<Longrightarrow> g = ?get \<longrightarrow> p = ?put \<longrightarrow> f = ?fetch \<longrightarrow> b = ?body \<longrightarrow>
        event_ok (\<lambda>_. 0) (snd s) \<longrightarrow> (\<forall>m. node = Some m \<longrightarrow> m \<notin> set (order (?get s)))"
      and run: "(case node of None \<Rightarrow> Some s
        | Some n \<Rightarrow> IncrRef n (g s) \<bind> (\<lambda>l. f n l \<bind> (\<lambda>(d, l). let s = p l s in
            (case d of None \<Rightarrow> Some (True, s) | Some d \<Rightarrow> b d s) \<bind> (\<lambda>(go, s).
            (if go then next_node n (g s) else Some None) \<bind> (\<lambda>nxt. DecrRef n (g s) \<bind> (\<lambda>l.
            iter g p f b nxt (p l s))))))) = Some s'"
      and eq: "g = ?get" "p = ?put" "f = ?fetch" "b = ?body"
      and ok: "event_ok (\<lambda>_. 0) (snd s)" and node: "node = Some n" "n \<in> set (order (?get s))"
    let ?ev = "snd s"
    note S = event_okD[OF ok]
    obtain l where l: "IncrRef n (listener_list ?ev) = Some l" "safe_ok (hold n (\<lambda>_. 0)) l" "order l = order (listener_list ?ev)"
      "datum l = info ?ev" by (rule IncrRef_ok[OF S(1) node(2)])
    let ?ev1 = "?ev\<lparr>listener_list := l\<rparr>"
    have ok1: "event_ok (hold n (\<lambda>_. 0)) ?ev1" using l S(2) by (auto simp: event_ok_def intro: index_ok_datum)
    obtain x where x: "cells (listener_list ?ev) n = Some x" using node(2) safe_okD(3)[OF S(1)] by blast
    then obtain d where d: "info ?ev n = Some d" using safe_okD(5)[OF S(1) x] by (auto simp: cell_ok_def datum_def)
    have get: "Get n l = Some (Some d)" using d l(4) node(2) l(3) safe_okD(3)[OF l(2), of n]
      by (auto simp: Get_def datum_def split: option.splits dest: fun_cong[of _ _ n])
    obtain ev2 where ev2: "adding alloc (listener d) a (fst s, ?ev1) = Some (fst (fst s, ?ev1) @ [(listener d, a)], ev2)"
      "event_ok (hold n (\<lambda>_. 0)) ev2"
      "order (listener_list ev2) = order (listener_list (snd (fst s, ?ev1))) @ [snd (alloc (snd (fst s, ?ev1)))]"
      "\<And>n. info (snd (fst s, ?ev1)) n \<noteq> None \<Longrightarrow> info ev2 n = info (snd (fst s, ?ev1)) n"
      "info ev2 (snd (alloc (snd (fst s, ?ev1)))) \<noteq> None"
      by (rule adding_ok[where s = "(fst s, ?ev1)" and f = "listener d" and a = a, OF assms(1)]) (use ok1 in simp, rule that)
    note d2 = event_okD(3)[OF ev2(2)]
    have n0: "n \<in> set (order l)" using node(2) l(3) by simp
    obtain k where k: "next_in n (order (listener_list ev2)) = Some (Some k)" "k \<in> set (order (listener_list ev2))"
      using next_in_append[OF n0, of "snd (alloc ?ev1)"] d2 unfolding ev2(3) by auto
    obtain l2 where l2: "DecrRef n (listener_list ev2) = Some l2" "safe_ok (\<lambda>_. 0) l2" "datum l2 = info ev2"
      "order l2 = (if (0 :: nat) = 0 \<and> info ev2 n = None then remove1 n (order (listener_list ev2)) else order (listener_list ev2))"
      by (rule DecrRef_ok[OF event_okD(1)[OF ev2(2)]])
    have "info ev2 n = Some d" using ev2(4)[of n] d l(4) by simp
    then have o2: "order l2 = order (listener_list ev2)" using l2(4) by simp
    let ?s2 = "(fst s @ [(listener d, a)], ev2\<lparr>listener_list := l2\<rparr>)"
    have "iter ?get ?put ?fetch ?body (Some k) ?s2 = Some s'"
      using run node(1) l(1) get ev2(1) k(1) l2(1)
      by (simp add: eq fetch_get_def put_listeners_def put_event_def listener_body_def next_node_def)
    from IH[OF this] have "event_ok (\<lambda>_. 0) (snd ?s2) \<longrightarrow> k \<notin> set (order (?get ?s2))" by simp
    moreover have "event_ok (\<lambda>_. 0) (snd ?s2)" using l2 event_okD(2)[OF ev2(2)] by (auto simp: event_ok_def intro: index_ok_datum)
    ultimately show False using k(2) o2 by simp
  qed
  then show False using assms(3,4) by simp
qed

text \<open>if every listener that is called adds one more to the event, \<open>Invoke\<close> does not return: the loop goes on
  into the listeners that were added while it runs.\<close>
theorem Invoke_adding_never_returns:
  assumes "fresh_alloc alloc" "event_ok (\<lambda>_. 0) ev" "contents (listener_list ev) \<noteq> []"
  shows "Invoke snd put_event (adding alloc) a (log, ev) = None"
proof (rule ccontr)
  assume "Invoke snd put_event (adding alloc) a (log, ev) \<noteq> None"
  moreover have "order (listener_list ev) \<noteq> []" using assms(3) by (auto simp: contents_def map_filter_simps)
  ultimately obtain n ns s' where n: "order (listener_list ev) = n # ns"
    "safe_iterate (\<lambda>s. listener_list (snd s)) (put_listeners snd put_event) fetch_get (listener_body (adding alloc) a) (Some n) (log, ev) = Some s'"
    by (cases "order (listener_list ev)") (auto simp: Invoke_def safe_foreach_def first_node_def)
  show False by (rule iterate_adding_never[OF assms(1) n(2)]) (use assms(2) n(1) in auto)
qed

theorem Invoke_adding_never_returns_witness:
  "Invoke snd put_event (adding max_alloc) () ([], three_event) = None"
  by (rule Invoke_adding_never_returns[OF max_alloc_fresh three_event_ok]) (simp add: three_contents)

end
