(* ===== verification/Managers.thy ===== *)
theory Managers
  imports EventProps
begin

text \<open>
  What a manager of events promises: it is a map from the types of events to the listeners of each. And the
  classes of simple events have indices of their own.
\<close>

section \<open>The events of a manager\<close>

text \<open>Seen from outside a manager is a map from types to lists of listeners. Each event is the event of one type, and
  the objects that no type names any more, or not yet, have no listeners.\<close>

definition manager_ok :: "('t, 'f) event_manager \<Rightarrow> bool" where
  "manager_ok m \<longleftrightarrow> distinct (map fst (event_list m)) \<and> distinct (map snd (event_list m)) \<and>
     (\<forall>p. event_ok (\<lambda>_. 0) (event_objects m p))"

definition listeners_of :: "('t, 'f) event_manager \<Rightarrow> 't \<Rightarrow> 'f listener_info list" where
  "listeners_of m t = (case map_of (event_list m) t of
     None \<Rightarrow> [] | Some p \<Rightarrow> contents (listener_list (event_objects m p)))"

lemma manager_ok_new: "manager_ok EventManager_new" "listeners_of EventManager_new t = []"
  by (simp_all add: manager_ok_def EventManager_new_def event_ok_new listeners_of_def)

text \<open>Two types have two objects.\<close>

lemma objects_apart:
  assumes "manager_ok m" "map_of (event_list m) t = Some p" "map_of (event_list m) u = Some q"
  shows "p = q \<longleftrightarrow> t = u"
proof
  assume "p = q"
  have "inj_on snd (set (event_list m))" using assms(1) by (simp add: manager_ok_def distinct_map)
  from inj_onD[OF this _ map_of_SomeD[OF assms(2)] map_of_SomeD[OF assms(3)]] show "t = u" using \<open>p = q\<close> by simp
qed (use assms in simp)

lemma object_ok: "manager_ok m \<Longrightarrow> event_ok (\<lambda>_. 0) (event_objects m p)"
  by (simp add: manager_ok_def)

text \<open>What an operation on the event of a type means for the manager.\<close>

lemma put_object_ok:
  assumes "manager_ok m" "map_of (event_list m) t = Some p" "event_ok (\<lambda>_. 0) ev"
  shows "manager_ok (put_object p ev m)" "listeners_of (put_object p ev m) = (listeners_of m)(t := contents (listener_list ev))"
proof -
  show "manager_ok (put_object p ev m)" using assms by (simp add: manager_ok_def put_object_def)
  have "listeners_of (put_object p ev m) u = (if u = t then contents (listener_list ev) else listeners_of m u)" for u
  proof (cases "map_of (event_list m) u")
    case None
    then show ?thesis using assms(2) by (auto simp: listeners_of_def put_object_def)
  next
    case (Some q)
    then show ?thesis using objects_apart[OF assms(1,2) Some] assms(2) by (auto simp: listeners_of_def put_object_def)
  qed
  then show "listeners_of (put_object p ev m) = (listeners_of m)(t := contents (listener_list ev))" by auto
qed

lemma RemoveListener_contents:
  assumes "event_ok h ev"
  obtains ev' where "RemoveListener i ev = Some ev'" "event_ok h ev'"
    "contents (listener_list ev') = filter (\<lambda>d. info_id d \<noteq> i) (contents (listener_list ev))"
proof -
  obtain ev' where ev': "RemoveListener i ev = Some ev'" "event_ok h ev'"
    "removed h {n. \<exists>d. info ev n = Some d \<and> info_id d = i} (listener_list ev) (listener_list ev')"
    by (rule RemoveListener_ok[OF assms])
  have "(\<lambda>n. if n \<in> {n. \<exists>d. info ev n = Some d \<and> info_id d = i} then None else info ev n) =
      (\<lambda>n. case info ev n of None \<Rightarrow> None | Some d \<Rightarrow> if info_id d = i then None else Some d)"
    by (auto simp: fun_eq_iff split: option.split)
  then have "contents (listener_list ev') = filter (\<lambda>d. info_id d \<noteq> i) (contents (listener_list ev))"
    unfolding contents_removed[OF ev'(3)] by (simp add: map_filter_if contents_def)
  with ev' show ?thesis by (intro that)
qed

definition new_object :: "handle \<Rightarrow> ('t, 'f) event_manager \<Rightarrow> bool" where
  "new_object p m \<longleftrightarrow> p \<notin> snd ` set (event_list m)"

lemma Manager_AddListener_ok:
  assumes "manager_ok m" "new_object object m"
    "node \<notin> set (order (listener_list (case map_of (event_list m) t of Some p \<Rightarrow> event_objects m p | None \<Rightarrow> Event_new)))"
    and i: "i = (if k \<noteq> 0 then k else p)"
  obtains m' where "Manager_AddListener object p node t (Some f) k m = Some (i, m')" "manager_ok m'"
    "listeners_of m' = (listeners_of m)(t := listeners_of m t @ [\<lparr>info_id = i, listener = f\<rparr>])"
proof (cases "map_of (event_list m) t")
  case None
  obtain ev where ev: "AddListener p node (Some f) k Event_new = Some (i, ev)" "event_ok (\<lambda>_. 0) ev"
    "contents (listener_list ev) = contents (listener_list Event_new) @ [\<lparr>info_id = i, listener = f\<rparr>]"
    by (rule AddListener_ok[OF event_ok_new, of node i k p f]) (use assms(3) None i in auto)
  let ?m = "m\<lparr>event_list := event_list m @ [(t, object)]\<rparr>"
  have "t \<notin> fst ` set (event_list m)" using None by (simp add: map_of_eq_None_iff)
  then have m: "manager_ok ?m" using assms(1,2) by (simp add: manager_ok_def new_object_def)
  have t: "map_of (event_list ?m) t = Some object" using None by (simp add: map_add_def)
  have "listeners_of ?m u = (if u = t then contents (listener_list (event_objects m object)) else listeners_of m u)" for u
    using None by (auto simp: listeners_of_def map_add_def split: option.split)
  then have "(listeners_of ?m)(t := xs) = (listeners_of m)(t := xs)" for xs by auto
  moreover have "listeners_of m t = []" using None by (simp add: listeners_of_def)
  moreover have "contents (listener_list Event_new) = []" by (simp add: Event_new_def contents_def empty_list_def map_filter_simps)
  ultimately show ?thesis
    using put_object_ok[OF m t ev(2)] ev None by (intro that[of "put_object object ev ?m"]) (auto simp: Manager_AddListener_def)
next
  case (Some q)
  obtain ev where ev: "AddListener p node (Some f) k (event_objects m q) = Some (i, ev)" "event_ok (\<lambda>_. 0) ev"
    "contents (listener_list ev) = contents (listener_list (event_objects m q)) @ [\<lparr>info_id = i, listener = f\<rparr>]"
    by (rule AddListener_ok[OF object_ok[OF assms(1)], of node q i k p f]) (use assms(3) Some i in auto)
  moreover have "listeners_of m t = contents (listener_list (event_objects m q))" using Some by (simp add: listeners_of_def)
  ultimately show ?thesis
    using put_object_ok[OF assms(1) Some ev(2)] Some by (intro that[of "put_object q ev m"]) (auto simp: Manager_AddListener_def)
qed

lemma Manager_RemoveListener_ok:
  assumes "manager_ok m"
  obtains m' where "Manager_RemoveListener t i m = Some m'" "manager_ok m'"
    "listeners_of m' = (listeners_of m)(t := filter (\<lambda>d. info_id d \<noteq> i) (listeners_of m t))"
proof (cases "map_of (event_list m) t")
  case None
  then have "listeners_of m t = []" by (simp add: listeners_of_def)
  then show ?thesis using None assms by (intro that[of m]) (auto simp: Manager_RemoveListener_def)
next
  case (Some p)
  obtain ev where ev: "RemoveListener i (event_objects m p) = Some ev" "event_ok (\<lambda>_. 0) ev"
    "contents (listener_list ev) = filter (\<lambda>d. info_id d \<noteq> i) (contents (listener_list (event_objects m p)))"
    by (rule RemoveListener_contents[OF object_ok[OF assms]])
  moreover have "listeners_of m t = contents (listener_list (event_objects m p))" using Some by (simp add: listeners_of_def)
  ultimately show ?thesis
    using put_object_ok[OF assms Some ev(2)] Some by (intro that[of "put_object p ev m"]) (auto simp: Manager_RemoveListener_def)
qed

text \<open>Taking a type out of the table.\<close>

lemma put_unnamed:
  assumes "manager_ok m" "event_ok (\<lambda>_. 0) ev" "sub = filter P (event_list m)" "p \<notin> snd ` set sub"
  shows "manager_ok (put_object p ev (m\<lparr>event_list := sub\<rparr>))"
    "listeners_of (put_object p ev (m\<lparr>event_list := sub\<rparr>)) t = (case map_of sub t of
       None \<Rightarrow> [] | Some q \<Rightarrow> contents (listener_list (event_objects m q)))"
proof -
  show "manager_ok (put_object p ev (m\<lparr>event_list := sub\<rparr>))"
    using assms by (auto simp: manager_ok_def put_object_def distinct_map_filter)
  have "q \<noteq> p" if "map_of sub t = Some q" for q using that map_of_SomeD assms(4) by force
  then show "listeners_of (put_object p ev (m\<lparr>event_list := sub\<rparr>)) t = (case map_of sub t of
       None \<Rightarrow> [] | Some q \<Rightarrow> contents (listener_list (event_objects m q)))"
    by (auto simp: listeners_of_def put_object_def split: option.split)
qed

lemma RemoveEvent_ok:
  assumes "manager_ok m"
  obtains m' where "RemoveEvent t m = Some m'" "manager_ok m'" "listeners_of m' = (listeners_of m)(t := [])"
proof (cases "map_of (event_list m) t")
  case None
  then have "listeners_of m t = []" by (simp add: listeners_of_def)
  then show ?thesis using None assms by (intro that[of m]) (auto simp: RemoveEvent_def)
next
  case (Some p)
  let ?sub = "filter (\<lambda>(u, _). u \<noteq> t) (event_list m)"
  obtain ev where ev: "RemoveAllListener (event_objects m p) = Some ev" "event_ok (\<lambda>_. 0) ev"
    by (rule RemoveAllListener_ok[OF object_ok[OF assms]])
  have "p \<notin> snd ` set ?sub"
  proof
    assume "p \<in> snd ` set ?sub"
    then obtain u where u: "(u, p) \<in> set (event_list m)" "u \<noteq> t" by auto
    then have "map_of (event_list m) u = Some p" using assms by (simp add: manager_ok_def)
    then show False using objects_apart[OF assms Some, of u p] u(2) by simp
  qed
  note P = put_unnamed[OF assms ev(2) refl this]
  have "listeners_of (put_object p ev (m\<lparr>event_list := ?sub\<rparr>)) u = ((listeners_of m)(t := [])) u" for u
    unfolding P(2) map_of_without by (simp add: listeners_of_def)
  then show ?thesis
    using P(1) Some ev(1) by (intro that[of "put_object p ev (m\<lparr>event_list := ?sub\<rparr>)"]) (auto simp: RemoveEvent_def)
qed

lemma remove_events_ok:
  "manager_ok m \<Longrightarrow> es = event_list m \<Longrightarrow> \<exists>m'. remove_events es m = Some m' \<and> manager_ok m' \<and> event_list m' = []"
proof (induction es arbitrary: m)
  case (Cons e es)
  obtain t p where e: "e = (t, p)" by force
  obtain ev where ev: "RemoveAllListener (event_objects m p) = Some ev" "event_ok (\<lambda>_. 0) ev"
    by (rule RemoveAllListener_ok[OF object_ok[OF Cons.prems(1)]])
  let ?m = "put_object p ev (m\<lparr>event_list := es\<rparr>)"
  have "manager_ok ?m"
    using Cons.prems ev(2) by (cases m) (auto simp: manager_ok_def put_object_def)
  moreover have "es = event_list ?m" by (simp add: put_object_def)
  ultimately show ?case using Cons.IH[of ?m] e ev(1) by simp
qed auto

section \<open>The refinement\<close>

datatype ('t, 'f) manager_op =
    MAdd handle handle handle 't 'f nat
  | MRemove 't event_id
  | MRemoveEvent 't
  | MRemoveAll

definition manager_op :: "('t, 'f) manager_op \<Rightarrow> ('t, 'f) event_manager \<Rightarrow> ('t, 'f) event_manager option" where
  "manager_op op m = (case op of
     MAdd object p node t f k \<Rightarrow> do { (i, m) \<leftarrow> Manager_AddListener object p node t (Some f) k m; Some m }
   | MRemove t i \<Rightarrow> Manager_RemoveListener t i m
   | MRemoveEvent t \<Rightarrow> RemoveEvent t m
   | MRemoveAll \<Rightarrow> RemoveAllEvent m)"

text \<open>The addresses that an operation brings are not in use.\<close>

definition fresh_op :: "('t, 'f) manager_op \<Rightarrow> ('t, 'f) event_manager \<Rightarrow> bool" where
  "fresh_op op m = (case op of
     MAdd object p node t f k \<Rightarrow> new_object object m \<and>
       node \<notin> set (order (listener_list (case map_of (event_list m) t of Some q \<Rightarrow> event_objects m q | None \<Rightarrow> Event_new)))
   | _ \<Rightarrow> True)"

definition map_op :: "('t, 'f) manager_op \<Rightarrow> ('t \<Rightarrow> 'f listener_info list) \<Rightarrow> 't \<Rightarrow> 'f listener_info list" where
  "map_op op ls = (case op of
     MAdd object p node t f k \<Rightarrow> ls(t := ls t @ [\<lparr>info_id = if k \<noteq> 0 then k else p, listener = f\<rparr>])
   | MRemove t i \<Rightarrow> ls(t := filter (\<lambda>d. info_id d \<noteq> i) (ls t))
   | MRemoveEvent t \<Rightarrow> ls(t := [])
   | MRemoveAll \<Rightarrow> (\<lambda>_. []))"

text \<open>C14: a manager implements a map from types to lists of listeners: each operation, with new addresses,
  returns, keeps the invariant and does to the map what it says, and nothing to the listeners of the
  other types.\<close>
theorem manager_refines_map:
  assumes "manager_ok m" "fresh_op op m"
  shows "\<exists>m'. manager_op op m = Some m' \<and> manager_ok m' \<and> listeners_of m' = map_op op (listeners_of m)"
proof (cases op)
  case (MAdd object p node t f k)
  obtain m' where "Manager_AddListener object p node t (Some f) k m = Some (if k \<noteq> 0 then k else p, m')" "manager_ok m'"
    "listeners_of m' = (listeners_of m)(t := listeners_of m t @ [\<lparr>info_id = if k \<noteq> 0 then k else p, listener = f\<rparr>])"
    by (rule Manager_AddListener_ok[OF assms(1) _ _ refl, where object = object and node = node and t = t and k = k and p = p and f = f]) (use assms(2) MAdd in \<open>simp_all add: fresh_op_def\<close>)
  then show ?thesis using MAdd by (simp add: manager_op_def map_op_def)
next
  case (MRemove t i)
  then show ?thesis
    using Manager_RemoveListener_ok[OF assms(1), of t i] by (auto simp: manager_op_def map_op_def)
next
  case (MRemoveEvent t)
  then show ?thesis
    using RemoveEvent_ok[OF assms(1), of t] by (auto simp: manager_op_def map_op_def)
next
  case MRemoveAll
  obtain m' where "remove_events (event_list m) m = Some m'" "manager_ok m'" "event_list m' = []"
    using remove_events_ok[OF assms(1) refl] by blast
  then show ?thesis using MRemoveAll by (auto simp: manager_op_def map_op_def RemoveAllEvent_def listeners_of_def)
qed

theorem manager_refines_map_witness:
  "\<exists>m. manager_op (MAdd 1 2 3 True ''a'' 0) EventManager_new = Some m \<and> manager_ok m \<and>
    listeners_of m True = [\<lparr>info_id = 2, listener = ''a''\<rparr>] \<and> listeners_of m False = []"
proof -
  have "fresh_op (MAdd 1 2 3 True ''a'' 0) EventManager_new"
    by (simp add: fresh_op_def new_object_def EventManager_new_def Event_new_def empty_list_def)
  from manager_refines_map[OF manager_ok_new(1) this] show ?thesis by (auto simp: map_op_def manager_ok_new(2))
qed

section \<open>The classes of simple events\<close>

lemma class_indices_ok:
  "class_indices c cs = (is, c') \<Longrightarrow> map fst is = cs \<and> map snd is = [c..<c'] \<and> c' = c + length cs"
proof (induction cs arbitrary: c c' "is")
  case (Cons x xs)
  obtain js c2 where js: "class_indices (c + 1) xs = (js, c2)" by force
  from Cons.IH[OF js] Cons.prems js show ?case by (auto simp: next_class_index_def upt_conv_Cons)
qed simp

text \<open>Two classes of simple events are two types of the manager.\<close>

lemma class_index_inj:
  assumes "class_indices 0 cs = (is, c')" "distinct cs"
  shows "inj_on (\<lambda>c. the (map_of is c)) (set cs)"
proof (rule inj_onI)
  fix a b assume ab: "a \<in> set cs" "b \<in> set cs" "the (map_of is a) = the (map_of is b)"
  note I = class_indices_ok[OF assms(1)]
  have set: "fst ` set is = set cs" using I by (metis set_map)
  obtain i j where ij: "map_of is a = Some i" "map_of is b = Some j"
    using ab(1,2) unfolding set[symmetric] by (metis map_of_eq_None_iff not_None_eq)
  have "distinct (map snd is)" using I by simp
  then have "inj_on snd (set is)" by (simp add: distinct_map)
  from inj_onD[OF this _ map_of_SomeD[OF ij(1)] map_of_SomeD[OF ij(2)]] show "a = b" using ab(3) ij by simp
qed
end
