(* ===== verification/EcsModel.thy ===== *)
theory EcsModel
  imports EventModel
begin

text \<open>
  Entities and components (include/mzx/ecs.h, src/ecs.cpp): a manager with a list of counted nodes, one for each entity,
  a table of them by identifier, and four events that tell listeners what changes.

  Entities and components are objects on two heaps, named by their addresses; an access to one that was
  deleted is an access to freed memory and does not return. The addresses of new objects are arguments.
  Listeners work on the whole state, of which the manager is a part: the operations are on every extension of the
  record. \<open>run\<close> is what a call of a listener does.
\<close>

section \<open>The state\<close>

record 'd component_obj =
  comp_class :: nat
  comp_data :: 'd

record entity_obj =
  entity_id :: handle
  component_list :: "handle option list"

text \<open>\<open>class_count\<close> is the number of classes of components, which does not change once the program runs.\<close>

record ('f, 'd) ecs =
  class_count :: nat
  entity_heap :: "handle \<rightharpoonup> entity_obj"
  component_heap :: "handle \<rightharpoonup> 'd component_obj"
  entities :: "(handle \<times> handle) list"
  entity_list :: "handle safe_list"
  component_add_event :: "'f event"
  component_remove_event :: "'f event"
  entity_add_event :: "'f event"
  entity_remove_event :: "'f event"

text \<open>What an event passes to its listeners.\<close>

datatype change =
    ComponentAdded handle handle
  | ComponentRemoved handle handle
  | EntityAdded handle
  | EntityRemoved handle

abbreviation put_list :: "handle safe_list \<Rightarrow> ('f, 'd, 'z) ecs_scheme \<Rightarrow> ('f, 'd, 'z) ecs_scheme" where
  "put_list l s \<equiv> s\<lparr>entity_list := l\<rparr>"

section \<open>Components\<close>

text \<open>The slot of a class in the vector of an entity; outside of the vector there is none.\<close>

definition component_at :: "handle \<Rightarrow> nat \<Rightarrow> ('f, 'd, 'z) ecs_scheme \<Rightarrow> handle option option" where
  "component_at e i s = do {
     x \<leftarrow> entity_heap s e;
     check (i < length (component_list x));
     Some (component_list x ! i) }"

definition set_component :: "handle \<Rightarrow> nat \<Rightarrow> handle option \<Rightarrow> ('f, 'd, 'z) ecs_scheme \<Rightarrow> ('f, 'd, 'z) ecs_scheme option" where
  "set_component e i p s = do {
     x \<leftarrow> entity_heap s e;
     check (i < length (component_list x));
     Some (s\<lparr>entity_heap := (entity_heap s)(e \<mapsto> x\<lparr>component_list := (component_list x)[i := p]\<rparr>)\<rparr>) }"

definition new_component :: "handle \<Rightarrow> nat \<Rightarrow> 'd \<Rightarrow> ('f, 'd, 'z) ecs_scheme \<Rightarrow> ('f, 'd, 'z) ecs_scheme" where
  "new_component c i d s = s\<lparr>component_heap := (component_heap s)(c \<mapsto> \<lparr>comp_class = i, comp_data = d\<rparr>)\<rparr>"

definition delete_component :: "handle \<Rightarrow> ('f, 'd, 'z) ecs_scheme \<Rightarrow> ('f, 'd, 'z) ecs_scheme option" where
  "delete_component c s = do {
     x \<leftarrow> component_heap s c;
     Some (s\<lparr>component_heap := (component_heap s)(c := None)\<rparr>) }"

definition OnAddComponent :: "('f, change, ('f, 'd, 'z) ecs_scheme) listeners \<Rightarrow> handle \<Rightarrow> handle
    \<Rightarrow> ('f, 'd, 'z) ecs_scheme \<Rightarrow> ('f, 'd, 'z) ecs_scheme option" where
  "OnAddComponent run e c = Invoke component_add_event (\<lambda>ev s. s\<lparr>component_add_event := ev\<rparr>) run (ComponentAdded e c)"

definition OnRemoveComponent :: "('f, change, ('f, 'd, 'z) ecs_scheme) listeners \<Rightarrow> handle \<Rightarrow> handle
    \<Rightarrow> ('f, 'd, 'z) ecs_scheme \<Rightarrow> ('f, 'd, 'z) ecs_scheme option" where
  "OnRemoveComponent run e c = Invoke component_remove_event (\<lambda>ev s. s\<lparr>component_remove_event := ev\<rparr>) run (ComponentRemoved e c)"

definition GetComponent :: "nat \<Rightarrow> handle \<Rightarrow> ('f, 'd, 'z) ecs_scheme \<Rightarrow> 'd option option" where
  "GetComponent i e s = do {
     c \<leftarrow> component_at e i s;
     (case c of None \<Rightarrow> Some None | Some c \<Rightarrow> do { x \<leftarrow> component_heap s c; Some (Some (comp_data x)) }) }"

definition HasComponent :: "nat \<Rightarrow> handle \<Rightarrow> ('f, 'd, 'z) ecs_scheme \<Rightarrow> bool option" where
  "HasComponent i e s = do { c \<leftarrow> component_at e i s; Some (c \<noteq> None) }"

text \<open>All of some classes, from the first on; there is at least one.\<close>

fun HasComponents :: "nat list \<Rightarrow> handle \<Rightarrow> ('f, 'd, 'z) ecs_scheme \<Rightarrow> bool option" where
  "HasComponents [] e s = None"
| "HasComponents [i] e s = HasComponent i e s"
| "HasComponents (i # is) e s = do { b \<leftarrow> HasComponent i e s; if b then HasComponents is e s else Some False }"

text \<open>What the three ways of adding a component have in common: it is put into its slot, the listeners are told, and the
  slot is read again.\<close>

definition place_component :: "('f, change, ('f, 'd, 'z) ecs_scheme) listeners \<Rightarrow> handle \<Rightarrow> nat \<Rightarrow> handle
    \<Rightarrow> ('f, 'd, 'z) ecs_scheme \<Rightarrow> (handle option \<times> ('f, 'd, 'z) ecs_scheme) option" where
  "place_component run c i e s = do {
     s \<leftarrow> set_component e i (Some c) s;
     s \<leftarrow> OnAddComponent run e c s;
     now \<leftarrow> component_at e i s;
     Some (if now = Some c then Some c else None, s) }"

definition AddComponent :: "('f, change, ('f, 'd, 'z) ecs_scheme) listeners \<Rightarrow> handle \<Rightarrow> nat \<Rightarrow> 'd \<Rightarrow> handle
    \<Rightarrow> ('f, 'd, 'z) ecs_scheme \<Rightarrow> (handle option \<times> ('f, 'd, 'z) ecs_scheme) option" where
  "AddComponent run c i d e s = do {
     old \<leftarrow> component_at e i s;
     check (old = None);
     place_component run c i e (new_component c i d s) }"

definition CopyComponent :: "('f, change, ('f, 'd, 'z) ecs_scheme) listeners \<Rightarrow> handle \<Rightarrow> handle \<Rightarrow> handle
    \<Rightarrow> ('f, 'd, 'z) ecs_scheme \<Rightarrow> (handle option \<times> ('f, 'd, 'z) ecs_scheme) option" where
  "CopyComponent run c original e s = do {
     x \<leftarrow> component_heap s original;
     old \<leftarrow> component_at e (comp_class x) s;
     check (old = None);
     place_component run c (comp_class x) e (new_component c (comp_class x) (comp_data x) s) }"

definition AttachComponent :: "('f, change, ('f, 'd, 'z) ecs_scheme) listeners \<Rightarrow> handle \<Rightarrow> handle
    \<Rightarrow> ('f, 'd, 'z) ecs_scheme \<Rightarrow> (bool \<times> ('f, 'd, 'z) ecs_scheme) option" where
  "AttachComponent run c e s = do {
     x \<leftarrow> component_heap s c;
     old \<leftarrow> component_at e (comp_class x) s;
     check (old = None);
     (r, s) \<leftarrow> place_component run c (comp_class x) e s;
     Some (r \<noteq> None, s) }"

definition DetachComponent :: "('f, change, ('f, 'd, 'z) ecs_scheme) listeners \<Rightarrow> nat \<Rightarrow> handle
    \<Rightarrow> ('f, 'd, 'z) ecs_scheme \<Rightarrow> (handle option \<times> ('f, 'd, 'z) ecs_scheme) option" where
  "DetachComponent run i e s = do {
     c \<leftarrow> component_at e i s;
     (case c of
        None \<Rightarrow> Some (None, s)
      | Some c \<Rightarrow> do {
          s \<leftarrow> set_component e i None s;
          s \<leftarrow> OnRemoveComponent run e c s;
          Some (Some c, s) }) }"

definition RemoveComponent :: "('f, change, ('f, 'd, 'z) ecs_scheme) listeners \<Rightarrow> nat \<Rightarrow> handle
    \<Rightarrow> ('f, 'd, 'z) ecs_scheme \<Rightarrow> ('f, 'd, 'z) ecs_scheme option" where
  "RemoveComponent run i e s = do {
     c \<leftarrow> component_at e i s;
     (case c of
        None \<Rightarrow> Some s
      | Some c \<Rightarrow> do {
          s \<leftarrow> set_component e i None s;
          s \<leftarrow> OnRemoveComponent run e c s;
          delete_component c s }) }"

text \<open>The loop over the slots; the entity is read again in each turn.\<close>

partial_function (option) remove_components :: "('f, change, ('f, 'd, 'z) ecs_scheme) listeners \<Rightarrow> handle \<Rightarrow> nat
    \<Rightarrow> ('f, 'd, 'z) ecs_scheme \<Rightarrow> ('f, 'd, 'z) ecs_scheme option" where
  "remove_components run e i s = do {
     x \<leftarrow> entity_heap s e;
     if i < length (component_list x) then do {
       s \<leftarrow> RemoveComponent run i e s;
       remove_components run e (i + 1) s }
     else Some s }"

declare remove_components.simps [code]

definition RemoveAllComponent :: "('f, change, ('f, 'd, 'z) ecs_scheme) listeners \<Rightarrow> handle
    \<Rightarrow> ('f, 'd, 'z) ecs_scheme \<Rightarrow> ('f, 'd, 'z) ecs_scheme option" where
  "RemoveAllComponent run e s = remove_components run e 0 s"

partial_function (option) foreach_components :: "(handle \<Rightarrow> ('f, 'd, 'z) ecs_scheme \<Rightarrow> (bool \<times> ('f, 'd, 'z) ecs_scheme) option)
    \<Rightarrow> handle \<Rightarrow> nat \<Rightarrow> ('f, 'd, 'z) ecs_scheme \<Rightarrow> ('f, 'd, 'z) ecs_scheme option" where
  "foreach_components cb e i s = do {
     x \<leftarrow> entity_heap s e;
     if i < length (component_list x) then (case component_list x ! i of
         None \<Rightarrow> foreach_components cb e (i + 1) s
       | Some c \<Rightarrow> do {
           (go, s) \<leftarrow> cb c s;
           if go then foreach_components cb e (i + 1) s else Some s })
     else Some s }"

declare foreach_components.simps [code]

definition ForeachComponent :: "(handle \<Rightarrow> ('f, 'd, 'z) ecs_scheme \<Rightarrow> (bool \<times> ('f, 'd, 'z) ecs_scheme) option) option
    \<Rightarrow> handle \<Rightarrow> ('f, 'd, 'z) ecs_scheme \<Rightarrow> ('f, 'd, 'z) ecs_scheme option" where
  "ForeachComponent cb e s = do { f \<leftarrow> cb; foreach_components f e 0 s }"

section \<open>Entities\<close>

definition EntityManager_new :: "nat \<Rightarrow> ('f, 'd) ecs" where
  "EntityManager_new classes = \<lparr>class_count = classes, entity_heap = Map.empty, component_heap = Map.empty, entities = [],
     entity_list = empty_list, component_add_event = Event_new, component_remove_event = Event_new,
     entity_add_event = Event_new, entity_remove_event = Event_new\<rparr>"

definition EntityCount :: "('f, 'd, 'z) ecs_scheme \<Rightarrow> nat" where
  "EntityCount s = length (entities s)"

definition GetEntity :: "handle \<Rightarrow> ('f, 'd, 'z) ecs_scheme \<Rightarrow> handle option option" where
  "GetEntity key s = (case map_of (entities s) key of None \<Rightarrow> Some None | Some n \<Rightarrow> Get n (entity_list s))"

definition erase_entity :: "handle \<Rightarrow> ('f, 'd, 'z) ecs_scheme \<Rightarrow> ('f, 'd, 'z) ecs_scheme" where
  "erase_entity key s = s\<lparr>entities := filter (\<lambda>(k, _). k \<noteq> key) (entities s)\<rparr>"

definition EntityAdd :: "('f, change, ('f, 'd, 'z) ecs_scheme) listeners \<Rightarrow> handle
    \<Rightarrow> ('f, 'd, 'z) ecs_scheme \<Rightarrow> ('f, 'd, 'z) ecs_scheme option" where
  "EntityAdd run e = Invoke entity_add_event (\<lambda>ev s. s\<lparr>entity_add_event := ev\<rparr>) run (EntityAdded e)"

definition EntityRemove :: "('f, change, ('f, 'd, 'z) ecs_scheme) listeners \<Rightarrow> handle
    \<Rightarrow> ('f, 'd, 'z) ecs_scheme \<Rightarrow> ('f, 'd, 'z) ecs_scheme option" where
  "EntityRemove run e = Invoke entity_remove_event (\<lambda>ev s. s\<lparr>entity_remove_event := ev\<rparr>) run (EntityRemoved e)"

text \<open>\<open>e\<close> and \<open>n\<close> are the addresses of the new entity and its node.\<close>

definition new_entity :: "handle \<Rightarrow> handle \<Rightarrow> ('f, 'd, 'z) ecs_scheme \<Rightarrow> ('f, 'd, 'z) ecs_scheme" where
  "new_entity e n s = (erase_entity e s)\<lparr>
     entity_heap := (entity_heap s)(e \<mapsto> \<lparr>entity_id = e, component_list = replicate (class_count s) None\<rparr>),
     entities := entities (erase_entity e s) @ [(e, n)],
     entity_list := push_new n e (entity_list s)\<rparr>"

definition AddEntity :: "('f, change, ('f, 'd, 'z) ecs_scheme) listeners \<Rightarrow> handle \<Rightarrow> handle
    \<Rightarrow> ('f, 'd, 'z) ecs_scheme \<Rightarrow> (handle option \<times> ('f, 'd, 'z) ecs_scheme) option" where
  "AddEntity run e n s = do {
     let s = new_entity e n s;
     l \<leftarrow> IncrRef n (entity_list s);
     s \<leftarrow> EntityAdd run e (put_list l s);
     entity \<leftarrow> Get n (entity_list s);
     l \<leftarrow> DecrRef n (entity_list s);
     Some (entity, put_list l s) }"

text \<open>The destructor of an entity removes its components once more.\<close>

definition delete_entity :: "('f, change, ('f, 'd, 'z) ecs_scheme) listeners \<Rightarrow> handle
    \<Rightarrow> ('f, 'd, 'z) ecs_scheme \<Rightarrow> ('f, 'd, 'z) ecs_scheme option" where
  "delete_entity run e s = do {
     s \<leftarrow> RemoveAllComponent run e s;
     x \<leftarrow> entity_heap s e;
     Some (s\<lparr>entity_heap := (entity_heap s)(e := None)\<rparr>) }"

definition drop_entity :: "('f, change, ('f, 'd, 'z) ecs_scheme) listeners \<Rightarrow> handle
    \<Rightarrow> ('f, 'd, 'z) ecs_scheme \<Rightarrow> ('f, 'd, 'z) ecs_scheme option" where
  "drop_entity run e s = do {
     s \<leftarrow> RemoveAllComponent run e s;
     s \<leftarrow> EntityRemove run e s;
     delete_entity run e s }"

definition RemoveEntity :: "('f, change, ('f, 'd, 'z) ecs_scheme) listeners \<Rightarrow> handle
    \<Rightarrow> ('f, 'd, 'z) ecs_scheme \<Rightarrow> ('f, 'd, 'z) ecs_scheme option" where
  "RemoveEntity run key s = (case map_of (entities s) key of
     None \<Rightarrow> Some s
   | Some n \<Rightarrow> do {
       let s = erase_entity key s;
       (entity, l) \<leftarrow> Detach n (entity_list s);
       let s = put_list l s;
       (case entity of None \<Rightarrow> Some s | Some e \<Rightarrow> drop_entity run e s) })"

definition remove_entity_body :: "('f, change, ('f, 'd, 'z) ecs_scheme) listeners \<Rightarrow> handle
    \<Rightarrow> ('f, 'd, 'z) ecs_scheme \<Rightarrow> (bool \<times> ('f, 'd, 'z) ecs_scheme) option" where
  "remove_entity_body run e s = do {
     x \<leftarrow> entity_heap s e;
     s \<leftarrow> drop_entity run e (erase_entity (entity_id x) s);
     Some (True, s) }"

definition RemoveAllEntity :: "('f, change, ('f, 'd, 'z) ecs_scheme) listeners
    \<Rightarrow> ('f, 'd, 'z) ecs_scheme \<Rightarrow> ('f, 'd, 'z) ecs_scheme option" where
  "RemoveAllEntity run s = safe_foreach entity_list put_list Detach (remove_entity_body run) s"

text \<open>The destructor removes all entities; then the events go, the last one first.\<close>

definition EntityManager_delete :: "('f, change, ('f, 'd, 'z) ecs_scheme) listeners
    \<Rightarrow> ('f, 'd, 'z) ecs_scheme \<Rightarrow> ('f, 'd, 'z) ecs_scheme option" where
  "EntityManager_delete run s = do {
     s \<leftarrow> RemoveAllEntity run s;
     ev \<leftarrow> Event_delete (entity_remove_event s);
     let s = s\<lparr>entity_remove_event := ev\<rparr>;
     ev \<leftarrow> Event_delete (entity_add_event s);
     let s = s\<lparr>entity_add_event := ev\<rparr>;
     ev \<leftarrow> Event_delete (component_remove_event s);
     let s = s\<lparr>component_remove_event := ev\<rparr>;
     ev \<leftarrow> Event_delete (component_add_event s);
     Some (s\<lparr>component_add_event := ev\<rparr>) }"

definition ForeachEntity :: "(handle \<Rightarrow> ('f, 'd, 'z) ecs_scheme \<Rightarrow> (bool \<times> ('f, 'd, 'z) ecs_scheme) option) option
    \<Rightarrow> ('f, 'd, 'z) ecs_scheme \<Rightarrow> ('f, 'd, 'z) ecs_scheme option" where
  "ForeachEntity cb s = do { f \<leftarrow> cb; safe_foreach entity_list put_list fetch_get f s }"

text \<open>The entities that have all of some classes.\<close>

definition ForeachEntityWith :: "nat list \<Rightarrow> (handle \<Rightarrow> ('f, 'd, 'z) ecs_scheme \<Rightarrow> (bool \<times> ('f, 'd, 'z) ecs_scheme) option) option
    \<Rightarrow> ('f, 'd, 'z) ecs_scheme \<Rightarrow> ('f, 'd, 'z) ecs_scheme option" where
  "ForeachEntityWith is cb s = do {
     f \<leftarrow> cb;
     ForeachEntity (Some (\<lambda>e s. do { b \<leftarrow> HasComponents is e s; if b then f e s else Some (True, s) })) s }"

end
