(* ===== verification/EcsInv.thy ===== *)
theory EcsInv
  imports EcsModel Events
begin

text \<open>
  The invariant of the entity manager, while any number of its operations are running: which nodes they hold, which
  entities they are about to delete, and which components. The contract of the listeners, and that every
  operation keeps the invariant.
\<close>

section \<open>The invariant\<close>

datatype which_event = OnComponentAdd | OnComponentRemove | OnEntityAdd | OnEntityRemove

fun event_at :: "which_event \<Rightarrow> ('f, 'd, 'z) ecs_scheme \<Rightarrow> 'f event" where
  "event_at OnComponentAdd s = component_add_event s"
| "event_at OnComponentRemove s = component_remove_event s"
| "event_at OnEntityAdd s = entity_add_event s"
| "event_at OnEntityRemove s = entity_remove_event s"

fun put_at :: "which_event \<Rightarrow> 'f event \<Rightarrow> ('f, 'd, 'z) ecs_scheme \<Rightarrow> ('f, 'd, 'z) ecs_scheme" where
  "put_at OnComponentAdd ev s = s\<lparr>component_add_event := ev\<rparr>"
| "put_at OnComponentRemove ev s = s\<lparr>component_remove_event := ev\<rparr>"
| "put_at OnEntityAdd ev s = s\<lparr>entity_add_event := ev\<rparr>"
| "put_at OnEntityRemove ev s = s\<lparr>entity_remove_event := ev\<rparr>"

lemma put_at_simps [simp]:
  "entity_heap (put_at p ev s) = entity_heap s" "component_heap (put_at p ev s) = component_heap s"
  "entities (put_at p ev s) = entities s" "entity_list (put_at p ev s) = entity_list s" "class_count (put_at p ev s) = class_count s"
  "event_at q (put_at p ev s) = (if q = p then ev else event_at q s)"
  by (cases p; cases q; simp)+

text \<open>What the operations that are running have: holds of the nodes of each list, entities and components that are out of
  the tables and that they will delete.\<close>

record frames =
  node_holds :: "handle \<Rightarrow> nat"
  event_holds :: "which_event \<Rightarrow> handle \<Rightarrow> nat"
  dying :: "handle set"
  dropped :: "handle set"

definition no_frames :: frames where
  "no_frames = \<lparr>node_holds = \<lambda>_. 0, event_holds = \<lambda>_ _. 0, dying = {}, dropped = {}\<rparr>"

definition owns :: "('f, 'd, 'z) ecs_scheme \<Rightarrow> handle \<Rightarrow> nat \<Rightarrow> handle \<Rightarrow> bool" where
  "owns s e i c \<longleftrightarrow> component_at e i s = Some (Some c)"

text \<open>The table names the nodes that have an entity; the entities that are alive are those in the table and the dying
  ones.\<close>

definition table_ok :: "handle set \<Rightarrow> ('f, 'd, 'z) ecs_scheme \<Rightarrow> bool" where
  "table_ok D s \<longleftrightarrow> distinct (map fst (entities s)) \<and>
     set (entities s) = {(e, n). datum (entity_list s) n = Some e} \<and>
     dom (entity_heap s) = fst ` set (entities s) \<union> D \<and> fst ` set (entities s) \<inter> D = {}"

text \<open>A component has one owner, at the slot of its class.\<close>

definition owners_ok :: "handle set \<Rightarrow> ('f, 'd, 'z) ecs_scheme \<Rightarrow> bool" where
  "owners_ok C s \<longleftrightarrow> (\<forall>e x. entity_heap s e = Some x \<longrightarrow> entity_id x = e \<and> length (component_list x) = class_count s) \<and>
     (\<forall>e i c. owns s e i c \<longrightarrow> c \<notin> C \<and> (\<exists>k. component_heap s c = Some k \<and> comp_class k = i)) \<and>
     (\<forall>e i e' i' c. owns s e i c \<longrightarrow> owns s e' i' c \<longrightarrow> e = e' \<and> i = i') \<and> C \<subseteq> dom (component_heap s)"

definition ecs_ok :: "frames \<Rightarrow> ('f, 'd, 'z) ecs_scheme \<Rightarrow> bool" where
  "ecs_ok F s \<longleftrightarrow> safe_ok (node_holds F) (entity_list s) \<and> (\<forall>p. event_ok (event_holds F p) (event_at p s)) \<and>
     table_ok (dying F) s \<and> owners_ok (dropped F) s"

lemma ecs_okD:
  assumes "ecs_ok F s"
  shows "safe_ok (node_holds F) (entity_list s)" "event_ok (event_holds F p) (event_at p s)"
    "table_ok (dying F) s" "owners_ok (dropped F) s"
  using assms by (simp_all add: ecs_ok_def)

lemma ecs_okI:
  "safe_ok (node_holds F) (entity_list s) \<Longrightarrow> (\<And>p. event_ok (event_holds F p) (event_at p s)) \<Longrightarrow>
   table_ok (dying F) s \<Longrightarrow> owners_ok (dropped F) s \<Longrightarrow> ecs_ok F s"
  by (simp add: ecs_ok_def)

lemma owns_cong: "entity_heap s' = entity_heap s \<Longrightarrow> owns s' = owns s"
  by (simp add: owns_def component_at_def fun_eq_iff)

lemma owners_cong:
  "entity_heap s' = entity_heap s \<Longrightarrow> component_heap s' = component_heap s \<Longrightarrow> class_count s' = class_count s \<Longrightarrow>
   owners_ok C s' = owners_ok C s"
  by (simp add: owners_ok_def owns_cong[of s' s])

lemma table_cong:
  "dom (entity_heap s') = dom (entity_heap s) \<Longrightarrow> entities s' = entities s \<Longrightarrow> datum (entity_list s') = datum (entity_list s) \<Longrightarrow>
   table_ok D s' = table_ok D s"
  unfolding table_ok_def by (simp only:)

lemma owns_iff: "owns s e i c \<longleftrightarrow> (\<exists>x. entity_heap s e = Some x \<and> i < length (component_list x) \<and> component_list x ! i = Some c)"
  by (auto simp: owns_def component_at_def check_def Option.bind_eq_Some_conv split: if_splits)

lemma ecs_ok_new: "ecs_ok no_frames (EntityManager_new classes)"
proof (rule ecs_okI)
  show "event_ok (event_holds no_frames p) (event_at p (EntityManager_new classes))" for p
    using event_ok_new by (cases p) (simp_all add: EntityManager_new_def no_frames_def)
qed (use safe_ok_empty in \<open>auto simp: EntityManager_new_def no_frames_def table_ok_def owners_ok_def owns_iff datum_def empty_list_def safe_ok_def\<close>)

text \<open>Changing an event, and changing the list of nodes but not their data.\<close>

lemma ecs_ok_put_at:
  assumes "ecs_ok F s" "event_ok h ev"
  shows "ecs_ok (F\<lparr>event_holds := (event_holds F)(p := h)\<rparr>) (put_at p ev s)"
  using assms by (auto simp: ecs_ok_def table_cong[of "put_at p ev s" s] owners_cong[of "put_at p ev s" s])

lemma ecs_ok_put_list:
  assumes "ecs_ok F s" "safe_ok h l" "datum l = datum (entity_list s)"
  shows "ecs_ok (F\<lparr>node_holds := h\<rparr>) (put_list l s)"
proof (rule ecs_okI)
  show "event_ok (event_holds (F\<lparr>node_holds := h\<rparr>) p) (event_at p (put_list l s))" for p
    using ecs_okD(2)[OF assms(1), of p] by (cases p) simp_all
  show "table_ok (dying (F\<lparr>node_holds := h\<rparr>)) (put_list l s)"
    using ecs_okD(3)[OF assms(1)] table_cong[of "put_list l s" s] assms(3) by simp
  show "owners_ok (dropped (F\<lparr>node_holds := h\<rparr>)) (put_list l s)"
    using ecs_okD(4)[OF assms(1)] owners_cong[of "put_list l s" s] by simp
qed (use assms(2) in simp)

lemma frames_same [simp]: "F\<lparr>event_holds := (event_holds F)(p := event_holds F p)\<rparr> = F"
  by simp

section \<open>The contract of the listeners\<close>

locale ecs_client =
  fixes run :: "('f, change, ('f, 'd, 'z) ecs_scheme) listeners"
  assumes run_keeps: "ecs_ok F s \<Longrightarrow> run f a s = Some s' \<Longrightarrow> ecs_ok F s'"

lemma put_listeners_at: "put_listeners (event_at p) (put_at p) l s = put_at p ((event_at p s)\<lparr>listener_list := l\<rparr>) s"
  by (simp add: put_listeners_def)

lemma ecs_ok_listeners:
  assumes "ecs_ok F s" "safe_ok h l" "datum l = info (event_at p s)"
  shows "ecs_ok (F\<lparr>event_holds := (event_holds F)(p := h)\<rparr>) (put_listeners (event_at p) (put_at p) l s)"
  unfolding put_listeners_at
  by (rule ecs_ok_put_at[OF assms(1)]) (use assms(2,3) event_okD(2)[OF ecs_okD(2)[OF assms(1)]] in \<open>auto simp: event_ok_def intro: index_ok_datum\<close>)

sublocale ecs_client \<subseteq> at_event: safe_loop "\<lambda>s. listener_list (event_at p s)" "put_listeners (event_at p) (put_at p)"
    "\<lambda>h s. ecs_ok (F\<lparr>event_holds := (event_holds F)(p := h)\<rparr>) s" fetch_get "listener_body run arg" for p F arg
proof
  fix l s
  show "listener_list (event_at p (put_listeners (event_at p) (put_at p) l s)) = l" by (simp add: put_listeners_at)
next
  fix h s n l
  let ?F = "\<lambda>h. F\<lparr>event_holds := (event_holds F)(p := h)\<rparr>"
  assume ok: "ecs_ok (?F h) s"
  have safe: "safe_ok h (listener_list (event_at p s))" using event_okD(1)[OF ecs_okD(2)[OF ok, of p]] by simp
  then show "safe_ok h (listener_list (event_at p s))" .
  assume l: "IncrRef n (listener_list (event_at p s)) = Some l"
  then have "n \<in> set (order (listener_list (event_at p s)))"
    using safe_okD(3)[OF safe] by (auto simp: IncrRef_def Option.bind_eq_Some_conv)
  then obtain l' where "IncrRef n (listener_list (event_at p s)) = Some l'" "safe_ok (hold n h) l'"
    "datum l' = datum (listener_list (event_at p s))" by (rule IncrRef_ok[OF safe])
  then show "ecs_ok (?F (hold n h)) (put_listeners (event_at p) (put_at p) l s)"
    using ecs_ok_listeners[OF ok, of "hold n h" l p] l by simp
next
  fix h n s l
  let ?F = "\<lambda>h. F\<lparr>event_holds := (event_holds F)(p := h)\<rparr>"
  assume ok: "ecs_ok (?F (hold n h)) s" and l: "DecrRef n (listener_list (event_at p s)) = Some l"
  have "safe_ok (hold n h) (listener_list (event_at p s))" using event_okD(1)[OF ecs_okD(2)[OF ok, of p]] by simp
  then obtain l' where "DecrRef n (listener_list (event_at p s)) = Some l'" "safe_ok h l'"
    "datum l' = datum (listener_list (event_at p s))" by (rule DecrRef_ok)
  then show "ecs_ok (?F h) (put_listeners (event_at p) (put_at p) l s)"
    using ecs_ok_listeners[OF ok, of h l p] l by simp
next
  fix h n l s
  let ?F = "F\<lparr>event_holds := (event_holds F)(p := hold n h)\<rparr>"
  assume ok: "ecs_ok ?F (put_listeners (event_at p) (put_at p) l s)"
  have "safe_ok (hold n h) l" using event_okD(1)[OF ecs_okD(2)[OF ok, of p]] by (simp add: put_listeners_at)
  then have "n \<in> set (order l)" using safe_okD(4)[of "hold n h" l n] by simp
  then obtain x where "cells l n = Some x" using safe_okD(3)[OF \<open>safe_ok (hold n h) l\<close>] by blast
  then show "\<exists>d l'. fetch_get n l = Some (d, l') \<and> order l' = order l \<and>
      (d = None \<longrightarrow> ecs_ok ?F (put_listeners (event_at p) (put_at p) l' s))"
    using ok by (simp add: fetch_get_def Get_def)
next
  fix h n l s d l' go s'
  let ?F = "F\<lparr>event_holds := (event_holds F)(p := hold n h)\<rparr>"
  assume ok: "ecs_ok ?F (put_listeners (event_at p) (put_at p) l s)" and d: "fetch_get n l = Some (Some d, l')"
    and r: "listener_body run arg d (put_listeners (event_at p) (put_at p) l' s) = Some (go, s')"
  have "l' = l" using d by (auto simp: fetch_get_def Get_def Option.bind_eq_Some_conv)
  moreover have "run (listener d) arg (put_listeners (event_at p) (put_at p) l' s) = Some s'"
    using r by (auto simp: listener_body_def Option.bind_eq_Some_conv)
  ultimately show "ecs_ok ?F s'" using run_keeps ok by simp
qed

lemma event_at_fun:
  "component_add_event = event_at OnComponentAdd" "component_remove_event = event_at OnComponentRemove"
  "entity_add_event = event_at OnEntityAdd" "entity_remove_event = event_at OnEntityRemove"
  "(\<lambda>ev s. s\<lparr>component_add_event := ev\<rparr>) = put_at OnComponentAdd"
  "(\<lambda>ev s. s\<lparr>component_remove_event := ev\<rparr>) = put_at OnComponentRemove"
  "(\<lambda>ev s. s\<lparr>entity_add_event := ev\<rparr>) = put_at OnEntityAdd"
  "(\<lambda>ev s. s\<lparr>entity_remove_event := ev\<rparr>) = put_at OnEntityRemove"
  by (simp_all add: fun_eq_iff)

lemmas invoke_defs = OnAddComponent_def OnRemoveComponent_def EntityAdd_def EntityRemove_def event_at_fun

section \<open>Objects that come and go\<close>

lemma ecs_ok_slot:
  assumes "ecs_ok F s" "entity_heap s e = Some x" "i < length (component_list x)"
    and "s' = s\<lparr>entity_heap := (entity_heap s)(e \<mapsto> x\<lparr>component_list := (component_list x)[i := p]\<rparr>)\<rparr>"
    and "\<And>c. p = Some c \<Longrightarrow> c \<notin> C \<and> (\<exists>k. component_heap s c = Some k \<and> comp_class k = i) \<and> (\<forall>e i. \<not> owns s e i c)"
    and "C \<subseteq> dom (component_heap s)" "\<And>e' i' c. owns s e' i' c \<Longrightarrow> (e', i') \<noteq> (e, i) \<Longrightarrow> c \<notin> C"
  shows "ecs_ok (F\<lparr>dropped := C\<rparr>) s'"
proof (rule ecs_okI)
  note O = ecs_okD(4)[OF assms(1), unfolded owners_ok_def]
  have own: "owns s' e' i' c \<longleftrightarrow> (if (e', i') = (e, i) then p = Some c else owns s e' i' c)" for e' i' c
    using assms(2,3) by (auto simp: owns_iff assms(4) nth_list_update)
  show "event_ok (event_holds (F\<lparr>dropped := C\<rparr>) q) (event_at q s')" for q
    using ecs_okD(2)[OF assms(1), of q] by (cases q) (simp_all add: assms(4))
  show "table_ok (dying (F\<lparr>dropped := C\<rparr>)) s'"
    using ecs_okD(3)[OF assms(1)] assms(2) table_cong[of s' s] by (simp add: assms(4) insert_absorb domI)
  have "\<forall>e x. entity_heap s' e = Some x \<longrightarrow> entity_id x = e \<and> length (component_list x) = class_count s'"
    using O assms(2) by (auto simp: assms(4))
  moreover have "component_heap s' = component_heap s" by (simp add: assms(4))
  moreover have "c \<notin> C \<and> (\<exists>k. component_heap s c = Some k \<and> comp_class k = i')" if o: "owns s' e' i' c" for e' i' c
  proof (cases "(e', i') = (e, i)")
    case True
    then show ?thesis using o own[of e' i' c] assms(5)[of c] by simp
  next
    case False
    then have "owns s e' i' c" using o own[of e' i' c] by (simp split: if_splits)
    then show ?thesis using O assms(7)[OF _ False] by blast
  qed
  moreover have "a = b \<and> j = k" if o: "owns s' a j c" "owns s' b k c" for a b j k c
  proof (cases "(a, j) = (e, i) \<or> (b, k) = (e, i)")
    case True
    then have "p = Some c" using o own[of a j c] own[of b k c] by auto
    then have "\<not> owns s a j c" "\<not> owns s b k c" using assms(5)[of c] by blast+
    then show ?thesis using o own[of a j c] own[of b k c] by (simp split: if_splits)
  next
    case False
    then have "owns s a j c" "owns s b k c" using o own[of a j c] own[of b k c] by simp_all
    then show ?thesis using O by blast
  qed
  ultimately show "owners_ok (dropped (F\<lparr>dropped := C\<rparr>)) s'" using assms(6) unfolding owners_ok_def by simp
qed (use ecs_okD(1)[OF assms(1)] assms(4) in simp)

lemma ecs_ok_new_component:
  assumes "ecs_ok F s" "component_heap s c = None"
  shows "ecs_ok F (new_component c i d s)" "\<not> owns (new_component c i d s) e j c"
proof -
  let ?s = "new_component c i d s"
  note O = ecs_okD(4)[OF assms(1), unfolded owners_ok_def]
  have own: "owns ?s = owns s" by (rule owns_cong) (simp add: new_component_def)
  have none: "\<not> owns s e j c" for e j using O assms(2) by fastforce
  then show "\<not> owns ?s e j c" by (simp add: own)
  show "ecs_ok F ?s"
  proof (rule ecs_okI)
    show "event_ok (event_holds F q) (event_at q ?s)" for q
      using ecs_okD(2)[OF assms(1), of q] by (cases q) (simp_all add: new_component_def)
    show "table_ok (dying F) ?s"
      using ecs_okD(3)[OF assms(1)] table_cong[of ?s s] by (simp add: new_component_def)
    have "\<forall>e i c'. owns s e i c' \<longrightarrow> c' \<notin> dropped F \<and> (\<exists>k. component_heap ?s c' = Some k \<and> comp_class k = i)"
      using O none by (auto simp: new_component_def)
    then show "owners_ok (dropped F) ?s" using O unfolding owners_ok_def own by (auto simp: new_component_def)
  qed (use ecs_okD(1)[OF assms(1)] in \<open>simp add: new_component_def\<close>)
qed

lemma ecs_ok_delete_component:
  assumes "ecs_ok (F\<lparr>dropped := insert c C\<rparr>) s" "delete_component c s = Some s'" "c \<notin> C"
  shows "ecs_ok (F\<lparr>dropped := C\<rparr>) s'"
proof -
  note O = ecs_okD(4)[OF assms(1), unfolded owners_ok_def, simplified]
  have s': "s' = s\<lparr>component_heap := (component_heap s)(c := None)\<rparr>"
    using assms(2) by (auto simp: delete_component_def Option.bind_eq_Some_conv)
  have own: "owns s' = owns s" by (rule owns_cong) (simp add: s')
  show ?thesis
  proof (rule ecs_okI)
    show "event_ok (event_holds (F\<lparr>dropped := C\<rparr>) q) (event_at q s')" for q
      using ecs_okD(2)[OF assms(1), of q] by (cases q) (simp_all add: s')
    show "table_ok (dying (F\<lparr>dropped := C\<rparr>)) s'"
      using ecs_okD(3)[OF assms(1)] table_cong[of s' s] by (simp add: s')
    have "\<forall>e i c'. owns s e i c' \<longrightarrow> c' \<notin> C \<and> (\<exists>k. component_heap s' c' = Some k \<and> comp_class k = i)"
      using O by (auto simp: s')
    moreover have "C \<subseteq> dom (component_heap s')" using O assms(3) by (auto simp: s')
    ultimately show "owners_ok (dropped (F\<lparr>dropped := C\<rparr>)) s'" using O unfolding owners_ok_def own by (auto simp: s')
  qed (use ecs_okD(1)[OF assms(1)] in \<open>simp add: s'\<close>)
qed

section \<open>Components\<close>

lemma set_component_eq:
  "set_component e i p s = Some s' \<longleftrightarrow> (\<exists>x. entity_heap s e = Some x \<and> i < length (component_list x) \<and>
     s' = s\<lparr>entity_heap := (entity_heap s)(e \<mapsto> x\<lparr>component_list := (component_list x)[i := p]\<rparr>)\<rparr>)"
  by (auto simp: set_component_def check_def Option.bind_eq_Some_conv split: if_splits)

lemma owned_not_dropped: "ecs_ok F s \<Longrightarrow> owns s e i c \<Longrightarrow> c \<notin> dropped F"
  using ecs_okD(4)[unfolded owners_ok_def] by blast

lemma dropped_not_owned: "ecs_ok F s \<Longrightarrow> c \<in> dropped F \<Longrightarrow> \<not> owns s e i c"
  using owned_not_dropped by blast

text \<open>Taking a component out of its slot; the operation that does it has to delete it, or give it away.\<close>

lemma ecs_ok_take:
  assumes "ecs_ok F s" "component_at e i s = Some (Some c)" "set_component e i None s = Some s'"
  shows "ecs_ok (F\<lparr>dropped := insert c (dropped F)\<rparr>) s'" "c \<notin> dropped F"
proof -
  note O = ecs_okD(4)[OF assms(1), unfolded owners_ok_def]
  have c: "owns s e i c" using assms(2) by (simp add: owns_def)
  then show "c \<notin> dropped F" by (rule owned_not_dropped[OF assms(1)])
  obtain x where x: "entity_heap s e = Some x" "i < length (component_list x)"
    "s' = s\<lparr>entity_heap := (entity_heap s)(e \<mapsto> x\<lparr>component_list := (component_list x)[i := None]\<rparr>)\<rparr>"
    using assms(3) by (auto simp: set_component_eq)
  show "ecs_ok (F\<lparr>dropped := insert c (dropped F)\<rparr>) s'"
  proof (rule ecs_ok_slot[OF assms(1) x])
    show "insert c (dropped F) \<subseteq> dom (component_heap s)" using O c by blast
    show "c' \<notin> insert c (dropped F)" if "owns s e' i' c'" "(e', i') \<noteq> (e, i)" for e' i' c'
      using O c that by blast
  qed simp
qed

lemma ecs_ok_place:
  assumes "ecs_ok F s" "set_component e i (Some c) s = Some s'" "component_heap s c = Some k" "comp_class k = i"
    "\<And>e i. \<not> owns s e i c"
  shows "ecs_ok (F\<lparr>dropped := dropped F - {c}\<rparr>) s'"
proof -
  note O = ecs_okD(4)[OF assms(1), unfolded owners_ok_def]
  obtain x where x: "entity_heap s e = Some x" "i < length (component_list x)"
    "s' = s\<lparr>entity_heap := (entity_heap s)(e \<mapsto> x\<lparr>component_list := (component_list x)[i := Some c]\<rparr>)\<rparr>"
    using assms(2) by (auto simp: set_component_eq)
  show ?thesis
  proof (rule ecs_ok_slot[OF assms(1) x])
    show "c' \<notin> dropped F - {c} \<and> (\<exists>k. component_heap s c' = Some k \<and> comp_class k = i) \<and> (\<forall>e i. \<not> owns s e i c')"
      if "Some c = Some c'" for c' using that assms(3-5) by auto
    show "dropped F - {c} \<subseteq> dom (component_heap s)" using O by blast
    show "c' \<notin> dropped F - {c}" if "owns s e' i' c'" for e' i' c' using O that by blast
  qed
qed

context ecs_client
begin

lemma Invoke_keeps: "Invoke (event_at p) (put_at p) run a s = Some s' \<Longrightarrow> ecs_ok F s \<Longrightarrow> ecs_ok F s'"
  using at_event.foreach_keeps[where p = p and h = "event_holds F p" and F = F and s = s and s' = s'] by (simp add: Invoke_def)

lemmas told_keeps = Invoke_keeps[of OnComponentAdd "ComponentAdded e c" for e c, folded event_at_fun, folded OnAddComponent_def]
  Invoke_keeps[of OnComponentRemove "ComponentRemoved e c" for e c, folded event_at_fun, folded OnRemoveComponent_def]
  Invoke_keeps[of OnEntityAdd "EntityAdded e" for e, folded event_at_fun, folded EntityAdd_def]
  Invoke_keeps[of OnEntityRemove "EntityRemoved e" for e, folded event_at_fun, folded EntityRemove_def]

lemma place_component_keeps:
  assumes "ecs_ok F s" "place_component run c i e s = Some (r, s')" "component_heap s c = Some k" "comp_class k = i"
    "\<And>e i. \<not> owns s e i c"
  shows "ecs_ok (F\<lparr>dropped := dropped F - {c}\<rparr>) s'"
proof -
  obtain s1 where s1: "set_component e i (Some c) s = Some s1" "OnAddComponent run e c s1 = Some s'"
    using assms(2) by (auto simp: place_component_def Option.bind_eq_Some_conv)
  from told_keeps(1)[OF s1(2) ecs_ok_place[OF assms(1) s1(1) assms(3-5)]] show ?thesis .
qed

lemma place_new_keeps:
  assumes "ecs_ok F s" "component_heap s c = None" "place_component run c i e (new_component c i d s) = Some (r, s')"
  shows "ecs_ok F s'"
proof -
  note N = ecs_ok_new_component[OF assms(1,2), of i d]
  have "c \<notin> dropped F" using ecs_okD(4)[OF assms(1), unfolded owners_ok_def] assms(2) by blast
  then have "F\<lparr>dropped := dropped F - {c}\<rparr> = F" by simp
  then show ?thesis
    using place_component_keeps[OF N(1) assms(3), of "\<lparr>comp_class = i, comp_data = d\<rparr>"] N(2) by (simp add: new_component_def)
qed

lemma AddComponent_keeps:
  "ecs_ok F s \<Longrightarrow> component_heap s c = None \<Longrightarrow> AddComponent run c i d e s = Some (r, s') \<Longrightarrow> ecs_ok F s'"
  using place_new_keeps by (auto simp: AddComponent_def check_def Option.bind_eq_Some_conv split: if_splits)

lemma CopyComponent_keeps:
  "ecs_ok F s \<Longrightarrow> component_heap s c = None \<Longrightarrow> CopyComponent run c original e s = Some (r, s') \<Longrightarrow> ecs_ok F s'"
  using place_new_keeps by (auto simp: CopyComponent_def check_def Option.bind_eq_Some_conv split: if_splits)

text \<open>A component that is attached was detached before: nobody else deletes it.\<close>

lemma AttachComponent_keeps:
  assumes "ecs_ok F s" "c \<in> dropped F" "AttachComponent run c e s = Some (r, s')"
  shows "ecs_ok (F\<lparr>dropped := dropped F - {c}\<rparr>) s'"
proof -
  obtain k r' where k: "component_heap s c = Some k" "place_component run c (comp_class k) e s = Some (r', s')"
    using assms(3) by (auto simp: AttachComponent_def check_def Option.bind_eq_Some_conv split: if_splits)
  show ?thesis by (rule place_component_keeps[OF assms(1) k(2,1) refl dropped_not_owned[OF assms(1,2)]])
qed

lemma DetachComponent_keeps:
  assumes "ecs_ok F s" "DetachComponent run i e s = Some (r, s')"
  shows "case r of None \<Rightarrow> ecs_ok F s' | Some c \<Rightarrow> ecs_ok (F\<lparr>dropped := insert c (dropped F)\<rparr>) s' \<and> c \<notin> dropped F"
proof -
  obtain p where p: "component_at e i s = Some p"
    "(case p of None \<Rightarrow> Some (None, s) | Some c \<Rightarrow> set_component e i None s \<bind> (\<lambda>s. OnRemoveComponent run e c s \<bind> (\<lambda>s. Some (Some c, s)))) = Some (r, s')"
    using assms(2) by (auto simp: DetachComponent_def Option.bind_eq_Some_conv)
  show ?thesis
  proof (cases p)
    case None
    then show ?thesis using p assms(1) by simp
  next
    case (Some c)
    then obtain s1 where s1: "set_component e i None s = Some s1" "OnRemoveComponent run e c s1 = Some s'" "r = Some c"
      using p by (auto simp: Option.bind_eq_Some_conv)
    note T = ecs_ok_take[OF assms(1) p(1)[unfolded Some] s1(1)]
    from told_keeps(2)[OF s1(2) T(1)] T(2) s1(3) show ?thesis by simp
  qed
qed

lemma RemoveComponent_keeps:
  assumes "ecs_ok F s" "RemoveComponent run i e s = Some s'"
  shows "ecs_ok F s'"
proof -
  obtain p where p: "component_at e i s = Some p"
    "(case p of None \<Rightarrow> Some s | Some c \<Rightarrow> set_component e i None s \<bind> (\<lambda>s. OnRemoveComponent run e c s \<bind> (\<lambda>s. delete_component c s))) = Some s'"
    using assms(2) by (auto simp: RemoveComponent_def Option.bind_eq_Some_conv)
  show ?thesis
  proof (cases p)
    case None
    then show ?thesis using p assms(1) by simp
  next
    case (Some c)
    then obtain s1 s2 where s1: "set_component e i None s = Some s1" "OnRemoveComponent run e c s1 = Some s2" "delete_component c s2 = Some s'"
      using p by (auto simp: Option.bind_eq_Some_conv)
    note T = ecs_ok_take[OF assms(1) p(1)[unfolded Some] s1(1)]
    from ecs_ok_delete_component[OF told_keeps(2)[OF s1(2) T(1)] s1(3) T(2)] show ?thesis by simp
  qed
qed

lemma remove_components_keeps:
  assumes "remove_components run e i s = Some s'" "ecs_ok F s"
  shows "ecs_ok F s'"
proof -
  have "run = run \<longrightarrow> ecs_ok F s \<longrightarrow> ecs_ok F s'"
  proof (rule remove_components.raw_induct[where P = "\<lambda>r e i s s'. r = run \<longrightarrow> ecs_ok F s \<longrightarrow> ecs_ok F s'", OF _ assms(1)], intro impI)
    fix rec r e i s s'
    assume IH: "\<And>r e i s s'. rec r e i s = Some s' \<Longrightarrow> r = run \<longrightarrow> ecs_ok F s \<longrightarrow> ecs_ok F s'"
      and b: "entity_heap s e \<bind> (\<lambda>x. if i < length (component_list x) then RemoveComponent r i e s \<bind> rec r e (i + 1) else Some s) = Some s'"
      and r: "r = run" and ok: "ecs_ok F s"
    obtain x where x: "entity_heap s e = Some x"
      "(if i < length (component_list x) then RemoveComponent r i e s \<bind> rec r e (i + 1) else Some s) = Some s'"
      using b by (auto simp: Option.bind_eq_Some_conv)
    show "ecs_ok F s'"
    proof (cases "i < length (component_list x)")
      case True
      then obtain s1 where s1: "RemoveComponent run i e s = Some s1" "rec run e (i + 1) s1 = Some s'"
        using x(2) r by (auto simp: Option.bind_eq_Some_conv)
      show ?thesis using IH[OF s1(2)] RemoveComponent_keeps[OF ok s1(1)] by simp
    next
      case False
      then show ?thesis using x(2) ok by simp
    qed
  qed
  then show ?thesis using assms(2) by simp
qed

lemma RemoveAllComponent_keeps: "RemoveAllComponent run e s = Some s' \<Longrightarrow> ecs_ok F s \<Longrightarrow> ecs_ok F s'"
  using remove_components_keeps by (auto simp: RemoveAllComponent_def)

end

end
