(* ===== verification/EcsEntities.thy ===== *)
theory EcsEntities
  imports EcsInv
begin

text \<open>
  Operations on entities keep the invariant of the manager, whatever their listeners do within their contract: adding,
  removing one, removing all.
\<close>

section \<open>Entities\<close>

lemma table_okD:
  assumes "table_ok D s"
  shows "distinct (map fst (entities s))" "set (entities s) = {(e, n). datum (entity_list s) n = Some e}"
    "dom (entity_heap s) = fst ` set (entities s) \<union> D" "fst ` set (entities s) \<inter> D = {}"
  using assms unfolding table_ok_def by blast+

lemma table_okI:
  assumes "distinct (map fst (entities s))" "set (entities s) = {(e, n). datum (entity_list s) n = Some e}"
    "fst ` set (entities s) = E" "dom (entity_heap s) = E \<union> D" "E \<inter> D = {}"
  shows "table_ok D s"
  unfolding table_ok_def assms(3) by (intro conjI assms)

lemma ecs_ok_free:
  assumes "ecs_ok F s" "e \<in> dying F"
  shows "ecs_ok (F\<lparr>dying := dying F - {e}\<rparr>) (s\<lparr>entity_heap := (entity_heap s)(e := None)\<rparr>)"
proof (rule ecs_okI)
  let ?s = "s\<lparr>entity_heap := (entity_heap s)(e := None)\<rparr>"
  note T = table_okD[OF ecs_okD(3)[OF assms(1)]]
  note O = ecs_okD(4)[OF assms(1), unfolded owners_ok_def]
  show "event_ok (event_holds (F\<lparr>dying := dying F - {e}\<rparr>) q) (event_at q ?s)" for q
    using ecs_okD(2)[OF assms(1), of q] by (cases q) simp_all
  show "table_ok (dying (F\<lparr>dying := dying F - {e}\<rparr>)) ?s"
  proof (rule table_okI)
    show "dom (entity_heap ?s) = fst ` set (entities s) \<union> dying (F\<lparr>dying := dying F - {e}\<rparr>)" using T(3,4) assms(2) by auto
    show "fst ` set (entities s) \<inter> dying (F\<lparr>dying := dying F - {e}\<rparr>) = {}" using T(4) by auto
  qed (use T(1,2) in simp_all)
  have own: "owns ?s e' i c \<longleftrightarrow> e' \<noteq> e \<and> owns s e' i c" for e' i c by (auto simp: owns_iff)
  have "\<forall>e x. entity_heap ?s e = Some x \<longrightarrow> entity_id x = e \<and> length (component_list x) = class_count ?s" using O by simp
  then show "owners_ok (dropped (F\<lparr>dying := dying F - {e}\<rparr>)) ?s" using O unfolding owners_ok_def own by simp blast
qed (use ecs_okD(1)[OF assms(1)] in simp)

lemma erase_entity_simps [simp]:
  "entity_heap (erase_entity e s) = entity_heap s" "component_heap (erase_entity e s) = component_heap s"
  "entity_list (erase_entity e s) = entity_list s" "class_count (erase_entity e s) = class_count s"
  "event_at p (erase_entity e s) = event_at p s" "erase_entity e (put_list l s) = put_list l (erase_entity e s)"
  by (cases p; simp add: erase_entity_def)+

text \<open>An entity leaves the table and its node; the operation that does it has to delete it.\<close>

lemma ecs_ok_unlist:
  assumes "ecs_ok F s" "datum (entity_list s) n = Some e" "safe_ok (node_holds F) l" "datum l = (datum (entity_list s))(n := None)"
  shows "ecs_ok (F\<lparr>dying := insert e (dying F)\<rparr>) (put_list l (erase_entity e s))" "e \<notin> dying F"
proof -
  let ?s = "put_list l (erase_entity e s)"
  note T = table_okD[OF ecs_okD(3)[OF assms(1)]]
  have en: "(e, n) \<in> set (entities s)" using T(2) assms(2) by simp
  then show e: "e \<notin> dying F" using T(4) by force
  have uniq: "m = n" if "datum (entity_list s) m = Some e" for m
  proof -
    have "(e, m) \<in> set (entities s)" using T(2) that by simp
    then show ?thesis using T(1) en by (metis eq_key_imp_eq_value)
  qed
  have set: "set (entities ?s) = set (entities s) - {(e, n)}"
    using T(2) uniq by (auto simp: erase_entity_def)
  show "ecs_ok (F\<lparr>dying := insert e (dying F)\<rparr>) ?s"
  proof (rule ecs_okI)
    show "event_ok (event_holds (F\<lparr>dying := insert e (dying F)\<rparr>) q) (event_at q ?s)" for q
      using ecs_okD(2)[OF assms(1), of q] by (cases q) (simp_all add: erase_entity_def)
    have "(e', m) \<in> set (entities ?s) \<longleftrightarrow> datum (entity_list ?s) m = Some e'" for e' m
      unfolding set by (cases "m = n") (use T(2) assms(2) in \<open>auto simp: assms(4)\<close>)
    then have names: "set (entities ?s) = {(e', m). datum (entity_list ?s) m = Some e'}" by auto
    have "e \<in> fst ` set (entities s)" using en by force
    then have dom: "dom (entity_heap s) = (fst ` set (entities s) - {e}) \<union> insert e (dying F)"
      "(fst ` set (entities s) - {e}) \<inter> insert e (dying F) = {}" using T(3,4) by blast+
    show "table_ok (dying (F\<lparr>dying := insert e (dying F)\<rparr>)) ?s"
    proof (rule table_okI[OF _ names])
      show "distinct (map fst (entities ?s))" using T(1) by (simp add: erase_entity_def distinct_map_filter)
      show "fst ` set (entities ?s) = fst ` set (entities s) - {e}" by (auto simp: erase_entity_def image_iff)
    qed (use dom in simp_all)
    show "owners_ok (dropped (F\<lparr>dying := insert e (dying F)\<rparr>)) ?s"
      using ecs_okD(4)[OF assms(1)] owners_cong[of ?s s] by simp
  qed (use assms(3) in simp)
qed

lemma ecs_ok_new_entity:
  assumes "ecs_ok F s" "entity_heap s e = None" "n \<notin> set (order (entity_list s))"
  shows "ecs_ok F (new_entity e n s)"
proof (rule ecs_okI)
  let ?s = "new_entity e n s"
  note T = table_okD[OF ecs_okD(3)[OF assms(1)]]
  note O = ecs_okD(4)[OF assms(1), unfolded owners_ok_def]
  note p = push_new_ok[OF ecs_okD(1)[OF assms(1)] assms(3), of e]
  have e: "e \<notin> fst ` set (entities s)" "e \<notin> dying F" using T assms(2) by blast+
  then have same: "entities (erase_entity e s) = entities s"
    by (force simp: erase_entity_def filter_id_conv)
  have none: "datum (entity_list s) n = None"
    using assms(3) safe_okD(3)[OF ecs_okD(1)[OF assms(1)], of n] by (auto simp: datum_def split: option.split)
  show "safe_ok (node_holds F) (entity_list ?s)" using p(1) by (simp add: new_entity_def)
  show "event_ok (event_holds F q) (event_at q ?s)" for q
    using ecs_okD(2)[OF assms(1), of q] by (cases q) (simp_all add: new_entity_def erase_entity_def)
  have "(e', m) \<in> set (entities ?s) \<longleftrightarrow> datum (entity_list ?s) m = Some e'" for e' m
    by (cases "m = n") (use T(2) none in \<open>auto simp: new_entity_def same p(4)\<close>)
  then have names: "set (entities ?s) = {(e', m). datum (entity_list ?s) m = Some e'}" by auto
  show "table_ok (dying F) ?s"
  proof (rule table_okI[OF _ names])
    show "distinct (map fst (entities ?s))" using T(1) e(1) by (simp add: new_entity_def same)
    show "fst ` set (entities ?s) = insert e (fst ` set (entities s))" by (simp add: new_entity_def same)
    show "dom (entity_heap ?s) = insert e (fst ` set (entities s)) \<union> dying F" using T(3) by (simp add: new_entity_def)
    show "insert e (fst ` set (entities s)) \<inter> dying F = {}" using T(4) e(2) by simp
  qed
  have own: "owns ?s e' i c \<longleftrightarrow> owns s e' i c" for e' i c
    using assms(2) by (auto simp: owns_iff new_entity_def)
  have "\<forall>e x. entity_heap ?s e = Some x \<longrightarrow> entity_id x = e \<and> length (component_list x) = class_count ?s"
    using O by (simp add: new_entity_def erase_entity_def)
  moreover have "component_heap ?s = component_heap s" by (simp add: new_entity_def)
  ultimately show "owners_ok (dropped F) ?s" using O unfolding owners_ok_def own by simp
qed

lemma ecs_ok_IncrRef:
  assumes "ecs_ok F s" "IncrRef n (entity_list s) = Some l"
  shows "ecs_ok (F\<lparr>node_holds := hold n (node_holds F)\<rparr>) (put_list l s)"
proof -
  note S = ecs_okD(1)[OF assms(1)]
  have "n \<in> set (order (entity_list s))"
    using assms(2) safe_okD(3)[OF S] by (auto simp: IncrRef_def Option.bind_eq_Some_conv)
  then obtain l' where "IncrRef n (entity_list s) = Some l'" "safe_ok (hold n (node_holds F)) l'" "datum l' = datum (entity_list s)"
    by (rule IncrRef_ok[OF S])
  then show ?thesis using ecs_ok_put_list[OF assms(1)] assms(2) by simp
qed

lemma ecs_ok_DecrRef:
  assumes "ecs_ok (F\<lparr>node_holds := hold n h\<rparr>) s" "DecrRef n (entity_list s) = Some l"
  shows "ecs_ok (F\<lparr>node_holds := h\<rparr>) (put_list l s)"
proof -
  have S: "safe_ok (hold n h) (entity_list s)" using ecs_okD(1)[OF assms(1)] by simp
  obtain l' where "DecrRef n (entity_list s) = Some l'" "safe_ok h l'" "datum l' = datum (entity_list s)"
    by (rule DecrRef_ok[OF S])
  then show ?thesis using ecs_ok_put_list[OF assms(1)] assms(2) by simp
qed

context ecs_client
begin

lemma delete_entity_keeps:
  assumes "ecs_ok F s" "e \<in> dying F" "delete_entity run e s = Some s'"
  shows "ecs_ok (F\<lparr>dying := dying F - {e}\<rparr>) s'"
proof -
  obtain s1 where s1: "RemoveAllComponent run e s = Some s1" "s' = s1\<lparr>entity_heap := (entity_heap s1)(e := None)\<rparr>"
    using assms(3) by (auto simp: delete_entity_def Option.bind_eq_Some_conv)
  show ?thesis unfolding s1(2) by (rule ecs_ok_free[OF RemoveAllComponent_keeps[OF s1(1) assms(1)] assms(2)])
qed

lemma drop_entity_keeps:
  assumes "ecs_ok F s" "e \<in> dying F" "drop_entity run e s = Some s'"
  shows "ecs_ok (F\<lparr>dying := dying F - {e}\<rparr>) s'"
proof -
  obtain s1 s2 where s: "RemoveAllComponent run e s = Some s1" "EntityRemove run e s1 = Some s2" "delete_entity run e s2 = Some s'"
    using assms(3) by (auto simp: drop_entity_def Option.bind_eq_Some_conv)
  show ?thesis
    by (rule delete_entity_keeps[OF told_keeps(4)[OF s(2) RemoveAllComponent_keeps[OF s(1) assms(1)]] assms(2) s(3)])
qed

lemma drop_unlisted:
  assumes "ecs_ok F s" "datum (entity_list s) n = Some e" "safe_ok (node_holds F) l" "datum l = (datum (entity_list s))(n := None)"
    "drop_entity run e (put_list l (erase_entity e s)) = Some s'"
  shows "ecs_ok F s'"
proof -
  note U = ecs_ok_unlist[OF assms(1-4)]
  show ?thesis using drop_entity_keeps[OF U(1) _ assms(5)] U(2) by simp
qed

lemma RemoveEntity_keeps:
  assumes "ecs_ok F s" "RemoveEntity run e s = Some s'"
  shows "ecs_ok F s'"
proof (cases "map_of (entities s) e")
  case None
  then show ?thesis using assms by (simp add: RemoveEntity_def)
next
  case (Some n)
  note S = ecs_okD(1)[OF assms(1)]
  have d: "datum (entity_list s) n = Some e"
    using map_of_SomeD[OF Some] ecs_okD(3)[OF assms(1)] by (simp add: table_ok_def)
  then have "n \<in> set (order (entity_list s))" using safe_okD(3)[OF S, of n] by (auto simp: datum_def split: option.splits)
  then obtain l where l: "Detach n (entity_list s) = Some (Some e, l)" "safe_ok (node_holds F) l" "datum l = (datum (entity_list s))(n := None)"
    using Detach_ok[OF S, of n] d by metis
  have "drop_entity run e (put_list l (erase_entity e s)) = Some s'"
    using assms(2) Some l(1) by (simp add: RemoveEntity_def)
  then show ?thesis by (rule drop_unlisted[OF assms(1) d l(2,3)])
qed

lemma AddEntity_keeps:
  assumes "ecs_ok F s" "entity_heap s e = None" "n \<notin> set (order (entity_list s))" "AddEntity run e n s = Some (r, s')"
  shows "ecs_ok F s'"
proof -
  note N = ecs_ok_new_entity[OF assms(1-3)]
  obtain l s1 l1 where s: "IncrRef n (entity_list (new_entity e n s)) = Some l" "EntityAdd run e (put_list l (new_entity e n s)) = Some s1"
    "DecrRef n (entity_list s1) = Some l1" "s' = put_list l1 s1"
    using assms(4) by (auto simp: AddEntity_def Let_def Option.bind_eq_Some_conv)
  have "ecs_ok (F\<lparr>node_holds := hold n (node_holds F)\<rparr>) s1"
    by (rule told_keeps(3)[OF s(2) ecs_ok_IncrRef[OF N s(1)]])
  from ecs_ok_DecrRef[OF this s(3)] show ?thesis using s(4) by simp
qed

end

text \<open>The two loops over the entities.\<close>

sublocale ecs_client \<subseteq> remove_all: safe_loop entity_list put_list "\<lambda>h s. ecs_ok (F\<lparr>node_holds := h\<rparr>) s" Detach "remove_entity_body run" for F
proof
  fix h n s l
  assume ok: "ecs_ok (F\<lparr>node_holds := h\<rparr>) s"
  show "safe_ok h (entity_list s)" using ecs_okD(1)[OF ok] by simp
  assume "IncrRef n (entity_list s) = Some l"
  from ecs_ok_IncrRef[OF ok this] show "ecs_ok (F\<lparr>node_holds := hold n h\<rparr>) (put_list l s)" by simp
next
  fix h n s l
  assume "ecs_ok (F\<lparr>node_holds := hold n h\<rparr>) s" "DecrRef n (entity_list s) = Some l"
  then show "ecs_ok (F\<lparr>node_holds := h\<rparr>) (put_list l s)" by (rule ecs_ok_DecrRef)
next
  fix h n l s
  assume ok: "ecs_ok (F\<lparr>node_holds := hold n h\<rparr>) (put_list l s)"
  have S: "safe_ok (hold n h) l" using ecs_okD(1)[OF ok] by simp
  have "n \<in> set (order l)" using safe_okD(4)[OF S, of n] by simp
  then obtain l' where "Detach n l = Some (datum l n, l')" "safe_ok (hold n h) l'" "datum l' = (datum l)(n := None)" "order l' = order l"
    using Detach_ok[OF S, of n] by (metis fun_upd_same nat.distinct(1))
  then show "\<exists>d l'. Detach n l = Some (d, l') \<and> order l' = order l \<and> (d = None \<longrightarrow> ecs_ok (F\<lparr>node_holds := hold n h\<rparr>) (put_list l' s))"
    using ecs_ok_put_list[OF ok, of "hold n h" l'] by (auto simp: fun_upd_idem)
next
  fix h n l s d l' go s'
  assume ok: "ecs_ok (F\<lparr>node_holds := hold n h\<rparr>) (put_list l s)" and d: "Detach n l = Some (Some d, l')"
    and b: "remove_entity_body run d (put_list l' s) = Some (go, s')"
  have S: "safe_ok (hold n h) l" using ecs_okD(1)[OF ok] by simp
  have "n \<in> set (order l)" using safe_okD(4)[OF S, of n] by simp
  then obtain l2 where "Detach n l = Some (datum l n, l2)" "safe_ok (hold n h) l2" "datum l2 = (datum l)(n := None)"
    by (rule Detach_ok[OF S])
  then have l': "datum l n = Some d" "safe_ok (hold n h) l'" "datum l' = (datum l)(n := None)" using d by simp_all
  obtain x where x: "entity_heap s d = Some x" "drop_entity run d (erase_entity (entity_id x) (put_list l' s)) = Some s'"
    using b by (auto simp: remove_entity_body_def Option.bind_eq_Some_conv)
  have "entity_id x = d" using ecs_okD(4)[OF ok] x(1) by (simp add: owners_ok_def)
  then show "ecs_ok (F\<lparr>node_holds := hold n h\<rparr>) s'"
    using drop_unlisted[OF ok, of n d l' s'] l' x(2) by simp
qed simp

context ecs_client
begin

lemma RemoveAllEntity_keeps: "RemoveAllEntity run s = Some s' \<Longrightarrow> ecs_ok F s \<Longrightarrow> ecs_ok F s'"
  using remove_all.foreach_keeps[where F = F and h = "node_holds F" and s = s and s' = s'] by (simp add: RemoveAllEntity_def)

end

end
