(* ===== verification/EcsProps.thy ===== *)
theory EcsProps
  imports EcsEntities
begin

text \<open>
  Programs over the entity manager, with listeners that are such programs themselves, and what holds in every state
  that they lead to.
\<close>

section \<open>Clients\<close>

datatype ('f, 'd) ecs_op =
    OpAddEntity
  | OpRemoveEntity handle
  | OpRemoveAllEntity
  | OpAddComponent nat 'd handle
  | OpCopyComponent handle handle
  | OpMoveComponent nat handle handle
  | OpRemoveComponent nat handle
  | OpRemoveAllComponent handle
  | OpListen which_event nat 'f
  | OpUnlisten which_event event_id

text \<open>Where new objects go is any function of the state that does not choose an address in use.\<close>

definition unused :: "handle \<Rightarrow> ('f, 'd, 'z) ecs_scheme \<Rightarrow> bool" where
  "unused a s \<longleftrightarrow> entity_heap s a = None \<and> component_heap s a = None \<and> a \<notin> set (order (entity_list s)) \<and>
     list_all (\<lambda>p. a \<notin> set (order (listener_list (event_at p s)))) [OnComponentAdd, OnComponentRemove, OnEntityAdd, OnEntityRemove]"

lemma unusedD:
  assumes "unused a s"
  shows "entity_heap s a = None" "component_heap s a = None" "a \<notin> set (order (entity_list s))"
    "a \<notin> set (order (listener_list (event_at p s)))"
  using assms by (cases p; simp add: unused_def)+

definition ecs_op :: "(('f, 'd, 'z) ecs_scheme \<Rightarrow> handle) \<Rightarrow> ('f, change, ('f, 'd, 'z) ecs_scheme) listeners \<Rightarrow> ('f, 'd) ecs_op
    \<Rightarrow> ('f, 'd, 'z) ecs_scheme \<Rightarrow> ('f, 'd, 'z) ecs_scheme option" where
  "ecs_op alloc run op s = do {
     let a = alloc s;
     check (unused a s);
     (case op of
        OpAddEntity \<Rightarrow> do { (_, s) \<leftarrow> AddEntity run a a s; Some s }
      | OpRemoveEntity e \<Rightarrow> RemoveEntity run e s
      | OpRemoveAllEntity \<Rightarrow> RemoveAllEntity run s
      | OpAddComponent i d e \<Rightarrow> do { (_, s) \<leftarrow> AddComponent run a i d e s; Some s }
      | OpCopyComponent original e \<Rightarrow> do { (_, s) \<leftarrow> CopyComponent run a original e s; Some s }
      | OpMoveComponent i e e' \<Rightarrow> do {
          (c, s) \<leftarrow> DetachComponent run i e s;
          (case c of None \<Rightarrow> Some s | Some c \<Rightarrow> do { (_, s) \<leftarrow> AttachComponent run c e' s; Some s }) }
      | OpRemoveComponent i e \<Rightarrow> RemoveComponent run i e s
      | OpRemoveAllComponent e \<Rightarrow> RemoveAllComponent run e s
      | OpListen p i f \<Rightarrow> do { (_, ev) \<leftarrow> AddListener a a (Some f) i (event_at p s); Some (put_at p ev s) }
      | OpUnlisten p i \<Rightarrow> do { ev \<leftarrow> RemoveListener i (event_at p s); Some (put_at p ev s) }) }"

fun ecs_ops :: "(('f, 'd, 'z) ecs_scheme \<Rightarrow> handle) \<Rightarrow> ('f, change, ('f, 'd, 'z) ecs_scheme) listeners \<Rightarrow> ('f, 'd) ecs_op list
    \<Rightarrow> ('f, 'd, 'z) ecs_scheme \<Rightarrow> ('f, 'd, 'z) ecs_scheme option" where
  "ecs_ops alloc run [] s = Some s"
| "ecs_ops alloc run (op # ops) s = do { s \<leftarrow> ecs_op alloc run op s; ecs_ops alloc run ops s }"

text \<open>A listener goes through its script, which depends on what it is told; \<open>k\<close> bounds the depth of the stack.\<close>

primrec ecs_script :: "nat \<Rightarrow> (('f, 'd, 'z) ecs_scheme \<Rightarrow> handle) \<Rightarrow> ('f \<Rightarrow> change \<Rightarrow> ('f, 'd) ecs_op list)
    \<Rightarrow> ('f, change, ('f, 'd, 'z) ecs_scheme) listeners" where
  "ecs_script 0 alloc prog f a s = None"
| "ecs_script (Suc k) alloc prog f a s = ecs_ops alloc (ecs_script k alloc prog) (prog f a) s"

context ecs_client
begin

lemma move_keeps:
  assumes "ecs_ok F s" "DetachComponent run i e s = Some (c, s1)"
    "(case c of None \<Rightarrow> Some s1 | Some c \<Rightarrow> AttachComponent run c e' s1 \<bind> (\<lambda>(_, s). Some s)) = Some s'"
  shows "ecs_ok F s'"
proof (cases c)
  case None
  then show ?thesis using DetachComponent_keeps[OF assms(1,2)] assms(3) by simp
next
  case (Some c')
  then have D: "ecs_ok (F\<lparr>dropped := insert c' (dropped F)\<rparr>) s1" "c' \<notin> dropped F" using DetachComponent_keeps[OF assms(1,2)] by simp_all
  obtain r where "AttachComponent run c' e' s1 = Some (r, s')" using assms(3) Some by (auto simp: Option.bind_eq_Some_conv)
  from AttachComponent_keeps[OF D(1) _ this] show ?thesis using D(2) by simp
qed

lemma ecs_op_keeps:
  assumes "ecs_ok F s" "ecs_op alloc run op s = Some s'"
  shows "ecs_ok F s'"
proof -
  let ?a = "alloc s"
  have u: "unused ?a s" using assms(2) by (auto simp: ecs_op_def check_def Let_def split: if_splits)
  note U = unusedD[OF u]
  show ?thesis
  proof (cases op)
    case OpAddEntity
    then obtain r where "AddEntity run ?a ?a s = Some (r, s')" using assms(2) u by (auto simp: ecs_op_def Let_def Option.bind_eq_Some_conv)
    from AddEntity_keeps[OF assms(1) U(1,3) this] show ?thesis .
  next
    case (OpAddComponent i d e)
    then obtain r where "AddComponent run ?a i d e s = Some (r, s')" using assms(2) u by (auto simp: ecs_op_def Let_def Option.bind_eq_Some_conv)
    from AddComponent_keeps[OF assms(1) U(2) this] show ?thesis .
  next
    case (OpCopyComponent c e)
    then obtain r where "CopyComponent run ?a c e s = Some (r, s')" using assms(2) u by (auto simp: ecs_op_def Let_def Option.bind_eq_Some_conv)
    from CopyComponent_keeps[OF assms(1) U(2) this] show ?thesis .
  next
    case (OpMoveComponent i e e')
    then obtain c s1 where "DetachComponent run i e s = Some (c, s1)"
      "(case c of None \<Rightarrow> Some s1 | Some c \<Rightarrow> AttachComponent run c e' s1 \<bind> (\<lambda>(_, s). Some s)) = Some s'"
      using assms(2) u by (auto simp: ecs_op_def Let_def Option.bind_eq_Some_conv)
    from move_keeps[OF assms(1) this] show ?thesis .
  next
    case (OpListen p i f)
    then obtain r ev where ev: "AddListener ?a ?a (Some f) i (event_at p s) = Some (r, ev)" "s' = put_at p ev s"
      using assms(2) u by (auto simp: ecs_op_def Let_def Option.bind_eq_Some_conv)
    obtain ev' where ev': "AddListener ?a ?a (Some f) i (event_at p s) = Some (if i \<noteq> 0 then i else ?a, ev')" "event_ok (event_holds F p) ev'"
      by (rule AddListener_ok[OF ecs_okD(2)[OF assms(1)] U(4) refl])
    show ?thesis using ecs_ok_put_at[where p = p, OF assms(1) ev'(2)] ev ev'(1) by simp
  next
    case (OpUnlisten p i)
    then obtain ev where ev: "RemoveListener i (event_at p s) = Some ev" "s' = put_at p ev s"
      using assms(2) u by (auto simp: ecs_op_def Let_def Option.bind_eq_Some_conv)
    obtain ev' where ev': "RemoveListener i (event_at p s) = Some ev'" "event_ok (event_holds F p) ev'"
      by (rule RemoveListener_ok[OF ecs_okD(2)[OF assms(1)]])
    show ?thesis using ecs_ok_put_at[where p = p, OF assms(1) ev'(2)] ev ev'(1) by simp
  next
    case (OpRemoveEntity e)
    then show ?thesis using assms u RemoveEntity_keeps by (simp add: ecs_op_def Let_def)
  next
    case OpRemoveAllEntity
    then show ?thesis using assms u RemoveAllEntity_keeps by (simp add: ecs_op_def Let_def)
  next
    case (OpRemoveComponent i e)
    then show ?thesis using assms u RemoveComponent_keeps by (simp add: ecs_op_def Let_def)
  next
    case (OpRemoveAllComponent e)
    then show ?thesis using assms u RemoveAllComponent_keeps by (simp add: ecs_op_def Let_def)
  qed
qed

lemma ecs_ops_keep: "ecs_ok F s \<Longrightarrow> ecs_ops alloc run ops s = Some s' \<Longrightarrow> ecs_ok F s'"
proof (induction ops arbitrary: s)
  case (Cons op ops)
  then obtain s1 where "ecs_op alloc run op s = Some s1" "ecs_ops alloc run ops s1 = Some s'" by (auto simp: Option.bind_eq_Some_conv)
  then show ?case using Cons ecs_op_keeps by blast
qed simp

end

lemma ecs_script_client: "ecs_client (ecs_script k alloc prog)"
proof (induction k)
  case 0
  then show ?case by (simp add: ecs_client_def)
next
  case (Suc k)
  from ecs_client.ecs_ops_keep[OF Suc] show ?case by (simp add: ecs_client_def)
qed

interpretation scripted_ecs: ecs_client "ecs_script k alloc prog" for k alloc prog
  by (rule ecs_script_client)


text \<open>Listener 1 gives each new entity a component, which listener 2 removes again.\<close>

definition first_unused :: "('f, 'd, 'z) ecs_scheme \<Rightarrow> handle" where
  "first_unused s = (case List.find (\<lambda>a. unused a s) [1..<100] of None \<Rightarrow> 0 | Some a \<Rightarrow> a)"




section \<open>Listeners that remove what is being changed\<close>

text \<open>Listener 1 removes an entity that a component is added to or removed from; listener 2 gives an entity that
  loses a component a new one.\<close>

definition removing_prog :: "nat \<Rightarrow> change \<Rightarrow> (nat, string) ecs_op list" where
  "removing_prog f a = (case a of
     ComponentAdded e c \<Rightarrow> if f = 1 then [OpRemoveEntity e] else []
   | ComponentRemoved e c \<Rightarrow> if f = 1 then [OpRemoveEntity e] else [OpAddComponent 0 ''again'' e]
   | _ \<Rightarrow> [])"

abbreviation removing_run :: "(nat, change, (nat, string) ecs) listeners" where
  "removing_run \<equiv> ecs_script 3 first_unused removing_prog"

text \<open>A manager with one entity, at 2, and a listener of an event, at 1.\<close>

definition one_entity :: "which_event \<Rightarrow> nat \<Rightarrow> (nat, string) ecs option" where
  "one_entity p f = ecs_ops first_unused removing_run [OpListen p 1 f, OpAddEntity] (EntityManager_new 2)"

text \<open>Three runs: a listener that removes the entity whose component was added makes \<open>AddComponent\<close> read the entity after it was
  freed, and one that removes it when it loses a component does so to \<open>RemoveAllComponent\<close>, though the listeners return in
  both cases; with a listener that gives an entity a component when it loses one, \<open>RemoveEntity\<close> frees
  the entity and leaves a component that no entity owns.\<close>
lemma ecs_dangling:
  "(\<exists>s. one_entity OnComponentAdd 1 = Some s \<and> AddComponent removing_run 3 0 ''c'' 2 s = None \<and>
      map_option (\<lambda>s. entity_heap s 2) (set_component 2 0 (Some 3) (new_component 3 0 ''c'' s) \<bind> OnAddComponent removing_run 2 3) = Some None) \<and>
   (\<exists>s. one_entity OnComponentRemove 1 \<bind> AddComponent removing_run 3 0 ''c'' 2 = Some (Some 3, s) \<and> RemoveAllComponent removing_run 2 s = None \<and>
      map_option (\<lambda>s. entity_heap s 2) (RemoveComponent removing_run 0 2 s) = Some None) \<and>
   (\<exists>s s'. one_entity OnComponentRemove 2 \<bind> AddComponent removing_run 3 0 ''c'' 2 = Some (Some 3, s) \<and>
      RemoveEntity removing_run 2 s = Some s' \<and> entity_heap s' 2 = None \<and>
      (\<exists>c. component_heap s' c \<noteq> None) \<and> (\<forall>e i c. \<not> owns s' e i c))"
proof (intro conjI)
  have "map_option (\<lambda>s. (AddComponent removing_run 3 0 ''c'' 2 s = None,
      map_option (\<lambda>s. entity_heap s 2) (set_component 2 0 (Some 3) (new_component 3 0 ''c'' s) \<bind> OnAddComponent removing_run 2 3)))
      (one_entity OnComponentAdd 1) = Some (True, Some None)"
    by code_simp
  then show "\<exists>s. one_entity OnComponentAdd 1 = Some s \<and> AddComponent removing_run 3 0 ''c'' 2 s = None \<and>
      map_option (\<lambda>s. entity_heap s 2) (set_component 2 0 (Some 3) (new_component 3 0 ''c'' s) \<bind> OnAddComponent removing_run 2 3) = Some None"
    by auto
next
  have "map_option (\<lambda>(r, s). (r, RemoveAllComponent removing_run 2 s = None, map_option (\<lambda>s. entity_heap s 2) (RemoveComponent removing_run 0 2 s)))
      (one_entity OnComponentRemove 1 \<bind> AddComponent removing_run 3 0 ''c'' 2) = Some (Some 3, True, Some None)"
    by code_simp
  then show "\<exists>s. one_entity OnComponentRemove 1 \<bind> AddComponent removing_run 3 0 ''c'' 2 = Some (Some 3, s) \<and>
      RemoveAllComponent removing_run 2 s = None \<and> map_option (\<lambda>s. entity_heap s 2) (RemoveComponent removing_run 0 2 s) = Some None"
    by auto
next
  let ?s = "one_entity OnComponentRemove 2 \<bind> AddComponent removing_run 3 0 ''c'' 2"
  have "map_option (\<lambda>(r, s). (r, entities s)) ?s = Some (Some 3, [(2, 2)])" by code_simp
  then obtain s where s: "?s = Some (Some 3, s)" by auto
  have "(case ?s of None \<Rightarrow> None | Some (r, s) \<Rightarrow> map_option (\<lambda>s. (entities s, entity_heap s 2, component_heap s 3 \<noteq> None)) (RemoveEntity removing_run 2 s)) =
      Some ([], None, True)"
    by code_simp
  then obtain s' where s': "RemoveEntity removing_run 2 s = Some s'" "entities s' = []" "entity_heap s' 2 = None" "component_heap s' 3 \<noteq> None"
    unfolding s by auto
  obtain s0 where s0: "one_entity OnComponentRemove 2 = Some s0" "AddComponent removing_run 3 0 ''c'' 2 s0 = Some (Some 3, s)"
    using s by (auto simp: Option.bind_eq_Some_conv)
  have ok0: "ecs_ok no_frames s0" by (rule scripted_ecs.ecs_ops_keep[OF ecs_ok_new s0(1)[unfolded one_entity_def]])
  have "map_option (\<lambda>s. component_heap s 3) (one_entity OnComponentRemove 2) = Some None" by code_simp
  then have "component_heap s0 3 = None" unfolding s0(1) by simp
  from scripted_ecs.RemoveEntity_keeps[OF scripted_ecs.AddComponent_keeps[OF ok0 this s0(2)] s'(1)]
  have "dom (entity_heap s') = {}" using table_okD(3)[OF ecs_okD(3)] s'(2) by (fastforce simp: no_frames_def)
  then have "\<not> owns s' e i c" for e i c by (auto simp: owns_iff)
  then show "\<exists>s s'. one_entity OnComponentRemove 2 \<bind> AddComponent removing_run 3 0 ''c'' 2 = Some (Some 3, s) \<and>
      RemoveEntity removing_run 2 s = Some s' \<and> entity_heap s' 2 = None \<and> (\<exists>c. component_heap s' c \<noteq> None) \<and> (\<forall>e i c. \<not> owns s' e i c)"
    using s s' by blast
qed

end
