(* ===== verification/PassiveLoop.thy ===== *)
theory PassiveLoop
  imports SafeLoop
begin

text \<open>
  The loop of theory SafeList with bodies that leave the list alone: it goes through the data of the list in order,
  once each, and gives the list back as it was.
\<close>

lemma hold_and_release:
  assumes "safe_ok h l" "n \<in> set (order l)"
  obtains l' where "IncrRef n l = Some l'" "order l' = order l" "Get n l' = Some (datum l n)" "DecrRef n l' = Some l"
proof -
  obtain x where x: "cells l n = Some x" using assms safe_okD(3) by blast
  have "ref_count x > 0" using safe_okD(5)[OF assms(1) x] by (auto simp: cell_ok_def)
  moreover have "set_cell n x l = l" using x by (cases l) (auto simp: set_cell_def)
  ultimately show ?thesis
    using x by (intro that[of "set_cell n (x\<lparr>ref_count := ref_count x + 1\<rparr>) l"]) (simp_all add: IncrRef_def DecrRef_def Get_def datum_def)
qed

locale passive_loop = list_in_state get put for get :: "'s \<Rightarrow> 'd safe_list" and put +
  fixes body :: "'d \<Rightarrow> 's \<Rightarrow> (bool \<times> 's) option" and effect :: "'d \<Rightarrow> 's \<Rightarrow> 's"
  assumes put_get: "put (get s) s = s" and put_put: "put l (put k s) = put l s"
    and body_effect: "body d s = Some (True, effect d s)"
    and effect_put: "effect d (put l s) = put l (effect d s)"
begin

lemma get_effect: "get (effect d s) = get s"
  using effect_put[of d "get s" s] get_put put_get by metis

lemma iterate_folds:
  "safe_ok h (get s) \<Longrightarrow> (\<And>n. node = Some n \<Longrightarrow> n \<in> set (order (get s))) \<Longrightarrow>
   safe_iterate get put fetch_get body node s = Some (fold effect (List.map_filter (datum (get s)) (ahead node (order (get s)))) s)"
proof (induction "length (ahead node (order (get s)))" arbitrary: node s rule: less_induct)
  case less
  show ?case
  proof (cases node)
    case None
    then show ?thesis by (simp add: safe_iterate.simps ahead_def map_filter_simps)
  next
    case (Some n)
    then have n: "n \<in> set (order (get s))" using less.prems(2) by simp
    note d = safe_okD(1)[OF less.prems(1)]
    obtain l where l: "IncrRef n (get s) = Some l" "order l = order (get s)" "Get n l = Some (datum (get s) n)" "DecrRef n l = Some (get s)"
      by (rule hold_and_release[OF less.prems(1) n])
    obtain r where r: "next_in n (order (get s)) = Some r" "\<forall>m. r = Some m \<longrightarrow> m \<in> set (order (get s))"
      using next_in_Some[OF n] by blast
    let ?s = "case datum (get s) n of None \<Rightarrow> s | Some d \<Rightarrow> effect d s"
    have s: "get ?s = get s" by (simp add: get_effect split: option.split)
    have same: "put (get s) ?s = ?s" using put_get[of ?s] unfolding s .
    have "(case datum (get s) n of None \<Rightarrow> Some (True, put l s) | Some d \<Rightarrow> body d (put l s)) = Some (True, put l ?s)"
      by (simp add: body_effect effect_put split: option.split)
    then have "safe_iterate get put fetch_get body node s = safe_iterate get put fetch_get body r ?s"
      using Some l r(1) same by (subst safe_iterate.simps) (simp add: fetch_get_def Let_def next_node_def put_put)
    moreover have a: "ahead r (order (get s)) = behind n (order (get s))" using ahead_next[OF d r(1)] by simp
    moreover have "safe_iterate get put fetch_get body r ?s =
        Some (fold effect (List.map_filter (datum (get ?s)) (ahead r (order (get ?s)))) ?s)"
    proof (rule less.hyps)
      show "length (ahead r (order (get ?s))) < length (ahead node (order (get s)))" unfolding s a by (simp add: Some ahead_def)
    qed (use less.prems(1) r(2) s in simp_all)
    ultimately show ?thesis
      unfolding s by (simp add: Some ahead_def map_filter_simps split: option.split)
  qed
qed

lemma foreach_folds:
  assumes "safe_ok h (get s)"
  shows "safe_foreach get put fetch_get body s = Some (fold effect (contents (get s)) s)"
proof -
  have "n \<in> set (order (get s))" if "first_node (get s) = Some n" for n using that by (auto simp: first_node_def split: list.splits)
  from iterate_folds[OF assms this] show ?thesis by (simp add: safe_foreach_def contents_def ahead_first)
qed

end

end
