(* ===== verification/EcsLog.thy ===== *)
theory EcsLog
  imports EcsProps PassiveLoop
begin

text \<open>
  What adding and removing an entity do, and what the listeners are told and in which order: with listeners that
  write down what they are told and leave the manager alone.
\<close>

section \<open>Listeners that write down what they are told\<close>

record ('f, 'd) logged_ecs = "('f, 'd) ecs" +
  change_log :: "('f \<times> change) list"

definition record_change :: "('f, change, ('f, 'd) logged_ecs) listeners" where
  "record_change f a s = Some (s\<lparr>change_log := change_log s @ [(f, a)]\<rparr>)"

text \<open>What the listeners of an event write down.\<close>

definition told :: "which_event \<Rightarrow> change \<Rightarrow> ('f, 'd) logged_ecs \<Rightarrow> ('f \<times> change) list" where
  "told p a s = map (\<lambda>d. (listener d, a)) (contents (listener_list (event_at p s)))"

lemma log_simps [simp]:
  "event_at p (s\<lparr>change_log := l\<rparr>) = event_at p s" "component_at e i (s\<lparr>change_log := l\<rparr>) = component_at e i s"
  "owns (s\<lparr>change_log := l\<rparr>) = owns s" "told p a (s\<lparr>change_log := l\<rparr>) = told p a s"
  by (cases p; simp add: component_at_def owns_def fun_eq_iff told_def)+

lemma restrict_UNIV [simp]: "m |` UNIV = m"
  by (simp add: restrict_map_def)

lemma ecs_ok_log [simp]: "ecs_ok F ((s :: ('f, 'd) logged_ecs)\<lparr>change_log := l\<rparr>) = ecs_ok F s"
  using table_cong[of "s\<lparr>change_log := l\<rparr>" s] owners_cong[of "s\<lparr>change_log := l\<rparr>" s] by (simp add: ecs_ok_def)

interpretation recording: ecs_client record_change
  by unfold_locales (auto simp: record_change_def)

interpretation recording_event: passive_loop "\<lambda>s. listener_list (event_at p s)" "put_listeners (event_at p) (put_at p)"
  "listener_body record_change a" "\<lambda>d s. s\<lparr>change_log := change_log s @ [(listener d, a)]\<rparr>" for p a
  by unfold_locales (cases p; simp add: put_listeners_def listener_body_def record_change_def)+

lemma fold_log:
  "fold (\<lambda>d s. s\<lparr>change_log := change_log s @ [(listener d, a)]\<rparr>) ds s = s\<lparr>change_log := change_log s @ map (\<lambda>d. (listener d, a)) ds\<rparr>"
  by (induction ds arbitrary: s) auto

lemma Invoke_records:
  assumes "event_ok h (event_at p s)"
  shows "Invoke (event_at p) (put_at p) record_change a s = Some (s\<lparr>change_log := change_log s @ told p a s\<rparr>)"
  using recording_event.foreach_folds[of h p s a] event_okD(1)[OF assms] by (simp add: Invoke_def fold_log told_def)

lemmas records = Invoke_records[of _ OnComponentAdd _ "ComponentAdded e c" for e c, folded event_at_fun, folded OnAddComponent_def]
  Invoke_records[of _ OnComponentRemove _ "ComponentRemoved e c" for e c, folded event_at_fun, folded OnRemoveComponent_def]
  Invoke_records[of _ OnEntityAdd _ "EntityAdded e" for e, folded event_at_fun, folded EntityAdd_def]
  Invoke_records[of _ OnEntityRemove _ "EntityRemoved e" for e, folded event_at_fun, folded EntityRemove_def]

section \<open>Removing an entity\<close>

definition components_from :: "nat \<Rightarrow> entity_obj \<Rightarrow> handle list" where
  "components_from i x = List.map_filter (\<lambda>c. c) (drop i (component_list x))"

definition stripped :: "nat \<Rightarrow> entity_obj \<Rightarrow> entity_obj" where
  "stripped i x = x\<lparr>component_list := take i (component_list x) @ replicate (length (component_list x) - i) None\<rparr>"

lemma take_then_none:
  assumes "i < length xs"
  shows "take (Suc i) (xs[i := None]) @ replicate (length xs - Suc i) None = take i xs @ replicate (length xs - i) None"
proof -
  have "take (Suc i) (xs[i := None]) = take i xs @ [None]"
    using assms by (simp add: take_Suc_conv_app_nth[of i "xs[i := None]"])
  moreover have "length xs - i = Suc (length xs - Suc i)" using assms by simp
  ultimately show ?thesis by (simp only: replicate_Suc append_assoc append.simps)
qed

lemma remove_components_records:
  assumes "event_ok h (event_at OnComponentRemove s)" "entity_heap s e = Some x"
    "\<forall>c \<in> set (components_from i x). component_heap s c \<noteq> None" "distinct (components_from i x)"
  shows "remove_components record_change e i s = Some (s\<lparr>entity_heap := (entity_heap s)(e \<mapsto> stripped i x),
    component_heap := component_heap s |` (- set (components_from i x)),
    change_log := change_log s @ concat (map (\<lambda>c. told OnComponentRemove (ComponentRemoved e c) s) (components_from i x))\<rparr>)"
  using assms
proof (induction "length (component_list x) - i" arbitrary: i s x)
  case 0
  then have "stripped i x = x" "components_from i x = []" by (simp_all add: stripped_def components_from_def map_filter_simps)
  then show ?case using 0 by (subst remove_components.simps) (simp add: fun_upd_idem)
next
  case (Suc k)
  then have i: "i < length (component_list x)" by simp
  then have drop: "drop i (component_list x) = component_list x ! i # drop (Suc i) (component_list x)" by (rule Cons_nth_drop_Suc[symmetric])
  have at: "component_at e i s = Some (component_list x ! i)" using Suc.prems(2) i by (simp add: component_at_def)
  have step: "remove_components record_change e i s = RemoveComponent record_change i e s \<bind> remove_components record_change e (Suc i)"
    using Suc.prems(2) i by (subst remove_components.simps) simp
  show ?case
  proof (cases "component_list x ! i")
    case None
    then have cf: "components_from i x = components_from (Suc i) x" by (simp add: components_from_def drop map_filter_simps)
    have st: "stripped i x = stripped (Suc i) x"
      using i None by (auto simp: stripped_def take_Suc_conv_app_nth Suc_diff_Suc[symmetric] simp flip: replicate_Suc)
    have "RemoveComponent record_change i e s = Some s" using at None by (simp add: RemoveComponent_def)
    moreover have "k = length (component_list x) - (Suc i)" using Suc.hyps(2) by simp
    ultimately show ?thesis using Suc.hyps(1)[of x "Suc i" s] Suc.prems step cf st by simp
  next
    case (Some c)
    then have cf: "components_from i x = c # components_from (Suc i) x" by (simp add: components_from_def drop map_filter_simps)
    let ?x = "x\<lparr>component_list := (component_list x)[i := None]\<rparr>"
    let ?s = "s\<lparr>entity_heap := (entity_heap s)(e \<mapsto> ?x), component_heap := (component_heap s)(c := None),
      change_log := change_log s @ told OnComponentRemove (ComponentRemoved e c) s\<rparr>"
    have cf2: "components_from (Suc i) ?x = components_from (Suc i) x" by (simp add: components_from_def)
    have st: "stripped (Suc i) ?x = stripped i x"
      using take_then_none[OF i] by (simp add: stripped_def)
    let ?s1 = "s\<lparr>entity_heap := (entity_heap s)(e \<mapsto> ?x)\<rparr>"
    have "set_component e i None s = Some ?s1" using Suc.prems(2) i by (simp add: set_component_def)
    moreover have "event_at OnComponentRemove ?s1 = event_at OnComponentRemove s" by simp
    ultimately have r: "RemoveComponent record_change i e s = Some ?s"
      using at Some Suc.prems(1,3) cf records(2)[of h ?s1 e c] by (auto simp: RemoveComponent_def delete_component_def told_def)
    have "k = length (component_list ?x) - (Suc i)" using Suc.hyps(2) by simp
    moreover have "event_ok h (event_at OnComponentRemove ?s)" "entity_heap ?s e = Some ?x" using Suc.prems(1) by simp_all
    moreover have "\<forall>c' \<in> set (components_from (Suc i) ?x). component_heap ?s c' \<noteq> None" "distinct (components_from (Suc i) ?x)"
      using Suc.prems(3,4) unfolding cf cf2 by auto
    ultimately have "remove_components record_change e (Suc i) ?s = Some (?s\<lparr>entity_heap := (entity_heap ?s)(e \<mapsto> stripped (Suc i) ?x),
      component_heap := component_heap ?s |` (- set (components_from (Suc i) ?x)),
      change_log := change_log ?s @ concat (map (\<lambda>c. told OnComponentRemove (ComponentRemoved e c) ?s) (components_from (Suc i) ?x))\<rparr>)"
      by (rule Suc.hyps(1))
    moreover have "component_heap ?s |` (- set (components_from (Suc i) x)) = component_heap s |` (- set (components_from i x))"
      by (auto simp: cf restrict_map_def fun_eq_iff)
    ultimately show ?thesis unfolding step r by (simp add: cf cf2 st told_def del: fun_upd_apply restrict_fun_upd)
  qed
qed

lemma drop_entity_records:
  assumes "\<And>p. event_ok (h p) (event_at p s)" "entity_heap s e = Some x"
    "\<forall>c \<in> set (components_from 0 x). component_heap s c \<noteq> None" "distinct (components_from 0 x)"
  shows "drop_entity record_change e s = Some (s\<lparr>entity_heap := (entity_heap s)(e := None),
    component_heap := component_heap s |` (- set (components_from 0 x)),
    change_log := change_log s @ concat (map (\<lambda>c. told OnComponentRemove (ComponentRemoved e c) s) (components_from 0 x)) @
      told OnEntityRemove (EntityRemoved e) s\<rparr>)"
proof -
  let ?l1 = "change_log s @ concat (map (\<lambda>c. told OnComponentRemove (ComponentRemoved e c) s) (components_from 0 x))"
  let ?s1 = "s\<lparr>entity_heap := (entity_heap s)(e \<mapsto> stripped 0 x), component_heap := component_heap s |` (- set (components_from 0 x)),
    change_log := ?l1\<rparr>"
  let ?s2 = "?s1\<lparr>change_log := ?l1 @ told OnEntityRemove (EntityRemoved e) s\<rparr>"
  have "RemoveAllComponent record_change e s = Some ?s1"
    unfolding RemoveAllComponent_def by (rule remove_components_records[OF assms])
  moreover have "told OnEntityRemove (EntityRemoved e) ?s1 = told OnEntityRemove (EntityRemoved e) s" by (simp add: told_def)
  then have "EntityRemove record_change e ?s1 = Some ?s2"
    using records(4)[of "h OnEntityRemove" ?s1 e] assms(1)[of OnEntityRemove] by simp
  moreover have "RemoveAllComponent record_change e ?s2 = Some ?s2"
  proof -
    have none: "components_from 0 (stripped 0 x) = []"
      by (simp add: components_from_def stripped_def List.map_filter_def filter_empty_conv)
    have same: "stripped 0 (stripped 0 x) = stripped 0 x" by (simp add: stripped_def)
    have "event_ok (h OnComponentRemove) (event_at OnComponentRemove ?s2)" "entity_heap ?s2 e = Some (stripped 0 x)"
      using assms(1)[of OnComponentRemove] by simp_all
    from remove_components_records[OF this, of 0] show ?thesis
      unfolding RemoveAllComponent_def by (simp add: none same)
  qed
  ultimately show ?thesis by (simp add: drop_entity_def delete_entity_def)
qed

lemma distinct_somes:
  "(\<And>i j c. i < length xs \<Longrightarrow> j < length xs \<Longrightarrow> xs ! i = Some c \<Longrightarrow> xs ! j = Some c \<Longrightarrow> i = j) \<Longrightarrow>
   distinct (List.map_filter (\<lambda>c. c) xs)"
proof (induction xs)
  case (Cons a xs)
  have IH: "distinct (List.map_filter (\<lambda>c. c) xs)"
    by (rule Cons.IH) (use Cons.prems[of "Suc _" "Suc _"] in auto)
  have "c \<notin> set (List.map_filter (\<lambda>c. c) xs)" if "a = Some c" for c
  proof
    assume "c \<in> set (List.map_filter (\<lambda>c. c) xs)"
    then obtain j where "j < length xs" "xs ! j = Some c" by (auto simp: List.map_filter_def in_set_conv_nth)
    then show False using Cons.prems[of 0 "Suc j" c] that by simp
  qed
  then show ?case using IH by (simp add: map_filter_simps split: option.split)
qed (simp add: map_filter_simps)

lemma components_owned:
  assumes "entity_heap s e = Some x"
  shows "set (components_from 0 x) = {c. \<exists>i. owns s e i c}"
  using assms by (force simp: components_from_def List.map_filter_def owns_iff in_set_conv_nth)

lemma components_ok:
  assumes "ecs_ok F s" "entity_heap s e = Some x"
  shows "\<forall>c \<in> set (components_from 0 x). component_heap s c \<noteq> None" "distinct (components_from 0 x)"
proof -
  note O = ecs_okD(4)[OF assms(1), unfolded owners_ok_def]
  show "\<forall>c \<in> set (components_from 0 x). component_heap s c \<noteq> None"
    unfolding components_owned[OF assms(2)] using O by fastforce
  have "i = j" if "i < length (component_list x)" "j < length (component_list x)" "component_list x ! i = Some c" "component_list x ! j = Some c" for i j c
  proof -
    have "owns s e i c" "owns s e j c" using that assms(2) by (auto simp: owns_iff)
    then show ?thesis using O by blast
  qed
  from distinct_somes[OF this] show "distinct (components_from 0 x)" by (simp add: components_from_def)
qed

lemma RemoveEntity_removes:
  assumes "ecs_ok no_frames s" "map_of (entities s) e = Some n" "entity_heap s e = Some x"
  shows "\<exists>s'. RemoveEntity record_change e s = Some s' \<and> ecs_ok no_frames s' \<and>
    entity_heap s' = (entity_heap s)(e := None) \<and> component_heap s' = component_heap s |` (- {c. \<exists>i. owns s e i c}) \<and>
    map_of (entities s') = (map_of (entities s))(e := None) \<and> order (entity_list s') = remove1 n (order (entity_list s)) \<and>
    (\<forall>p. event_at p s' = event_at p s) \<and>
    change_log s' = change_log s @ concat (map (\<lambda>c. told OnComponentRemove (ComponentRemoved e c) s) (List.map_filter (\<lambda>c. c) (component_list x))) @
      told OnEntityRemove (EntityRemoved e) s"
proof -
  note S = ecs_okD(1)[OF assms(1)] and T = table_okD[OF ecs_okD(3)[OF assms(1)]]
  have d: "datum (entity_list s) n = Some e" using map_of_SomeD[OF assms(2)] T(2) by simp
  then have n: "n \<in> set (order (entity_list s))" using safe_okD(3)[OF S, of n] by (auto simp: datum_def split: option.splits)
  obtain l where l: "Detach n (entity_list s) = Some (datum (entity_list s) n, l)" "safe_ok (node_holds no_frames) l"
    "datum l = (datum (entity_list s))(n := None)"
    "order l = (if node_holds no_frames n = 0 then remove1 n (order (entity_list s)) else order (entity_list s))"
    by (rule Detach_ok[OF S n])
  let ?s = "put_list l (erase_entity e s)"
  let ?s' = "?s\<lparr>entity_heap := (entity_heap s)(e := None), component_heap := component_heap s |` (- set (components_from 0 x)),
    change_log := change_log s @ concat (map (\<lambda>c. told OnComponentRemove (ComponentRemoved e c) s) (components_from 0 x)) @
      told OnEntityRemove (EntityRemoved e) s\<rparr>"
  have ev: "event_at p ?s = event_at p s" for p by (cases p) (simp_all add: erase_entity_def)
  have log: "change_log ?s = change_log s" by (simp add: erase_entity_def)
  have told: "told p a ?s = told p a s" for p a by (simp add: told_def ev)
  have "drop_entity record_change e ?s = Some ?s'"
    using drop_entity_records[of "event_holds no_frames" ?s e x] components_ok[OF assms(1,3)] assms(3) ecs_okD(2)[OF assms(1)]
    unfolding ev log told by simp
  then have r: "RemoveEntity record_change e s = Some ?s'" using assms(2) l(1) d by (simp add: RemoveEntity_def)
  moreover have "ecs_ok no_frames ?s'" by (rule recording.RemoveEntity_keeps[OF assms(1) r])
  moreover have "map_of (entities ?s') = (map_of (entities s))(e := None)"
    by (simp add: erase_entity_def fun_eq_iff map_of_without)
  moreover have "event_at p ?s' = event_at p s" for p by (cases p) (simp_all add: erase_entity_def)
  ultimately show ?thesis
    using l(4) components_owned[OF assms(3)] by (intro exI[of _ ?s']) (simp add: no_frames_def components_from_def)
qed

text \<open>C16: with listeners that write down what they are told and leave the manager alone: removing an entity tells the
  listeners of each of its components that it goes, in the order of the classes, and then the listeners of the entity; it frees the entity and exactly its components, takes its node out of
  the list and its identifier out of the table, and changes nothing else.\<close>
theorem RemoveEntity_correct:
  assumes "ecs_ok no_frames s" "map_of (entities s) e = Some n" "entity_heap s e = Some x"
  shows "\<exists>s'. RemoveEntity record_change e s = Some s' \<and> ecs_ok no_frames s' \<and>
    entity_heap s' = (entity_heap s)(e := None) \<and> component_heap s' = component_heap s |` (- {c. \<exists>i. owns s e i c}) \<and>
    map_of (entities s') = (map_of (entities s))(e := None) \<and> order (entity_list s') = remove1 n (order (entity_list s)) \<and>
    (\<forall>p. event_at p s' = event_at p s) \<and>
    change_log s' = change_log s @ concat (map (\<lambda>c. told OnComponentRemove (ComponentRemoved e c) s) (List.map_filter (\<lambda>c. c) (component_list x))) @
      told OnEntityRemove (EntityRemoved e) s"
  by (rule RemoveEntity_removes[OF assms])

section \<open>Adding an entity\<close>

lemma Detach_push_new:
  assumes "safe_ok h l" "n \<notin> set (order l)"
  shows "Detach n (push_new n d l) = Some (Some d, l)"
proof -
  have "cells l n = None" using safe_okD(3)[OF assms(1), of n] assms(2) by auto
  then have "(cells l)(n := None) = cells l" by auto
  moreover have "remove1 n (order l @ [n]) = order l" using assms(2) by (simp add: remove1_append)
  ultimately show ?thesis
    by (cases l) (simp add: Detach_def DecrRef_def delete_node_def push_new_def set_cell_def)
qed

lemma AddEntity_records:
  assumes "ecs_ok F s" "entity_heap s e = None" "n \<notin> set (order (entity_list s))"
  shows "AddEntity record_change e n s =
    Some (Some e, (new_entity e n s)\<lparr>change_log := change_log s @ told OnEntityAdd (EntityAdded e) s\<rparr>)"
proof -
  let ?s = "new_entity e n s"
  note N = ecs_ok_new_entity[OF assms]
  have p: "order (entity_list ?s) = order (entity_list s) @ [n]" "datum (entity_list ?s) n = Some e"
    using push_new_ok(3,4)[OF ecs_okD(1)[OF assms(1)] assms(3), of e] by (simp_all add: new_entity_def)
  then obtain l where l: "IncrRef n (entity_list ?s) = Some l" "Get n l = Some (Some e)" "DecrRef n l = Some (entity_list ?s)"
    using hold_and_release[OF ecs_okD(1)[OF N], of n] by auto
  have ev: "event_at OnEntityAdd (put_list l ?s) = event_at OnEntityAdd s" by (simp add: new_entity_def erase_entity_def)
  have "EntityAdd record_change e (put_list l ?s) = Some (put_list l ?s\<lparr>change_log := change_log s @ told OnEntityAdd (EntityAdded e) s\<rparr>)"
    using records(3)[of "event_holds F OnEntityAdd" "put_list l ?s" e] ecs_okD(2)[OF assms(1), of OnEntityAdd]
    unfolding ev told_def by (simp add: new_entity_def erase_entity_def)
  then show ?thesis using l by (simp add: AddEntity_def)
qed

text \<open>adding an entity returns it, tells the listeners and makes it the entity that \<open>GetEntity\<close> finds, without
  components; removing it again gives back the manager as it was: every object, the list, the table.\<close>
theorem AddEntity_RemoveEntity:
  assumes "ecs_ok no_frames s" "entity_heap s e = None" "n \<notin> set (order (entity_list s))"
  shows "\<exists>s1. AddEntity record_change e n s = Some (Some e, s1) \<and> ecs_ok no_frames s1 \<and>
    GetEntity e s1 = Some (Some e) \<and> EntityCount s1 = EntityCount s + 1 \<and> (\<forall>i < class_count s. HasComponent i e s1 = Some False) \<and>
    RemoveEntity record_change e s1 =
      Some (s\<lparr>change_log := change_log s @ told OnEntityAdd (EntityAdded e) s @ told OnEntityRemove (EntityRemoved e) s\<rparr>)"
proof -
  let ?s1 = "(new_entity e n s)\<lparr>change_log := change_log s @ told OnEntityAdd (EntityAdded e) s\<rparr>"
  note S = ecs_okD(1)[OF assms(1)] and T = table_okD[OF ecs_okD(3)[OF assms(1)]]
  note A = AddEntity_records[OF assms]
  have e: "e \<notin> fst ` set (entities s)" using T(3) assms(2) by blast
  then have same: "filter (\<lambda>(k, _). k \<noteq> e) (entities s) = entities s" by (force simp: filter_id_conv)
  have ents: "entities ?s1 = entities s @ [(e, n)]" by (simp add: new_entity_def erase_entity_def same)
  have none: "map_of (entities s) e = None" using e by (simp add: map_of_eq_None_iff)
  have m: "map_of (entities ?s1) e = Some n" unfolding ents by (simp add: none map_add_def)
  have lst: "entity_list ?s1 = push_new n e (entity_list s)" by (simp add: new_entity_def)
  have get: "GetEntity e ?s1 = Some (Some e)" unfolding GetEntity_def m lst by (simp add: Get_def push_new_def set_cell_def)
  let ?x = "\<lparr>entity_id = e, component_list = replicate (class_count s) None\<rparr>"
  have heap: "entity_heap ?s1 = (entity_heap s)(e \<mapsto> ?x)" by (simp add: new_entity_def)
  let ?s2 = "put_list (entity_list s) (erase_entity e ?s1)"
  have ev: "event_at p ?s2 = event_at p s" for p by (cases p) (simp_all add: erase_entity_def new_entity_def)
  have none: "components_from 0 ?x = []" by (simp add: components_from_def List.map_filter_def filter_empty_conv)
  have told: "told p a ?s2 = told p a s" for p a by (simp only: told_def[of p a ?s2] told_def[of p a s] ev)
  have r: "RemoveEntity record_change e ?s1 = drop_entity record_change e ?s2"
    using m Detach_push_new[OF S assms(3), of e] by (simp add: RemoveEntity_def lst)
  have evs: "event_ok (event_holds no_frames p) (event_at p ?s2)" for p unfolding ev by (rule ecs_okD(2)[OF assms(1)])
  have x: "entity_heap ?s2 e = Some ?x" using heap by simp
  have undo: "(entity_heap ?s2)(e := None) = entity_heap s" using heap assms(2) by auto
  have ents2: "entities ?s2 = entities s" using ents same by (simp add: erase_entity_def)
  have fin: "?s2\<lparr>entity_heap := (entity_heap ?s2)(e := None), component_heap := component_heap ?s2 |` (- set (components_from 0 ?x)), change_log := l\<rparr> =
      s\<lparr>change_log := l\<rparr>" for l
    using undo ents2 unfolding none by (cases s) (simp add: erase_entity_def new_entity_def)
  have "RemoveEntity record_change e ?s1 =
      Some (s\<lparr>change_log := change_log ?s2 @ told OnEntityRemove (EntityRemoved e) ?s2\<rparr>)"
    unfolding r using drop_entity_records[OF evs x] unfolding fin by (simp add: none)
  moreover have "change_log ?s2 = change_log s @ told OnEntityAdd (EntityAdded e) s" by (simp add: erase_entity_def)
  moreover have "ecs_ok no_frames ?s1" by (rule recording.AddEntity_keeps[OF assms A])
  moreover have "\<forall>i < class_count s. HasComponent i e ?s1 = Some False" using heap by (simp add: HasComponent_def component_at_def)
  moreover have "EntityCount ?s1 = EntityCount s + 1" unfolding EntityCount_def ents by simp
  ultimately show ?thesis using A get told by (intro exI[of _ ?s1]) simp
qed

definition logged_new :: "nat \<Rightarrow> ('f, 'd) logged_ecs" where
  "logged_new classes = \<lparr>class_count = classes, entity_heap = Map.empty, component_heap = Map.empty, entities = [],
     entity_list = empty_list, component_add_event = Event_new, component_remove_event = Event_new,
     entity_add_event = Event_new, entity_remove_event = Event_new, change_log = []\<rparr>"

lemma ecs_ok_logged: "ecs_ok no_frames (logged_new classes)"
proof (rule ecs_okI)
  show "event_ok (event_holds no_frames p) (event_at p (logged_new classes))" for p
    using event_ok_new by (cases p) (simp_all add: logged_new_def no_frames_def)
qed (use safe_ok_empty in \<open>auto simp: logged_new_def no_frames_def table_ok_def owners_ok_def owns_iff datum_def empty_list_def safe_ok_def\<close>)

text \<open>An entity at 2 with a component at 3, and listener 7 of the components that go.\<close>

definition entity_with_component :: "(nat, string) logged_ecs option" where
  "entity_with_component = ecs_ops first_unused record_change
     [OpListen OnComponentRemove 1 7, OpAddEntity, OpAddComponent 0 ''c'' 2] (logged_new 2)"

theorem RemoveEntity_correct_witness:
  "\<exists>s s'. entity_with_component = Some s \<and> RemoveEntity record_change 2 s = Some s' \<and> entity_heap s' 2 = None \<and>
    order (entity_list s') = [] \<and> change_log s' = [(7, ComponentRemoved 2 3)]"
proof -
  have "map_option (\<lambda>s. (map_of (entities s) 2, entity_heap s 2, order (entity_list s), change_log s,
      told OnComponentRemove (ComponentRemoved 2 3) s, told OnEntityRemove (EntityRemoved 2) s)) entity_with_component =
      Some (Some 2, Some \<lparr>entity_id = 2, component_list = [Some 3, None]\<rparr>, [2], [], [(7, ComponentRemoved 2 3)], [])"
    by code_simp
  then obtain s where s: "entity_with_component = Some s" "map_of (entities s) 2 = Some 2"
    "entity_heap s 2 = Some \<lparr>entity_id = 2, component_list = [Some 3, None]\<rparr>" "order (entity_list s) = [2]" "change_log s = []"
    "told OnComponentRemove (ComponentRemoved 2 3) s = [(7, ComponentRemoved 2 3)]" "told OnEntityRemove (EntityRemoved 2) s = []"
    by auto
  have "ecs_ok no_frames s"
    by (rule recording.ecs_ops_keep[OF ecs_ok_logged s(1)[unfolded entity_with_component_def]])
  from RemoveEntity_correct[OF this s(2,3)] s show ?thesis by (auto simp: List.map_filter_def)
qed

theorem AddEntity_RemoveEntity_witness:
  "\<exists>s. AddEntity record_change 5 6 (logged_new 2) = Some (Some 5, s) \<and> GetEntity 5 s = Some (Some 5) \<and>
    RemoveEntity record_change 5 s = Some (logged_new 2 :: (nat, string) logged_ecs)"
proof -
  let ?s = "logged_new 2 :: (nat, string) logged_ecs"
  have a: "entity_heap ?s 5 = None" "6 \<notin> set (order (entity_list ?s))" "change_log ?s = []" by (simp_all add: logged_new_def empty_list_def)
  have t: "told p a ?s = []" for p a
    by (cases p) (simp_all add: told_def logged_new_def Event_new_def empty_list_def contents_def map_filter_simps)
  have "?s\<lparr>change_log := []\<rparr> = ?s" by (simp add: logged_new_def)
  with AddEntity_RemoveEntity[OF ecs_ok_logged a(1,2)] show ?thesis unfolding a(3) t by auto
qed

end
