(* ===== verification/EcsClear.thy ===== *)
theory EcsClear
  imports EcsLog
begin

text \<open>
  Removing all entities, and the end of a manager: the loop over the nodes does the same as removing the entities one
  after the other in the order they were added, and leaves nothing. The listeners are those of theory EcsLog.
\<close>

section \<open>One turn of the loop\<close>

abbreviation remove_loop :: "handle option \<Rightarrow> ('f, 'd) logged_ecs \<Rightarrow> ('f, 'd) logged_ecs option" where
  "remove_loop \<equiv> safe_iterate entity_list put_list Detach (remove_entity_body record_change)"

lemma drop_entity_put_list:
  assumes "ecs_ok F s" "entity_heap s e = Some x"
  obtains s' where "drop_entity record_change e (erase_entity e s) = Some s'" "entity_list s' = entity_list s"
    "\<And>l. drop_entity record_change e (put_list l (erase_entity e s)) = Some (put_list l s')"
proof -
  let ?f = "\<lambda>s :: ('a, 'b) logged_ecs. s\<lparr>entity_heap := (entity_heap s)(e := None), component_heap := component_heap s |` (- set (components_from 0 x)),
    change_log := change_log s @ concat (map (\<lambda>c. told OnComponentRemove (ComponentRemoved e c) s) (components_from 0 x)) @
      told OnEntityRemove (EntityRemoved e) s\<rparr>"
  have ev: "event_at p (put_list l (erase_entity e s)) = event_at p s" "event_at p (erase_entity e s) = event_at p s" for p l
    by (cases p; simp add: erase_entity_def)+
  have heaps: "entity_heap (erase_entity e s) = entity_heap s" "component_heap (erase_entity e s) = component_heap s"
    "entity_list (erase_entity e s) = entity_list s" by (simp_all add: erase_entity_def)
  note ok = ecs_okD(2)[OF assms(1)] components_ok[OF assms]
  have "drop_entity record_change e (erase_entity e s) = Some (?f (erase_entity e s))"
    by (rule drop_entity_records[of "event_holds F"]) (use ok assms(2) in \<open>simp_all add: ev heaps\<close>)
  moreover have "drop_entity record_change e (put_list l (erase_entity e s)) = Some (put_list l (?f (erase_entity e s)))" for l
  proof -
    have "drop_entity record_change e (put_list l (erase_entity e s)) = Some (?f (put_list l (erase_entity e s)))"
      by (rule drop_entity_records[of "event_holds F"]) (use ok assms(2) in \<open>simp_all add: ev heaps\<close>)
    moreover have "?f (put_list l (erase_entity e s)) = put_list l (?f (erase_entity e s))" by (simp add: told_def ev)
    ultimately show ?thesis by simp
  qed
  ultimately show ?thesis by (intro that) (simp_all add: heaps)
qed

lemma remove_turn:
  assumes "ecs_ok no_frames s" "order (entity_list s) = n # ns"
  obtains e s' where "datum (entity_list s) n = Some e" "map_of (entities s) e = Some n" "RemoveEntity record_change e s = Some s'"
    "order (entity_list s') = ns" "datum (entity_list s') = (datum (entity_list s))(n := None)"
    "remove_loop (Some n) s = remove_loop (first_node (entity_list s')) s'"
proof -
  note S = ecs_okD(1)[OF assms(1)] and T = table_okD[OF ecs_okD(3)[OF assms(1)]]
  have S0: "safe_ok (\<lambda>_. 0) (entity_list s)" using S by (simp add: no_frames_def)
  obtain e l1 l2 l0 where l: "IncrRef n (entity_list s) = Some l1" "Detach n l1 = Some (Some e, l2)" "DecrRef n l2 = Some l0"
    "Detach n (entity_list s) = Some (Some e, l0)" "datum (entity_list s) n = Some e" "next_node n l2 = Some (first_node l0)"
    "safe_ok (\<lambda>_. 0) l0" "datum l0 = (datum (entity_list s))(n := None)" "order l0 = ns"
    by (rule take_first[OF S0 assms(2)])
  have en: "(e, n) \<in> set (entities s)" using T(2) l(5) by simp
  then have m: "map_of (entities s) e = Some n" using T(1) by simp
  have "e \<in> dom (entity_heap s)" using T(3) en by force
  then obtain x where x: "entity_heap s e = Some x" by blast
  have id: "entity_id x = e" using ecs_okD(4)[OF assms(1)] x by (simp add: owners_ok_def)
  obtain s' where d: "\<And>l. drop_entity record_change e (put_list l (erase_entity e s)) = Some (put_list l s')"
    by (rule drop_entity_put_list[OF assms(1) x]) (rule that)
  have "erase_entity e (put_list l s) = put_list l (erase_entity e s)" for l by (simp add: erase_entity_def)
  then have "remove_entity_body record_change e (put_list l2 s) = Some (True, put_list l2 s')"
    using x id d[of l2] by (simp add: remove_entity_body_def)
  then have "remove_loop (Some n) s = remove_loop (first_node l0) (put_list l0 s')"
    using l(1,2,3,6) by (subst safe_iterate.simps) simp
  moreover have "RemoveEntity record_change e s = Some (put_list l0 s')"
    using m l(4) d[of l0] by (simp add: RemoveEntity_def erase_entity_def)
  ultimately show ?thesis using l(5,8,9) m by (intro that[of e "put_list l0 s'"]) simp_all
qed

section \<open>The whole loop\<close>

definition owned :: "('f, 'd, 'z) ecs_scheme \<Rightarrow> handle set" where
  "owned s = {c. \<exists>e i. owns s e i c}"

lemma no_nodes:
  assumes "ecs_ok no_frames s" "order (entity_list s) = []"
  shows "entities s = []" "entity_heap s = Map.empty"
proof -
  note T = table_okD[OF ecs_okD(3)[OF assms(1)]]
  have "cells (entity_list s) n = None" for n using safe_okD(3)[OF ecs_okD(1)[OF assms(1)], of n] assms(2) by simp
  then have "datum (entity_list s) n = None" for n by (simp add: datum_def)
  then have "set (entities s) = {}" unfolding T(2) by simp
  then show "entities s = []" by simp
  then show "entity_heap s = Map.empty" using T(3) by (simp add: no_frames_def)
qed

lemma remove_all_ok:
  "ecs_ok no_frames s \<Longrightarrow>
   \<exists>s'. remove_loop (first_node (entity_list s)) s = Some s' \<and> for_each (RemoveEntity record_change) (contents (entity_list s)) s = Some s' \<and>
     ecs_ok no_frames s' \<and> order (entity_list s') = [] \<and> component_heap s' = component_heap s |` (- owned s) \<and>
     (\<forall>p. event_at p s' = event_at p s)"
proof (induction "order (entity_list s)" arbitrary: s)
  case Nil
  then have o: "order (entity_list s) = []" by simp
  then have "entity_heap s = Map.empty" by (rule no_nodes(2)[OF Nil.prems])
  then have "owned s = {}" by (simp add: owned_def owns_iff)
  then show ?case using o Nil.prems by (simp add: first_node_def contents_def map_filter_simps safe_iterate.simps)
next
  case (Cons n ns)
  obtain e s1 where r: "datum (entity_list s) n = Some e" "map_of (entities s) e = Some n" "RemoveEntity record_change e s = Some s1"
    "order (entity_list s1) = ns" "datum (entity_list s1) = (datum (entity_list s))(n := None)"
    "remove_loop (Some n) s = remove_loop (first_node (entity_list s1)) s1"
    by (rule remove_turn[OF Cons.prems Cons.hyps(2)[symmetric]])
  have "e \<in> fst ` set (entities s)" using map_of_SomeD[OF r(2)] by force
  then have "e \<in> dom (entity_heap s)" using table_okD(3)[OF ecs_okD(3)[OF Cons.prems]] by simp
  then obtain x where x: "entity_heap s e = Some x" by blast
  from RemoveEntity_removes[OF Cons.prems r(2) x] r(3) have s1: "ecs_ok no_frames s1" "entity_heap s1 = (entity_heap s)(e := None)"
    "component_heap s1 = component_heap s |` (- {c. \<exists>i. owns s e i c})" "\<forall>p. event_at p s1 = event_at p s" by auto
  have c: "contents (entity_list s) = e # contents (entity_list s1)"
  proof -
    have "n \<notin> set ns" using safe_okD(1)[OF ecs_okD(1)[OF Cons.prems]] Cons.hyps(2)[symmetric] by simp
    then have "List.map_filter (datum (entity_list s1)) ns = List.map_filter (datum (entity_list s)) ns"
      unfolding r(5) List.map_filter_def by (intro arg_cong2[of _ _ _ _ map] filter_cong map_cong) auto
    then show ?thesis using r(1,4) by (simp add: contents_def map_filter_simps flip: Cons.hyps(2))
  qed
  have "owns s1 e' i c \<longleftrightarrow> e' \<noteq> e \<and> owns s e' i c" for e' i c unfolding owns_iff s1(2) by auto
  then have o1: "owned s1 = {c. \<exists>e' i. e' \<noteq> e \<and> owns s e' i c}" unfolding owned_def by (simp only:)
  have o: "owned s = {c. \<exists>i. owns s e i c} \<union> owned s1"
  proof (rule set_eqI)
    fix c
    have "(\<exists>e' i. owns s e' i c) \<longleftrightarrow> (\<exists>i. owns s e i c) \<or> (\<exists>e' i. e' \<noteq> e \<and> owns s e' i c)" by metis
    then show "c \<in> owned s \<longleftrightarrow> c \<in> {c. \<exists>i. owns s e i c} \<union> owned s1"
      unfolding o1 unfolding owned_def Un_iff mem_Collect_eq .
  qed
  obtain s' where IH: "remove_loop (first_node (entity_list s1)) s1 = Some s'"
    "for_each (RemoveEntity record_change) (contents (entity_list s1)) s1 = Some s'" "ecs_ok no_frames s'"
    "order (entity_list s') = []" "component_heap s' = component_heap s1 |` (- owned s1)" "\<forall>p. event_at p s' = event_at p s1"
    using Cons.hyps(1)[OF r(4)[symmetric] s1(1)] by blast
  have "first_node (entity_list s) = Some n" by (simp add: first_node_def flip: Cons.hyps(2))
  moreover have "component_heap s' = component_heap s |` (- owned s)" unfolding IH(5) s1(3) o by (simp add: restrict_restrict Int_commute)
  ultimately show ?case using r(3,6) IH(1-4,6) s1(4) c by simp
qed

text \<open>C17: with listeners that write down what they are told and leave the manager alone: removing all entities returns and is the same as removing each of them in the order in which they were added, with
  everything that the listeners are told; then the table, the list and the heap of entities are empty, and
  exactly the components that entities owned are freed. So the destructor of the manager returns.\<close>
theorem RemoveAllEntity_correct:
  assumes "ecs_ok no_frames s"
  shows "\<exists>s'. RemoveAllEntity record_change s = Some s' \<and> for_each (RemoveEntity record_change) (contents (entity_list s)) s = Some s' \<and>
    entities s' = [] \<and> order (entity_list s') = [] \<and> entity_heap s' = Map.empty \<and> component_heap s' = component_heap s |` (- owned s) \<and>
    EntityManager_delete record_change s \<noteq> None"
proof -
  obtain s' where s': "remove_loop (first_node (entity_list s)) s = Some s'"
    "for_each (RemoveEntity record_change) (contents (entity_list s)) s = Some s'"
    "ecs_ok no_frames s'" "order (entity_list s') = []" "component_heap s' = component_heap s |` (- owned s)" "\<forall>p. event_at p s' = event_at p s"
    using remove_all_ok[OF assms] by blast
  have r: "RemoveAllEntity record_change s = Some s'" using s'(1) by (simp add: RemoveAllEntity_def safe_foreach_def)
  have "Event_delete (event_at p s') \<noteq> None" for p
    using ecs_okD(2)[OF s'(3), of p] by (metis Event_delete_def RemoveAllListener_ok option.distinct(1))
  from this[of OnEntityRemove] this[of OnEntityAdd] this[of OnComponentRemove] this[of OnComponentAdd]
  have "EntityManager_delete record_change s \<noteq> None" by (auto simp: EntityManager_delete_def r)
  with r s' no_nodes[OF s'(3,4)] show ?thesis by blast
qed

theorem RemoveAllEntity_correct_witness:
  "\<exists>s s'. entity_with_component = Some s \<and> RemoveAllEntity record_change s = Some s' \<and> RemoveEntity record_change 2 s = Some s' \<and>
    entity_heap s' = Map.empty \<and> component_heap s' 3 = None"
proof -
  have "map_option (\<lambda>s. (contents (entity_list s), component_at 2 0 s)) entity_with_component = Some ([2], Some (Some 3))" by code_simp
  then obtain s where s: "entity_with_component = Some s" "contents (entity_list s) = [2]" "component_at 2 0 s = Some (Some 3)" by auto
  have "ecs_ok no_frames s"
    by (rule recording.ecs_ops_keep[OF ecs_ok_logged s(1)[unfolded entity_with_component_def]])
  note R = RemoveAllEntity_correct[OF this]
  have "owns s 2 0 3" using s(3) by (simp add: owns_def)
  then have "3 \<in> owned s" unfolding owned_def by blast
  then show ?thesis using R s(1) unfolding s(2) by (auto split: bind_split_asm)
qed

end
