(* ===== verification/Systems.thy ===== *)
theory Systems
  imports PassiveLoop
begin

text \<open>
  The systems of include/mzx/ecs.h: a manager keeps at most one system of each class, in a vector by class and in a list in
  the order they were added, and updates one of them or all.

  What the \<open>_Update\<close> of a system does is the parameter \<open>run\<close>, on a state that holds the manager; the destructors of
  systems do nothing to the manager.
\<close>

section \<open>The manager\<close>

record 'y system_obj =
  sys_class :: nat
  sys_impl :: 'y

record 'y system_manager =
  systems :: "handle option list"
  system_list :: "'y system_obj safe_list"

definition EntitySystemManager_new :: "nat \<Rightarrow> 'y system_manager" where
  "EntitySystemManager_new classes = \<lparr>systems = replicate classes None, system_list = empty_list\<rparr>"

definition system_at :: "nat \<Rightarrow> 'y system_manager \<Rightarrow> handle option option" where
  "system_at i m = do { check (i < length (systems m)); Some (systems m ! i) }"

definition AddSystem :: "handle \<Rightarrow> nat \<Rightarrow> 'y \<Rightarrow> 'y system_manager \<Rightarrow> 'y system_manager option" where
  "AddSystem n i y m = do {
     slot \<leftarrow> system_at i m;
     check (slot = None);
     Some (m\<lparr>system_list := push_new n \<lparr>sys_class = i, sys_impl = y\<rparr> (system_list m), systems := (systems m)[i := Some n]\<rparr>) }"

definition RemoveSystem :: "nat \<Rightarrow> 'y system_manager \<Rightarrow> 'y system_manager option" where
  "RemoveSystem i m = do {
     slot \<leftarrow> system_at i m;
     (case slot of
        None \<Rightarrow> Some m
      | Some n \<Rightarrow> do {
          (d, l) \<leftarrow> Detach n (system_list m);
          Some (m\<lparr>systems := (systems m)[i := None], system_list := l\<rparr>) }) }"

definition remove_system_body :: "'y system_obj \<Rightarrow> 'y system_manager \<Rightarrow> (bool \<times> 'y system_manager) option" where
  "remove_system_body d m = do {
     slot \<leftarrow> system_at (sys_class d) m;
     Some (True, m\<lparr>systems := (systems m)[sys_class d := None]\<rparr>) }"

definition RemoveAllSystem :: "'y system_manager \<Rightarrow> 'y system_manager option" where
  "RemoveAllSystem m = safe_foreach system_list (\<lambda>l m. m\<lparr>system_list := l\<rparr>) Detach remove_system_body m"

definition EntitySystemManager_delete :: "'y system_manager \<Rightarrow> 'y system_manager option" where
  "EntitySystemManager_delete m = RemoveAllSystem m"

definition Update_system :: "('s \<Rightarrow> 'y system_manager) \<Rightarrow> ('y \<Rightarrow> 'a \<Rightarrow> 's \<Rightarrow> 's option) \<Rightarrow> nat \<Rightarrow> 'a \<Rightarrow> 's \<Rightarrow> 's option" where
  "Update_system get run i arg s = do {
     slot \<leftarrow> system_at i (get s);
     (case slot of
        None \<Rightarrow> Some s
      | Some n \<Rightarrow> do {
          d \<leftarrow> Get n (system_list (get s));
          (case d of None \<Rightarrow> Some s | Some d \<Rightarrow> run (sys_impl d) arg s) }) }"

definition system_body :: "('y \<Rightarrow> 'a \<Rightarrow> 's \<Rightarrow> 's option) \<Rightarrow> 'a \<Rightarrow> 'y system_obj \<Rightarrow> 's \<Rightarrow> (bool \<times> 's) option" where
  "system_body run arg d s = do { s \<leftarrow> run (sys_impl d) arg s; Some (True, s) }"

definition put_systems :: "('s \<Rightarrow> 'y system_manager) \<Rightarrow> ('y system_manager \<Rightarrow> 's \<Rightarrow> 's) \<Rightarrow> 'y system_obj safe_list \<Rightarrow> 's \<Rightarrow> 's" where
  "put_systems get put l s = put ((get s)\<lparr>system_list := l\<rparr>) s"

definition UpdateAll :: "('s \<Rightarrow> 'y system_manager) \<Rightarrow> ('y system_manager \<Rightarrow> 's \<Rightarrow> 's) \<Rightarrow> ('y \<Rightarrow> 'a \<Rightarrow> 's \<Rightarrow> 's option) \<Rightarrow> 'a
    \<Rightarrow> 's \<Rightarrow> 's option" where
  "UpdateAll get put run arg s =
     safe_foreach (\<lambda>s. system_list (get s)) (put_systems get put) fetch_get (system_body run arg) s"

section \<open>The invariant\<close>

text \<open>The vector and the list name the same systems, each at its class.\<close>

definition slots_ok :: "'y system_manager \<Rightarrow> bool" where
  "slots_ok m \<longleftrightarrow> (\<forall>n d. datum (system_list m) n = Some d \<longrightarrow> sys_class d < length (systems m) \<and> systems m ! sys_class d = Some n) \<and>
     (\<forall>i n. i < length (systems m) \<longrightarrow> systems m ! i = Some n \<longrightarrow> (\<exists>d. datum (system_list m) n = Some d \<and> sys_class d = i))"

definition systems_ok :: "(handle \<Rightarrow> nat) \<Rightarrow> 'y system_manager \<Rightarrow> bool" where
  "systems_ok h m \<longleftrightarrow> safe_ok h (system_list m) \<and> slots_ok m"

abbreviation view :: "'y system_manager \<Rightarrow> 'y system_obj list" where
  "view m \<equiv> contents (system_list m)"

lemma slots_ok_new: "systems_ok (\<lambda>_. 0) (EntitySystemManager_new classes)" "view (EntitySystemManager_new classes) = []"
  using safe_ok_empty
  by (auto simp: systems_ok_def slots_ok_def EntitySystemManager_new_def datum_def empty_list_def contents_def map_filter_simps safe_ok_def)

lemma slotsD:
  assumes "slots_ok m"
  shows "datum (system_list m) n = Some d \<Longrightarrow> sys_class d < length (systems m) \<and> systems m ! sys_class d = Some n"
    "i < length (systems m) \<Longrightarrow> systems m ! i = Some n \<Longrightarrow> \<exists>d. datum (system_list m) n = Some d \<and> sys_class d = i"
  using assms unfolding slots_ok_def by blast+

lemma datum_in_order: "safe_ok h l \<Longrightarrow> datum l n = Some d \<Longrightarrow> n \<in> set (order l)"
  using safe_okD(3) by (auto simp: datum_def split: option.splits)

lemma set_contents:
  assumes "safe_ok h l"
  shows "d \<in> set (contents l) \<longleftrightarrow> (\<exists>n. datum l n = Some d)"
proof
  assume "d \<in> set (contents l)"
  then show "\<exists>n. datum l n = Some d" by (auto simp: contents_def List.map_filter_def)
next
  assume "\<exists>n. datum l n = Some d"
  then obtain n where n: "datum l n = Some d" by blast
  from image_eqI[of d "the \<circ> datum l" n] show "d \<in> set (contents l)"
    using datum_in_order[OF assms n] n by (simp add: contents_def List.map_filter_def)
qed

text \<open>The slot of a class is free if no system of the list has the class.\<close>

lemma slot_free:
  assumes "systems_ok h m" "i < length (systems m)"
  shows "systems m ! i = None \<longleftrightarrow> i \<notin> sys_class ` set (view m)"
proof -
  have S: "safe_ok h (system_list m)" "slots_ok m" using assms(1) by (simp_all add: systems_ok_def)
  show ?thesis
  proof (cases "systems m ! i")
    case None
    have "sys_class d \<noteq> i" if "d \<in> set (view m)" for d
      using that None slotsD(1)[OF S(2)] unfolding set_contents[OF S(1)] by force
    then show ?thesis using None by auto
  next
    case (Some n)
    then obtain d where "datum (system_list m) n = Some d" "sys_class d = i" using slotsD(2)[OF S(2) assms(2)] by blast
    then show ?thesis using Some set_contents[OF S(1)] by force
  qed
qed

lemma slots_ok_take:
  assumes "slots_ok m" "datum (system_list m) n = Some d" "datum l = (datum (system_list m))(n := None)"
    "m' = m\<lparr>systems := (systems m)[sys_class d := None], system_list := l\<rparr>"
  shows "slots_ok m'"
  unfolding slots_ok_def
proof (intro conjI allI impI)
  note D = slotsD(1)[OF assms(1)]
  fix k e assume e: "datum (system_list m') k = Some e"
  then have k: "k \<noteq> n" "datum (system_list m) k = Some e" using assms(3,4) by (auto split: if_splits)
  then have "sys_class e \<noteq> sys_class d" using D[OF assms(2)] D[OF k(2)] by auto
  then show "sys_class e < length (systems m')" "systems m' ! sys_class e = Some k" using D[OF k(2)] assms(4) by simp_all
next
  fix i k assume i: "i < length (systems m')" "systems m' ! i = Some k"
  then have "i \<noteq> sys_class d" "systems m ! i = Some k" using assms(4) by (cases "i = sys_class d"; simp)+
  then obtain e where e: "datum (system_list m) k = Some e" "sys_class e = i" using slotsD(2)[OF assms(1)] i(1) assms(4) by auto
  then have "k \<noteq> n" using \<open>i \<noteq> sys_class d\<close> assms(2) by auto
  then show "\<exists>d. datum (system_list m') k = Some d \<and> sys_class d = i" using e assms(3,4) by auto
qed

section \<open>The operations\<close>

lemma AddSystem_ok:
  assumes "systems_ok h m" "n \<notin> set (order (system_list m))" "i < length (systems m)" "i \<notin> sys_class ` set (view m)"
  obtains m' where "AddSystem n i y m = Some m'" "systems_ok h m'" "view m' = view m @ [\<lparr>sys_class = i, sys_impl = y\<rparr>]"
    "length (systems m') = length (systems m)"
proof -
  let ?d = "\<lparr>sys_class = i, sys_impl = y\<rparr>"
  let ?m = "m\<lparr>system_list := push_new n ?d (system_list m), systems := (systems m)[i := Some n]\<rparr>"
  have S: "safe_ok h (system_list m)" "slots_ok m" using assms(1) by (simp_all add: systems_ok_def)
  have free: "systems m ! i = None" using slot_free[OF assms(1,3)] assms(4) by simp
  note p = push_new_ok[OF S(1) assms(2), of ?d]
  have none: "datum (system_list m) n = None" using datum_in_order[OF S(1), of n] assms(2) by (cases "datum (system_list m) n") auto
  have "slots_ok ?m"
    unfolding slots_ok_def
  proof (intro conjI allI impI)
    fix k e assume "datum (system_list ?m) k = Some e"
    then consider "k = n" "e = ?d" | "k \<noteq> n" "datum (system_list m) k = Some e" using p(4) by (auto split: if_splits)
    then show "sys_class e < length (systems ?m)" "systems ?m ! sys_class e = Some k"
      using slotsD(1)[OF S(2)] free assms(3) by (cases; force simp: nth_list_update)+
  next
    fix j k assume j: "j < length (systems ?m)" "systems ?m ! j = Some k"
    show "\<exists>d. datum (system_list ?m) k = Some d \<and> sys_class d = j"
    proof (cases "j = i")
      case True
      then show ?thesis using j assms(3) p(4) by simp
    next
      case False
      then obtain d where "datum (system_list m) k = Some d" "sys_class d = j" using slotsD(2)[OF S(2)] j by auto
      then show ?thesis using none p(4) by (auto intro: exI[of _ d])
    qed
  qed
  then show ?thesis
    using p(1,2) free assms(3) by (intro that[of ?m]) (simp_all add: AddSystem_def system_at_def systems_ok_def)
qed

lemma RemoveSystem_ok:
  assumes "systems_ok h m" "i < length (systems m)"
  obtains m' where "RemoveSystem i m = Some m'" "systems_ok h m'" "view m' = filter (\<lambda>d. sys_class d \<noteq> i) (view m)"
    "length (systems m') = length (systems m)"
proof (cases "systems m ! i")
  case None
  then have "filter (\<lambda>d. sys_class d \<noteq> i) (view m) = view m"
    using slot_free[OF assms] by (force simp: filter_id_conv)
  then show ?thesis using None assms by (intro that[of m]) (simp_all add: RemoveSystem_def system_at_def)
next
  case (Some n)
  have S: "safe_ok h (system_list m)" "slots_ok m" using assms(1) by (simp_all add: systems_ok_def)
  obtain d where d: "datum (system_list m) n = Some d" "sys_class d = i" using slotsD(2)[OF S(2) assms(2) Some] by blast
  obtain l where l: "Detach n (system_list m) = Some (datum (system_list m) n, l)" "safe_ok h l" "removed h {n} (system_list m) l"
    by (rule Detach_removed[OF S(1) datum_in_order[OF S(1) d(1)]])
  let ?m = "m\<lparr>systems := (systems m)[i := None], system_list := l\<rparr>"
  have n: "m' = n" if "datum (system_list m) m' = Some e" "sys_class e = i" for m' e
    using slotsD(1)[OF S(2) that(1)] that(2) Some by simp
  have "(\<lambda>k. if k \<in> {n} then None else datum (system_list m) k) =
      (\<lambda>k. case datum (system_list m) k of None \<Rightarrow> None | Some e \<Rightarrow> if sys_class e = i then None else Some e)"
  proof
    fix k
    show "(if k \<in> {n} then None else datum (system_list m) k) =
        (case datum (system_list m) k of None \<Rightarrow> None | Some e \<Rightarrow> if sys_class e = i then None else Some e)"
    proof (cases "datum (system_list m) k")
      case (Some e)
      have "k = n \<longleftrightarrow> sys_class e = i"
      proof
        assume "k = n"
        then show "sys_class e = i" using Some d by simp
      qed (rule n[OF Some])
      then show ?thesis using Some by simp
    qed simp
  qed
  then have "contents l = filter (\<lambda>d. sys_class d \<noteq> i) (view m)"
    unfolding contents_removed[OF l(3)] by (simp add: map_filter_if contents_def)
  moreover have "slots_ok ?m"
    by (rule slots_ok_take[OF S(2) d(1)]) (use l(3) d(2) in \<open>auto simp: removed_def\<close>)
  ultimately show ?thesis
    using l(1,2) Some assms(2) by (intro that[of ?m]) (simp_all add: RemoveSystem_def system_at_def systems_ok_def)
qed

lemma remove_systems_returns:
  "systems_ok (\<lambda>_. 0) m \<Longrightarrow> node = first_node (system_list m) \<Longrightarrow>
   \<exists>m'. safe_iterate system_list (\<lambda>l m. m\<lparr>system_list := l\<rparr>) Detach remove_system_body node m = Some m' \<and>
     systems_ok (\<lambda>_. 0) m' \<and> order (system_list m') = [] \<and> length (systems m') = length (systems m)"
proof (induction "order (system_list m)" arbitrary: m node)
  case Nil
  then show ?case by (simp add: first_node_def safe_iterate.simps)
next
  case (Cons n ns)
  let ?put = "\<lambda>l m :: 'a system_manager. m\<lparr>system_list := l\<rparr>"
  have S: "safe_ok (\<lambda>_. 0) (system_list m)" "slots_ok m" using Cons.prems(1) by (simp_all add: systems_ok_def)
  have node: "node = Some n" using Cons.hyps(2) Cons.prems(2) by (simp add: first_node_def flip: Cons.hyps(2))
  obtain d l1 l2 l3 where l: "IncrRef n (system_list m) = Some l1" "Detach n l1 = Some (Some d, l2)" "DecrRef n l2 = Some l3"
    "Detach n (system_list m) = Some (Some d, l3)" "datum (system_list m) n = Some d" "next_node n l2 = Some (first_node l3)"
    "safe_ok (\<lambda>_. 0) l3" "datum l3 = (datum (system_list m))(n := None)" "order l3 = ns"
    by (rule take_first[OF S(1) Cons.hyps(2)[symmetric]])
  let ?m = "m\<lparr>systems := (systems m)[sys_class d := None], system_list := l3\<rparr>"
  from slots_ok_take[OF S(2) l(5,8) refl] have ok: "systems_ok (\<lambda>_. 0) ?m" using l(7) by (simp add: systems_ok_def)
  have c: "sys_class d < length (systems m)" using slotsD(1)[OF S(2) l(5)] by simp
  have "safe_iterate system_list ?put Detach remove_system_body node m = safe_iterate system_list ?put Detach remove_system_body (first_node l3) ?m"
    using node l(1,2,3,6) c by (subst safe_iterate.simps) (simp add: remove_system_body_def system_at_def)
  then show ?case using Cons.hyps(1)[of ?m "first_node l3"] ok l(9) by simp
qed

section \<open>The refinement\<close>

datatype 'y system_op = SAdd handle nat 'y | SRemove nat | SRemoveAll

definition system_op :: "'y system_op \<Rightarrow> 'y system_manager \<Rightarrow> 'y system_manager option" where
  "system_op op m = (case op of SAdd n i y \<Rightarrow> AddSystem n i y m | SRemove i \<Rightarrow> RemoveSystem i m | SRemoveAll \<Rightarrow> RemoveAllSystem m)"

definition view_op :: "nat \<Rightarrow> 'y system_op \<Rightarrow> 'y system_obj list \<Rightarrow> 'y system_obj list option" where
  "view_op classes op ds = (case op of
     SAdd n i y \<Rightarrow> if i < classes \<and> i \<notin> sys_class ` set ds then Some (ds @ [\<lparr>sys_class = i, sys_impl = y\<rparr>]) else None
   | SRemove i \<Rightarrow> if i < classes then Some (filter (\<lambda>d. sys_class d \<noteq> i) ds) else None
   | SRemoveAll \<Rightarrow> Some [])"

definition fresh_node :: "'y system_op \<Rightarrow> 'y system_manager \<Rightarrow> bool" where
  "fresh_node op m = (case op of SAdd n i y \<Rightarrow> n \<notin> set (order (system_list m)) | _ \<Rightarrow> True)"

lemma distinct_map_filter_by:
  "distinct xs \<Longrightarrow> (\<And>x y d e. x \<in> set xs \<Longrightarrow> y \<in> set xs \<Longrightarrow> g x = Some d \<Longrightarrow> g y = Some e \<Longrightarrow> f d = f e \<Longrightarrow> x = y) \<Longrightarrow>
   distinct (map f (List.map_filter g xs))"
proof (induction xs)
  case (Cons x xs)
  have IH: "distinct (map f (List.map_filter g xs))"
    by (rule Cons.IH) (use Cons.prems in auto)
  have "f d \<notin> f ` set (List.map_filter g xs)" if "g x = Some d" for d
  proof
    assume "f d \<in> f ` set (List.map_filter g xs)"
    then obtain y e where "y \<in> set xs" "g y = Some e" "f d = f e" by (auto simp: List.map_filter_def)
    then show False using Cons.prems(2)[of x y d e] that Cons.prems(1) by auto
  qed
  then show ?case using IH by (simp add: map_filter_simps split: option.split)
qed (simp add: map_filter_simps)

lemma find_unique: "distinct (map f ds) \<Longrightarrow> d \<in> set ds \<Longrightarrow> List.find (\<lambda>e. f e = f d) ds = Some d"
  by (induction ds) (auto simp: image_iff)

lemma distinct_classes:
  assumes "systems_ok h m"
  shows "distinct (map sys_class (view m))"
  unfolding contents_def
proof (rule distinct_map_filter_by)
  have S: "safe_ok h (system_list m)" "slots_ok m" using assms by (simp_all add: systems_ok_def)
  show "distinct (order (system_list m))" by (rule safe_okD(1)[OF S(1)])
  fix x y d e assume "datum (system_list m) x = Some d" "datum (system_list m) y = Some e" "sys_class d = sys_class e"
  then show "x = y" using slotsD(1)[OF S(2), of x d] slotsD(1)[OF S(2), of y e] by simp
qed

lemma Update_system_finds:
  assumes "systems_ok h m" "i < length (systems m)"
  shows "Update_system snd run i arg (w, m) =
    (case List.find (\<lambda>d. sys_class d = i) (view m) of None \<Rightarrow> Some (w, m) | Some d \<Rightarrow> run (sys_impl d) arg (w, m))"
proof -
  have S: "safe_ok h (system_list m)" "slots_ok m" using assms(1) by (simp_all add: systems_ok_def)
  show ?thesis
  proof (cases "systems m ! i")
    case None
    then have "List.find (\<lambda>d. sys_class d = i) (view m) = None"
      using slot_free[OF assms] by (force simp: find_None_iff)
    then show ?thesis using None assms(2) by (simp add: Update_system_def system_at_def)
  next
    case (Some n)
    then obtain d where d: "datum (system_list m) n = Some d" "sys_class d = i" using slotsD(2)[OF S(2) assms(2)] by blast
    have "d \<in> set (view m)" using d(1) set_contents[OF S(1)] by blast
    from find_unique[OF distinct_classes[OF assms(1)] this] have "List.find (\<lambda>d. sys_class d = i) (view m) = Some d" using d(2) by simp
    moreover have "Get n (system_list m) = Some (Some d)" using d(1) by (auto simp: Get_def datum_def split: option.splits)
    ultimately show ?thesis using Some assms(2) by (simp add: Update_system_def system_at_def)
  qed
qed

lemma system_op_ok:
  assumes "systems_ok (\<lambda>_. 0) m" "fresh_node op m"
  shows "map_option view (system_op op m) = view_op (length (systems m)) op (view m) \<and>
    (\<forall>m'. system_op op m = Some m' \<longrightarrow> systems_ok (\<lambda>_. 0) m' \<and> length (systems m') = length (systems m))"
proof (cases op)
  case (SAdd n i y)
  have n: "n \<notin> set (order (system_list m))" using assms(2) SAdd by (simp add: fresh_node_def)
  show ?thesis
  proof (cases "i < length (systems m) \<and> i \<notin> sys_class ` set (view m)")
    case True
    then obtain m' where "AddSystem n i y m = Some m'" "systems_ok (\<lambda>_. 0) m'" "view m' = view m @ [\<lparr>sys_class = i, sys_impl = y\<rparr>]"
      "length (systems m') = length (systems m)" using AddSystem_ok[OF assms(1) n] by metis
    then show ?thesis using True SAdd by (simp add: system_op_def view_op_def)
  next
    case False
    then have "AddSystem n i y m = None" using slot_free[OF assms(1), of i] by (auto simp: AddSystem_def system_at_def check_def)
    then show ?thesis using False SAdd by (auto simp: system_op_def view_op_def)
  qed
next
  case (SRemove i)
  show ?thesis
  proof (cases "i < length (systems m)")
    case True
    obtain m' where "RemoveSystem i m = Some m'" "systems_ok (\<lambda>_. 0) m'" "view m' = filter (\<lambda>d. sys_class d \<noteq> i) (view m)"
      "length (systems m') = length (systems m)" by (rule RemoveSystem_ok[OF assms(1) True])
    then show ?thesis using True SRemove by (simp add: system_op_def view_op_def)
  next
    case False
    then show ?thesis using SRemove by (simp add: system_op_def view_op_def RemoveSystem_def system_at_def check_def)
  qed
next
  case SRemoveAll
  obtain m' where "RemoveAllSystem m = Some m'" "systems_ok (\<lambda>_. 0) m'" "order (system_list m') = []" "length (systems m') = length (systems m)"
    using remove_systems_returns[OF assms(1) refl] by (auto simp: RemoveAllSystem_def safe_foreach_def)
  then show ?thesis using SRemoveAll by (simp add: system_op_def view_op_def contents_def map_filter_simps)
qed

text \<open>C18: a manager of systems implements a list of systems with different classes: adding appends one, and aborts if there is
  one of its class, removing takes out the one of a class, removing all empties it; updating a class runs
  the system of the list that has it, and nothing if none has.\<close>
theorem systems_refine:
  assumes "systems_ok (\<lambda>_. 0) m" "fresh_node op m"
  shows "map_option view (system_op op m) = view_op (length (systems m)) op (view m) \<and>
    (\<forall>m'. system_op op m = Some m' \<longrightarrow> systems_ok (\<lambda>_. 0) m' \<and> length (systems m') = length (systems m)) \<and>
    distinct (map sys_class (view m)) \<and>
    (\<forall>i < length (systems m). Update_system snd run i arg (w, m) =
      (case List.find (\<lambda>d. sys_class d = i) (view m) of None \<Rightarrow> Some (w, m) | Some d \<Rightarrow> run (sys_impl d) arg (w, m)))"
  using system_op_ok[OF assms] distinct_classes[OF assms(1)] Update_system_finds[OF assms(1), of _ run arg w] by simp

section \<open>Updating all\<close>

definition record_update :: "'y \<Rightarrow> 'a \<Rightarrow> ('y \<times> 'a) list \<times> 'y system_manager \<Rightarrow> (('y \<times> 'a) list \<times> 'y system_manager) option" where
  "record_update y a s = Some (fst s @ [(y, a)], snd s)"

abbreviation put_manager :: "'y system_manager \<Rightarrow> ('y \<times> 'a) list \<times> 'y system_manager \<Rightarrow> ('y \<times> 'a) list \<times> 'y system_manager" where
  "put_manager m s \<equiv> (fst s, m)"

interpretation update_all: passive_loop "\<lambda>s. system_list (snd s)" "put_systems snd put_manager" "system_body record_update a"
  "\<lambda>d s. (fst s @ [(sys_impl d, a)], snd s)" for a
  by unfold_locales (auto simp: put_systems_def system_body_def record_update_def)

lemma fold_updates: "fold (\<lambda>d s. (fst s @ [(sys_impl d, a)], snd s)) ds s = (fst s @ map (\<lambda>d. (sys_impl d, a)) ds, snd s)"
  by (induction ds arbitrary: s) auto

text \<open>updating all systems updates each system of the list once, in the order they were added, and changes nothing in
  the manager.\<close>
theorem UpdateAll_correct:
  assumes "systems_ok h m"
  shows "UpdateAll snd put_manager record_update a (log, m) = Some (log @ map (\<lambda>d. (sys_impl d, a)) (view m), m)"
  using update_all.foreach_folds[of h "(log, m)" a] assms by (simp add: UpdateAll_def systems_ok_def fold_updates)

text \<open>Two systems, of which the first is replaced.\<close>

definition two_systems :: "string system_manager option" where
  "two_systems = do {
     m \<leftarrow> AddSystem 1 0 ''move'' (EntitySystemManager_new 2);
     m \<leftarrow> AddSystem 2 1 ''draw'' m;
     m \<leftarrow> RemoveSystem 0 m;
     AddSystem 3 0 ''walk'' m }"

lemma two_systems_ok:
  "\<exists>m. two_systems = Some m \<and> systems_ok (\<lambda>_. 0) m \<and> length (systems m) = 2 \<and>
     view m = [\<lparr>sys_class = 1, sys_impl = ''draw''\<rparr>, \<lparr>sys_class = 0, sys_impl = ''walk''\<rparr>] \<and> order (system_list m) = [2, 3]"
proof -
  have "map_option (\<lambda>m. (length (systems m), view m, order (system_list m))) two_systems =
      Some (2, [\<lparr>sys_class = 1, sys_impl = ''draw''\<rparr>, \<lparr>sys_class = 0, sys_impl = ''walk''\<rparr>], [2, 3])"
    by code_simp
  then obtain m where m: "two_systems = Some m" "length (systems m) = 2"
    "view m = [\<lparr>sys_class = 1, sys_impl = ''draw''\<rparr>, \<lparr>sys_class = 0, sys_impl = ''walk''\<rparr>]" "order (system_list m) = [2, 3]" by auto
  obtain m1 m2 m3 where s: "AddSystem 1 0 ''move'' (EntitySystemManager_new 2) = Some m1" "AddSystem 2 1 ''draw'' m1 = Some m2"
    "RemoveSystem 0 m2 = Some m3" "AddSystem 3 0 ''walk'' m3 = Some m"
    using m(1) by (auto simp: two_systems_def Option.bind_eq_Some_conv)
  have "order (system_list (EntitySystemManager_new 2 :: string system_manager)) = []" by (simp add: EntitySystemManager_new_def empty_list_def)
  moreover have "map_option (\<lambda>m. order (system_list m)) (AddSystem 1 0 ''move'' (EntitySystemManager_new 2)) = Some [1]" by code_simp
  moreover have "map_option (\<lambda>m. order (system_list m)) (AddSystem 1 0 ''move'' (EntitySystemManager_new 2) \<bind> AddSystem 2 1 ''draw'' \<bind> RemoveSystem 0) = Some [2]"
    by code_simp
  ultimately have fresh: "fresh_node (SAdd 1 0 ''move'') (EntitySystemManager_new 2)" "fresh_node (SAdd 2 1 ''draw'') m1"
    "fresh_node (SRemove 0) m2" "fresh_node (SAdd 3 0 ''walk'') m3" using s by (auto simp: fresh_node_def)
  have step: "systems_ok (\<lambda>_. 0) m'" if "systems_ok (\<lambda>_. 0) m0" "fresh_node op m0" "system_op op m0 = Some m'" for op m0 and m' :: "string system_manager"
    using system_op_ok[OF that(1,2)] that(3) by simp
  have "systems_ok (\<lambda>_. 0) m"
    using step[OF step[OF step[OF step[OF slots_ok_new(1) fresh(1)] fresh(2)] fresh(3)] fresh(4)] s by (simp add: system_op_def)
  then show ?thesis using m by blast
qed

theorem systems_refine_witness:
  "\<exists>m. two_systems = Some m \<and> AddSystem 7 1 ''x'' m = None \<and> map_option view (RemoveSystem 1 m) = Some [\<lparr>sys_class = 0, sys_impl = ''walk''\<rparr>]"
proof -
  obtain m where m: "two_systems = Some m" "systems_ok (\<lambda>_. 0) m" "length (systems m) = 2"
    "view m = [\<lparr>sys_class = 1, sys_impl = ''draw''\<rparr>, \<lparr>sys_class = 0, sys_impl = ''walk''\<rparr>]" "order (system_list m) = [2, 3]"
    using two_systems_ok by blast
  have "fresh_node (SAdd 7 1 ''x'') m" "fresh_node (SRemove 1) m" using m(5) by (simp_all add: fresh_node_def)
  then have "map_option view (system_op (SAdd 7 1 ''x'') m) = view_op (length (systems m)) (SAdd 7 1 ''x'') (view m)"
    "map_option view (system_op (SRemove 1) m) = view_op (length (systems m)) (SRemove 1) (view m)"
    by (auto intro: systems_refine[THEN conjunct1, OF m(2)])
  with m show ?thesis
    by (intro exI[of _ m]) (simp add: system_op_def view_op_def)
qed

theorem UpdateAll_correct_witness:
  "\<exists>m. two_systems = Some m \<and> UpdateAll snd put_manager record_update () ([], m) = Some ([(''draw'', ()), (''walk'', ())], m)"
proof -
  obtain m where m: "two_systems = Some m" "systems_ok (\<lambda>_. 0) m"
    "view m = [\<lparr>sys_class = 1, sys_impl = ''draw''\<rparr>, \<lparr>sys_class = 0, sys_impl = ''walk''\<rparr>]"
    using two_systems_ok by blast
  from UpdateAll_correct[OF m(2), of "()" "[]"] m show ?thesis by (intro exI[of _ m]) simp
qed

end
