(* ===== verification/Vectors.thy ===== *)
theory Vectors
  imports Complex_Main Prelude
begin

text \<open>
  Vectors (include/mzx/data_structure/vector3.h) over a component type \<open>T\<close> that computes exactly, a field; the zero of
  \<open>MZX_ISZERO\<close> is the zero of the field. Rounding, overflow and the values of \<open>float\<close> that are no numbers are not
  modelled. The square root is a parameter.
\<close>

section \<open>Vectors\<close>

record 'a vector3 =
  vx :: 'a
  vy :: 'a
  vz :: 'a

definition Vector3 :: "'a \<Rightarrow> 'a \<Rightarrow> 'a \<Rightarrow> 'a vector3" where
  "Vector3 x y z = \<lparr>vx = x, vy = y, vz = z\<rparr>"

definition ZERO :: "'a::field vector3" where
  "ZERO = Vector3 0 0 0"

definition ISZERO :: "'a::field \<Rightarrow> bool" where
  "ISZERO num \<longleftrightarrow> num = 0"

definition ISEQUAL :: "'a::field \<Rightarrow> 'a \<Rightarrow> bool" where
  "ISEQUAL num1 num2 = ISZERO (num1 - num2)"

definition vec_eq :: "'a::field vector3 \<Rightarrow> 'a vector3 \<Rightarrow> bool" where
  "vec_eq u v \<longleftrightarrow> ISEQUAL (vx u) (vx v) \<and> ISEQUAL (vy u) (vy v) \<and> ISEQUAL (vz u) (vz v)"

definition vec_neg :: "'a::field vector3 \<Rightarrow> 'a vector3" where
  "vec_neg u = Vector3 (- vx u) (- vy u) (- vz u)"

definition vec_assign_add :: "'a::field vector3 \<Rightarrow> 'a vector3 \<Rightarrow> 'a vector3" where
  "vec_assign_add v u = u\<lparr>vx := vx u + vx v, vy := vy u + vy v, vz := vz u + vz v\<rparr>"

definition vec_assign_sub :: "'a::field vector3 \<Rightarrow> 'a vector3 \<Rightarrow> 'a vector3" where
  "vec_assign_sub v u = u\<lparr>vx := vx u - vx v, vy := vy u - vy v, vz := vz u - vz v\<rparr>"

definition vec_assign_mult :: "'a::field vector3 \<Rightarrow> 'a vector3 \<Rightarrow> 'a vector3" where
  "vec_assign_mult v u = u\<lparr>vx := vx u * vx v, vy := vy u * vy v, vz := vz u * vz v\<rparr>"

definition vec_add :: "'a::field vector3 \<Rightarrow> 'a vector3 \<Rightarrow> 'a vector3" where
  "vec_add u v = Vector3 (vx u + vx v) (vy u + vy v) (vz u + vz v)"

definition vec_sub :: "'a::field vector3 \<Rightarrow> 'a vector3 \<Rightarrow> 'a vector3" where
  "vec_sub u v = Vector3 (vx u - vx v) (vy u - vy v) (vz u - vz v)"

definition vec_mult :: "'a::field vector3 \<Rightarrow> 'a vector3 \<Rightarrow> 'a vector3" where
  "vec_mult u v = Vector3 (vx u * vx v) (vy u * vy v) (vz u * vz v)"

text \<open>A division by zero has no result. The assigning division has no definition: its function ends without the return that its type
  asks for, which C++ does not define.\<close>

definition vec_assign_scale :: "'a::field \<Rightarrow> 'a vector3 \<Rightarrow> 'a vector3" where
  "vec_assign_scale d u = u\<lparr>vx := vx u * d, vy := vy u * d, vz := vz u * d\<rparr>"

definition vec_scale :: "'a::field vector3 \<Rightarrow> 'a \<Rightarrow> 'a vector3" where
  "vec_scale u d = Vector3 (vx u * d) (vy u * d) (vz u * d)"

definition vec_div :: "'a::field vector3 \<Rightarrow> 'a \<Rightarrow> 'a vector3 option" where
  "vec_div u d = do { check (d \<noteq> 0); Some (Vector3 (vx u / d) (vy u / d) (vz u / d)) }"

definition SqrtMagnitude :: "'a::field vector3 \<Rightarrow> 'a" where
  "SqrtMagnitude u = vx u * vx u + vy u * vy u + vz u * vz u"

definition Magnitude :: "('a::field \<Rightarrow> 'a) \<Rightarrow> 'a vector3 \<Rightarrow> 'a" where
  "Magnitude rt u = (let sqrt_magnitude = SqrtMagnitude u in if ISZERO sqrt_magnitude then 0 else rt sqrt_magnitude)"

definition Normalize :: "('a::field \<Rightarrow> 'a) \<Rightarrow> 'a vector3 \<Rightarrow> bool \<times> 'a vector3" where
  "Normalize rt u = (let len = Magnitude rt u in
     if ISZERO len then (False, u) else (True, u\<lparr>vx := vx u / len, vy := vy u / len, vz := vz u / len\<rparr>))"

definition Normalize_static :: "('a::field \<Rightarrow> 'a) \<Rightarrow> 'a vector3 \<Rightarrow> 'a vector3" where
  "Normalize_static rt v = (let len = Magnitude rt v in
     if ISZERO len then ZERO else Vector3 (vx v / len) (vy v / len) (vz v / len))"

definition Distance :: "('a::field \<Rightarrow> 'a) \<Rightarrow> 'a vector3 \<Rightarrow> 'a vector3 \<Rightarrow> 'a" where
  "Distance rt v u = Magnitude rt (vec_sub u v)"

lemmas vec_defs = Vector3_def ZERO_def ISZERO_def ISEQUAL_def vec_eq_def vec_neg_def vec_assign_add_def vec_assign_sub_def
  vec_assign_mult_def vec_add_def vec_sub_def vec_mult_def vec_assign_scale_def vec_scale_def vec_div_def

lemma vec_eq_iff: "vec_eq u v \<longleftrightarrow> u = v"
  by (cases u; cases v) (auto simp: vec_defs)

lemma squares_zero:
  fixes u :: "'a::linordered_field vector3"
  shows "SqrtMagnitude u = 0 \<longleftrightarrow> u = ZERO" "SqrtMagnitude u \<ge> 0"
proof -
  have "a * a + b * b + c * c = 0 \<longleftrightarrow> a = 0 \<and> b = 0 \<and> c = 0" for a b c :: 'a
    by (metis add_nonneg_eq_0_iff mult_eq_0_iff sum_squares_eq_zero_iff sum_squares_ge_zero zero_le_square)
  then show "SqrtMagnitude u = 0 \<longleftrightarrow> u = ZERO" by (cases u) (simp add: SqrtMagnitude_def vec_defs)
  show "SqrtMagnitude u \<ge> 0" by (simp add: SqrtMagnitude_def)
qed

text \<open>The assigning operators are the others with the result stored.\<close>

lemma assign_same:
  "vec_assign_add v u = vec_add u v" "vec_assign_sub v u = vec_sub u v" "vec_assign_mult v u = vec_mult u v"
  "vec_assign_scale d u = vec_scale u d"
  by (cases u; simp add: vec_defs)+

text \<open>a vector that is not zero is normalised to length one and in its direction, the zero vector is left alone and
  reported, and the static version gives the same vector; two vectors have the distance zero exactly if
  they compare equal.\<close>
theorem Normalize_correct:
  fixes u v :: "'a::linordered_field vector3"
  assumes "\<And>a. a > 0 \<Longrightarrow> rt a > 0 \<and> rt a * rt a = a"
  shows "(u \<noteq> ZERO \<longrightarrow> (\<exists>w. Normalize rt u = (True, w) \<and> SqrtMagnitude w = 1 \<and> vec_scale w (Magnitude rt u) = u \<and> Magnitude rt u > 0)) \<and>
    Normalize rt ZERO = (False, ZERO) \<and> Normalize_static rt u = snd (Normalize rt u) \<and> (Distance rt u v = 0 \<longleftrightarrow> vec_eq u v)"
proof (intro conjI impI)
  have pos: "Magnitude rt w > 0 \<and> Magnitude rt w * Magnitude rt w = SqrtMagnitude w" if "w \<noteq> ZERO" for w
  proof -
    have "SqrtMagnitude w \<noteq> 0" "SqrtMagnitude w > 0" using squares_zero[of w] that by (simp_all add: order.strict_iff_order)
    then show ?thesis using assms[of "SqrtMagnitude w"] by (simp add: Magnitude_def ISZERO_def)
  qed
  have zero: "Magnitude rt ZERO = 0" by (simp add: Magnitude_def squares_zero ISZERO_def)
  show "\<exists>w. Normalize rt u = (True, w) \<and> SqrtMagnitude w = 1 \<and> vec_scale w (Magnitude rt u) = u \<and> Magnitude rt u > 0" if "u \<noteq> ZERO"
  proof -
    let ?l = "Magnitude rt u"
    let ?w = "u\<lparr>vx := vx u / ?l, vy := vy u / ?l, vz := vz u / ?l\<rparr>"
    have l: "?l \<noteq> 0" "?l * ?l = SqrtMagnitude u" "?l > 0" using pos[OF that] by auto
    have "SqrtMagnitude ?w = SqrtMagnitude u / (?l * ?l)" by (simp add: SqrtMagnitude_def add_divide_distrib)
    then have "SqrtMagnitude ?w = 1" using l(1,2) squares_zero(1)[of u] that by simp
    then show ?thesis using l by (intro exI[of _ ?w]) (simp add: Normalize_def Let_def ISZERO_def vec_scale_def Vector3_def)
  qed
  show "Normalize rt ZERO = (False, ZERO)" by (simp add: Normalize_def zero ISZERO_def)
  show "Normalize_static rt u = snd (Normalize rt u)"
  proof (cases "u = ZERO")
    case True
    then show ?thesis by (simp add: Normalize_static_def Normalize_def zero ISZERO_def)
  next
    case False
    then show ?thesis using pos[OF False] by (cases u) (auto simp: Normalize_static_def Normalize_def ISZERO_def Vector3_def Let_def)
  qed
  have "vec_sub v u = ZERO \<longleftrightarrow> u = v" by (cases u; cases v) (auto simp: vec_defs)
  then show "Distance rt u v = 0 \<longleftrightarrow> vec_eq u v" using pos[of "vec_sub v u"] zero by (auto simp: Distance_def vec_eq_iff)
qed

theorem Normalize_correct_witness:
  "\<exists>w. Normalize sqrt (Vector3 3 4 0) = (True, w) \<and> SqrtMagnitude w = 1 \<and> vec_scale w 5 = Vector3 3 4 0"
proof -
  have "Vector3 3 4 0 \<noteq> (ZERO :: real vector3)" by (simp add: vec_defs)
  moreover have "Magnitude sqrt (Vector3 3 4 0) = 5"
    by (simp add: Magnitude_def SqrtMagnitude_def Vector3_def ISZERO_def real_sqrt_unique)
  ultimately show ?thesis
    using Normalize_correct[of sqrt "Vector3 3 4 0"] by auto
qed

end
