(* ===== verification/Sequences.thy ===== *)
theory Sequences
  imports Prelude
begin

text \<open>
  Sequences of indices made by templates (include/mzx/data_structure/make_sequence.h) and the arrays made from them
  (include/mzx/data_structure/make_array.h). A sequence is the list of its indices and an instantiation of a
  template is a call; the depth of the recursion is what the halving is for.
\<close>

definition ConcatSequence :: "nat list \<Rightarrow> nat list \<Rightarrow> nat list" where
  "ConcatSequence is js = is @ map (\<lambda>j. length is + j) js"

function MakeSequence :: "nat \<Rightarrow> nat list" where
  "MakeSequence n = (if n = 0 then [] else if n = 1 then [0]
     else ConcatSequence (MakeSequence (n div 2)) (MakeSequence (n - n div 2)))"
  by pat_completeness auto
termination
  by (relation "measure (\<lambda>n. n)") auto

declare MakeSequence.simps [simp del]

definition MakeArrayHelper :: "(nat \<Rightarrow> 'a) \<Rightarrow> nat list \<Rightarrow> 'a list" where
  "MakeArrayHelper f is = map f is"

definition MakeArray :: "nat \<Rightarrow> (nat \<Rightarrow> 'a) \<Rightarrow> 'a list" where
  "MakeArray n f = MakeArrayHelper f (MakeSequence n)"

text \<open>How deep the instantiations nest.\<close>

function sequence_depth :: "nat \<Rightarrow> nat" where
  "sequence_depth n = (if n = 0 \<or> n = 1 then 1 else Suc (max (sequence_depth (n div 2)) (sequence_depth (n - n div 2))))"
  by pat_completeness auto
termination
  by (relation "measure (\<lambda>n. n)") auto

declare sequence_depth.simps [simp del]

lemma ConcatSequence_upt: "ConcatSequence [0..<a] [0..<b] = [0..<a + b]"
  using upt_add_eq_append[of 0 a b] by (simp add: ConcatSequence_def map_add_upt add.commute)

lemma MakeSequence_upt: "MakeSequence n = [0..<n]"
proof (induction n rule: MakeSequence.induct)
  case (1 n)
  show ?case
  proof (cases "n = 0 \<or> n = 1")
    case True
    then show ?thesis by (auto simp: MakeSequence.simps[of n])
  next
    case False
    then have "MakeSequence n = ConcatSequence [0..<n div 2] [0..<n - n div 2]" using 1 by (simp add: MakeSequence.simps[of n])
    then show ?thesis by (simp add: ConcatSequence_upt)
  qed
qed

lemma sequence_depth_mono: "n \<le> 2 ^ k \<Longrightarrow> sequence_depth n \<le> Suc k"
proof (induction k arbitrary: n)
  case 0
  then show ?case by (subst sequence_depth.simps) auto
next
  case (Suc k)
  then have "n div 2 \<le> 2 ^ k" "n - n div 2 \<le> 2 ^ k" by simp_all
  with Suc.IH show ?case by (subst sequence_depth.simps) auto
qed

text \<open>the array of \<open>n\<close> elements holds \<open>f i\<close> at each index \<open>i\<close>, each index once and in order, and for up to
  \<open>2 ^ k\<close> elements the templates nest at most \<open>k + 1\<close> deep.\<close>
theorem MakeArray_correct:
  "MakeArray n f = map f [0..<n] \<and> (\<forall>k. n \<le> 2 ^ k \<longrightarrow> sequence_depth n \<le> k + 1)"
  using sequence_depth_mono by (simp add: MakeArray_def MakeArrayHelper_def MakeSequence_upt)

theorem MakeArray_correct_witness: "MakeArray 5 (\<lambda>i. i * i) = [0, 1, 4, 9, 16] \<and> sequence_depth 5 \<le> 4"
  using MakeArray_correct[of 5 "\<lambda>i. i * i"] by (auto simp: numeral_eq_Suc)

end
