(* ===== verification/Convert.thy ===== *)
theory Convert
  imports Prelude
begin

text \<open>
  Conversions through a stream (include/mzx/convert.h): a value is written to a \<open>std::stringstream\<close> and the target is read
  from it. \<open>put\<close> is the text that \<open>operator<<\<close> writes for the source and \<open>extract\<close> what \<open>operator>>\<close> does with a text; those of the
  standard library for strings and for signed integers, in the classic locale, are defined here.
\<close>

section \<open>Reading from a stream\<close>

text \<open>The value that was assigned to the target, if any, and the state of the stream afterwards.\<close>

record 'a extraction =
  assigned :: "'a option"
  failed :: bool
  at_eof :: bool

definition is_space :: "char \<Rightarrow> bool" where
  "is_space c \<longleftrightarrow> c \<in> {CHR 0x09, CHR 0x0A, CHR 0x0B, CHR 0x0C, CHR 0x0D, CHR '' ''}"

definition extract_word :: "string \<Rightarrow> string extraction" where
  "extract_word s = (let s = dropWhile is_space s in
     if s = [] then \<lparr>assigned = None, failed = True, at_eof = True\<rparr>
     else \<lparr>assigned = Some (takeWhile (Not \<circ> is_space) s), failed = False, at_eof = dropWhile (Not \<circ> is_space) s = []\<rparr>)"

definition is_digit :: "char \<Rightarrow> bool" where
  "is_digit c \<longleftrightarrow> 48 \<le> (of_char c :: nat) \<and> (of_char c :: nat) \<le> 57"

definition number :: "string \<Rightarrow> int" where
  "number ds = foldl (\<lambda>n c. 10 * n + int (of_char c - 48)) 0 ds"

text \<open>A number that is too small or too large for the type gives the bound.\<close>

definition extract_int :: "int \<Rightarrow> int \<Rightarrow> string \<Rightarrow> int extraction" where
  "extract_int lo hi s = (let s = dropWhile is_space s in
     if s = [] then \<lparr>assigned = None, failed = True, at_eof = True\<rparr>
     else let (sign, t) = (if hd s = CHR ''-'' then (- 1, tl s) else if hd s = CHR ''+'' then (1, tl s) else (1, s));
       ds = takeWhile is_digit t; v = sign * number ds; eof = (dropWhile is_digit t = []) in
       if ds = [] then \<lparr>assigned = Some 0, failed = True, at_eof = eof\<rparr>
       else if v < lo then \<lparr>assigned = Some lo, failed = True, at_eof = eof\<rparr>
       else if v > hi then \<lparr>assigned = Some hi, failed = True, at_eof = eof\<rparr>
       else \<lparr>assigned = Some v, failed = False, at_eof = eof\<rparr>)"

definition put_int :: "int \<Rightarrow> string" where
  "put_int v = (if v < 0 then CHR ''-'' # decimal (nat (- v)) else decimal (nat v))"

section \<open>Conversions\<close>

text \<open>The result and the target afterwards.\<close>

definition TryConvertTo :: "('s \<Rightarrow> string) \<Rightarrow> (string \<Rightarrow> 't extraction) \<Rightarrow> 's \<Rightarrow> 't \<Rightarrow> bool \<times> 't" where
  "TryConvertTo put extract src tgt = (let x = extract (put src) in
     (\<not> failed x \<and> at_eof x, case assigned x of None \<Rightarrow> tgt | Some t \<Rightarrow> t))"

text \<open>A target that nothing was assigned to has no value.\<close>

definition UnsafeConvertTo :: "('s \<Rightarrow> string) \<Rightarrow> (string \<Rightarrow> 't extraction) \<Rightarrow> 's \<Rightarrow> 't option" where
  "UnsafeConvertTo put extract src = assigned (extract (put src))"

definition ConvertTo :: "('s \<Rightarrow> string) \<Rightarrow> (string \<Rightarrow> 't extraction) \<Rightarrow> 's \<Rightarrow> 't option" where
  "ConvertTo put extract src = (let x = extract (put src) in do {
     check (\<not> (failed x \<or> \<not> at_eof x));
     assigned x })"

definition ConvertTo_default :: "('s \<Rightarrow> string) \<Rightarrow> (string \<Rightarrow> 't extraction) \<Rightarrow> 's \<Rightarrow> 't \<Rightarrow> 't option" where
  "ConvertTo_default put extract src def_tgt = (let x = extract (put src) in
     if failed x \<or> \<not> at_eof x then Some def_tgt else assigned x)"

section \<open>Integers\<close>

lemma digit_char: "d < 10 \<Longrightarrow> is_digit (char_of (48 + d :: nat)) \<and> of_char (char_of (48 + d :: nat) :: char) = 48 + d"
  by (simp add: is_digit_def)

lemma number_append: "number (ds @ [c]) = 10 * number ds + int (of_char c - 48)"
  by (simp add: number_def)

lemma decimal_digits: "list_all is_digit (decimal n) \<and> decimal n \<noteq> []"
proof (induction n rule: decimal.induct)
  case (1 n)
  show ?case
    using 1 digit_char[of n] digit_char[of "n mod 10"] by (subst (1 2) decimal.simps) auto
qed

lemma number_decimal: "number (decimal n) = int n"
proof (induction n rule: decimal.induct)
  case (1 n)
  show ?case
  proof (cases "n < 10")
    case True
    then show ?thesis using digit_char[of n] by (subst decimal.simps) (simp add: number_def)
  next
    case False
    then have "number (decimal n) = 10 * int (n div 10) + int (n mod 10)"
      using 1 digit_char[of "n mod 10"] by (subst decimal.simps) (simp add: number_append)
    then show ?thesis by presburger
  qed
qed

lemma digit_other: "is_digit c \<Longrightarrow> \<not> is_space c \<and> c \<noteq> CHR ''-'' \<and> c \<noteq> CHR ''+''"
  by (auto simp: is_digit_def is_space_def)

lemma split_digits:
  assumes "\<forall>c \<in> set ds. is_digit c" "rest = [] \<or> \<not> is_digit (hd rest)"
  shows "takeWhile is_digit (ds @ rest) = ds" "dropWhile is_digit (ds @ rest) = rest"
  using assms by (cases rest; simp add: takeWhile_append dropWhile_append)+

lemma extract_put:
  assumes "lo \<le> v" "v \<le> hi" "rest = [] \<or> \<not> is_digit (hd rest)"
  shows "extract_int lo hi (put_int v @ rest) = \<lparr>assigned = Some v, failed = False, at_eof = (rest = [])\<rparr>"
proof -
  define ds where "ds = decimal (nat (if v < 0 then - v else v))"
  have ds: "\<forall>c \<in> set ds. is_digit c" "ds \<noteq> []" using decimal_digits unfolding ds_def by (simp_all add: list_all_iff)
  obtain d ds' where d: "ds = d # ds'" using ds(2) by (cases ds) auto
  have dd: "\<not> is_space d" "d \<noteq> CHR ''-''" "d \<noteq> CHR ''+''" using digit_other[of d] ds(1) d by auto
  note split = split_digits[OF ds(1) assms(3)]
  have n: "number ds = (if v < 0 then - v else v)" by (simp add: number_decimal ds_def)
  show ?thesis
  proof (cases "v < 0")
    case True
    then have p: "put_int v = CHR ''-'' # ds" by (simp add: put_int_def ds_def)
    have "\<not> is_space CHR ''-''" by (simp add: is_space_def)
    then show ?thesis using split ds(2) n True assms(1,2) by (simp add: extract_int_def p Let_def del: dropWhile_eq_Nil_conv)
  next
    case False
    then have "put_int v = ds" by (simp add: put_int_def ds_def)
    moreover have "hd (ds @ rest) = d" "dropWhile is_space (ds @ rest) = ds @ rest" "ds @ rest \<noteq> []" using dd(1) by (simp_all add: d)
    ultimately show ?thesis using split ds(2) n dd False assms(1,2) by (simp add: extract_int_def Let_def del: dropWhile_eq_Nil_conv)
  qed
qed

lemma put_int_word: "put_int v \<noteq> [] \<and> list_all (Not \<circ> is_space) (put_int v)"
proof -
  have "list_all (Not \<circ> is_space) (decimal n)" for n
    using decimal_digits[of n] digit_other by (auto simp: list_all_iff)
  moreover have "\<not> is_space CHR ''-''" by (simp add: is_space_def)
  ultimately show ?thesis using decimal_digits by (auto simp: put_int_def)
qed

lemma extract_word_same:
  assumes "s \<noteq> []" "list_all (Not \<circ> is_space) s"
  shows "extract_word s = \<lparr>assigned = Some s, failed = False, at_eof = True\<rparr>"
proof -
  have "dropWhile is_space s = s" using assms by (cases s) auto
  then show ?thesis using assms by (simp add: extract_word_def takeWhile_eq_all_conv list_all_iff)
qed

text \<open>an integer of a signed type becomes the text that reads back as the same integer, and a text is converted to itself
  exactly if it is a word; a number with something behind it is not converted, but \<open>TryConvertTo\<close> has
  then stored the number in its target.\<close>
theorem ConvertTo_correct:
  assumes "lo \<le> v" "v \<le> hi"
  shows "Option.bind (ConvertTo put_int extract_word v) (ConvertTo id (extract_int lo hi)) = Some v \<and>
    (rest \<noteq> [] \<longrightarrow> \<not> is_digit (hd rest) \<longrightarrow> TryConvertTo id (extract_int lo hi) (put_int v @ rest) tgt = (False, v) \<and>
      ConvertTo id (extract_int lo hi) (put_int v @ rest) = None \<and>
      ConvertTo_default id (extract_int lo hi) (put_int v @ rest) tgt = Some tgt) \<and>
    (ConvertTo id extract_word s = Some s \<longleftrightarrow> s \<noteq> [] \<and> list_all (Not \<circ> is_space) s)"
proof (intro conjI impI)
  show "Option.bind (ConvertTo put_int extract_word v) (ConvertTo id (extract_int lo hi)) = Some v"
    using extract_word_same[of "put_int v"] put_int_word[of v] extract_put[OF assms, of "[]"] by (simp add: ConvertTo_def Let_def)
next
  assume "rest \<noteq> []" "\<not> is_digit (hd rest)"
  then show "TryConvertTo id (extract_int lo hi) (put_int v @ rest) tgt = (False, v)"
      "ConvertTo id (extract_int lo hi) (put_int v @ rest) = None"
      "ConvertTo_default id (extract_int lo hi) (put_int v @ rest) tgt = Some tgt"
    using extract_put[OF assms, of rest] by (simp_all add: TryConvertTo_def ConvertTo_def ConvertTo_default_def Let_def)
next
  have word: "s \<noteq> [] \<and> list_all (Not \<circ> is_space) s" if c: "ConvertTo id extract_word s = Some s"
  proof -
    define t where "t = dropWhile is_space s"
    have t: "t \<noteq> []" "takeWhile (Not \<circ> is_space) t = s"
      using c by (simp_all add: ConvertTo_def extract_word_def Let_def check_def t_def[symmetric] split: if_splits)
    have "\<not> is_space (hd t)" using hd_dropWhile[of is_space s] t(1) by (simp add: t_def)
    then have "takeWhile (Not \<circ> is_space) t \<noteq> []" using t(1) by (cases t) auto
    moreover have "list_all (Not \<circ> is_space) (takeWhile (Not \<circ> is_space) t)" unfolding list_all_iff by (blast dest: set_takeWhileD)
    ultimately show ?thesis unfolding t(2) by blast
  qed
  show "ConvertTo id extract_word s = Some s \<longleftrightarrow> s \<noteq> [] \<and> list_all (Not \<circ> is_space) s"
  proof (rule iffI[OF word])
    assume "s \<noteq> [] \<and> list_all (Not \<circ> is_space) s"
    then have "extract_word s = \<lparr>assigned = Some s, failed = False, at_eof = True\<rparr>" by (intro extract_word_same) blast+
    then show "ConvertTo id extract_word s = Some s" by (simp add: ConvertTo_def)
  qed
qed

theorem ConvertTo_correct_witness:
  "Option.bind (ConvertTo put_int extract_word (- 42)) (ConvertTo id (extract_int (- 128) 127)) = Some (- 42) \<and>
   TryConvertTo id (extract_int (- 128) 127) (put_int 7 @ ''x'') 0 = (False, 7)"
  using ConvertTo_correct[of "- 128" "- 42" 127] ConvertTo_correct[of "- 128" 7 127 "''x''" 0] by (simp add: is_digit_def)

end
