(* ===== verification/Logging.thy ===== *)
theory Logging
  imports Prelude
begin

text \<open>
  The logger (include/mzx/logger.h, src/logger.cpp): which messages are printed, and what a failed check does.

  A handler is a name, of which an empty function is \<open>None\<close>; \<open>run\<close> is what a call of it does to the state that holds the
  logger, \<open>None\<close> if it does not return. The place in the source that the macros pass is \<open>here\<close>. The arguments
  of a message are the texts that \<open>operator<<\<close> writes for them.
\<close>

section \<open>Levels\<close>

datatype level = Debug | Info | Warn | Error | Fatal

definition EnumToValue :: "level \<Rightarrow> nat" where
  "EnumToValue l = (case l of Debug \<Rightarrow> 0 | Info \<Rightarrow> 1 | Warn \<Rightarrow> 2 | Error \<Rightarrow> 3 | Fatal \<Rightarrow> 4)"

lemma EnumToValue_eq: "EnumToValue a = EnumToValue b \<longleftrightarrow> a = b"
  by (cases a; cases b) (simp_all add: EnumToValue_def)

text \<open>Levels compare as their values do.\<close>

instantiation level :: linorder
begin

definition less_eq_level :: "level \<Rightarrow> level \<Rightarrow> bool" where
  "less_eq_level a b \<longleftrightarrow> EnumToValue a \<le> EnumToValue b"

definition less_level :: "level \<Rightarrow> level \<Rightarrow> bool" where
  "less_level a b \<longleftrightarrow> EnumToValue a < EnumToValue b"

instance
  by standard (auto simp: less_eq_level_def less_level_def EnumToValue_eq)

end

section \<open>The logger\<close>

record ('p, 'q) logger =
  print_handler :: "'p option"
  log_level :: level
  fatal_handler :: "'q option"

type_synonym ('p, 'l, 's) print_calls = "'p \<Rightarrow> level \<Rightarrow> 'l \<Rightarrow> string \<Rightarrow> 's \<Rightarrow> 's option"

definition SetPrintHandler :: "'p option \<Rightarrow> ('p, 'q, 'z) logger_scheme \<Rightarrow> ('p, 'q, 'z) logger_scheme" where
  "SetPrintHandler h s = s\<lparr>print_handler := h\<rparr>"

definition SetLevel :: "level \<Rightarrow> ('p, 'q, 'z) logger_scheme \<Rightarrow> ('p, 'q, 'z) logger_scheme" where
  "SetLevel l s = s\<lparr>log_level := l\<rparr>"

definition SetFatalHandler :: "'q option \<Rightarrow> ('p, 'q, 'z) logger_scheme \<Rightarrow> ('p, 'q, 'z) logger_scheme" where
  "SetFatalHandler h s = s\<lparr>fatal_handler := h\<rparr>"

fun ReadArgs :: "string \<Rightarrow> string list \<Rightarrow> string" where
  "ReadArgs stream [] = stream"
| "ReadArgs stream (arg # args) = ReadArgs (stream @ arg) args"

definition Print :: "('p, 'l, ('p, 'q, 'z) logger_scheme) print_calls \<Rightarrow> ('q \<Rightarrow> ('p, 'q, 'z) logger_scheme \<Rightarrow> ('p, 'q, 'z) logger_scheme option)
    \<Rightarrow> level \<Rightarrow> 'l \<Rightarrow> string list \<Rightarrow> ('p, 'q, 'z) logger_scheme \<Rightarrow> ('p, 'q, 'z) logger_scheme option" where
  "Print run_print run_fatal l here args s = do {
     s \<leftarrow> (case print_handler s of
         Some p \<Rightarrow> if l \<ge> log_level s then run_print p l here (ReadArgs [] args) s else Some s
       | None \<Rightarrow> Some s);
     (case fatal_handler s of
         Some q \<Rightarrow> if l \<ge> Fatal then run_fatal q s else Some s
       | None \<Rightarrow> Some s) }"

text \<open>\<open>MZX_LOG_IF\<close>, and \<open>MZX_CHECK\<close> of an expression with the given text.\<close>

definition LOG_IF :: "('p, 'l, ('p, 'q, 'z) logger_scheme) print_calls \<Rightarrow> ('q \<Rightarrow> ('p, 'q, 'z) logger_scheme \<Rightarrow> ('p, 'q, 'z) logger_scheme option)
    \<Rightarrow> level \<Rightarrow> bool \<Rightarrow> 'l \<Rightarrow> string list \<Rightarrow> ('p, 'q, 'z) logger_scheme \<Rightarrow> ('p, 'q, 'z) logger_scheme option" where
  "LOG_IF run_print run_fatal l condition here args s = (if \<not> condition then Some s else Print run_print run_fatal l here args s)"

definition MZX_CHECK :: "('p, 'l, ('p, 'q, 'z) logger_scheme) print_calls \<Rightarrow> ('q \<Rightarrow> ('p, 'q, 'z) logger_scheme \<Rightarrow> ('p, 'q, 'z) logger_scheme option)
    \<Rightarrow> bool \<Rightarrow> string \<Rightarrow> 'l \<Rightarrow> string list \<Rightarrow> ('p, 'q, 'z) logger_scheme \<Rightarrow> ('p, 'q, 'z) logger_scheme option" where
  "MZX_CHECK run_print run_fatal expression text here args =
     LOG_IF run_print run_fatal Fatal (\<not> expression) here ([''CHECK failed:'' @ text @ '' ''] @ args)"

section \<open>The default handlers\<close>

record location =
  file_name :: string
  line :: nat
  func_name :: string

definition level_name :: "level \<Rightarrow> string" where
  "level_name l = [''DEBUG'', ''INFO '', ''WARN '', ''ERROR'', ''FATAL''] ! EnumToValue l"

definition level_color :: "level \<Rightarrow> string" where
  "level_color l = [CHR 0x1B # ''[32m'', CHR 0x1B # ''[1;37m'', CHR 0x1B # ''[1;33m'', CHR 0x1B # ''[31m'', CHR 0x1B # ''[31m''] ! EnumToValue l"

text \<open>The message is printed as a C string, up to its first zero.\<close>

definition log_line :: "level \<Rightarrow> location \<Rightarrow> string \<Rightarrow> string" where
  "log_line l here message = level_color l @ ''[mzx '' @ level_name l @ '' '' @ file_name here @ '':'' @ decimal (line here) @ '' '' @
     func_name here @ ''] '' @ takeWhile (\<lambda>c. c \<noteq> CHR 0x00) message @ [CHR 0x0A] @ CHR 0x1B # ''[0m''"

datatype default_print = LogPrint
datatype default_fatal = LogFatal

text \<open>What goes to the standard error stream is added to the state.\<close>

record stderr_logger = "(default_print, default_fatal) logger" +
  stderr :: string

definition Logger_default :: stderr_logger where
  "Logger_default = \<lparr>print_handler = Some LogPrint, log_level = Warn, fatal_handler = Some LogFatal, stderr = []\<rparr>"

fun run_LogPrint :: "(default_print, location, stderr_logger) print_calls" where
  "run_LogPrint LogPrint l here message s = Some (s\<lparr>stderr := stderr s @ log_line l here message\<rparr>)"

text \<open>\<open>std::abort\<close> does not return.\<close>

fun run_LogFatal :: "default_fatal \<Rightarrow> stderr_logger \<Rightarrow> stderr_logger option" where
  "run_LogFatal LogFatal s = None"

lemma ReadArgs_concat: "ReadArgs stream args = stream @ concat args"
  by (induction args arbitrary: stream) simp_all

text \<open>C38: with the handlers that the logger starts with, a message below fatal is printed, as its arguments one after the
  other up to the first zero character, if and only if its level is at least the one that is set, and the call returns; a check
  returns if and only if its expression holds, whatever the level, and then does nothing. This is how
  the other theories read \<open>MZX_CHECK\<close>.\<close>
theorem check_default:
  assumes "print_handler s = Some LogPrint" "fatal_handler s = Some LogFatal"
  shows "(l \<noteq> Fatal \<longrightarrow> Print run_LogPrint run_LogFatal l here args s =
      Some (if l \<ge> log_level s then s\<lparr>stderr := stderr s @ log_line l here (concat args)\<rparr> else s)) \<and>
    MZX_CHECK run_LogPrint run_LogFatal e text here args s = (case check e of None \<Rightarrow> None | Some _ \<Rightarrow> Some s)"
  using assms
  by (cases l) (auto simp: Print_def MZX_CHECK_def LOG_IF_def ReadArgs_concat less_eq_level_def EnumToValue_def check_def split: level.split)

theorem check_default_witness:
  "map_option stderr (Print run_LogPrint run_LogFatal Error \<lparr>file_name = ''a.cpp'', line = 12, func_name = ''f''\<rparr> [''x'', ''y''] Logger_default) =
     Some (CHR 0x1B # ''[31m[mzx ERROR a.cpp:12 f] xy'' @ [CHR 0x0A, CHR 0x1B] @ ''[0m'') \<and>
   Print run_LogPrint run_LogFatal Info \<lparr>file_name = ''a.cpp'', line = 12, func_name = ''f''\<rparr> [''x''] Logger_default = Some Logger_default \<and>
   MZX_CHECK run_LogPrint run_LogFatal False ''x'' \<lparr>file_name = ''a.cpp'', line = 12, func_name = ''f''\<rparr> [] Logger_default = None"
proof -
  let ?here = "\<lparr>file_name = ''a.cpp'', line = 12, func_name = ''f''\<rparr>"
  have h: "print_handler Logger_default = Some LogPrint" "fatal_handler Logger_default = Some LogFatal" by (simp_all add: Logger_default_def)
  have line: "log_line Error ?here ''xy'' = CHR 0x1B # ''[31m[mzx ERROR a.cpp:12 f] xy'' @ [CHR 0x0A, CHR 0x1B] @ ''[0m''" by code_simp
  show ?thesis
    using check_default[OF h, of Error ?here "[''x'', ''y'']"] check_default[OF h, of Info ?here "[''x'']"]
      check_default[OF h, of Info ?here "[]" False "''x''"] line
    by (simp add: Logger_default_def less_eq_level_def EnumToValue_def)
qed

end
