(* ===== verification/CmdLine.thy ===== *)
theory CmdLine
  imports StringUtil
begin

text \<open>
  The command line (include/mzx/system/cmd_line.h, src/system/cmd_line.cpp): the thread that reads commands from the
  standard input, and \<open>Execute\<close>, which calls back for each of them. And the callbacks of signals (src/system/signal.cpp).

  Callbacks are names, of which an empty function is \<open>None\<close>; \<open>run\<close> is what a call does to the state that holds the
  tables. What is printed, waiting for the keyboard and cancelling the thread are not modelled.
\<close>

section \<open>Reading\<close>

abbreviation newline :: char where "newline \<equiv> CHR 0x0A"

text \<open>\<open>fgets\<close> takes at most \<open>n\<close> characters, up to the end of the line.\<close>

fun fgets :: "nat \<Rightarrow> string \<Rightarrow> string \<times> string" where
  "fgets 0 input = ([], input)"
| "fgets (Suc n) [] = ([], [])"
| "fgets (Suc n) (c # cs) = (if c = newline then ([c], cs) else (let (buf, rest) = fgets n cs in (c # buf, rest)))"

text \<open>The text in the buffer up to its first end of a line, or the end of the C string.\<close>

definition cut_line :: "string \<Rightarrow> string" where
  "cut_line buf = takeWhile (\<lambda>c. c \<noteq> CHR 0x00 \<and> c \<noteq> CHR 0x0D \<and> c \<noteq> newline) buf"

lemma fgets_length: "length (snd (fgets n input)) \<le> length input"
  by (induction n input rule: fgets.induct) (auto split: prod.split if_splits)

text \<open>The thread reads until the end of the input; the buffer has 1024 characters.\<close>

function read_commands :: "string \<Rightarrow> string list \<Rightarrow> string list" where
  "read_commands input cmds = (if input = [] then cmds
     else let (buf, rest) = fgets 1023 input; cmd = cut_line buf in
       read_commands rest (if cmd = [] then cmds else cmds @ [cmd]))"
  by pat_completeness auto
termination
proof (relation "measure (\<lambda>(input, cmds). length input)", goal_cases)
  case (2 input cmds x buf rest cmd)
  obtain n :: nat where n: "(1023 :: nat) = Suc n" by (metis numeral_1_eq_Suc_0 numeral_eq_iff numerals(1) old.nat.exhaust zero_neq_numeral)
  obtain c cs where c: "input = c # cs" using 2(1) by (cases input) auto
  have "fgets 1023 input = (buf, rest)" using 2(2,3) by (simp only:)
  then have "rest = snd (fgets (Suc n) (c # cs))" unfolding n c by simp
  then have "length rest \<le> length cs" using fgets_length[of n cs] by (auto split: prod.splits)
  then show ?case by (simp add: c)
qed simp

declare read_commands.simps [simp del]

section \<open>Calling back\<close>

record 'f cmd_line =
  cmd_callback_default :: "'f option"
  cmd_callback_list :: "string \<rightharpoonup> 'f option"
  cmd_list :: "string list"

definition CmdLine_new :: "'f cmd_line" where
  "CmdLine_new = \<lparr>cmd_callback_default = None, cmd_callback_list = Map.empty, cmd_list = []\<rparr>"

definition Regist_default :: "'f option \<Rightarrow> ('f, 'z) cmd_line_scheme \<Rightarrow> ('f, 'z) cmd_line_scheme" where
  "Regist_default cb s = s\<lparr>cmd_callback_default := cb\<rparr>"

definition Regist :: "string \<Rightarrow> 'f option \<Rightarrow> ('f, 'z) cmd_line_scheme \<Rightarrow> ('f, 'z) cmd_line_scheme" where
  "Regist cmd cb s = s\<lparr>cmd_callback_list := (cmd_callback_list s)(cmd \<mapsto> cb)\<rparr>"

definition Unregist_default :: "('f, 'z) cmd_line_scheme \<Rightarrow> ('f, 'z) cmd_line_scheme" where
  "Unregist_default s = s\<lparr>cmd_callback_default := None\<rparr>"

definition Unregist :: "string \<Rightarrow> ('f, 'z) cmd_line_scheme \<Rightarrow> ('f, 'z) cmd_line_scheme" where
  "Unregist cmd s = s\<lparr>cmd_callback_list := (cmd_callback_list s)(cmd := None)\<rparr>"

definition UnregistAll :: "('f, 'z) cmd_line_scheme \<Rightarrow> ('f, 'z) cmd_line_scheme" where
  "UnregistAll s = s\<lparr>cmd_callback_list := Map.empty, cmd_callback_default := None\<rparr>"

type_synonym ('f, 's) cmd_calls = "'f \<Rightarrow> string list \<Rightarrow> 's \<Rightarrow> 's option"

definition execute_cmd :: "('f, ('f, 'z) cmd_line_scheme) cmd_calls \<Rightarrow> string \<Rightarrow> ('f, 'z) cmd_line_scheme
    \<Rightarrow> ('f, 'z) cmd_line_scheme option" where
  "execute_cmd run cmd s = (let args = Split_char cmd CHR '' '' in
     if args = [] then Some s
     else case cmd_callback_list s (args ! 0) of
         Some (Some f) \<Rightarrow> run f args s
       | _ \<Rightarrow> (case cmd_callback_default s of Some f \<Rightarrow> run f args s | None \<Rightarrow> Some s))"

definition Execute :: "('f, ('f, 'z) cmd_line_scheme) cmd_calls \<Rightarrow> ('f, 'z) cmd_line_scheme \<Rightarrow> ('f, 'z) cmd_line_scheme option" where
  "Execute run s = for_each (execute_cmd run) (cmd_list s) (s\<lparr>cmd_list := []\<rparr>)"

section \<open>Signals\<close>

text \<open>The table of callbacks and, for each signal, whether the system calls \<open>OnSignal\<close>; \<open>signal\<close> does not fail for the two
  types there are.\<close>

datatype signal_type = Interrupt | Terminal

record 'f signals =
  signal_callback_list :: "signal_type \<rightharpoonup> 'f option"
  installed :: "signal_type set"

definition Signal_new :: "'f signals" where
  "Signal_new = \<lparr>signal_callback_list = Map.empty, installed = {}\<rparr>"

definition OnSignal :: "('f \<Rightarrow> signal_type \<Rightarrow> 's \<Rightarrow> 's option) \<Rightarrow> ('s \<Rightarrow> 'f signals) \<Rightarrow> signal_type \<Rightarrow> 's \<Rightarrow> 's option" where
  "OnSignal run get type s = (case signal_callback_list (get s) type of Some (Some f) \<Rightarrow> run f type s | _ \<Rightarrow> Some s)"

definition Hook :: "signal_type \<Rightarrow> 'f option \<Rightarrow> 'f signals \<Rightarrow> 'f signals" where
  "Hook type cb s = s\<lparr>signal_callback_list := (signal_callback_list s)(type \<mapsto> cb), installed := insert type (installed s)\<rparr>"

definition Unhook :: "signal_type \<Rightarrow> 'f signals \<Rightarrow> 'f signals" where
  "Unhook type s = s\<lparr>signal_callback_list := (signal_callback_list s)(type := None), installed := installed s - {type}\<rparr>"

definition UnhookAll :: "'f signals \<Rightarrow> 'f signals" where
  "UnhookAll s = s\<lparr>signal_callback_list := Map.empty, installed := installed s - dom (signal_callback_list s)\<rparr>"

section \<open>What is read\<close>

text \<open>A line that does not fit into the buffer is cut into pieces, of which each is a command.\<close>

function chunks :: "string \<Rightarrow> string list" where
  "chunks l = (if l = [] then [] else take 1023 l # chunks (drop 1023 l))"
  by pat_completeness auto
termination
  by (relation "measure length") auto

declare chunks.simps [simp del]

lemma chunks_short: "length l \<le> 1023 \<Longrightarrow> chunks l = (if l = [] then [] else [l])"
  by (subst chunks.simps) (simp add: chunks.simps[of "[]"])

definition in_line :: "char \<Rightarrow> bool" where
  "in_line c \<longleftrightarrow> c \<noteq> newline"

text \<open>The commands of pieces: each up to its first carriage return or zero, if that is not empty.\<close>

definition piece_commands :: "string list \<Rightarrow> string list" where
  "piece_commands ps = filter (\<lambda>c. c \<noteq> []) (map (takeWhile (\<lambda>c. c \<noteq> CHR 0x0D \<and> c \<noteq> CHR 0x00)) ps)"

lemma piece_commands_simps [simp]:
  "piece_commands [] = []" "piece_commands (ps @ qs) = piece_commands ps @ piece_commands qs"
  by (simp_all add: piece_commands_def)

lemma fgets_long: "list_all in_line l \<Longrightarrow> n \<le> length l \<Longrightarrow> fgets n (l @ rest) = (take n l, drop n l @ rest)"
  by (induction n l rule: fgets.induct) (auto simp: in_line_def)

lemma fgets_line: "list_all in_line l \<Longrightarrow> length l < n \<Longrightarrow> fgets n (l @ newline # rest) = (l @ [newline], rest)"
proof (induction l arbitrary: n)
  case Nil
  then show ?case by (cases n) simp_all
next
  case (Cons c l)
  then show ?case by (cases n) (auto simp: in_line_def)
qed

lemma fgets_end: "list_all in_line l \<Longrightarrow> length l < n \<Longrightarrow> fgets n l = (l, [])"
proof (induction l arbitrary: n)
  case Nil
  then show ?case by (cases n) simp_all
next
  case (Cons c l)
  then show ?case by (cases n) (auto simp: in_line_def)
qed

lemma cut_piece:
  assumes "list_all in_line p"
  shows "cut_line (p @ [newline]) = cut_line p" "(if cut_line p = [] then [] else [cut_line p]) = piece_commands [p]"
proof -
  have "cut_line p = takeWhile (\<lambda>c. c \<noteq> CHR 0x0D \<and> c \<noteq> CHR 0x00) p"
    using assms unfolding cut_line_def by (intro takeWhile_cong refl) (auto simp: list_all_iff in_line_def)
  then show "(if cut_line p = [] then [] else [cut_line p]) = piece_commands [p]" by (simp add: piece_commands_def)
  show "cut_line (p @ [newline]) = cut_line p" by (induction p) (simp_all add: cut_line_def)
qed

lemma cut_nil [simp]: "cut_line [] = []" "cut_line [newline] = []"
  by (simp_all add: cut_line_def)

text \<open>One turn of the thread.\<close>

lemma read_piece:
  assumes "input \<noteq> []" "fgets 1023 input = (buf, rest)" "list_all in_line p" "buf = p \<or> buf = p @ [newline]"
  shows "read_commands input cmds = read_commands rest (cmds @ piece_commands [p])"
proof -
  have "cut_line buf = cut_line p" using cut_piece(1)[OF assms(3)] assms(4) by auto
  then show ?thesis using assms(1,2) by (subst read_commands.simps) (simp add: Let_def cut_piece(2)[OF assms(3), symmetric])
qed

lemma list_all_drop: "list_all P l \<Longrightarrow> list_all P (drop n l)" "list_all P l \<Longrightarrow> list_all P (take n l)"
  by (auto simp: list_all_iff dest: in_set_dropD in_set_takeD)

lemma read_long:
  assumes "list_all in_line l" "1023 \<le> length l"
  shows "read_commands (l @ rest) cmds = read_commands (drop 1023 l @ rest) (cmds @ piece_commands [take 1023 l])"
proof (rule read_piece)
  show "l @ rest \<noteq> []" using assms(2) by auto
  show "fgets 1023 (l @ rest) = (take 1023 l, drop 1023 l @ rest)" by (rule fgets_long[OF assms])
qed (use list_all_drop(2)[OF assms(1)] in simp_all)

lemma piece_commands_short: "length l < 1023 \<Longrightarrow> piece_commands [l] = piece_commands (chunks l)"
  by (simp add: chunks_short piece_commands_def)

lemma read_line:
  "list_all in_line l \<Longrightarrow> read_commands (l @ newline # rest) cmds = read_commands rest (cmds @ piece_commands (chunks l))"
proof (induction l arbitrary: cmds rule: chunks.induct)
  case (1 l)
  show ?case
  proof (cases "length l < 1023")
    case True
    show ?thesis
      using read_piece[OF _ fgets_line[OF 1(2) True] 1(2), where cmds = cmds] piece_commands_short[OF True] by simp
  next
    case False
    then have l: "1023 \<le> length l" "l \<noteq> []" by auto
    then have "piece_commands (chunks l) = piece_commands [take 1023 l] @ piece_commands (chunks (drop 1023 l))"
      by (subst chunks.simps) (simp add: piece_commands_def)
    then show ?thesis using read_long[OF 1(2) l(1)] 1(1)[OF l(2) list_all_drop(1)[OF 1(2)]] by simp
  qed
qed

lemma read_end: "list_all in_line l \<Longrightarrow> read_commands l cmds = cmds @ piece_commands (chunks l)"
proof (induction l arbitrary: cmds rule: chunks.induct)
  case (1 l)
  show ?case
  proof (cases "length l < 1023")
    case True
    show ?thesis
    proof (cases "l = []")
      case False
      then show ?thesis
        using read_piece[OF False fgets_end[OF 1(2) True] 1(2), where cmds = cmds] piece_commands_short[OF True]
        by (simp add: read_commands.simps[of "[]"])
    qed (simp add: read_commands.simps[of "[]"] chunks.simps[of "[]"])
  next
    case False
    then have l: "1023 \<le> length l" "l \<noteq> []" by auto
    then have "piece_commands (chunks l) = piece_commands [take 1023 l] @ piece_commands (chunks (drop 1023 l))"
      by (subst chunks.simps) (simp add: piece_commands_def)
    then show ?thesis using read_long[OF 1(2) l(1), of "[]"] 1(1)[OF l(2) list_all_drop(1)[OF 1(2)]] by simp
  qed
qed

lemma read_lines:
  "list_all (list_all in_line) lines \<Longrightarrow> list_all in_line tail \<Longrightarrow>
   read_commands (concat (map (\<lambda>l. l @ [newline]) lines) @ tail) cmds =
     cmds @ piece_commands (concat (map chunks (lines @ [tail])))"
  by (induction lines arbitrary: cmds) (simp_all add: read_line read_end)

section \<open>What is executed\<close>

record 'f logged_cmds = "'f cmd_line" +
  cmd_log :: "('f \<times> string list) list"

definition record_cmd :: "('f, 'f logged_cmds) cmd_calls" where
  "record_cmd f args s = Some (s\<lparr>cmd_log := cmd_log s @ [(f, args)]\<rparr>)"

text \<open>Who answers a command, and the words that it gets.\<close>

definition answer :: "'f logged_cmds \<Rightarrow> string \<Rightarrow> ('f \<times> string list) option" where
  "answer s cmd = (case tokens (\<lambda>c. c = CHR '' '') cmd of
     [] \<Rightarrow> None
   | w # ws \<Rightarrow> (case cmd_callback_list s w of
       Some (Some f) \<Rightarrow> Some (f, w # ws)
     | _ \<Rightarrow> map_option (\<lambda>f. (f, w # ws)) (cmd_callback_default s)))"

lemma answer_cong: "cmd_callback_list s' = cmd_callback_list s \<Longrightarrow> cmd_callback_default s' = cmd_callback_default s \<Longrightarrow> answer s' = answer s"
  by (rule ext) (simp add: answer_def cong: list.case_cong option.case_cong)

lemma execute_cmd_records:
  "execute_cmd record_cmd cmd s = Some (s\<lparr>cmd_log := cmd_log s @ (case answer s cmd of None \<Rightarrow> [] | Some x \<Rightarrow> [x])\<rparr>)"
  by (auto simp: execute_cmd_def answer_def Split_tokens record_cmd_def Let_def split: list.split option.split)

lemma execute_records:
  "for_each (execute_cmd record_cmd) cmds s = Some (s\<lparr>cmd_log := cmd_log s @ List.map_filter (answer s) cmds\<rparr>)"
proof (induction cmds arbitrary: s)
  case (Cons cmd cmds)
  have "answer (s\<lparr>cmd_log := l\<rparr>) = answer s" for l by (rule answer_cong) simp_all
  then show ?case using Cons by (simp add: execute_cmd_records map_filter_simps split: option.split)
qed (simp add: map_filter_simps)

text \<open>C36: whatever the input is: the thread cuts its lines, the last one too if it does not end, into pieces
  of at most 1023 characters, and takes of each piece, in order, what stands before its first carriage return or zero as a
  command, if that is not empty. \<open>Execute\<close> calls for each command that has a word the callback of its first word, or the
  default one, with all its words, and leaves no command behind; this for callbacks that leave the tables alone.\<close>
theorem cmd_line_correct:
  assumes "\<forall>l \<in> set lines \<union> {tail}. newline \<notin> set l"
  shows "read_commands (concat (map (\<lambda>l. l @ [newline]) lines) @ tail) [] =
      filter (\<lambda>c. c \<noteq> []) (map (takeWhile (\<lambda>c. c \<noteq> CHR 0x0D \<and> c \<noteq> CHR 0x00)) (concat (map chunks (lines @ [tail])))) \<and>
    Execute record_cmd s = Some (s\<lparr>cmd_list := [], cmd_log := cmd_log s @ List.map_filter (answer s) (cmd_list s)\<rparr>)"
proof -
  have "answer (s\<lparr>cmd_list := l\<rparr>) = answer s" for l by (rule answer_cong) simp_all
  moreover have "list_all (list_all in_line) lines" "list_all in_line tail"
    using assms unfolding list_all_iff in_line_def by blast+
  ultimately show ?thesis using read_lines[of lines tail "[]"] by (simp add: Execute_def execute_records piece_commands_def)
qed

theorem cmd_line_correct_witness:
  "read_commands (''go north'' @ [CHR 0x0D, newline, CHR 0x0D, newline] @ ''stop'') [] = [''go north'', ''stop''] \<and>
   map_option cmd_log (Execute record_cmd \<lparr>cmd_callback_default = Some 0, cmd_callback_list = [''go'' \<mapsto> Some (1 :: nat)],
     cmd_list = [''go north'', '' '', ''stop''], cmd_log = []\<rparr>) = Some [(1, [''go'', ''north'']), (0, [''stop''])]"
proof -
  let ?s = "\<lparr>cmd_callback_default = Some 0, cmd_callback_list = [''go'' \<mapsto> Some (1 :: nat)],
     cmd_list = [''go north'', '' '', ''stop''], cmd_log = []\<rparr>"
  let ?lines = "[''go north'' @ [CHR 0x0D], [CHR 0x0D]]"
  have "\<forall>l \<in> set ?lines \<union> {''stop''}. newline \<notin> set l" by simp
  note C = cmd_line_correct[OF this, of ?s]
  have "List.map_filter (answer ?s) (cmd_list ?s) = [(1, [''go'', ''north'']), (0, [''stop''])]" by code_simp
  then show ?thesis using C by (simp add: chunks_short)
qed

section \<open>The table of signals\<close>

datatype 'f signal_op = SHook signal_type "'f option" | SUnhook signal_type | SUnhookAll

definition signal_op :: "'f signal_op \<Rightarrow> 'f signals \<Rightarrow> 'f signals" where
  "signal_op op s = (case op of SHook t cb \<Rightarrow> Hook t cb s | SUnhook t \<Rightarrow> Unhook t s | SUnhookAll \<Rightarrow> UnhookAll s)"

text \<open>The system calls \<open>OnSignal\<close> for exactly the signals that have a callback, however they were hooked and unhooked.\<close>

theorem signals_installed: "installed (fold signal_op ops Signal_new) = dom (signal_callback_list (fold signal_op ops Signal_new))"
proof -
  have "installed (fold signal_op ops s) = dom (signal_callback_list (fold signal_op ops s))"
    if "installed s = dom (signal_callback_list s)" for s
    using that
  proof (induction ops arbitrary: s)
    case (Cons op ops)
    have "installed (signal_op op s) = dom (signal_callback_list (signal_op op s))"
      using Cons.prems by (cases op) (auto simp: signal_op_def Hook_def Unhook_def UnhookAll_def)
    then show ?case using Cons.IH by simp
  qed simp
  then show ?thesis by (simp add: Signal_new_def)
qed

end
