(* ===== verification/SysUtil.thy ===== *)
theory SysUtil
  imports Prelude
begin

text \<open>
  The text of a backtrace (src/system/sys_util.cpp). The stack itself comes from the library: the addresses, as they
  are written, and for each the symbol, a text without NUL like
  \<open>module(name+offset) [address]\<close>. \<open>cxa_demangle\<close> is the parameter that makes a readable name of a mangled one, if it is one.
\<close>

definition Demangle :: "(string \<Rightarrow> string option) \<Rightarrow> string \<Rightarrow> string" where
  "Demangle cxa_demangle nm = (case cxa_demangle nm of Some res \<Rightarrow> res | None \<Rightarrow> nm)"

text \<open>The position behind the last parenthesis before the first plus, and that of the plus.\<close>

fun scan_symbol :: "nat \<Rightarrow> nat option \<Rightarrow> string \<Rightarrow> nat option \<times> nat option" where
  "scan_symbol p mangled_begin [] = (mangled_begin, None)"
| "scan_symbol p mangled_begin (c # cs) =
     (if c = CHR ''('' then scan_symbol (p + 1) (Some (p + 1)) cs
      else if c = CHR ''+'' then (mangled_begin, Some p)
      else scan_symbol (p + 1) mangled_begin cs)"

definition frame_text :: "(string \<Rightarrow> string option) \<Rightarrow> string \<Rightarrow> string" where
  "frame_text cxa_demangle symbol = (case scan_symbol 0 None symbol of
       (Some b, Some e) \<Rightarrow>
         if b < e then (case cxa_demangle (take (e - b) (drop b symbol)) of
             Some res \<Rightarrow> take b symbol @ res @ drop e symbol @ [CHR 0x0A]
           | None \<Rightarrow> symbol @ [CHR 0x0A])
         else symbol @ [CHR 0x0A]
     | _ \<Rightarrow> symbol @ [CHR 0x0A])"

text \<open>The first frame is that of the function itself.\<close>

definition BackTrace :: "(string \<Rightarrow> string option) \<Rightarrow> (string \<times> string) list \<Rightarrow> string" where
  "BackTrace cxa_demangle bt = ''backtrace begin'' @ [CHR 0x0A] @
     concat (map (\<lambda>(addr, symbol). addr @ '' -> '' @ frame_text cxa_demangle symbol) (drop 1 bt)) @
     ''backtrace end'' @ [CHR 0x0A]"

lemma scan_plain: "list_all (\<lambda>c. c \<noteq> CHR ''('' \<and> c \<noteq> CHR ''+'') cs \<Longrightarrow> scan_symbol p b (cs @ rest) = scan_symbol (p + length cs) b rest"
  by (induction cs arbitrary: p) simp_all

lemma scan_no_plus: "list_all (\<lambda>c. c \<noteq> CHR ''+'') cs \<Longrightarrow> snd (scan_symbol p b cs) = None"
  by (induction cs arbitrary: p b) simp_all

text \<open>In a symbol with a mangled name between its parenthesis and its plus exactly the name is replaced, if it can be; a
  symbol without a plus stays as it is.\<close>
theorem frame_text_correct:
  assumes "list_all (\<lambda>c. c \<noteq> CHR ''('' \<and> c \<noteq> CHR ''+'') (module @ nm)" "nm \<noteq> []"
  shows "frame_text cxa_demangle (module @ ''('' @ nm @ ''+'' @ rest) =
      module @ ''('' @ Demangle cxa_demangle nm @ ''+'' @ rest @ [CHR 0x0A]" (is ?named)
    and "list_all (\<lambda>c. c \<noteq> CHR ''+'') symbol \<Longrightarrow> frame_text cxa_demangle symbol = symbol @ [CHR 0x0A]"
proof -
  have "scan_symbol 0 None (module @ ''('' @ nm @ ''+'' @ rest) = (Some (length module + 1), Some (length module + 1 + length nm))"
    using assms(1) scan_plain[of module 0 None "''('' @ nm @ ''+'' @ rest"]
      scan_plain[of nm "length module + 1" "Some (length module + 1)" "''+'' @ rest"] by simp
  then show ?named
    using assms(2) by (simp add: frame_text_def Demangle_def split: option.split)
next
  assume "list_all (\<lambda>c. c \<noteq> CHR ''+'') symbol"
  from scan_no_plus[OF this, of 0 None] show "frame_text cxa_demangle symbol = symbol @ [CHR 0x0A]"
    by (auto simp: frame_text_def split: prod.split option.split)
qed

end
