(* ===== verification/Utilities.thy ===== *)
theory Utilities
  imports Prelude
begin

text \<open>
  Small utilities: random integers (include/mzx/random.h), the clock (src/date_time.cpp) and the hash of a pair
  (include/mzx/util.h). The generator, the clock of the system and \<open>std::hash\<close> are parameters.
\<close>

section \<open>Random numbers\<close>

text \<open>\<open>uniform a b\<close> is a draw of \<open>std::uniform_int_distribution\<close> from \<open>a\<close> to \<open>b\<close>, both included, which requires that \<open>a \<le> b\<close>.\<close>

definition Random :: "(int \<Rightarrow> int \<Rightarrow> int option) \<Rightarrow> int \<Rightarrow> int \<Rightarrow> int option" where
  "Random uniform a b = do {
     check (a \<noteq> b);
     if a < b then uniform a (b - 1) else uniform (a - 1) b }"

text \<open>With bounds in order the number is from \<open>a\<close> up to below \<open>b\<close>; otherwise the distribution is asked for a range that is empty
  unless \<open>a\<close> is \<open>b + 1\<close>.\<close>
theorem Random_correct:
  assumes "\<And>a b. uniform a b = (if a \<le> b then Some (draw a b) else None)" "\<And>a b. a \<le> b \<Longrightarrow> a \<le> draw a b \<and> draw a b \<le> b"
  shows "(a < b \<longrightarrow> (\<exists>r. Random uniform a b = Some r \<and> a \<le> r \<and> r < b)) \<and> (a > b + 1 \<longrightarrow> Random uniform a b = None)"
  using assms(2)[of a "b - 1"] by (auto simp: Random_def assms(1))

section \<open>The clock\<close>

text \<open>A \<open>timeval\<close>, of which the microseconds are below a million; \<open>time_t\<close> is far from the bounds of its type.\<close>

record timeval =
  tv_sec :: int
  tv_usec :: int

definition NowMilliseconds :: "timeval \<Rightarrow> int" where
  "NowMilliseconds tv = tv_sec tv * 1000 + tv_usec tv div 1000"

text \<open>The milliseconds are the time rounded down, so that a later time never gives a smaller number.\<close>
theorem NowMilliseconds_correct:
  "NowMilliseconds t = (tv_sec t * 1000000 + tv_usec t) div 1000 \<and>
    (tv_sec t * 1000000 + tv_usec t \<le> tv_sec u * 1000000 + tv_usec u \<longrightarrow> NowMilliseconds t \<le> NowMilliseconds u)"
proof -
  have n: "NowMilliseconds v = (tv_sec v * 1000000 + tv_usec v) div 1000" for v
  proof -
    have "(tv_usec v + (tv_sec v * 1000) * 1000) div 1000 = tv_sec v * 1000 + tv_usec v div 1000" by (rule div_mult_self1) simp
    then show ?thesis by (simp add: NowMilliseconds_def add.commute)
  qed
  then show ?thesis by (simp add: zdiv_mono1)
qed

section \<open>The hash of a pair\<close>

definition PairHash :: "('a \<Rightarrow> 64 word) \<Rightarrow> ('b \<Rightarrow> 64 word) \<Rightarrow> 'a \<times> 'b \<Rightarrow> 64 word" where
  "PairHash hash_first hash_second x = hash_first (fst x) XOR hash_second (snd x)"

text \<open>Pairs that are each other's mirror image have the same hash, and all pairs of equal halves have the hash zero.\<close>
theorem PairHash_collides: "PairHash h h (a, b) = PairHash h h (b, a) \<and> PairHash h h (a, a) = 0"
  by (simp add: PairHash_def xor.commute)

end
