(* ===== verification/Spec2Isabelle.thy ===== *)
theory Spec2Isabelle
  imports DList RBKeyed RBErase Sorts PowerOfTwo TimerProps SPSCThreads StringUtil Utf8 NetEvents Nets NetRun Managers EcsClear Systems
    Vectors Sequences Convert Logging ThreadStates CmdLine SysUtil Utilities
begin

text \<open>
  A verification development of the mzx C++ library: intrusive containers, sorting algorithms, timers, a lock-free queue,
  events, entities with components, a network layer of one master and several worker threads, and small
  utilities. Paths are under src/.

  \<^bold>\<open>Conventions.\<close> Every function of the library is a definition with its name; where two functions share a name, or the name is
  one of HOL, a suffix or the class tells them apart. A state is a record with the fields of the class; an object that
  is shared through pointers lies on a heap, a map from addresses, on which an address that is not there is
  freed or foreign memory. A result \<open>None\<close> is a call that does not return as it should: a failed \<open>MZX_CHECK\<close> (with the
  default handlers, theory Logging), an access to freed memory or out of range, a signed overflow or another use
  that C++ does not define, or, for a \<open>partial_function\<close>, a loop that does not end. The times of the timer manager are the
  exception: they are mathematical integers, whose overflow is not looked at. A null pointer is
  the address 0 on the heaps of list and tree, and otherwise an option inside the result. Callbacks are names, and what a call of one does is a parameter \<open>run\<close> on
  the whole state, so that callbacks may call back. Sizes are natural numbers where they are lengths, and words
  where the code computes with them or they wrap around. Templates are polymorphic in their type parameters.
\<close>

section \<open>The parts and where they are\<close>

text \<open>
  \<^item> Prelude: checks and results, signed overflow, numbers as text, and the collections of rewrite rules.

  \<^item> The intrusive list (include/mzx/data_structure/list.h, src/data_structure/list.cpp) is theory DList: nodes with two links on
    a heap. \<open>ring h head xs\<close> says that the nodes \<open>xs\<close> form the list; each operation is shown to do to \<open>xs\<close> what its name
    says and to write nothing else. The locale \<open>node_queue\<close> is the contract of a queue, interpreted for both directions.

  \<^item> The red-black tree (rbtree.h, rbtree.cpp) is theory RBTree: nodes with three links and the colour in the lowest bit of the
    parent's word. RBShape holds the same algorithms on pure trees and their invariants; RBRep relates the heap to a tree,
    with the locale \<open>packed_parent\<close> for the packed word; RBInsert and RBErase refine insertion and removal, RBWalk the
    iteration and the searches, RBKeyed the operations that use keys (Ordering states what a comparison has to be).

  \<^item> The sorts (include/mzx/algorithm/sort) are SortInsert (insertion and shell), SortExchange (selection and bubble),
    SortHeap, SortMerge, SortQuick and SortCount (counting, radix and bucket), on the list of elements of the range. Sorts
    interprets the locale \<open>sorting\<close> for all that take any comparison, and derives that they agree. PowerOfTwo is
    include/mzx/algorithm/math.h on words of any width.

  \<^item> The timer manager (include/mzx/timer_manager.h, src/timer_manager.cpp) is TimerModel. TimerInv holds the invariant of nodes, wheels
    and free list; TimerClient the contract of callbacks as a locale and the scripted clients that meet it; TimerWindow
    when a slot comes up; TimerFire the abstract agenda and its run; Timers and TimerProps connect them.

  \<^item> The queue between two threads (include/mzx/spsc_queue.h) is SPSCModel, call by call; SPSCQueue refines it to a bounded queue,
    a locale that the network theories use; SPSCThreads interleaves the atomic steps of one producer and one consumer as an
    inductive relation.

  \<^item> Lists of counted nodes (include/mzx/data_structure/list_safe_node.h) are SafeList. The loops over them, in which the body may
    remove any node, are SafeLoop, with locales for what a body must keep; PassiveLoop is for bodies that change nothing.

  \<^item> Events (include/mzx/event.h, simple_event.h, src/simple_event.cpp) are EventModel; Events holds the invariant and the contract of
    listeners, EventProps the programs of clients and what they see, Managers the map from types to listeners.

  \<^item> Entities and components (include/mzx/ecs.h, src/ecs.cpp) are EcsModel; EcsInv the invariant with what running operations
    hold, EcsEntities its preservation, EcsProps the reachable states, EcsLog what listeners are told, EcsClear
    the removal of all entities. Systems is the manager of systems of the same header.

  \<^item> The network: NetIds (include/mzx/net/net_define.h, net_buffer.h), NetSocket (net_address.h, net_socket.h, net_socket.cpp, include/mzx/error.h) over a
    record of system calls, NetWorker (net_event.h, net_worker.h, net_worker.cpp), NetRun (the loop of the worker's thread
    beside the thread that stops it), NetMaster
    (net_master.h, net_master.cpp). Sockets, NetSetup, NetEvents and Nets hold the properties of sockets, of setting up and shutting
    down, of events on their way to callbacks, and of sending.

  \<^item> Strings (include/mzx/string, src/string) are StringUtil and Utf8; conversions (include/mzx/convert.h) are Convert.

  \<^item> Logging (include/mzx/logger.h, src/logger.cpp), ThreadStates (include/mzx/thread.h, src/thread.cpp), CmdLine (src/system/cmd_line.cpp,
    src/system/signal.cpp), SysUtil (src/system/sys_util.cpp), Vectors (vector3.h), Sequences (make_sequence.h, make_array.h) and Utilities
    (include/mzx/random.h, util.h, src/date_time.cpp) are the rest.

  They interact as follows. The intrusive list carries the free lists and the wheels of the timers, the nodes with a
  count and the free connections of a worker, where the model has the sequence of its elements, as DList justifies.
  Events are counted nodes with an index; the entity manager and the manager of systems use the same nodes, and the
  entity manager tells its listeners through four events. The network master and a worker share four queues of the
  single-producer kind and nothing else. The command line runs its reader on a thread object.
\<close>

section \<open>What is shown\<close>

text \<open>
  \<^item> Functional correctness: insertion, removal of a node with at most one child, search and iteration of the tree; the
    sorts, with stability where they have it; the list; strings; what \<open>Send\<close> puts into a worker's queues and what
    \<open>Update\<close> calls for the events of the workers; the command line.

  \<^item> Invariants of every reachable state, under callbacks that are arbitrary programs over the same object: timers,
    events, entities. The programs of listeners are scripts that nest to a depth \<open>k\<close>, below which a call does
    not return. Every run that ends nests to some depth, and the theorems hold for each \<open>k\<close>. What exactly is called, by
    \<open>Update\<close> of the timers and of the network and by the removal of entities, is shown for callbacks that write down their
    calls and leave the object alone; \<open>callback_timers_lost\<close> and \<open>ecs_dangling\<close> are runs with callbacks that do not. In which
    order the timers of one tick are called is not stated: it is that of their slot, which cascading changes.

  \<^item> Refinement: the queue to a bounded sequence, \<open>TimerManager::Update\<close> to an agenda of expiry times, \<open>Invoke\<close> to the list of
    listeners that are still there, the managers to maps.

  \<^item> Concurrency: in every interleaving of the steps of one producer and one consumer, the consumer takes what the
    producer put in, in order, and no slot is read and written at once. Steps are sequentially consistent, which the
    acquire and release accesses of the code justify for two threads. In every interleaving of a worker's loop with
    \<open>Uninit\<close> and the system, \<open>Join\<close> waits for at most two more steps of the loop, which it can make: no wakeup is lost. That
    the relaxed store of the flag is seen after the \<open>write\<close> that follows it is taken for granted.

  \<^item> Termination: loops are total functions where they always end. Where they may not (a tree with a cycle, a
    period of 255 ticks, a listener that adds a listener each time) they are \<open>partial_function (option)\<close>, and that they
    return, or that they do not, is a theorem. The wheels need no fuel: a tick cascades at most the four above the first.

  \<^item> Errors: every branch that fails is a branch of a definition. The theorems about faults of the code state exactly when
    they happen; each has an entry in the list of findings.
\<close>

section \<open>Not modelled\<close>

text \<open>
  \<^item> include/mzx/net/net_acceptor.h and src/net/net_acceptor.cpp, an older class that names fields and types that exist no more,
    and src/error.cpp, which defines members of a class that is declared nowhere.

  \<^item> Functions of the network that are declared and defined nowhere are parameters: \<open>FreeInputBuffer\<close>, \<open>Disconnect\<close>,
    \<open>GetOutputEvent\<close>, of which \<open>takes_oldest\<close> says what \<open>Update\<close> relies on. The system calls are a parameter too; \<open>kernel_laws\<close>
    and \<open>epoll_laws\<close> name the documented behaviour that theorems use. The call that lacks an argument (\<open>InitNetConnectionID\<close> in the worker) gets the index of the worker, and the
    one with exchanged arguments (\<open>CreateTcpSocket\<close>) has them in order. The handlers of the worker return true and do
    nothing, as in the code, and its loop does not call \<open>HandleInputEvent\<close>. What \<open>epoll\<close> stores as pointers to the wrong
    class is a handler's name. Code of the queue that does not compile is listed in SPSCModel with what it is taken for.

  \<^item> The rounding, overflow and special values of floating point numbers (Vectors is over an exact field), and the random
    numbers of those types.

  \<^item> Weak memory beyond acquire and release, exhaustion of memory, and the contents of allocators' memory; addresses of new
    objects are arguments, which the theorems require to be free.

  \<^item> Waiting for the keyboard, prompts, and functions that only call the system: \<open>CPUCount\<close>, \<open>ExecName\<close>, \<open>Addr2Line\<close>, \<open>CurrentID\<close>,
    \<open>CheckCancelPoint\<close>. Macros, the singleton, and types without behaviour (NullMutex, NullType, DefaultType, noncopyable).

  \<^item> The tests under test/, the build files, and the declarations of classes whose members are modelled one by one.
\<close>

end
